(* ===== verification/Prelude.thy ===== *)
theory Prelude
  imports Main "HOL-Library.Word"
begin

text \<open>
  Shared vocabulary of the development: the machine integer types of the C sources, the
  error values every partial operation of the kernel can end in, sequencing of operations
  that may fail, little-endian byte views of machine words, and the generic lemmas on
  words, lists and bits that the component theories use.
\<close>

unbundle bit_operations_syntax

section \<open>Machine integers\<close>

type_synonym u8 = "8 word"
type_synonym u16 = "16 word"
type_synonym u32 = "32 word"
type_synonym u64 = "64 word"

named_theorems word_arith_simps \<open>equations that move word arithmetic to natural numbers\<close>
named_theorems res_simps \<open>equations for the result type and its sequencing\<close>

section \<open>Results of operations that may fail\<close>

text \<open>
  \<open>KPanic\<close> is a call of \<^verbatim>\<open>KPANIC\<close> (include/kernel/panic.h), which never returns.
  \<open>Fault\<close> is a memory access outside the object it is meant for, which C leaves
  undefined. \<open>Diverge\<close> is a loop that never ends.
\<close>

datatype kerr = KPanic string | Fault | Diverge

type_synonym 'a kres = "kerr + 'a"

definition andthen :: "'e + 'a \<Rightarrow> ('a \<Rightarrow> 'e + 'b) \<Rightarrow> 'e + 'b" where
  "andthen r f = (case r of Inl e \<Rightarrow> Inl e | Inr x \<Rightarrow> f x)"

lemma andthen_simps [simp, res_simps]:
  "andthen (Inl e) f = Inl e"
  "andthen (Inr x) f = f x"
  by (simp_all add: andthen_def)

lemma andthen_eq_Inr_iff [res_simps]:
  "andthen r f = Inr y \<longleftrightarrow> (\<exists>x. r = Inr x \<and> f x = Inr y)"
  by (cases r) simp_all

lemma andthen_eq_Inl_iff:
  "andthen r f = Inl e \<longleftrightarrow> r = Inl e \<or> (\<exists>x. r = Inr x \<and> f x = Inl e)"
  by (cases r) simp_all

lemma andthen_InrE:
  assumes "andthen r f = Inr y"
  obtains x where "r = Inr x" and "f x = Inr y"
  using assms by (auto simp: andthen_eq_Inr_iff)

lemma andthen_assoc: "andthen (andthen r f) g = andthen r (\<lambda>x. andthen (f x) g)"
  by (cases r) simp_all

text \<open>An option read as a memory access: \<open>None\<close> is an access out of bounds.\<close>

definition checked :: "'a option \<Rightarrow> 'a kres" where
  "checked x = (case x of None \<Rightarrow> Inl Fault | Some y \<Rightarrow> Inr y)"

lemma checked_simps [simp, res_simps]:
  "checked None = Inl Fault"
  "checked (Some y) = Inr y"
  by (simp_all add: checked_def)

lemma checked_eq_Inr_iff [simp, res_simps]: "checked x = Inr y \<longleftrightarrow> x = Some y"
  by (cases x) simp_all

text \<open>
  \<open>panic_if c m\<close> is \<^verbatim>\<open>if (c) KPANIC(m);\<close>. \<open>when_debug d r\<close> is a check between
  \<^verbatim>\<open>#ifdef PRISTINE_DEBUG\<close> and \<^verbatim>\<open>#endif\<close>: it is there only in a debug build.
\<close>

definition panic_if :: "bool \<Rightarrow> string \<Rightarrow> unit kres" where
  "panic_if c m = (if c then Inl (KPanic m) else Inr ())"

definition when_debug :: "bool \<Rightarrow> unit kres \<Rightarrow> unit kres" where
  "when_debug d r = (if d then r else Inr ())"

lemma panic_if_simps [simp, res_simps]:
  "panic_if True m = Inl (KPanic m)"
  "panic_if False m = Inr ()"
  by (simp_all add: panic_if_def)

lemma when_debug_simps [simp, res_simps]:
  "when_debug True r = r"
  "when_debug False r = Inr ()"
  "when_debug d (Inr ()) = Inr ()"
  by (simp_all add: when_debug_def)

lemma panic_if_eq_Inr_iff [simp]: "panic_if c m = Inr x \<longleftrightarrow> \<not> c"
  by (simp add: panic_if_def)

lemma when_debug_eq_Inr_iff [simp]: "when_debug d r = Inr x \<longleftrightarrow> (d \<longrightarrow> r = Inr ())"
  by (simp add: when_debug_def)

text \<open>A loop over a list of values whose body may fail.\<close>

fun foldM :: "('a \<Rightarrow> 's \<Rightarrow> 'e + 's) \<Rightarrow> 'a list \<Rightarrow> 's \<Rightarrow> 'e + 's" where
  "foldM f [] s = Inr s"
| "foldM f (x # xs) s = andthen (f x s) (foldM f xs)"

lemma andthen_Inr [simp]: "andthen r Inr = r"
  by (cases r) simp_all

lemma foldM_Nil [simp]: "foldM f [] = Inr"
  by (simp add: fun_eq_iff)

lemma foldM_append: "foldM f (xs @ ys) s = andthen (foldM f xs s) (foldM f ys)"
proof (induction xs arbitrary: s)
  case (Cons x xs)
  then show ?case by (cases "f x s") simp_all
qed simp

lemma foldM_inv:
  assumes "foldM f xs s = Inr s'" and "P s"
    and "\<And>x s s'. x \<in> set xs \<Longrightarrow> P s \<Longrightarrow> f x s = Inr s' \<Longrightarrow> P s'"
  shows "P s'"
  using assms
proof (induction xs arbitrary: s)
  case Nil
  then show ?case by simp
next
  case (Cons x xs)
  from Cons.prems(1) obtain t where t: "f x s = Inr t" and rest: "foldM f xs t = Inr s'"
    by (auto simp: andthen_eq_Inr_iff)
  have "P t" using Cons.prems(2,3) t by auto
  with rest show ?case using Cons.IH Cons.prems(3) by (meson list.set_intros(2))
qed

lemma foldM_Inr_fold:
  assumes "\<And>x s. x \<in> set xs \<Longrightarrow> P s \<Longrightarrow> f x s = Inr (g x s) \<and> P (g x s)" and "P s"
  shows "foldM f xs s = Inr (fold g xs s) \<and> P (fold g xs s)"
  using assms by (induction xs arbitrary: s) auto

section \<open>Bits of words\<close>

lemma word_eq_minus_one_iff:
  "(w :: 'a::len word) = -1 \<longleftrightarrow> (\<forall>n < LENGTH('a). bit w n)"
  by (auto simp: bit_eq_iff bit_simps)

lemma bit_mask_low:
  "bit ((push_bit k 1 - 1) :: 'a::len word) n \<longleftrightarrow> n < k \<and> n < LENGTH('a)"
proof -
  have "(push_bit k 1 - 1 :: 'a word) = mask k"
    by (simp add: mask_eq_exp_minus_1 push_bit_eq_mult)
  then show ?thesis by (auto simp: bit_simps)
qed

text \<open>
  \<^verbatim>\<open>__builtin_ctzll\<close>: the number of trailing zero bits. Undefined for 0 in C; the
  model returns the width there.
\<close>

definition ctz :: "'a::len word \<Rightarrow> nat" where
  "ctz w = (case find (bit w) [0..<LENGTH('a)] of Some n \<Rightarrow> n | None \<Rightarrow> LENGTH('a))"

lemma find_upt_Some_iff:
  "find P [0..<n] = Some k \<longleftrightarrow> k < n \<and> P k \<and> (\<forall>j<k. \<not> P j)"
  by (auto simp: find_Some_iff)

lemma find_upt_None_iff: "find P [0..<n] = None \<longleftrightarrow> (\<forall>j<n. \<not> P j)"
  by (auto simp: find_None_iff)

lemma ctz_eqI:
  "bit w n \<Longrightarrow> (\<And>m. m < n \<Longrightarrow> \<not> bit w m) \<Longrightarrow> ctz w = n"
  using find_upt_Some_iff [of "bit w" "LENGTH('a)" n for w :: "'a::len word"]
  by (auto simp: ctz_def dest: bit_imp_le_length split: option.splits)
     (metis bit_imp_le_length find_upt_Some_iff option.inject option.distinct(1))+

lemma ctz_props:
  assumes "(w :: 'a::len word) \<noteq> 0"
  shows "bit w (ctz w)" and "m < ctz w \<Longrightarrow> \<not> bit w m" and "ctz w < LENGTH('a)"
proof -
  from assms obtain n where "bit w n" and "n < LENGTH('a)"
    by (auto simp: bit_eq_iff)
  then have "find (bit w) [0..<LENGTH('a)] \<noteq> None"
    by (auto simp: find_None_iff)
  then obtain k where k: "find (bit w) [0..<LENGTH('a)] = Some k" by auto
  then have *: "ctz w = k" by (simp add: ctz_def)
  from k show "bit w (ctz w)" and "m < ctz w \<Longrightarrow> \<not> bit w m" and "ctz w < LENGTH('a)"
    unfolding * by (auto simp: find_upt_Some_iff)
qed

section \<open>Little-endian views of bytes\<close>

text \<open>The machine word a run of bytes denotes on x86, least significant byte first.\<close>

fun le_word :: "u8 list \<Rightarrow> 'a::len word" where
  "le_word [] = 0"
| "le_word (b # bs) = ucast b OR push_bit 8 (le_word bs)"

text \<open>The \<open>n\<close> bytes of a machine word, least significant byte first.\<close>

fun le_bytes :: "nat \<Rightarrow> 'a::len word \<Rightarrow> u8 list" where
  "le_bytes 0 w = []"
| "le_bytes (Suc n) w = ucast w # le_bytes n (drop_bit 8 w)"

lemma length_le_bytes [simp]: "length (le_bytes n w) = n"
  by (induction n arbitrary: w) simp_all

lemma bit_le_word:
  "bit (le_word bs :: 'a::len word) n \<longleftrightarrow>
     n < LENGTH('a) \<and> n < 8 * length bs \<and> bit (bs ! (n div 8)) (n mod 8)"
proof (induction bs arbitrary: n)
  case Nil
  then show ?case by simp
next
  case (Cons b bs)
  show ?case
  proof (cases "n < 8")
    case True
    then show ?thesis by (auto simp: bit_simps)
  next
    case False
    then have n: "n div 8 = Suc ((n - 8) div 8)" "n mod 8 = (n - 8) mod 8"
      by (simp_all add: le_div_geq le_mod_geq)
    have "\<not> bit (ucast b :: 'a word) n"
      using False by (auto simp: bit_simps dest: bit_imp_le_length)
    then show ?thesis
      using False Cons.IH [of "n - 8"] by (auto simp: bit_simps n)
  qed
qed

lemma nth_le_bytes:
  "i < n \<Longrightarrow> le_bytes n w ! i = ucast (drop_bit (8 * i) w)"
  by (induction n arbitrary: w i) (auto simp: nth_Cons' drop_bit_drop_bit algebra_simps)

lemma le_word_le_bytes:
  assumes "8 * n = LENGTH('a)"
  shows "le_word (le_bytes n w) = (w :: 'a::len word)"
proof (rule bit_word_eqI)
  fix k
  assume k: "k < LENGTH('a)"
  then have "k div 8 < n" using assms by auto
  moreover have "8 * (k div 8) + k mod 8 = k" by simp
  ultimately show "bit (le_word (le_bytes n w) :: 'a word) k = bit w k"
    using k assms by (auto simp: bit_le_word nth_le_bytes bit_simps)
qed

lemma le_bytes_le_word:
  assumes "8 * length bs \<le> LENGTH('a)"
  shows "le_bytes (length bs) (le_word bs :: 'a::len word) = bs"
proof (rule nth_equalityI)
  show "length (le_bytes (length bs) (le_word bs :: 'a word)) = length bs" by simp
next
  fix i
  assume "i < length (le_bytes (length bs) (le_word bs :: 'a word))"
  then have i: "i < length bs" by simp
  show "le_bytes (length bs) (le_word bs :: 'a word) ! i = bs ! i"
  proof (rule bit_word_eqI)
    fix k
    assume "k < LENGTH(8)"
    then have k: "k < 8" by simp
    have "8 * i + k < LENGTH('a)" using i k assms by linarith
    then show "bit (le_bytes (length bs) (le_word bs :: 'a word) ! i) k = bit (bs ! i) k"
      using i k by (auto simp: nth_le_bytes bit_simps bit_le_word)
  qed
qed

text \<open>A 64-bit load at a byte offset of a buffer.\<close>

definition load64 :: "u8 list \<Rightarrow> nat \<Rightarrow> u64 option" where
  "load64 bs off = (if off + 8 \<le> length bs then Some (le_word (take 8 (drop off bs))) else None)"

lemma bit_load64:
  "load64 bs off = Some w \<Longrightarrow>
     bit w n \<longleftrightarrow> n < 64 \<and> bit (bs ! (off + n div 8)) (n mod 8)"
  by (auto simp: load64_def bit_le_word split: if_splits)

section \<open>Words as natural numbers\<close>

lemma unat_lt2p: "unat (w :: 'a::len word) < 2 ^ LENGTH('a)"
  by (rule unsigned_less)

lemma unat_of_nat_small: "n < 2 ^ LENGTH('a) \<Longrightarrow> unat (of_nat n :: 'a::len word) = n"
  by (simp add: unat_of_nat take_bit_nat_eq_self)

lemma word_eq_of_nat_iff:
  "n < 2 ^ LENGTH('a) \<Longrightarrow> (w :: 'a::len word) = of_nat n \<longleftrightarrow> unat w = n"
  by (auto simp: unat_of_nat_small)

lemma unat_add_small:
  "unat a + unat b < 2 ^ LENGTH('a) \<Longrightarrow> unat (a + b :: 'a::len word) = unat a + unat b"
  by (simp add: unat_word_ariths)

lemma unat_mult_small:
  "unat a * unat b < 2 ^ LENGTH('a) \<Longrightarrow> unat (a * b :: 'a::len word) = unat a * unat b"
  by (simp add: unat_word_ariths)

lemma of_nat_neq_minus_one:
  assumes "Suc n < 2 ^ LENGTH('a)"
  shows "(of_nat n :: 'a::len word) \<noteq> -1"
proof
  assume "(of_nat n :: 'a word) = -1"
  then have "unat (of_nat n :: 'a word) = 2 ^ LENGTH('a) - 1"
    by (simp add: unsigned_minus_1_eq_mask mask_eq_exp_minus_1)
  then show False using assms by (simp add: unat_of_nat_small)
qed

lemmas unat_small = unat_add_small unat_mult_small unat_of_nat_small

lemma unat_minus_one_less:
  fixes x :: "'a::len word"
  assumes "x \<noteq> 0"
  shows "unat x = Suc (unat (x - 1))"
  using assms by (metis Suc_pred' add.commute bot_nat_0.not_eq_extremum plus_1_eq_Suc unat_eq_zero unat_minus_one)

lemma unat_minus_1: "unat (- 1 :: 'a::len word) = 2 ^ LENGTH('a) - 1"
  by (simp add: unsigned_minus_1_eq_mask mask_eq_exp_minus_1)

lemma unat_uminus:
  fixes y :: "'a::len word"
  assumes "y \<noteq> 0"
  shows "unat (- y) = 2 ^ LENGTH('a) - unat y"
proof -
  have "(of_nat (2 ^ LENGTH('a)) :: 'a word) = 0" by (simp add: word_of_nat_eq_0_iff)
  then have "- y = of_nat (2 ^ LENGTH('a) - unat y)"
    using less_imp_le [OF unat_lt2p [of y]] by (simp only: of_nat_diff diff_0 of_nat_unat ucast_id)
  moreover have "0 < unat y" using assms by (simp add: unat_gt_0)
  then have "unat (of_nat (2 ^ LENGTH('a) - unat y) :: 'a word) = 2 ^ LENGTH('a) - unat y"
    by (intro unat_of_nat_small) simp
  ultimately show ?thesis by (simp only:)
qed

section \<open>Alignment and loops over pages\<close>

text \<open>The macros of include/common/common.h, at 64 bits.\<close>

definition ALIGN_UP :: "u64 \<Rightarrow> u64 \<Rightarrow> u64" where
  "ALIGN_UP value align = (value + align - 1) AND NOT (align - 1)"

definition ALIGN_DOWN :: "u64 \<Rightarrow> u64 \<Rightarrow> u64" where
  "ALIGN_DOWN value align = value AND NOT (align - 1)"

definition DIV_CEIL :: "u64 \<Rightarrow> u64 \<Rightarrow> u64" where
  "DIV_CEIL a b = (a + b - 1) div b"

definition is_aligned :: "u64 \<Rightarrow> u64 \<Rightarrow> bool" where
  "is_aligned addr alignment \<longleftrightarrow> addr AND (alignment - 1) = 0"

lemma unat_and_mask: "unat ((w :: 'a::len word) AND mask n) = unat w mod 2 ^ n"
  by (simp only: take_bit_eq_mask [symmetric] unsigned_take_bit_eq) (simp add: take_bit_eq_mod)

lemma unat_and_not_mask: "unat ((w :: 'a::len word) AND NOT (mask n)) = unat w div 2 ^ n * 2 ^ n"
proof -
  have w: "w AND NOT (mask n) = push_bit n (drop_bit n w)"
    by (rule bit_word_eqI) (auto simp: bit_simps)
  have "unat w div 2 ^ n * 2 ^ n < 2 ^ LENGTH('a)"
    by (rule le_less_trans [OF div_times_less_eq_dividend]) simp
  then show ?thesis
    unfolding w unsigned_push_bit_eq unsigned_drop_bit_eq
    by (simp add: push_bit_eq_mult drop_bit_eq_div take_bit_nat_eq_self)
qed

lemma mask_12: "(4095 :: u64) = mask 12" and mask_21: "(0x1FFFFF :: u64) = mask 21"
  and mask_30: "(0x3FFFFFFF :: u64) = mask 30"
  by (simp_all add: mask_eq_exp_minus_1)

lemma unat_ALIGN_DOWN_page: "unat (ALIGN_DOWN v 4096) = unat v div 4096 * 4096"
  using unat_and_not_mask [of v 12] by (simp add: ALIGN_DOWN_def mask_12)

lemma unat_ALIGN_UP_page:
  assumes "unat v + 4095 < 2 ^ 64"
  shows "unat (ALIGN_UP v 4096) = (unat v + 4095) div 4096 * 4096"
proof -
  have "unat (v + 4095) = unat v + 4095"
    using assms by (simp add: unat_add_small)
  then show ?thesis
    using unat_and_not_mask [of "v + 4095" 12] by (simp add: ALIGN_UP_def mask_12 add.commute)
qed

lemma is_aligned_page: "is_aligned v 4096 \<longleftrightarrow> unat v mod 4096 = 0"
proof -
  have "is_aligned v 4096 \<longleftrightarrow> unat (v AND mask 12) = 0"
    by (simp add: is_aligned_def mask_12 unat_eq_0)
  then show ?thesis by (simp only: unat_and_mask) simp
qed

text \<open>
  The loop \<^verbatim>\<open>for (m = start; m < end; m += 4096) body\<close> on 64-bit values. It visits
  \<open>page_range start end\<close>, unless no value it can reach is at or above the end, in
  which case it never stops.
\<close>

definition page_range :: "u64 \<Rightarrow> u64 \<Rightarrow> u64 list" where
  "page_range m e = map (\<lambda>k. m + of_nat k * 4096) [0..<(unat e - unat m + 4095) div 4096]"

definition page_loop_ends :: "u64 \<Rightarrow> u64 \<Rightarrow> bool" where
  "page_loop_ends m e \<longleftrightarrow> unat e \<le> 2 ^ 64 - 4096 + unat m mod 4096"

definition for_pages :: "(u64 \<Rightarrow> 's \<Rightarrow> 's kres) \<Rightarrow> u64 \<Rightarrow> u64 \<Rightarrow> 's \<Rightarrow> 's kres" where
  "for_pages body m e s =
     (if page_loop_ends m e then foldM body (page_range m e) s else Inl Diverge)"

lemma page_range_Nil: "e \<le> m \<Longrightarrow> page_range m e = []"
  by (simp add: page_range_def word_le_nat_alt)

lemma page_loop_no_wrap:
  assumes "m < e" and "page_loop_ends m e"
  shows "unat m + 4096 < 2 ^ 64"
proof (rule ccontr)
  assume "\<not> ?thesis"
  then have ge: "2 ^ 64 - 4096 \<le> unat m" by simp
  define d where "d = unat m - (2 ^ 64 - 4096)"
  have d: "unat m = d + 4096 * 4503599627370495" "d < 4096"
    using ge unat_lt2p [of m] by (simp_all add: d_def)
  then have "unat m mod 4096 = d" by (simp only: mod_mult_self2 mod_less)
  then show False
    using assms d by (simp add: page_loop_ends_def word_less_nat_alt)
qed

lemma page_range_Cons:
  assumes "m < e" and "unat m + 4096 < 2 ^ 64"
  shows "page_range m e = m # page_range (m + 4096) e"
proof -
  have u: "unat (m + 4096) = unat m + 4096" using assms(2) by (simp add: unat_add_small)
  have lt: "unat m < unat e" using assms(1) by (simp add: word_less_nat_alt)
  have n: "(unat e - unat m + 4095) div 4096 = Suc ((unat e - (unat m + 4096) + 4095) div 4096)"
  proof (cases "unat m + 4096 \<le> unat e")
    case True
    then have "unat e - unat m + 4095 = (unat e - (unat m + 4096) + 4095) + 4096" by simp
    then show ?thesis by (simp only: div_add_self2)
  next
    case False
    then have "unat e - unat m + 4095 = (unat e - unat m - 1) + 4096" "unat e - unat m - 1 < 4096"
      using lt by simp_all
    then have "(unat e - unat m + 4095) div 4096 = 1" by simp
    then show ?thesis using False by simp
  qed
  have "[0..<Suc N] = 0 # map Suc [0..<N]" for N
    by (simp only: upt_conv_Cons [OF zero_less_Suc] map_Suc_upt)
  moreover have "m + of_nat (Suc k) * 4096 = m + 4096 + of_nat k * 4096" for k
    by (simp add: distrib_right add.assoc)
  ultimately show ?thesis
    unfolding page_range_def u n by (simp only: list.map map_map o_def semiring_1_class.of_nat_0
      mult_zero_left add_0_right)
qed

lemma page_loop_ends_step: "unat m + 4096 < 2 ^ 64 \<Longrightarrow> page_loop_ends (m + 4096) e = page_loop_ends m e"
  by (simp add: page_loop_ends_def unat_add_small)

text \<open>The closed form is the loop: test the bound, run the body, add a page.\<close>

lemma for_pages_unfold:
  assumes "page_loop_ends m e"
  shows "for_pages body m e s =
    (if m < e then andthen (body m s) (for_pages body (m + 4096) e) else Inr s)"
proof (cases "m < e")
  case True
  then have nw: "unat m + 4096 < 2 ^ 64" using assms by (rule page_loop_no_wrap)
  then have "page_loop_ends (m + 4096) e" using assms by (simp only: page_loop_ends_step)
  then have "for_pages body (m + 4096) e = foldM body (page_range (m + 4096) e)"
    by (simp add: for_pages_def fun_eq_iff)
  then show ?thesis
    using True assms by (simp add: for_pages_def page_range_Cons [OF True nw])
next
  case False
  then show ?thesis using assms by (simp add: for_pages_def page_range_Nil)
qed

lemma page_count_iff:
  assumes "(m :: nat) mod 4096 = 0" and "e mod 4096 = 0"
  shows "k < (e - m + 4095) div 4096 \<longleftrightarrow> m + k * 4096 < e"
proof -
  obtain a b where ab: "m = 4096 * a" "e = 4096 * b"
    using assms by (meson mod_0_imp_dvd dvd_def)
  have "(e - m + 4095) div 4096 = (4095 + 4096 * (b - a)) div 4096"
    by (simp add: ab right_diff_distrib')
  also have "\<dots> = b - a" by (subst div_mult_self2) simp_all
  finally show ?thesis by (simp add: ab) linarith
qed

lemma set_page_range:
  assumes "unat m mod 4096 = 0" and "unat e mod 4096 = 0"
  shows "a \<in> set (page_range m e) \<longleftrightarrow> m \<le> a \<and> a < e \<and> unat a mod 4096 = 0"
proof
  assume "a \<in> set (page_range m e)"
  then obtain k where a: "a = m + of_nat k * 4096" and k: "k < (unat e - unat m + 4095) div 4096"
    by (auto simp: page_range_def)
  have kb: "unat m + k * 4096 < unat e" using k page_count_iff [OF assms] by blast
  then have "k * 4096 < 2 ^ 64" using unat_lt2p [of e] by simp
  then have "unat (of_nat k * 4096 :: u64) = k * 4096" by (simp add: unat_word_ariths unat_of_nat)
  then have "unat a = unat m + k * 4096"
    using a kb unat_lt2p [of e] by (simp add: unat_word_ariths)
  then show "m \<le> a \<and> a < e \<and> unat a mod 4096 = 0"
    using kb assms by (simp add: word_le_nat_alt word_less_nat_alt mod_add_eq)
next
  assume r: "m \<le> a \<and> a < e \<and> unat a mod 4096 = 0"
  define k where "k = (unat a - unat m) div 4096"
  have "4096 dvd unat a - unat m" using r assms by (simp add: dvd_diff_nat mod_0_imp_dvd)
  then have ua: "unat a = unat m + k * 4096" using r by (simp add: k_def word_le_nat_alt)
  then have "(of_nat (unat a) :: u64) = of_nat (unat m + k * 4096)" by simp
  then have "a = m + of_nat k * 4096" by simp
  moreover have "k < (unat e - unat m + 4095) div 4096"
    using r ua page_count_iff [OF assms] by (simp add: word_less_nat_alt)
  ultimately show "a \<in> set (page_range m e)" by (auto simp: page_range_def)
qed

end
