(* ===== verification/Bitmap.thy ===== *)
theory Bitmap
  imports Prelude
begin

text \<open>
  The bitmap operations of kernel/bitmap.c. A bitmap is the list of its bytes; an access
  past the end of the list is \<open>None\<close>. \<open>bitmap_find\<close> scans the bytes as 64-bit words,
  and is shown to return the least clear index.
\<close>

section \<open>Operations\<close>

definition bitmap_clear_all :: "u8 list \<Rightarrow> u32 \<Rightarrow> u8 list option" where
  "bitmap_clear_all bm sz =
     (if unat sz \<le> length bm then Some (replicate (unat sz) 0 @ drop (unat sz) bm) else None)"

definition bitmap_set :: "u8 list \<Rightarrow> u32 \<Rightarrow> u8 list option" where
  "bitmap_set bm index =
     (let slot = unat (index div 8) in
      if slot < length bm
      then Some (bm[slot := bm ! slot OR push_bit (unat (index mod 8)) 1])
      else None)"

definition bitmap_clear :: "u8 list \<Rightarrow> u32 \<Rightarrow> u8 list option" where
  "bitmap_clear bm index =
     (let slot = unat (index div 8) in
      if slot < length bm
      then Some (bm[slot := bm ! slot AND NOT (push_bit (unat (index mod 8)) 1)])
      else None)"

definition bitmap_test :: "u8 list \<Rightarrow> u32 \<Rightarrow> int option" where
  "bitmap_test bm index =
     (let slot = unat (index div 8) in
      if slot < length bm
      then Some (uint (bm ! slot AND push_bit (unat (index mod 8)) 1))
      else None)"

fun bitmap_find_words :: "u8 list \<Rightarrow> nat \<Rightarrow> nat \<Rightarrow> u32 option kres" where
  "bitmap_find_words bm i 0 = Inr None"
| "bitmap_find_words bm i (Suc n) =
     andthen (checked (load64 bm (8 * i))) (\<lambda>word.
       if word \<noteq> -1 then Inr (Some (of_nat i * 64 + of_nat (ctz (NOT word))))
       else bitmap_find_words bm (Suc i) n)"

definition bitmap_find :: "u8 list \<Rightarrow> u32 \<Rightarrow> u32 kres" where
  "bitmap_find bm bit_count =
     (let word_count = bit_count div 64 in
      andthen (bitmap_find_words bm 0 (unat word_count)) (\<lambda>r.
        case r of
          Some k \<Rightarrow> Inr k
        | None \<Rightarrow>
            (let remaining = bit_count mod 64 in
             if remaining \<noteq> 0 then
               andthen (checked (load64 bm (8 * unat word_count))) (\<lambda>w.
                 let mask = push_bit (unat remaining) 1 - 1;
                     word = w OR NOT mask in
                 if word \<noteq> -1 then Inr (word_count * 64 + of_nat (ctz (NOT word)))
                 else Inr (-1))
             else Inr (-1))))"

section \<open>The set of set bits\<close>

text \<open>The abstract view: bit \<open>i\<close> of the bitmap.\<close>

definition bm_get :: "u8 list \<Rightarrow> nat \<Rightarrow> bool" where
  "bm_get bm i \<longleftrightarrow> i < 8 * length bm \<and> bit (bm ! (i div 8)) (i mod 8)"

definition first_clear :: "u8 list \<Rightarrow> nat \<Rightarrow> nat option" where
  "first_clear bm n = find (\<lambda>k. \<not> bm_get bm k) [0..<n]"

lemma bm_get_length: "bm_get bm i \<Longrightarrow> i < 8 * length bm"
  by (simp add: bm_get_def)

lemma unat_div_8: "unat (i div 8 :: u32) = unat i div 8"
  by (simp add: unat_div)

lemma unat_mod_8: "unat (i mod 8 :: u32) = unat i mod 8"
  by (simp add: unat_mod)

lemma bitmap_set_Some_iff:
  "bitmap_set bm i = Some bm' \<longleftrightarrow> unat i < 8 * length bm \<and>
     bm' = bm[unat i div 8 := bm ! (unat i div 8) OR push_bit (unat i mod 8) 1]"
  by (auto simp: bitmap_set_def Let_def unat_div_8 unat_mod_8 div_less_iff_less_mult
      mult.commute split: if_splits)

lemma bitmap_clear_Some_iff:
  "bitmap_clear bm i = Some bm' \<longleftrightarrow> unat i < 8 * length bm \<and>
     bm' = bm[unat i div 8 := bm ! (unat i div 8) AND NOT (push_bit (unat i mod 8) 1)]"
  by (auto simp: bitmap_clear_def Let_def unat_div_8 unat_mod_8 div_less_iff_less_mult
      mult.commute split: if_splits)

lemma div_mod_8_eq: "(i::nat) div 8 = j div 8 \<and> i mod 8 = j mod 8 \<longleftrightarrow> i = j"
  by (metis div_mult_mod_eq)

lemma bm_get_update:
  assumes "i < 8 * length bm"
    and "\<And>k. k < 8 \<Longrightarrow> bit v k = (if k = i mod 8 then b else bit (bm ! (i div 8)) k)"
  shows "bm_get (bm[i div 8 := v]) j = (if j = i then b else bm_get bm j)"
proof -
  have lt: "i div 8 < length bm" using assms(1) by auto
  show ?thesis
  proof (cases "j div 8 = i div 8")
    case True
    then show ?thesis
      using assms(2) [of "j mod 8"] lt assms(1) div_mod_8_eq [of j i]
      by (auto simp: bm_get_def)
  next
    case False
    then show ?thesis by (auto simp: bm_get_def)
  qed
qed

lemma bm_get_set:
  assumes "bitmap_set bm i = Some bm'"
  shows "bm_get bm' j \<longleftrightarrow> j = unat i \<or> bm_get bm j"
proof -
  from assms have i: "unat i < 8 * length bm"
    and bm': "bm' = bm[unat i div 8 := bm ! (unat i div 8) OR push_bit (unat i mod 8) 1]"
    by (auto simp: bitmap_set_Some_iff)
  show ?thesis unfolding bm'
    by (subst bm_get_update [OF i, where b = True]) (auto simp: bit_simps)
qed

lemma bm_get_clear:
  assumes "bitmap_clear bm i = Some bm'"
  shows "bm_get bm' j \<longleftrightarrow> j \<noteq> unat i \<and> bm_get bm j"
proof -
  from assms have i: "unat i < 8 * length bm"
    and bm': "bm' = bm[unat i div 8 := bm ! (unat i div 8) AND NOT (push_bit (unat i mod 8) 1)]"
    by (auto simp: bitmap_clear_Some_iff)
  show ?thesis unfolding bm'
    by (subst bm_get_update [OF i, where b = False]) (auto simp: bit_simps)
qed

lemma bitmap_set_length: "bitmap_set bm i = Some bm' \<Longrightarrow> length bm' = length bm"
  by (auto simp: bitmap_set_Some_iff)

lemma bitmap_clear_length: "bitmap_clear bm i = Some bm' \<Longrightarrow> length bm' = length bm"
  by (auto simp: bitmap_clear_Some_iff)

lemma bitmap_test_iff:
  "bitmap_test bm i = Some v \<Longrightarrow> v \<noteq> 0 \<longleftrightarrow> bm_get bm (unat i)"
  by (auto simp: bitmap_test_def bm_get_def Let_def unat_div_8 unat_mod_8 uint_0_iff
      and_exp_eq_0_iff_not_bit div_less_iff_less_mult mult.commute split: if_splits)

lemma bitmap_test_eq:
  "unat i < 8 * length bm \<Longrightarrow> \<exists>v. bitmap_test bm i = Some v \<and> (v \<noteq> 0 \<longleftrightarrow> bm_get bm (unat i))"
  using bitmap_test_iff [of bm i]
  by (auto simp: bitmap_test_def Let_def unat_div_8 div_less_iff_less_mult mult.commute)

lemma bm_eqI:
  assumes "length bm = length bm'" and "\<And>k. bm_get bm k = bm_get bm' k"
  shows "bm = bm'"
proof (rule nth_equalityI)
  fix i
  assume i: "i < length bm"
  show "bm ! i = bm' ! i"
  proof (rule bit_word_eqI)
    fix k
    assume "k < LENGTH(8)"
    then have "(8 * i + k) div 8 = i" and "(8 * i + k) mod 8 = k" and "8 * i + k < 8 * length bm"
      using i by auto
    then show "bit (bm ! i) k = bit (bm' ! i) k"
      using assms(1) assms(2) [of "8 * i + k"] by (simp add: bm_get_def)
  qed
qed (fact assms(1))

section \<open>The search for a clear bit\<close>

lemma bit_load64_bitmap:
  assumes "load64 bm (8 * i) = Some w" and "n < 64"
  shows "bit w n \<longleftrightarrow> bm_get bm (64 * i + n)"
proof -
  from assms(1) have "8 * i + 8 \<le> length bm" by (auto simp: load64_def split: if_splits)
  then have "64 * i + n < 8 * length bm" using assms(2) by linarith
  moreover have "(64 * i + n) div 8 = 8 * i + n div 8" by auto
  moreover have "(n + 8 * (8 * i)) mod 8 = n mod 8" by (rule mod_mult_self2)
  then have "(64 * i + n) mod 8 = n mod 8" by (simp add: add.commute)
  ultimately show ?thesis using assms by (simp add: bit_load64 bm_get_def)
qed

lemma word_clear_bit:
  assumes w: "load64 bm (8 * i) = Some w" and nz: "w OR NOT m \<noteq> -1"
    and m: "\<And>n. n < 64 \<Longrightarrow> bit m n \<longleftrightarrow> n < r" and below: "\<And>k. k < 64 * i \<Longrightarrow> bm_get bm k"
    and r: "r \<le> 64"
  shows "first_clear bm (64 * i + r) = Some (64 * i + ctz (NOT (w OR NOT m)))"
proof -
  let ?v = "NOT (w OR NOT m)"
  have v: "bit ?v n \<longleftrightarrow> n < r \<and> \<not> bm_get bm (64 * i + n)" if "n < 64" for n
    using that m [OF that] bit_load64_bitmap [OF w that] by (auto simp: bit_simps)
  have "?v \<noteq> 0" using nz by (metis bit.double_compl bit.compl_zero)
  note c = ctz_props [OF this]
  have c64: "ctz ?v < 64" using c(3) by simp
  have hit: "ctz ?v < r" "\<not> bm_get bm (64 * i + ctz ?v)" using v [OF c64] c(1) by auto
  have "bm_get bm k" if k: "k < 64 * i + ctz ?v" for k
  proof (cases "k < 64 * i")
    case True
    then show ?thesis by (rule below)
  next
    case False
    then have "k - 64 * i < ctz ?v" using k by linarith
    then show ?thesis using c(2) v [of "k - 64 * i"] c64 hit False by auto
  qed
  then show ?thesis
    unfolding first_clear_def find_upt_Some_iff using hit by auto
qed

lemma bitmap_find_words_correct:
  assumes "8 * (i + n) \<le> length bm" and "\<And>k. k < 64 * i \<Longrightarrow> bm_get bm k"
  shows "bitmap_find_words bm i n = Inr (map_option of_nat (first_clear bm (64 * (i + n))))"
  using assms
proof (induction n arbitrary: i)
  case 0
  then have "first_clear bm (64 * i) = None"
    by (auto simp: first_clear_def find_upt_None_iff)
  then show ?case by simp
next
  case (Suc n)
  from Suc.prems(1) obtain w where w: "load64 bm (8 * i) = Some w"
    by (simp add: load64_def)
  show ?case
  proof (cases "w = -1")
    case True
    have "bm_get bm k" if "k < 64 * Suc i" for k
    proof (cases "k < 64 * i")
      case False
      then have "bit w (k - 64 * i)" and "k - 64 * i < 64"
        using True that by (auto simp: bit_simps)
      then show ?thesis using bit_load64_bitmap [OF w, of "k - 64 * i"] False by auto
    qed (simp add: Suc.prems)
    then have "bitmap_find_words bm (Suc i) n
        = Inr (map_option of_nat (first_clear bm (64 * (Suc i + n))))"
      using Suc.prems by (intro Suc.IH) auto
    with True w show ?thesis by simp
  next
    case False
    have "first_clear bm (64 * i + 64) = Some (64 * i + ctz (NOT w))"
      using word_clear_bit [OF w, of "-1" 64] False Suc.prems(2) by (simp add: bit_simps)
    then have "first_clear bm (64 * (i + Suc n)) = Some (64 * i + ctz (NOT w))"
      by (auto simp: first_clear_def find_upt_Some_iff)
    with False w show ?thesis by (simp add: algebra_simps)
  qed
qed

lemma first_clear_bounds:
  "first_clear bm n = Some k \<Longrightarrow> k < n \<and> \<not> bm_get bm k \<and> (\<forall>j<k. bm_get bm j)"
  by (simp add: first_clear_def find_upt_Some_iff)

lemma first_clear_Some_mono:
  "first_clear bm n = Some k \<Longrightarrow> n \<le> m \<Longrightarrow> first_clear bm m = Some k"
  by (auto simp: first_clear_def find_upt_Some_iff)

lemma first_clear_None_iff: "first_clear bm n = None \<longleftrightarrow> (\<forall>k<n. bm_get bm k)"
  by (simp add: first_clear_def find_upt_None_iff)

text \<open>The bytes a search over \<open>n\<close> bits reads: whole 64-bit words.\<close>

definition find_span :: "u32 \<Rightarrow> nat" where
  "find_span n = 8 * ((unat n + 63) div 64)"

lemma find_span_words:
  assumes "unat n = 64 * q + r" and "r < 64" and "find_span n \<le> length bm"
  shows "8 * q \<le> length bm" and "r \<noteq> 0 \<Longrightarrow> 8 * q + 8 \<le> length bm"
proof -
  have "64 * q div 64 \<le> (unat n + 63) div 64" by (rule div_le_mono) (simp add: assms(1))
  then show "8 * q \<le> length bm" using assms(3) by (simp add: find_span_def)
  assume "r \<noteq> 0"
  then have "64 * (q + 1) div 64 \<le> (unat n + 63) div 64" by (intro div_le_mono) (simp add: assms(1))
  then show "8 * q + 8 \<le> length bm" using assms(3) by (simp add: find_span_def)
qed

text \<open>The partial last word: bits past the count are taken as set.\<close>

lemma partial_word_full:
  assumes w: "load64 bm (8 * q) = Some w" and full: "w OR NOT (push_bit r 1 - 1) = -1"
    and below: "\<And>k. k < 64 * q \<Longrightarrow> bm_get bm k" and r: "r < 64"
  shows "first_clear bm (64 * q + r) = None"
proof -
  have "bm_get bm k" if k: "k < 64 * q + r" for k
  proof (cases "k < 64 * q")
    case False
    define j where "j = k - 64 * q"
    have j: "j < r" "j < 64" "k = 64 * q + j" using False k r by (auto simp: j_def)
    have "bit (w OR NOT (push_bit r 1 - 1)) j" unfolding full using j by simp
    then have "bit w j \<or> \<not> bit (push_bit r 1 - 1 :: u64) j"
      by (simp only: bit_or_iff bit_not_iff) blast
    then have "bit w j" using j by (simp only: bit_mask_low) simp
    then show ?thesis using bit_load64_bitmap [OF w \<open>j < 64\<close>] j by simp
  qed (rule below)
  then show ?thesis by (simp add: first_clear_None_iff)
qed

lemma bitmap_find_spec:
  assumes "find_span n \<le> length bm"
  shows "bitmap_find bm n =
    Inr (case first_clear bm (unat n) of Some k \<Rightarrow> of_nat k | None \<Rightarrow> -1)"
proof -
  define q r where "q = unat n div 64" and "r = unat n mod 64"
  have n: "unat n = 64 * q + r" and r: "r < 64" by (simp_all add: q_def r_def)
  have wc: "unat (n div 64) = q" and rem: "unat (n mod 64) = r"
    by (simp_all add: unat_div unat_mod q_def r_def)
  have wcq: "n div 64 = of_nat q" by (simp flip: wc)
  note len = find_span_words [OF n r assms]
  have words: "bitmap_find_words bm 0 q = Inr (map_option of_nat (first_clear bm (64 * q)))"
    using bitmap_find_words_correct [of 0 q bm] len by simp
  show ?thesis
  proof (cases "first_clear bm (64 * q)")
    case (Some k)
    then have "first_clear bm (unat n) = Some k"
      by (rule first_clear_Some_mono) (simp add: n)
    with Some show ?thesis by (simp add: bitmap_find_def wc words)
  next
    case None
    then have below: "\<And>k. k < 64 * q \<Longrightarrow> bm_get bm k" by (simp add: first_clear_None_iff)
    show ?thesis
    proof (cases "r = 0")
      case True
      then have "n mod 64 = 0" using rem by (simp add: unat_eq_0)
      with True None show ?thesis by (simp add: bitmap_find_def wc words n)
    next
      case False
      then have nz: "n mod 64 \<noteq> 0" using rem by (metis unat_0)
      obtain w where w: "load64 bm (8 * q) = Some w" using len(2) [OF False] by (simp add: load64_def)
      show ?thesis
      proof (cases "w OR NOT (push_bit r 1 - 1) = -1")
        case True
        then show ?thesis using partial_word_full [OF w True below r] None nz w
          by (simp add: bitmap_find_def wc rem words Let_def n)
      next
        case ne: False
        have "first_clear bm (unat n) = Some (64 * q + ctz (NOT (w OR NOT (push_bit r 1 - 1))))"
          unfolding n by (rule word_clear_bit [OF w ne _ below]) (use r in \<open>simp_all only: bit_mask_low, simp_all\<close>)
        moreover have "bitmap_find bm n = Inr (n div 64 * 64 + of_nat (ctz (NOT (w OR NOT (push_bit r 1 - 1)))))"
          using ne None nz w by (simp add: bitmap_find_def wc rem words Let_def)
        ultimately show ?thesis by (simp add: wcq mult.commute)
      qed
    qed
  qed
qed

section \<open>Tables of bits as an interface\<close>

text \<open>
  What the allocators above a bitmap rely on: setting, clearing and testing one bit, and
  a search that returns the least clear bit below a count, or the all-ones index when
  there is none.
\<close>

locale bit_table =
  fixes set_bit :: "'a \<Rightarrow> u32 \<Rightarrow> 'a option"
    and clear_bit :: "'a \<Rightarrow> u32 \<Rightarrow> 'a option"
    and test_bit :: "'a \<Rightarrow> u32 \<Rightarrow> int option"
    and get :: "'a \<Rightarrow> nat \<Rightarrow> bool"
    and cap :: "'a \<Rightarrow> nat"
  assumes set_defined: "unat i < cap b \<Longrightarrow> \<exists>b'. set_bit b i = Some b'"
    and clear_defined: "unat i < cap b \<Longrightarrow> \<exists>b'. clear_bit b i = Some b'"
    and set_get: "set_bit b i = Some b' \<Longrightarrow> get b' j \<longleftrightarrow> j = unat i \<or> get b j"
    and clear_get: "clear_bit b i = Some b' \<Longrightarrow> get b' j \<longleftrightarrow> j \<noteq> unat i \<and> get b j"
    and test_get: "test_bit b i = Some v \<Longrightarrow> v \<noteq> 0 \<longleftrightarrow> get b (unat i)"
    and set_cap: "set_bit b i = Some b' \<Longrightarrow> cap b' = cap b"
    and clear_cap: "clear_bit b i = Some b' \<Longrightarrow> cap b' = cap b"
begin

definition clear_set :: "nat \<Rightarrow> 'a \<Rightarrow> nat set" where
  "clear_set n b = {k. k < n \<and> \<not> get b k}"

lemma clear_set_finite: "finite (clear_set n b)"
  by (simp add: clear_set_def)

lemma clear_set_set: "set_bit b i = Some b' \<Longrightarrow> clear_set n b' = clear_set n b - {unat i}"
  by (auto simp: clear_set_def set_get)

lemma clear_set_clear:
  "clear_bit b i = Some b' \<Longrightarrow> unat i < n \<Longrightarrow> clear_set n b' = insert (unat i) (clear_set n b)"
  by (auto simp: clear_set_def clear_get)

lemma set_then_clear:
  "set_bit b i = Some b' \<Longrightarrow> clear_bit b' i = Some b'' \<Longrightarrow> \<not> get b (unat i) \<Longrightarrow>
     get b'' j = get b j"
  by (auto simp: set_get clear_get)

lemma clear_then_set:
  "clear_bit b i = Some b' \<Longrightarrow> set_bit b' i = Some b'' \<Longrightarrow> get b (unat i) \<Longrightarrow>
     get b'' j = get b j"
  by (auto simp: set_get clear_get)

lemma card_clear_set:
  assumes "set_bit b i = Some b'" and "unat i < n" and "\<not> get b (unat i)"
  shows "card (clear_set n b) = Suc (card (clear_set n b'))"
proof -
  have "unat i \<in> clear_set n b" using assms by (simp add: clear_set_def)
  then show ?thesis
    using assms(1) by (simp add: clear_set_set clear_set_finite card_Suc_Diff1 del: card_Diff_insert)
qed

end

locale bit_search = bit_table +
  fixes find_bit :: "'a \<Rightarrow> u32 \<Rightarrow> u32 kres"
    and span :: "u32 \<Rightarrow> nat"
  assumes find_defined: "span n \<le> cap b \<Longrightarrow> \<exists>k. find_bit b n = Inr k"
    and find_hit: "span n \<le> cap b \<Longrightarrow> find_bit b n = Inr k \<Longrightarrow> k \<noteq> -1 \<Longrightarrow>
      unat k < unat n \<and> \<not> get b (unat k) \<and> (\<forall>j < unat k. get b j)"
    and find_miss: "span n \<le> cap b \<Longrightarrow> find_bit b n = Inr (-1) \<longleftrightarrow> (\<forall>j < unat n. get b j)"
    and span_covers: "unat n \<le> span n"
begin

text \<open>Search and set: the step every allocator over a bitmap takes.\<close>

definition take_bit_index :: "'a \<Rightarrow> u32 \<Rightarrow> (u32 \<times> 'a) option kres" where
  "take_bit_index b n = andthen (find_bit b n) (\<lambda>k.
     if k = -1 then Inr None
     else andthen (checked (set_bit b k)) (\<lambda>b'. Inr (Some (k, b'))))"

lemma take_bit_index_total:
  assumes "span n \<le> cap b"
  shows "\<exists>r. take_bit_index b n = Inr r"
proof -
  obtain k where k: "find_bit b n = Inr k" using find_defined [OF assms] by auto
  show ?thesis
  proof (cases "k = -1")
    case False
    then have "unat k < cap b" using find_hit [OF assms k] span_covers [of n] assms by linarith
    then obtain b' where "set_bit b k = Some b'" using set_defined by auto
    with k False show ?thesis by (simp add: take_bit_index_def)
  qed (simp add: take_bit_index_def k)
qed

lemma take_bit_index_Some:
  assumes "span n \<le> cap b" and "take_bit_index b n = Inr (Some (k, b'))"
  shows "unat k < unat n" and "\<not> get b (unat k)" and "\<And>j. j < unat k \<Longrightarrow> get b j"
    and "\<And>j. get b' j \<longleftrightarrow> j = unat k \<or> get b j" and "cap b' = cap b"
    and "card (clear_set (unat n) b) = Suc (card (clear_set (unat n) b'))"
proof -
  from assms(2) have k: "find_bit b n = Inr k" "k \<noteq> -1" and b': "set_bit b k = Some b'"
    by (auto simp: take_bit_index_def andthen_eq_Inr_iff split: if_splits)
  note hit = find_hit [OF assms(1) k]
  show "unat k < unat n" and "\<not> get b (unat k)" and "\<And>j. j < unat k \<Longrightarrow> get b j"
    using hit by auto
  show "\<And>j. get b' j \<longleftrightarrow> j = unat k \<or> get b j" and "cap b' = cap b"
    using b' by (auto simp: set_get set_cap)
  show "card (clear_set (unat n) b) = Suc (card (clear_set (unat n) b'))"
    using b' hit by (intro card_clear_set) auto
qed

lemma take_bit_index_None:
  assumes "span n \<le> cap b"
  shows "take_bit_index b n = Inr None \<longleftrightarrow> clear_set (unat n) b = {}"
proof -
  obtain k where k: "find_bit b n = Inr k" using find_defined [OF assms] by auto
  have "take_bit_index b n = Inr None \<longleftrightarrow> k = -1"
    by (auto simp: take_bit_index_def k andthen_eq_Inr_iff)
  also have "\<dots> \<longleftrightarrow> (\<forall>j < unat n. get b j)" using find_miss [OF assms] k by auto
  finally show ?thesis by (auto simp: clear_set_def)
qed

end

lemma find_span_covers: "unat n \<le> find_span n * 8"
proof -
  have "unat n + 63 < 64 * ((unat n + 63) div 64) + 64"
    by (metis add.commute add_less_cancel_left div_mult_mod_eq mod_less_divisor mult.commute
        zero_less_numeral)
  then show ?thesis by (simp add: find_span_def)
qed

interpretation kbm: bit_search bitmap_set bitmap_clear bitmap_test bm_get
  "\<lambda>bm. 8 * length bm" bitmap_find "\<lambda>n. 8 * find_span n"
proof (unfold_locales, goal_cases)
  case (1 i b)
  then show ?case by (auto simp: bitmap_set_Some_iff)
next
  case (2 i b)
  then show ?case by (auto simp: bitmap_clear_Some_iff)
next
  case (8 n b)
  then show ?case using bitmap_find_spec [of n b] by auto
next
  case (9 n b k)
  then have sp: "find_span n \<le> length b" by simp
  show ?case
  proof (cases "first_clear b (unat n)")
    case None
    then show ?thesis using 9 bitmap_find_spec [OF sp] by simp
  next
    case (Some j)
    note b = first_clear_bounds [OF Some]
    have "k = of_nat j" using 9(2) bitmap_find_spec [OF sp] Some by simp
    moreover have "j < 2 ^ LENGTH(32)" using b unat_lt2p [of n] by (meson less_trans)
    ultimately have "unat k = j" by (simp only: unat_of_nat_small)
    then show ?thesis using b by simp
  qed
next
  case (10 n b)
  then have sp: "find_span n \<le> length b" by simp
  show ?case
  proof (cases "first_clear b (unat n)")
    case None
    with bitmap_find_spec [OF sp] have "bitmap_find b n = Inr (-1)" by simp
    with None show ?thesis by (simp add: first_clear_None_iff)
  next
    case (Some j)
    note b = first_clear_bounds [OF Some]
    then have j: "j < unat n" by simp
    have "Suc j < 2 ^ 32" using j unat_lt2p [of n] by simp
    then have "(of_nat j :: u32) \<noteq> -1" by (intro of_nat_neq_minus_one) simp
    then show ?thesis using b bitmap_find_spec [OF sp] Some by auto
  qed
qed (auto simp: bm_get_set bm_get_clear bitmap_test_iff bitmap_set_length bitmap_clear_length
     intro: order_trans [OF find_span_covers])

end
