(* ===== verification/Memmap.thy ===== *)
theory Memmap
  imports Bitmap
begin

text \<open>
  The walk over the BIOS memory map (kernel/common/memmap.c,
  include/common/memmap.h): every entry clears or sets the bits of its pages in the
  physical bitmap, in the order of the map, and the totals are accumulated.

  \<^item> \<open>MemmapEntry\<close>, \<open>MemmapInitResult\<close>: the two structures of the header.
  \<^item> \<open>memmap_entry\<close>: the body of the loop on one entry; the line it prints is kept as a
    tuple of the values printed.
  \<^item> \<open>memmap_bitmap_init\<close>: the loop. A bit outside the bitmap is \<open>Inl Fault\<close>, a page
    loop that cannot end is \<open>Inl Diverge\<close>.

  The lemmas show which entry decides the bit of a frame, and what the totals are.
\<close>

unbundle bit_operations_syntax

section \<open>The model\<close>

record MemmapEntry =
  BaseAddrLow :: u32
  BaseAddrHigh :: u32
  LengthLow :: u32
  LengthHigh :: u32
  Type :: u32

record MemmapInitResult =
  memory_usable :: u64
  memory_usable_top :: u64
  memory_top :: u64

record memmap_acc =
  total_usable_memory :: u32
  mem_top :: u64
  usable_mem_top :: u64
  mm_bitmap :: "u8 list"
  mm_report :: "(u64 \<times> u64 \<times> u64 \<times> string) list"

definition entry_base :: "MemmapEntry \<Rightarrow> u64" where
  "entry_base e = push_bit 32 (ucast (BaseAddrHigh e)) OR ucast (BaseAddrLow e)"

definition entry_size :: "MemmapEntry \<Rightarrow> u64" where
  "entry_size e = push_bit 32 (ucast (LengthHigh e)) OR ucast (LengthLow e)"

definition memmap_type_name :: "u32 \<Rightarrow> string" where
  "memmap_type_name t =
     (if t = 1 then ''Usable''
      else if t = 2 then ''Reserved''
      else if t = 3 then ''ACPI''
      else if t = 4 then ''NVS''
      else if t = 5 then ''Unusable''
      else if t = 6 then ''Disabled''
      else ''Unknown'')"

definition mark_pages :: "(u8 list \<Rightarrow> u32 \<Rightarrow> u8 list option) \<Rightarrow> u64 \<Rightarrow> u64 \<Rightarrow> u8 list \<Rightarrow> u8 list kres" where
  "mark_pages mark = for_pages (\<lambda>m bm. checked (mark bm (ucast (m div 4096))))"

definition memmap_entry :: "MemmapEntry \<Rightarrow> memmap_acc \<Rightarrow> memmap_acc kres" where
  "memmap_entry e acc =
     (let base = ALIGN_UP (entry_base e) 4096;
          end' = ALIGN_UP (entry_base e + entry_size e) 4096;
          acc = acc\<lparr>mem_top := (if end' > mem_top acc then end' else mem_top acc),
                    mm_report := mm_report acc @
                      [(base, end', entry_size e div 1024, memmap_type_name (Type e))]\<rparr>
      in if Type e = 1
         then (let acc = acc\<lparr>
                 total_usable_memory := ucast (ucast (total_usable_memory acc) + entry_size e),
                 usable_mem_top := (if end' > usable_mem_top acc then end' else usable_mem_top acc)\<rparr>
               in andthen (mark_pages bitmap_clear base end' (mm_bitmap acc))
                    (\<lambda>bm. Inr (acc\<lparr>mm_bitmap := bm\<rparr>)))
         else andthen (mark_pages bitmap_set base end' (mm_bitmap acc))
                (\<lambda>bm. Inr (acc\<lparr>mm_bitmap := bm\<rparr>)))"

definition memmap_bitmap_init :: "MemmapEntry list \<Rightarrow> u8 list \<Rightarrow> (MemmapInitResult \<times> u8 list) kres" where
  "memmap_bitmap_init entries bitmap =
     andthen (foldM memmap_entry entries
               \<lparr>total_usable_memory = 0, mem_top = 0, usable_mem_top = 0, mm_bitmap = bitmap,
                mm_report = []\<rparr>)
       (\<lambda>acc. Inr (\<lparr>memory_usable = ucast (total_usable_memory acc),
                    memory_usable_top = usable_mem_top acc,
                    memory_top = mem_top acc\<rparr>, mm_bitmap acc))"

section \<open>What an entry covers\<close>

definition entry_ok :: "MemmapEntry \<Rightarrow> bool" where
  "entry_ok e \<longleftrightarrow> unat (entry_base e) + unat (entry_size e) + 4095 < 2 ^ 64"

definition first_frame :: "MemmapEntry \<Rightarrow> nat" where
  "first_frame e = (unat (entry_base e) + 4095) div 4096"

definition end_frame :: "MemmapEntry \<Rightarrow> nat" where
  "end_frame e = (unat (entry_base e) + unat (entry_size e) + 4095) div 4096"

definition covers :: "nat \<Rightarrow> MemmapEntry \<Rightarrow> bool" where
  "covers k e \<longleftrightarrow> first_frame e \<le> k \<and> k < end_frame e"

definition marks :: "bool \<Rightarrow> (u8 list \<Rightarrow> u32 \<Rightarrow> u8 list option) \<Rightarrow> bool" where
  "marks v mark \<longleftrightarrow>
   (\<forall>bm i. 8 * length bm \<le> unat i \<longrightarrow> mark bm i = None) \<and>
   (\<forall>bm i. unat i < 8 * length bm \<longrightarrow>
     (\<exists>bm'. mark bm i = Some bm' \<and> length bm' = length bm \<and>
       (\<forall>k. bm_get bm' k = (if k = unat i then v else bm_get bm k))))"

lemma marks_set: "marks True bitmap_set"
  unfolding marks_def
proof (intro conjI allI impI)
  fix bm :: "u8 list" and i :: u32 assume "unat i < 8 * length bm"
  then obtain bm' where "bitmap_set bm i = Some bm'" by (simp add: bitmap_set_Some_iff)
  then show "\<exists>bm'. bitmap_set bm i = Some bm' \<and> length bm' = length bm \<and>
      (\<forall>k. bm_get bm' k = (if k = unat i then True else bm_get bm k))"
    by (simp add: bm_get_set bitmap_set_length)
qed (auto simp: bitmap_set_def Let_def unat_div_8)

lemma marks_clear: "marks False bitmap_clear"
  unfolding marks_def
proof (intro conjI allI impI)
  fix bm :: "u8 list" and i :: u32 assume "unat i < 8 * length bm"
  then obtain bm' where "bitmap_clear bm i = Some bm'" by (simp add: bitmap_clear_Some_iff)
  then show "\<exists>bm'. bitmap_clear bm i = Some bm' \<and> length bm' = length bm \<and>
      (\<forall>k. bm_get bm' k = (if k = unat i then False else bm_get bm k))"
    by (simp add: bm_get_clear bitmap_clear_length)
qed (auto simp: bitmap_clear_def Let_def unat_div_8)

lemma unat_page_index:
  assumes "unat m div 4096 < 2 ^ 32"
  shows "unat (ucast (m div 4096 :: u64) :: u32) = unat m div 4096"
  using assms by (simp add: unsigned_ucast_eq unat_div take_bit_nat_eq_self)

lemma foldM_mark:
  assumes "marks v mark" and "8 * length bm \<le> 2 ^ 32"
    and "\<forall>m\<in>set ms. unat (m :: u64) div 4096 < 8 * length bm"
  shows "\<exists>bm'. foldM (\<lambda>m bm. checked (mark bm (ucast (m div 4096)))) ms bm = Inr bm' \<and>
    length bm' = length bm \<and>
    (\<forall>k. bm_get bm' k = (if k \<in> (\<lambda>m. unat m div 4096) ` set ms then v else bm_get bm k))"
  using assms(2,3)
proof (induction ms arbitrary: bm)
  case Nil
  then show ?case by simp
next
  case (Cons m ms)
  have i: "unat (ucast (m div 4096 :: u64) :: u32) = unat m div 4096"
    using Cons.prems by (intro unat_page_index) auto
  then obtain bm1 where 1: "mark bm (ucast (m div 4096)) = Some bm1" "length bm1 = length bm"
      "\<forall>k. bm_get bm1 k = (if k = unat m div 4096 then v else bm_get bm k)"
    using assms(1) Cons.prems unfolding marks_def by (metis list.set_intros(1))
  obtain bm' where "foldM (\<lambda>m bm. checked (mark bm (ucast (m div 4096)))) ms bm1 = Inr bm'"
      "length bm' = length bm1"
      "\<forall>k. bm_get bm' k = (if k \<in> (\<lambda>m. unat m div 4096) ` set ms then v else bm_get bm1 k)"
    using Cons.IH [of bm1] Cons.prems 1(2) by auto
  with 1 show ?case by (auto simp: checked_def)
qed

lemma frame_in_page_range:
  assumes "unat b = 4096 * i" and "unat e = 4096 * j"
  shows "k \<in> (\<lambda>m. unat m div 4096) ` set (page_range b e) \<longleftrightarrow> i \<le> k \<and> k < j"
proof
  assume "k \<in> (\<lambda>m. unat m div 4096) ` set (page_range b e)"
  then show "i \<le> k \<and> k < j"
    using assms set_page_range [of b e]
    by (auto simp: word_le_nat_alt word_less_nat_alt elim!: dvdE dest!: mod_0_imp_dvd)
next
  assume k: "i \<le> k \<and> k < j"
  then have "4096 * k < 2 ^ 64" using assms(2) unat_lt2p [of e] by simp
  then have u: "unat (of_nat (4096 * k) :: u64) = 4096 * k" 
    using unat_of_nat_small [where 'a = 64, of "4096 * k"] by simp
  then have "of_nat (4096 * k) \<in> set (page_range b e)"
    using k assms by (simp add: set_page_range word_le_nat_alt word_less_nat_alt del: of_nat_mult)
  then show "k \<in> (\<lambda>m. unat m div 4096) ` set (page_range b e)"
    using u by (intro image_eqI [of _ _ "of_nat (4096 * k)"]) (simp_all del: of_nat_mult)
qed

lemma mark_pages_spec:
  assumes "marks v mark" and "8 * length bm \<le> 2 ^ 32"
    and "unat b = 4096 * i" and "unat e = 4096 * j" and "j \<le> 8 * length bm"
  shows "\<exists>bm'. mark_pages mark b e bm = Inr bm' \<and> length bm' = length bm \<and>
    (\<forall>k. bm_get bm' k = (if i \<le> k \<and> k < j then v else bm_get bm k))"
proof -
  have "page_loop_ends b e" using assms by (simp add: page_loop_ends_def)
  moreover have "\<forall>m\<in>set (page_range b e). unat m div 4096 < 8 * length bm"
    using frame_in_page_range [OF assms(3,4)] assms(5) by (metis imageI order_less_le_trans)
  ultimately show ?thesis
    using foldM_mark [OF assms(1,2), of "page_range b e"]
    unfolding mark_pages_def for_pages_def frame_in_page_range [OF assms(3,4)] by simp
qed

lemma aligned_bounds:
  assumes "entry_ok e"
  shows "unat (ALIGN_UP (entry_base e) 4096) = 4096 * first_frame e"
    and "unat (ALIGN_UP (entry_base e + entry_size e) 4096) = 4096 * end_frame e"
proof -
  have "unat (entry_base e + entry_size e) = unat (entry_base e) + unat (entry_size e)"
    using assms by (intro unat_add_small) (simp add: entry_ok_def)
  then show "unat (ALIGN_UP (entry_base e) 4096) = 4096 * first_frame e"
    "unat (ALIGN_UP (entry_base e + entry_size e) 4096) = 4096 * end_frame e"
    using assms
    by (simp_all add: entry_ok_def unat_ALIGN_UP_page first_frame_def end_frame_def mult.commute)
qed

text \<open>An entry that lies inside the bitmap sets the bits of its frames to its own status
  and changes no other bit.\<close>

lemma memmap_entry_spec:
  assumes "entry_ok e" and "end_frame e \<le> 8 * length (mm_bitmap acc)"
    and "8 * length (mm_bitmap acc) \<le> 2 ^ 32"
  shows "\<exists>acc'. memmap_entry e acc = Inr acc' \<and>
    length (mm_bitmap acc') = length (mm_bitmap acc) \<and>
    (\<forall>k. bm_get (mm_bitmap acc') k =
       (if covers k e then Type e \<noteq> 1 else bm_get (mm_bitmap acc) k)) \<and>
    unat (mem_top acc') = max (unat (mem_top acc)) (4096 * end_frame e) \<and>
    unat (usable_mem_top acc') =
      (if Type e = 1 then max (unat (usable_mem_top acc)) (4096 * end_frame e)
       else unat (usable_mem_top acc)) \<and>
    unat (total_usable_memory acc') =
      (if Type e = 1 then (unat (total_usable_memory acc) + unat (entry_size e)) mod 2 ^ 32
       else unat (total_usable_memory acc))"
proof -
  note b = aligned_bounds [OF assms(1)]
  obtain bm1 where 1: "mark_pages bitmap_clear (ALIGN_UP (entry_base e) 4096)
      (ALIGN_UP (entry_base e + entry_size e) 4096) (mm_bitmap acc) = Inr bm1"
      "length bm1 = length (mm_bitmap acc)"
      "\<forall>k. bm_get bm1 k = (if covers k e then False else bm_get (mm_bitmap acc) k)"
    using mark_pages_spec [OF marks_clear assms(3) b assms(2)] by (auto simp: covers_def)
  obtain bm2 where 2: "mark_pages bitmap_set (ALIGN_UP (entry_base e) 4096)
      (ALIGN_UP (entry_base e + entry_size e) 4096) (mm_bitmap acc) = Inr bm2"
      "length bm2 = length (mm_bitmap acc)"
      "\<forall>k. bm_get bm2 k = (if covers k e then True else bm_get (mm_bitmap acc) k)"
    using mark_pages_spec [OF marks_set assms(3) b assms(2)] by (auto simp: covers_def)
  have sum: "unat (ucast (ucast (total_usable_memory acc) + entry_size e :: u64) :: u32) =
      (unat (total_usable_memory acc) + unat (entry_size e)) mod 2 ^ 32"
  proof -
    have "unat (ucast (total_usable_memory acc) :: u64) = unat (total_usable_memory acc)"
      by (simp add: unsigned_ucast_eq take_bit_nat_eq_self less_trans [OF unat_lt2p])
    then show ?thesis
      by (simp add: unsigned_ucast_eq take_bit_eq_mod unat_word_ariths mod_mod_cancel)
  qed
  show ?thesis
    using 1 2 b sum by (simp add: memmap_entry_def Let_def word_less_nat_alt max_def not_less)
qed

definition usable_sum :: "MemmapEntry list \<Rightarrow> nat" where
  "usable_sum entries = sum_list (map (unat \<circ> entry_size) (filter (\<lambda>e. Type e = 1) entries))"

definition top_frame :: "MemmapEntry list \<Rightarrow> nat" where
  "top_frame entries = fold (\<lambda>e t. max t (end_frame e)) entries 0"

definition frame_status :: "MemmapEntry list \<Rightarrow> nat \<Rightarrow> bool option" where
  "frame_status entries k = map_option (\<lambda>e. Type e \<noteq> 1) (find (covers k) (rev entries))"

definition fits :: "MemmapEntry list \<Rightarrow> u8 list \<Rightarrow> bool" where
  "fits entries bm \<longleftrightarrow> 8 * length bm \<le> 2 ^ 32 \<and>
     (\<forall>e\<in>set entries. entry_ok e \<and> end_frame e \<le> 8 * length bm)"

lemma find_append: "find P (xs @ ys) = (case find P xs of None \<Rightarrow> find P ys | r \<Rightarrow> r)"
  by (induction xs) auto

text \<open>The loop after any prefix of the map.\<close>

lemma foldM_memmap_entry:
  assumes "fits entries bm"
  shows "\<exists>acc. foldM memmap_entry entries
      \<lparr>total_usable_memory = 0, mem_top = 0, usable_mem_top = 0, mm_bitmap = bm, mm_report = []\<rparr>
      = Inr acc \<and>
    length (mm_bitmap acc) = length bm \<and>
    (\<forall>k. bm_get (mm_bitmap acc) k = (case frame_status entries k of
        None \<Rightarrow> bm_get bm k | Some v \<Rightarrow> v)) \<and>
    unat (mem_top acc) = 4096 * top_frame entries \<and>
    unat (usable_mem_top acc) = 4096 * top_frame (filter (\<lambda>e. Type e = 1) entries) \<and>
    unat (total_usable_memory acc) = usable_sum entries mod 2 ^ 32"
  using assms
proof (induction entries rule: rev_induct)
  case Nil
  then show ?case by (simp add: frame_status_def top_frame_def usable_sum_def)
next
  case (snoc e es)
  then have "fits es bm" and e: "entry_ok e" "end_frame e \<le> 8 * length bm" "8 * length bm \<le> 2 ^ 32"
    by (simp_all add: fits_def)
  with snoc.IH obtain acc where acc: "foldM memmap_entry es
      \<lparr>total_usable_memory = 0, mem_top = 0, usable_mem_top = 0, mm_bitmap = bm, mm_report = []\<rparr>
      = Inr acc" "length (mm_bitmap acc) = length bm"
      "\<forall>k. bm_get (mm_bitmap acc) k = (case frame_status es k of
        None \<Rightarrow> bm_get bm k | Some v \<Rightarrow> v)"
      "unat (mem_top acc) = 4096 * top_frame es"
      "unat (usable_mem_top acc) = 4096 * top_frame (filter (\<lambda>e. Type e = 1) es)"
      "unat (total_usable_memory acc) = usable_sum es mod 2 ^ 32"
    by blast
  obtain acc' where acc': "memmap_entry e acc = Inr acc'"
      "length (mm_bitmap acc') = length (mm_bitmap acc)"
      "\<forall>k. bm_get (mm_bitmap acc') k =
         (if covers k e then Type e \<noteq> 1 else bm_get (mm_bitmap acc) k)"
      "unat (mem_top acc') = max (unat (mem_top acc)) (4096 * end_frame e)"
      "unat (usable_mem_top acc') = (if Type e = 1
         then max (unat (usable_mem_top acc)) (4096 * end_frame e) else unat (usable_mem_top acc))"
      "unat (total_usable_memory acc') = (if Type e = 1
         then (unat (total_usable_memory acc) + unat (entry_size e)) mod 2 ^ 32
         else unat (total_usable_memory acc))"
    using memmap_entry_spec [of e acc] e acc(2) by auto
  have st: "frame_status (es @ [e]) k = (if covers k e then Some (Type e \<noteq> 1) else frame_status es k)"
    for k by (simp add: frame_status_def)
  have tf: "top_frame (es @ [e]) = max (top_frame es) (end_frame e)" for es
    by (simp add: top_frame_def)
  have us: "usable_sum (es @ [e]) = usable_sum es + (if Type e = 1 then unat (entry_size e) else 0)"
    by (simp add: usable_sum_def)
  show ?case
    using acc acc' by (simp add: foldM_append st tf us mod_simps nat_mult_max_right)
qed

lemma foldM_mark_fault:
  assumes "marks v mark" and "\<forall>m\<in>set ms. unat (m :: u64) div 4096 < 2 ^ 32"
    and "\<exists>m\<in>set ms. 8 * length bm \<le> unat m div 4096"
  shows "foldM (\<lambda>m bm. checked (mark bm (ucast (m div 4096)))) ms bm = Inl Fault"
  using assms(2,3)
proof (induction ms arbitrary: bm)
  case Nil
  then show ?case by simp
next
  case (Cons m ms)
  have i: "unat (ucast (m div 4096 :: u64) :: u32) = unat m div 4096"
    using Cons.prems by (intro unat_page_index) auto
  show ?case
  proof (cases "unat m div 4096 < 8 * length bm")
    case True
    then obtain bm1 where 1: "mark bm (ucast (m div 4096)) = Some bm1" "length bm1 = length bm"
      using assms(1) i unfolding marks_def by metis
    then have "foldM (\<lambda>m bm. checked (mark bm (ucast (m div 4096)))) ms bm1 = Inl Fault"
      using Cons True by (intro Cons.IH) auto
    with 1 show ?thesis by (simp add: checked_def)
  next
    case False
    then have "mark bm (ucast (m div 4096)) = None"
      using assms(1) i unfolding marks_def by simp
    then show ?thesis by (simp add: checked_def)
  qed
qed

lemma mark_pages_fault:
  assumes "marks v mark" and "unat b = 4096 * i" and "unat e = 4096 * j"
    and "i < j" and "8 * length bm < j" and "j \<le> 2 ^ 32"
  shows "mark_pages mark b e bm = Inl Fault"
proof -
  note f = frame_in_page_range [OF assms(2,3)]
  have "page_loop_ends b e" using assms by (simp add: page_loop_ends_def)
  moreover have "\<forall>m\<in>set (page_range b e). unat m div 4096 < 2 ^ 32"
    using f assms(6) by (metis imageI order_less_le_trans)
  moreover have "j - 1 \<in> (\<lambda>m. unat m div 4096) ` set (page_range b e)"
    using f [of "j - 1"] assms(4) by auto
  then have "\<exists>m\<in>set (page_range b e). 8 * length bm \<le> unat m div 4096"
    using assms(5) by (auto intro!: bexI)
  ultimately show ?thesis
    using foldM_mark_fault [OF assms(1)] by (simp add: mark_pages_def for_pages_def)
qed

lemma memmap_entry_fault:
  assumes "entry_ok e" and "first_frame e < end_frame e" and "end_frame e \<le> 2 ^ 32"
    and "8 * length (mm_bitmap acc) < end_frame e"
  shows "memmap_entry e acc = Inl Fault"
  using mark_pages_fault [OF marks_clear aligned_bounds [OF assms(1)] assms(2,4,3)]
    mark_pages_fault [OF marks_set aligned_bounds [OF assms(1)] assms(2,4,3)]
  by (simp add: memmap_entry_def Let_def)

section \<open>Properties\<close>

text \<open>C12: when the map fits into the bitmap, \<open>memmap_bitmap_init\<close> returns, and the bit of
  every frame is the status of the last entry of the map that covers the frame (set unless
  the entry is usable memory), or unchanged when no entry covers it.\<close>

theorem memmap_bitmap_init_status:
  assumes "fits entries bm"
  shows "\<exists>res bm'. memmap_bitmap_init entries bm = Inr (res, bm') \<and> length bm' = length bm \<and>
    (\<forall>k. bm_get bm' k = (case find (covers k) (rev entries) of
       None \<Rightarrow> bm_get bm k | Some e \<Rightarrow> Type e \<noteq> 1))"
  using foldM_memmap_entry [OF assms]
  by (auto simp: memmap_bitmap_init_def frame_status_def option.case_eq_if option.map_sel)

definition memmap_example :: "MemmapEntry list" where
  "memmap_example =
     [\<lparr>BaseAddrLow = 0, BaseAddrHigh = 0, LengthLow = 0x9FC00, LengthHigh = 0, Type = 1\<rparr>,
      \<lparr>BaseAddrLow = 0x9FC00, BaseAddrHigh = 0, LengthLow = 0x400, LengthHigh = 0, Type = 2\<rparr>,
      \<lparr>BaseAddrLow = 0x100000, BaseAddrHigh = 0, LengthLow = 0x80000, LengthHigh = 0, Type = 1\<rparr>]"

lemma memmap_example_fits: "fits memmap_example (replicate 64 0xFF)"
  by (simp add: fits_def memmap_example_def entry_ok_def end_frame_def entry_base_def entry_size_def)

theorem memmap_bitmap_init_status_witness:
  "\<exists>res bm'. memmap_bitmap_init memmap_example (replicate 64 0xFF) = Inr (res, bm') \<and>
     \<not> bm_get bm' 0x9F \<and> bm_get bm' 0xA0 \<and> \<not> bm_get bm' 0x100"
proof -
  obtain res bm' where r: "memmap_bitmap_init memmap_example (replicate 64 0xFF) = Inr (res, bm')"
    and st: "\<forall>k. bm_get bm' k = (case find (covers k) (rev memmap_example) of
       None \<Rightarrow> bm_get (replicate 64 0xFF) k | Some e \<Rightarrow> Type e \<noteq> 1)"
    using memmap_bitmap_init_status [OF memmap_example_fits] by blast
  have "\<not> bm_get bm' 0x9F" "bm_get bm' 0xA0" "\<not> bm_get bm' 0x100"
    unfolding st [rule_format]
    by (simp_all add: memmap_example_def covers_def first_frame_def end_frame_def entry_base_def
        entry_size_def bm_get_def nth_Cons bit_numeral_rec)
  with r show ?thesis by blast
qed

text \<open>the totals. The usable memory is summed in 32 bits: the value returned is the
  sum of the lengths of the usable entries modulo \<open>2 ^ 32\<close>, although the result field has
  64 bits. The two tops are the highest page-aligned ends.\<close>

theorem memmap_bitmap_init_totals:
  assumes "fits entries bm" and "memmap_bitmap_init entries bm = Inr (res, bm')"
  shows "unat (memory_usable res) = usable_sum entries mod 2 ^ 32 \<and>
    unat (memory_top res) = 4096 * top_frame entries \<and>
    unat (memory_usable_top res) = 4096 * top_frame (filter (\<lambda>e. Type e = 1) entries)"
proof -
  have "unat (ucast (w :: u32) :: u64) = unat w" for w
    by (simp add: unsigned_ucast_eq take_bit_nat_eq_self less_trans [OF unat_lt2p])
  then show ?thesis
    using foldM_memmap_entry [OF assms(1)] assms(2) by (auto simp: memmap_bitmap_init_def)
qed

definition memmap_example_4g :: "MemmapEntry list" where
  "memmap_example_4g =
     [\<lparr>BaseAddrLow = 0, BaseAddrHigh = 0, LengthLow = 0x1000, LengthHigh = 0, Type = 1\<rparr>,
      \<lparr>BaseAddrLow = 0, BaseAddrHigh = 1, LengthLow = 0, LengthHigh = 1, Type = 1\<rparr>]"

theorem memmap_bitmap_init_totals_witness:
  "\<exists>res bm'. memmap_bitmap_init memmap_example_4g (replicate 262144 0xFF) = Inr (res, bm') \<and>
     unat (memory_usable res) = 0x1000 \<and> unat (memory_top res) = 0x200000000"
proof -
  have f: "fits memmap_example_4g (replicate 262144 0xFF)"
    by (simp add: fits_def memmap_example_4g_def entry_ok_def end_frame_def entry_base_def
        entry_size_def)
  obtain res bm' where r: "memmap_bitmap_init memmap_example_4g (replicate 262144 0xFF) = Inr (res, bm')"
    using foldM_memmap_entry [OF f] by (auto simp: memmap_bitmap_init_def)
  from memmap_bitmap_init_totals [OF f r] r show ?thesis
    by (simp add: memmap_example_4g_def usable_sum_def top_frame_def end_frame_def entry_base_def
        entry_size_def)
qed

text \<open>C14: an entry that reaches past the end of the bitmap is written past the end of the
  bitmap: nothing bounds the frames of an entry by the size of the bitmap, whatever precedes
  and follows the entry in the map.\<close>

theorem memmap_bitmap_init_overrun:
  assumes "fits es bm" and "entry_ok e" and "first_frame e < end_frame e"
    and "8 * length bm < end_frame e" and "end_frame e \<le> 2 ^ 32"
  shows "memmap_bitmap_init (es @ e # rest) bm = Inl Fault"
proof -
  obtain acc where "foldM memmap_entry es \<lparr>total_usable_memory = 0, mem_top = 0,
      usable_mem_top = 0, mm_bitmap = bm, mm_report = []\<rparr> = Inr acc"
    and "length (mm_bitmap acc) = length bm"
    using foldM_memmap_entry [OF assms(1)] by blast
  moreover from this have "memmap_entry e acc = Inl Fault"
    using assms by (intro memmap_entry_fault) simp_all
  ultimately show ?thesis by (simp add: memmap_bitmap_init_def foldM_append)
qed

definition high_entry :: MemmapEntry where
  "high_entry = \<lparr>BaseAddrLow = 0, BaseAddrHigh = 0xFD, LengthLow = 0, LengthHigh = 3, Type = 2\<rparr>"

theorem memmap_bitmap_init_overrun_witness:
  "memmap_bitmap_init (memmap_example @ [high_entry]) (replicate 64 0xFF) = Inl Fault"
  by (rule memmap_bitmap_init_overrun [OF memmap_example_fits])
     (simp_all add: high_entry_def entry_ok_def first_frame_def end_frame_def entry_base_def
        entry_size_def)

end
