(* ===== verification/Pmm.thy ===== *)
theory Pmm
  imports Bitmap
begin

text \<open>
  The physical memory manager of kernel/kernel/pmm.c: one bit per 4 KiB page frame. The
  record holds its two globals and the build configuration (\<open>debug\<close> is
  \<^verbatim>\<open>PRISTINE_DEBUG\<close>); the components built on it extend the record.
\<close>

section \<open>State and operations\<close>

abbreviation VMM_DEFAULT_PAGE_SIZE :: u64 where
  "VMM_DEFAULT_PAGE_SIZE \<equiv> 4096"

record pmm =
  debug :: bool
  pmm_bitmap :: "u8 list"
  pmm_bitmap_size :: u32

definition pmm_init :: "u8 list \<Rightarrow> u32 \<Rightarrow> 'a pmm_scheme \<Rightarrow> 'a pmm_scheme" where
  "pmm_init bitmap sz s = s\<lparr>pmm_bitmap := bitmap, pmm_bitmap_size := sz\<rparr>"

definition pmm_alloc :: "'a pmm_scheme \<Rightarrow> (u64 \<times> 'a pmm_scheme) kres" where
  "pmm_alloc s =
     andthen (bitmap_find (pmm_bitmap s) (pmm_bitmap_size s * 8)) (\<lambda>idx.
     andthen (panic_if (idx = -1) ''pmm_alloc: allocation failed, no memory left on device'') (\<lambda>_.
     andthen (when_debug (debug s)
       (andthen (checked (bitmap_test (pmm_bitmap s) idx)) (\<lambda>t.
          panic_if (t \<noteq> 0) ''pmm_alloc: bitmap_find returned already set index''))) (\<lambda>_.
     andthen (checked (bitmap_set (pmm_bitmap s) idx)) (\<lambda>bm.
       Inr (ucast idx * VMM_DEFAULT_PAGE_SIZE, s\<lparr>pmm_bitmap := bm\<rparr>)))))"

definition pmm_free :: "u64 \<Rightarrow> 'a pmm_scheme \<Rightarrow> 'a pmm_scheme kres" where
  "pmm_free page s =
     andthen (when_debug (debug s)
       (panic_if (page AND (VMM_DEFAULT_PAGE_SIZE - 1) \<noteq> 0) ''pmm_free: unaligned address'')) (\<lambda>_.
     let idx = ucast (page div VMM_DEFAULT_PAGE_SIZE) :: u32 in
     andthen (when_debug (debug s)
       (andthen (checked (bitmap_test (pmm_bitmap s) idx)) (\<lambda>t.
          panic_if (t = 0) ''pmm_free: double free''))) (\<lambda>_.
     andthen (checked (bitmap_clear (pmm_bitmap s) idx)) (\<lambda>bm.
       Inr (s\<lparr>pmm_bitmap := bm\<rparr>))))"

definition pmm_set_bitmap_size :: "u32 \<Rightarrow> 'a pmm_scheme \<Rightarrow> 'a pmm_scheme" where
  "pmm_set_bitmap_size sz s = s\<lparr>pmm_bitmap_size := sz\<rparr>"

fun count_clear :: "u8 list \<Rightarrow> nat list \<Rightarrow> u64 \<Rightarrow> u64 kres" where
  "count_clear bm [] count = Inr count"
| "count_clear bm (i # is) count =
     andthen (checked (bitmap_test bm (of_nat i))) (\<lambda>t.
       count_clear bm is (if t = 0 then count + 1 else count))"

definition pmm_get_free_page_count :: "'a pmm_scheme \<Rightarrow> u64 kres" where
  "pmm_get_free_page_count s = count_clear (pmm_bitmap s) [0..<unat (pmm_bitmap_size s * 8)] 0"

section \<open>Frames\<close>

text \<open>
  A frame number is in use when its bit is set. \<open>pmm_wf\<close>: the search never reads past
  the bitmap, and the count of pages fits 32 bits.
\<close>

definition frame_used :: "'a pmm_scheme \<Rightarrow> nat \<Rightarrow> bool" where
  "frame_used s k = bm_get (pmm_bitmap s) k"

definition page_used :: "'a pmm_scheme \<Rightarrow> u64 \<Rightarrow> bool" where
  "page_used s p = frame_used s (unat (p div VMM_DEFAULT_PAGE_SIZE))"

definition pmm_pages :: "'a pmm_scheme \<Rightarrow> nat" where
  "pmm_pages s = 8 * unat (pmm_bitmap_size s)"

definition pmm_wf :: "'a pmm_scheme \<Rightarrow> bool" where
  "pmm_wf s \<longleftrightarrow> pmm_pages s < 2 ^ 32 \<and> find_span (pmm_bitmap_size s * 8) \<le> length (pmm_bitmap s)"

definition free_frames :: "'a pmm_scheme \<Rightarrow> nat set" where
  "free_frames s = {k. k < pmm_pages s \<and> \<not> frame_used s k}"

definition frame_addr :: "nat \<Rightarrow> u64" where
  "frame_addr k = of_nat k * VMM_DEFAULT_PAGE_SIZE"

lemma free_frames_clear_set: "free_frames s = kbm.clear_set (pmm_pages s) (pmm_bitmap s)"
  by (simp add: free_frames_def kbm.clear_set_def frame_used_def)

lemma finite_free_frames [simp]: "finite (free_frames s)"
  by (simp add: free_frames_def)

lemma unat_bit_count: "pmm_wf s \<Longrightarrow> unat (pmm_bitmap_size s * 8) = pmm_pages s"
  by (simp add: pmm_wf_def pmm_pages_def unat_mult_small mult.commute)

lemma unat_frame_addr: "k < 2 ^ 32 \<Longrightarrow> unat (frame_addr k) = k * 4096"
  by (simp add: frame_addr_def unat_mult_small unat_of_nat_small)

lemma frame_addr_div: "k < 2 ^ 32 \<Longrightarrow> unat (frame_addr k div VMM_DEFAULT_PAGE_SIZE) = k"
  by (simp add: unat_div unat_frame_addr)

lemma frame_addr_inj: "j < 2 ^ 32 \<Longrightarrow> k < 2 ^ 32 \<Longrightarrow> frame_addr j = frame_addr k \<longleftrightarrow> j = k"
  by (metis frame_addr_div)

lemma page_used_frame_addr: "k < 2 ^ 32 \<Longrightarrow> page_used s (frame_addr k) = frame_used s k"
  by (simp add: page_used_def frame_addr_div)

lemma frame_addr_aligned: "k < 2 ^ 32 \<Longrightarrow> frame_addr k AND (VMM_DEFAULT_PAGE_SIZE - 1) = 0"
proof -
  assume "k < 2 ^ 32"
  have "frame_addr k = push_bit 12 (of_nat k)" by (simp add: frame_addr_def push_bit_eq_mult)
  moreover have "(4096 - 1 :: u64) = mask 12" by (simp add: mask_eq_exp_minus_1)
  ultimately show ?thesis by (auto simp: bit_eq_iff bit_simps)
qed

section \<open>Allocation and release\<close>

lemma pmm_alloc_take:
  assumes "pmm_wf s"
  shows "pmm_alloc s =
    andthen (kbm.take_bit_index (pmm_bitmap s) (pmm_bitmap_size s * 8)) (\<lambda>r.
      case r of
        None \<Rightarrow> Inl (KPanic ''pmm_alloc: allocation failed, no memory left on device'')
      | Some (k, bm) \<Rightarrow> Inr (frame_addr (unat k), s\<lparr>pmm_bitmap := bm\<rparr>))"
proof -
  let ?n = "pmm_bitmap_size s * 8" and ?bm = "pmm_bitmap s"
  have sp: "8 * find_span ?n \<le> 8 * length ?bm" using assms by (simp add: pmm_wf_def)
  obtain k where k: "bitmap_find ?bm ?n = Inr k" using kbm.find_defined [OF sp] by auto
  show ?thesis
  proof (cases "k = -1")
    case True
    then show ?thesis by (simp add: pmm_alloc_def kbm.take_bit_index_def k)
  next
    case False
    have cov: "unat k < 8 * length ?bm" and clear: "\<not> bm_get ?bm (unat k)"
      using kbm.find_hit [OF sp k False] kbm.span_covers [of ?n] sp by auto
    obtain t where t: "bitmap_test ?bm k = Some t" and "t = 0"
      using bitmap_test_eq [OF cov] clear by auto
    moreover obtain bm where "bitmap_set ?bm k = Some bm" using kbm.set_defined [of k ?bm] cov by auto
    ultimately show ?thesis
      using False by (simp add: pmm_alloc_def kbm.take_bit_index_def k frame_addr_def)
  qed
qed

lemma pmm_alloc_total:
  assumes "pmm_wf s" and "free_frames s \<noteq> {}"
  shows "\<exists>p s'. pmm_alloc s = Inr (p, s')"
proof -
  have sp: "8 * find_span (pmm_bitmap_size s * 8) \<le> 8 * length (pmm_bitmap s)"
    using assms by (simp add: pmm_wf_def)
  from kbm.take_bit_index_total [OF sp] obtain r
    where r: "kbm.take_bit_index (pmm_bitmap s) (pmm_bitmap_size s * 8) = Inr r" by auto
  moreover have "r \<noteq> None"
    using kbm.take_bit_index_None [OF sp] r assms
    by (simp add: unat_bit_count free_frames_clear_set)
  ultimately show ?thesis by (auto simp: pmm_alloc_take [OF assms(1)])
qed

lemma pmm_alloc_empty:
  assumes "pmm_wf s" and "free_frames s = {}"
  shows "pmm_alloc s = Inl (KPanic ''pmm_alloc: allocation failed, no memory left on device'')"
proof -
  have sp: "8 * find_span (pmm_bitmap_size s * 8) \<le> 8 * length (pmm_bitmap s)"
    using assms by (simp add: pmm_wf_def)
  have "kbm.take_bit_index (pmm_bitmap s) (pmm_bitmap_size s * 8) = Inr None"
    using kbm.take_bit_index_None [OF sp] assms by (simp add: unat_bit_count free_frames_clear_set)
  then show ?thesis by (simp add: pmm_alloc_take [OF assms(1)])
qed

text \<open>What a successful allocation changes: one bit, and nothing else of the state.\<close>

lemma pmm_allocE:
  assumes "pmm_wf s" and "pmm_alloc s = Inr (p, s')"
  obtains k bm where "p = frame_addr k" and "k = Min (free_frames s)" and "k \<in> free_frames s"
    and "s' = s\<lparr>pmm_bitmap := bm\<rparr>" and "length bm = length (pmm_bitmap s)"
    and "\<forall>j. frame_used s' j \<longleftrightarrow> j = k \<or> frame_used s j"
    and "pmm_wf s'" and "free_frames s' = free_frames s - {k}"
proof -
  have sp: "8 * find_span (pmm_bitmap_size s * 8) \<le> 8 * length (pmm_bitmap s)"
    using assms by (simp add: pmm_wf_def)
  from assms(2) obtain k bm
    where r: "kbm.take_bit_index (pmm_bitmap s) (pmm_bitmap_size s * 8) = Inr (Some (k, bm))"
      and p: "p = frame_addr (unat k)" and s': "s' = s\<lparr>pmm_bitmap := bm\<rparr>"
    unfolding pmm_alloc_take [OF assms(1)] by (auto simp: andthen_eq_Inr_iff split: option.splits)
  note t = kbm.take_bit_index_Some [OF sp r]
  have mem: "unat k \<in> free_frames s"
    using t(1,2) assms(1) by (simp add: free_frames_def unat_bit_count frame_used_def)
  have "unat k = Min (free_frames s)"
  proof (rule Min_eqI [symmetric, OF _ _ mem])
    fix j
    assume "j \<in> free_frames s"
    then have "\<not> bm_get (pmm_bitmap s) j" by (simp add: free_frames_def frame_used_def)
    then show "unat k \<le> j" using t(3) [of j] by (meson not_less)
  qed simp
  moreover have "\<forall>j. frame_used s' j \<longleftrightarrow> j = unat k \<or> frame_used s j"
    using t(4) by (simp add: frame_used_def s')
  moreover have "pmm_wf s'" using assms(1) t(5) by (simp add: pmm_wf_def s' pmm_pages_def)
  moreover have "free_frames s' = free_frames s - {unat k}"
    using t(4) by (auto simp: free_frames_def frame_used_def s' pmm_pages_def)
  ultimately show ?thesis using that p s' t(5) mem by auto
qed

lemma pmm_alloc_result:
  assumes "pmm_wf s" and "pmm_alloc s = Inr (p, s')"
  shows "p = frame_addr (Min (free_frames s)) \<and> pmm_wf s' \<and>
    free_frames s' = free_frames s - {Min (free_frames s)} \<and>
    (\<forall>k. frame_used s' k \<longleftrightarrow> k = Min (free_frames s) \<or> frame_used s k)"
  using assms by (rule pmm_allocE) simp

lemma pmm_pages_lt: "pmm_wf s \<Longrightarrow> k \<in> free_frames s \<Longrightarrow> k < 2 ^ 32"
  by (auto simp: pmm_wf_def free_frames_def)

lemma frame_idx: "k < 2 ^ 32 \<Longrightarrow> unat (ucast (frame_addr k div VMM_DEFAULT_PAGE_SIZE) :: u32) = k"
  by (simp add: unsigned_ucast_eq frame_addr_div take_bit_nat_eq_self)

lemma pmm_freeE:
  assumes "k < 2 ^ 32" and "frame_used s k"
  obtains bm where "pmm_free (frame_addr k) s = Inr (s\<lparr>pmm_bitmap := bm\<rparr>)"
    and "length bm = length (pmm_bitmap s)"
    and "\<forall>j. frame_used (s\<lparr>pmm_bitmap := bm\<rparr>) j \<longleftrightarrow> j \<noteq> k \<and> frame_used s j"
proof -
  let ?idx = "ucast (frame_addr k div VMM_DEFAULT_PAGE_SIZE) :: u32"
  have k: "unat ?idx < 8 * length (pmm_bitmap s)"
    using assms bm_get_length by (simp add: frame_idx frame_used_def)
  obtain t where "bitmap_test (pmm_bitmap s) ?idx = Some t" and "t \<noteq> 0"
    using bitmap_test_eq [OF k] assms by (auto simp: frame_idx frame_used_def)
  moreover obtain bm where bm: "bitmap_clear (pmm_bitmap s) ?idx = Some bm"
    using kbm.clear_defined k by blast
  ultimately have "pmm_free (frame_addr k) s = Inr (s\<lparr>pmm_bitmap := bm\<rparr>)"
    using frame_addr_aligned [OF assms(1)] by (simp add: pmm_free_def Let_def)
  moreover have "\<forall>j. frame_used (s\<lparr>pmm_bitmap := bm\<rparr>) j \<longleftrightarrow> j \<noteq> k \<and> frame_used s j"
    using bm_get_clear [OF bm] assms by (auto simp: frame_used_def frame_idx)
  moreover have "length bm = length (pmm_bitmap s)" by (rule bitmap_clear_length [OF bm])
  ultimately show ?thesis using that by blast
qed

section \<open>The allocator as an interface\<close>

text \<open>
  What the virtual memory manager, the slab allocator and process creation rely on: an
  allocation yields a page of the managed range that was free, marks it used and changes
  no other page; a release undoes it.
\<close>

locale frame_allocator =
  fixes alloc :: "'s \<Rightarrow> (u64 \<times> 's) kres"
    and release :: "u64 \<Rightarrow> 's \<Rightarrow> 's kres"
    and used :: "'s \<Rightarrow> u64 \<Rightarrow> bool"
    and pages :: "'s \<Rightarrow> u64 set"
    and invar :: "'s \<Rightarrow> bool"
  assumes alloc_page: "invar s \<Longrightarrow> alloc s = Inr (p, s') \<Longrightarrow> p \<in> pages s \<and> \<not> used s p"
    and alloc_used: "invar s \<Longrightarrow> alloc s = Inr (p, s') \<Longrightarrow> q \<in> pages s \<Longrightarrow>
      used s' q \<longleftrightarrow> q = p \<or> used s q"
    and alloc_invar: "invar s \<Longrightarrow> alloc s = Inr (p, s') \<Longrightarrow> invar s' \<and> pages s' = pages s"
    and alloc_progress: "invar s \<Longrightarrow> p \<in> pages s \<Longrightarrow> \<not> used s p \<Longrightarrow> \<exists>r. alloc s = Inr r"
    and release_ok: "invar s \<Longrightarrow> p \<in> pages s \<Longrightarrow> used s p \<Longrightarrow>
      \<exists>s'. release p s = Inr s' \<and> invar s' \<and> pages s' = pages s \<and>
        (\<forall>q \<in> pages s. used s' q \<longleftrightarrow> q \<noteq> p \<and> used s q)"
begin

fun alloc_n :: "nat \<Rightarrow> 's \<Rightarrow> (u64 list \<times> 's) kres" where
  "alloc_n 0 s = Inr ([], s)"
| "alloc_n (Suc n) s = andthen (alloc s) (\<lambda>(p, s'). andthen (alloc_n n s') (\<lambda>(ps, s''). Inr (p # ps, s'')))"

lemma alloc_n_distinct:
  assumes "invar s" and "alloc_n n s = Inr (ps, s')"
  shows "length ps = n \<and> distinct ps \<and> set ps \<subseteq> pages s \<and> (\<forall>p \<in> set ps. \<not> used s p) \<and>
    invar s' \<and> pages s' = pages s \<and> (\<forall>q \<in> pages s. used s' q \<longleftrightarrow> q \<in> set ps \<or> used s q)"
  using assms
proof (induction n arbitrary: s ps)
  case 0
  then show ?case by simp
next
  case (Suc n)
  from Suc.prems(2) obtain p t qs where a: "alloc s = Inr (p, t)" and n: "alloc_n n t = Inr (qs, s')"
    and ps: "ps = p # qs"
    by (auto simp: andthen_eq_Inr_iff)
  note inv = alloc_invar [OF Suc.prems(1) a]
  note IH = Suc.IH [OF conjunct1 [OF inv] n]
  note u = alloc_used [OF Suc.prems(1) a] and pg = alloc_page [OF Suc.prems(1) a]
  have "p \<notin> set qs" using IH u pg inv by blast
  moreover have "\<forall>q \<in> set qs. \<not> used s q" using IH u inv by blast
  ultimately show ?case using IH u pg inv ps by auto
qed

lemma release_all:
  assumes "invar s" and "set ps \<subseteq> pages s" and "distinct ps" and "\<forall>p \<in> set ps. used s p"
  shows "\<exists>s'. foldM release ps s = Inr s' \<and> invar s' \<and> pages s' = pages s \<and>
    (\<forall>q \<in> pages s. used s' q \<longleftrightarrow> q \<notin> set ps \<and> used s q)"
  using assms
proof (induction ps arbitrary: s)
  case Nil
  then show ?case by simp
next
  case (Cons p ps)
  from Cons.prems release_ok [of s p] obtain t where t: "release p s = Inr t" "invar t"
    "pages t = pages s" "\<forall>q \<in> pages s. used t q \<longleftrightarrow> q \<noteq> p \<and> used s q" by auto
  have "\<forall>q \<in> set ps. used t q" using Cons.prems t(4) by auto
  then obtain s' where "foldM release ps t = Inr s'" "invar s'" "pages s' = pages t"
    "\<forall>q \<in> pages t. used s' q \<longleftrightarrow> q \<notin> set ps \<and> used t q"
    using Cons.IH [of t] Cons.prems t by auto
  then show ?case using t by auto
qed

lemma alloc_n_release_all:
  assumes "invar s" and "alloc_n n s = Inr (ps, s')"
  shows "\<exists>s''. foldM release ps s' = Inr s'' \<and> (\<forall>q \<in> pages s. used s'' q = used s q)"
proof -
  note a = alloc_n_distinct [OF assms]
  have "\<forall>p \<in> set ps. used s' p" using a by blast
  then obtain s'' where "foldM release ps s' = Inr s''"
    "\<forall>q \<in> pages s'. used s'' q \<longleftrightarrow> q \<notin> set ps \<and> used s' q"
    using release_all [of s' ps] a by auto
  then show ?thesis using a by auto
qed

end

definition managed_pages :: "'a pmm_scheme \<Rightarrow> u64 set" where
  "managed_pages s = frame_addr ` {..<pmm_pages s}"

lemma managed_pagesE:
  assumes "p \<in> managed_pages s" and "pmm_wf s"
  obtains k where "p = frame_addr k" and "k < pmm_pages s" and "k < 2 ^ 32"
    and "page_used s p = frame_used s k"
  using assms by (auto simp: managed_pages_def pmm_wf_def page_used_frame_addr)

interpretation pmm: frame_allocator pmm_alloc pmm_free page_used managed_pages pmm_wf
proof (unfold_locales, goal_cases)
  case (1 s p s')
  from pmm_allocE [OF 1] show ?case
    by (metis (no_types, lifting) free_frames_def lessThan_iff image_eqI managed_pages_def
        mem_Collect_eq page_used_frame_addr pmm_pages_lt 1(1))
next
  case (2 s p s' q)
  from 2(3,1) obtain j where j: "q = frame_addr j" "j < 2 ^ 32" "j < pmm_pages s"
    by (rule managed_pagesE)
  from pmm_allocE [OF 2(1,2)] obtain k where k: "p = frame_addr k" "k \<in> free_frames s"
    "\<And>j. frame_used s' j \<longleftrightarrow> j = k \<or> frame_used s j" by metis
  have "k < 2 ^ 32" using 2(1) k(2) by (rule pmm_pages_lt)
  then show ?case using j k by (simp add: page_used_frame_addr frame_addr_inj)
next
  case (3 s p s')
  from pmm_allocE [OF 3] show ?case by (metis managed_pages_def pmm.update_convs(2) pmm.surjective pmm_pages_def pmm.select_convs(3))
next
  case (4 s p)
  from 4(2,1) obtain k where "p = frame_addr k" "k < pmm_pages s" "page_used s p = frame_used s k"
    by (rule managed_pagesE)
  then have "k \<in> free_frames s" using 4 by (simp add: free_frames_def)
  then show ?case using pmm_alloc_total [OF 4(1)] by auto
next
  case (5 s p)
  from 5(2,1) obtain k where k: "p = frame_addr k" "k < pmm_pages s" "k < 2 ^ 32"
    "page_used s p = frame_used s k" by (rule managed_pagesE)
  from pmm_freeE [of k s] obtain bm where f: "pmm_free p s = Inr (s\<lparr>pmm_bitmap := bm\<rparr>)"
    "length bm = length (pmm_bitmap s)"
    "\<And>j. frame_used (s\<lparr>pmm_bitmap := bm\<rparr>) j \<longleftrightarrow> j \<noteq> k \<and> frame_used s j"
    using k 5 by metis
  have w: "pmm_wf (s\<lparr>pmm_bitmap := bm\<rparr>)" using 5(1) f(2) by (simp add: pmm_wf_def pmm_pages_def)
  have "page_used (s\<lparr>pmm_bitmap := bm\<rparr>) q \<longleftrightarrow> q \<noteq> p \<and> page_used s q" if q: "q \<in> managed_pages s" for q
    using managed_pagesE [OF q 5(1)] f(3) k by (metis frame_addr_inj page_used_frame_addr)
  then show ?case using f(1) w by (auto simp: managed_pages_def pmm_pages_def)
qed

section \<open>Properties\<close>

text \<open>C10: \<open>pmm_alloc\<close> on a well-formed bitmap either finds no free frame below the
  bitmap size and panics, or returns the address of the lowest free frame, marks exactly
  that frame used and keeps the bitmap well formed, in debug and release builds alike.\<close>

theorem pmm_alloc_correct:
  assumes "pmm_wf s"
  shows "if free_frames s = {}
    then pmm_alloc s = Inl (KPanic ''pmm_alloc: allocation failed, no memory left on device'')
    else \<exists>s'. pmm_alloc s = Inr (frame_addr (Min (free_frames s)), s') \<and> pmm_wf s' \<and>
      free_frames s' = free_frames s - {Min (free_frames s)} \<and>
      (\<forall>k. frame_used s' k \<longleftrightarrow> k = Min (free_frames s) \<or> frame_used s k)"
proof (cases "free_frames s = {}")
  case True
  then show ?thesis using pmm_alloc_empty [OF assms] by simp
next
  case False
  from pmm_alloc_total [OF assms False] obtain p s' where a: "pmm_alloc s = Inr (p, s')" by auto
  then show ?thesis using pmm_alloc_result [OF assms a] False by simp
qed

definition pmm_example :: pmm where
  "pmm_example = \<lparr>debug = True, pmm_bitmap = [255, 251, 0, 0, 0, 0, 0, 0], pmm_bitmap_size = 3\<rparr>"

lemma pmm_example_wf: "pmm_wf pmm_example"
  by (simp add: pmm_wf_def pmm_example_def pmm_pages_def find_span_def)

lemma pmm_example_free: "free_frames pmm_example = {10, 16, 17, 18, 19, 20, 21, 22, 23}"
proof -
  have "free_frames pmm_example = set (filter (\<lambda>k. \<not> frame_used pmm_example k) [0..<24])"
    by (auto simp: free_frames_def pmm_pages_def pmm_example_def)
  also have "filter (\<lambda>k. \<not> frame_used pmm_example k) [0..<24] = [10, 16, 17, 18, 19, 20, 21, 22, 23]"
    by code_simp
  finally show ?thesis by simp
qed

theorem pmm_alloc_correct_witness:
  "\<exists>s'. pmm_alloc pmm_example = Inr (frame_addr 10, s') \<and> frame_used s' 10 \<and> \<not> frame_used s' 16"
proof -
  have "Min (free_frames pmm_example) = 10" by (simp add: pmm_example_free)
  moreover have "16 \<in> free_frames pmm_example" by (simp add: pmm_example_free)
  then have "\<not> frame_used pmm_example 16" by (simp add: free_frames_def)
  ultimately show ?thesis
    using pmm_alloc_correct [OF pmm_example_wf] by (auto simp: pmm_example_free)
qed

text \<open>freeing a page that was just allocated restores the whole state: the release
  succeeds in both builds and the bitmap is bit for bit what it was before the
  allocation.\<close>

theorem pmm_alloc_free_roundtrip:
  assumes "pmm_wf s" and "pmm_alloc s = Inr (p, s')"
  shows "pmm_free p s' = Inr s"
proof -
  from assms obtain k bm where k: "p = frame_addr k" and "k = Min (free_frames s)"
    and kf: "k \<in> free_frames s"
    and s': "s' = s\<lparr>pmm_bitmap := bm\<rparr>" "length bm = length (pmm_bitmap s)"
    and u: "\<forall>j. frame_used s' j \<longleftrightarrow> j = k \<or> frame_used s j"
    and "pmm_wf s'" and "free_frames s' = free_frames s - {k}"
    by (rule pmm_allocE)
  have "k < 2 ^ 32" using assms(1) kf by (rule pmm_pages_lt)
  moreover have "frame_used s' k" by (simp add: u)
  ultimately obtain bm' where f: "pmm_free p s' = Inr (s'\<lparr>pmm_bitmap := bm'\<rparr>)"
    and l: "length bm' = length (pmm_bitmap s')"
    and v: "\<forall>j. frame_used (s'\<lparr>pmm_bitmap := bm'\<rparr>) j \<longleftrightarrow> j \<noteq> k \<and> frame_used s' j"
    unfolding k by (rule pmm_freeE)
  have "bm' = pmm_bitmap s"
  proof (rule bm_eqI)
    show "length bm' = length (pmm_bitmap s)" using l s' by simp
    show "bm_get bm' j = bm_get (pmm_bitmap s) j" for j
      using v u kf by (auto simp: frame_used_def free_frames_def)
  qed
  then show ?thesis using f s' by simp
qed

theorem pmm_alloc_free_roundtrip_witness:
  "\<exists>p s'. pmm_alloc pmm_example = Inr (p, s') \<and> pmm_free p s' = Inr pmm_example"
proof -
  obtain p s' where "pmm_alloc pmm_example = Inr (p, s')"
    using pmm_alloc_total [OF pmm_example_wf] by (auto simp: pmm_example_free)
  then show ?thesis using pmm_alloc_free_roundtrip [OF pmm_example_wf] by blast
qed

text \<open>\<open>n\<close> allocations in a row return \<open>n\<close> pairwise different pages that were all
  free before, and releasing them in order succeeds and leaves exactly the pages used
  that were used before.\<close>

theorem pmm_alloc_n_distinct_release:
  assumes "pmm_wf s" and "pmm.alloc_n n s = Inr (ps, s')"
  shows "length ps = n \<and> distinct ps \<and> set ps \<subseteq> managed_pages s \<and>
    (\<forall>p \<in> set ps. \<not> page_used s p \<and> page_used s' p) \<and>
    (\<exists>s''. foldM pmm_free ps s' = Inr s'' \<and> (\<forall>q \<in> managed_pages s. page_used s'' q = page_used s q))"
  using pmm.alloc_n_distinct [OF assms] pmm.alloc_n_release_all [OF assms] by blast

theorem pmm_alloc_n_distinct_release_witness:
  "\<exists>p q s'. pmm.alloc_n 2 pmm_example = Inr ([p, q], s') \<and> p \<noteq> q \<and> \<not> page_used pmm_example q"
proof -
  obtain p s1 where a: "pmm_alloc pmm_example = Inr (p, s1)"
    using pmm_alloc_total [OF pmm_example_wf] by (auto simp: pmm_example_free)
  have "pmm_wf s1 \<and> free_frames s1 = {16, 17, 18, 19, 20, 21, 22, 23}"
    using pmm_alloc_result [OF pmm_example_wf a] by (simp add: pmm_example_free)
  then obtain q s2 where b: "pmm_alloc s1 = Inr (q, s2)" using pmm_alloc_total [of s1] by auto
  have n: "pmm.alloc_n 2 pmm_example = Inr ([p, q], s2)" by (simp add: numeral_2_eq_2 a b)
  show ?thesis using n pmm_alloc_n_distinct_release [OF pmm_example_wf n] by auto
qed

lemma count_clear_spec:
  assumes "\<And>i. i \<in> set is \<Longrightarrow> i < 8 * length bm" and "8 * length bm \<le> 2 ^ 32"
  shows "count_clear bm is c = Inr (c + of_nat (length (filter (\<lambda>i. \<not> bm_get bm i) is)))"
  using assms(1)
proof (induction "is" arbitrary: c)
  case Nil
  then show ?case by simp
next
  case (Cons i "is")
  have i: "i < 8 * length bm" using Cons.prems by simp
  have "i < 2 ^ LENGTH(32)" using i assms(2) by simp
  then have u: "unat (of_nat i :: u32) = i" by (rule unat_of_nat_small)
  have lt: "unat (of_nat i :: u32) < 8 * length bm" unfolding u by (rule i)
  obtain t where "bitmap_test bm (of_nat i) = Some t" and "t \<noteq> 0 \<longleftrightarrow> bm_get bm i"
    using bitmap_test_eq [OF lt] unfolding u by auto
  moreover have "count_clear bm is c' = Inr (c' + of_nat (length (filter (\<lambda>i. \<not> bm_get bm i) is)))" for c'
    using Cons by simp
  ultimately show ?case by (cases "bm_get bm i") (simp_all add: add.assoc add.commute)
qed

text \<open>\<open>pmm_get_free_page_count\<close> counts exactly the free frames below the bitmap
  size.\<close>

theorem pmm_free_count_correct:
  assumes "pmm_pages s \<le> 8 * length (pmm_bitmap s)" and "8 * length (pmm_bitmap s) \<le> 2 ^ 32"
    and "pmm_pages s < 2 ^ 32"
  shows "pmm_get_free_page_count s = Inr (of_nat (card (free_frames s)))"
proof -
  have "unat (pmm_bitmap_size s * 8) = pmm_pages s"
    using assms(3) by (simp add: pmm_pages_def unat_mult_small mult.commute)
  moreover have "count_clear (pmm_bitmap s) [0..<pmm_pages s] 0
      = Inr (of_nat (length (filter (\<lambda>i. \<not> bm_get (pmm_bitmap s) i) [0..<pmm_pages s])))"
    using count_clear_spec [of "[0..<pmm_pages s]" "pmm_bitmap s" 0] assms by auto
  moreover have "card (free_frames s) = length (filter (\<lambda>i. \<not> bm_get (pmm_bitmap s) i) [0..<pmm_pages s])"
  proof -
    have "free_frames s = set (filter (\<lambda>i. \<not> bm_get (pmm_bitmap s) i) [0..<pmm_pages s])"
      by (auto simp: free_frames_def frame_used_def)
    then show ?thesis by (simp only: distinct_card distinct_filter distinct_upt)
  qed
  ultimately show ?thesis by (simp add: pmm_get_free_page_count_def)
qed

theorem pmm_free_count_correct_witness:
  "pmm_get_free_page_count pmm_example = Inr 9"
proof -
  have "pmm_get_free_page_count pmm_example = Inr (of_nat (card (free_frames pmm_example)))"
    by (rule pmm_free_count_correct) (simp_all add: pmm_example_def pmm_pages_def)
  then show ?thesis by (simp add: pmm_example_free)
qed

text \<open>in a debug build a release of a page whose bit is clear (a double free) or of
  an address that is not page aligned never changes the bitmap: it panics.\<close>

theorem pmm_free_debug_panics:
  assumes "debug s" and "unat p < 4096 * (8 * length (pmm_bitmap s))"
    and "8 * length (pmm_bitmap s) \<le> 2 ^ 32"
    and "p AND 4095 \<noteq> 0 \<or> \<not> page_used s p"
  shows "\<exists>m. pmm_free p s = Inl (KPanic m)"
proof (cases "p AND 4095 \<noteq> 0")
  case True
  then show ?thesis using assms(1) by (simp add: pmm_free_def)
next
  case False
  have d: "unat (p div 4096) = unat p div 4096" by (simp add: unat_div)
  then have lt: "unat (p div 4096) < 8 * length (pmm_bitmap s)"
    using assms(2) by (simp add: div_less_iff_less_mult mult.commute)
  then have u: "unat (ucast (p div 4096) :: u32) = unat (p div 4096)"
    using assms(3) by (simp add: unsigned_ucast_eq take_bit_nat_eq_self)
  have "\<not> bm_get (pmm_bitmap s) (unat (p div 4096))"
    using False assms(4) by (simp add: page_used_def frame_used_def)
  then obtain t where "bitmap_test (pmm_bitmap s) (ucast (p div 4096)) = Some t" and "t = 0"
    using bitmap_test_eq [of "ucast (p div 4096)" "pmm_bitmap s"] lt unfolding u by auto
  then show ?thesis using assms(1) False by (simp add: pmm_free_def Let_def)
qed

theorem pmm_free_debug_panics_witness:
  "(\<exists>m. pmm_free 40960 pmm_example = Inl (KPanic m)) \<and> (\<exists>m. pmm_free 5 pmm_example = Inl (KPanic m))"
proof
  have "\<not> page_used pmm_example 40960" by code_simp
  then show "\<exists>m. pmm_free 40960 pmm_example = Inl (KPanic m)"
    by (intro pmm_free_debug_panics) (simp_all add: pmm_example_def)
  show "\<exists>m. pmm_free 5 pmm_example = Inl (KPanic m)"
    by (intro pmm_free_debug_panics) (simp_all add: pmm_example_def)
qed

end
