(* ===== verification/Vmm.thy ===== *)
theory Vmm
  imports Pmm
begin

text \<open>
  The virtual memory manager of kernel/kernel/vmm.c on four-level page tables.

  The state extends the one of the physical allocator by the physical memory (64-bit words
  at their byte address), the CR3 register and the pages flushed with \<^verbatim>\<open>invlpg\<close>. Pointers to
  tables are the addresses the code computes, in the direct map at \<open>PMM_HHDM_START\<close>; a
  table word is read and written through them.

  The block \<^verbatim>\<open>if (table[i] == 0) { allocate, link, clear } else { descend }\<close> that the code
  repeats per level is \<open>next_table\<close>, its panicking form in the unmap functions
  \<open>existing_table\<close>.

  The specification is the walk of the processor, \<open>hw_walk\<close>. The lemmas show that the
  tables of an address space stay a tree of distinct used frames, and what each operation
  does to the translation of every address.
\<close>

unbundle bit_operations_syntax

section \<open>State and operations\<close>

record vmm = pmm +
  phys_mem :: "u64 \<Rightarrow> u64"
  cr3 :: u64
  invlpg_log :: "u64 list"

definition PMM_HHDM_START :: u64 where
  "PMM_HHDM_START = 0xFFFF800000000000"

definition phys_to_virt :: "u64 \<Rightarrow> u64" where
  "phys_to_virt phys = phys + PMM_HHDM_START"

definition virt_to_phys :: "u64 \<Rightarrow> u64" where
  "virt_to_phys virt = virt - PMM_HHDM_START"

abbreviation VMM_LARGE_PAGE_SIZE :: u64 where
  "VMM_LARGE_PAGE_SIZE \<equiv> 0x200000"

abbreviation VMM_HUGE_PAGE_SIZE :: u64 where
  "VMM_HUGE_PAGE_SIZE \<equiv> 0x40000000"

definition VMM_PTE_ADDR_MASK :: u64 where
  "VMM_PTE_ADDR_MASK = 0x000FFFFFFFFFF000"

abbreviation VMM_FLAGS_PRESENT :: u64 where
  "VMM_FLAGS_PRESENT \<equiv> 0x01"

abbreviation VMM_FLAG_USER :: u64 where
  "VMM_FLAG_USER \<equiv> 0x04"

abbreviation VMM_PS_FLAG :: u64 where
  "VMM_PS_FLAG \<equiv> 0x80"

definition VMM_PML4_IDX :: "u64 \<Rightarrow> u16" where
  "VMM_PML4_IDX addr = ucast (drop_bit 39 addr AND 0x1FF)"

definition VMM_PDPT_IDX :: "u64 \<Rightarrow> u16" where
  "VMM_PDPT_IDX addr = ucast (drop_bit 30 addr AND 0x1FF)"

definition VMM_PD_IDX :: "u64 \<Rightarrow> u16" where
  "VMM_PD_IDX addr = ucast (drop_bit 21 addr AND 0x1FF)"

definition VMM_PT_IDX :: "u64 \<Rightarrow> u16" where
  "VMM_PT_IDX addr = ucast (drop_bit 12 addr AND 0x1FF)"

text \<open>\<open>table[i]\<close> read and written, and the \<^verbatim>\<open>memset\<close> of a page.\<close>

definition peek :: "'a vmm_scheme \<Rightarrow> u64 \<Rightarrow> u16 \<Rightarrow> u64" where
  "peek s table i = phys_mem s (virt_to_phys (table + 8 * ucast i))"

definition poke :: "u64 \<Rightarrow> u16 \<Rightarrow> u64 \<Rightarrow> 'a vmm_scheme \<Rightarrow> 'a vmm_scheme" where
  "poke table i v s = s\<lparr>phys_mem := (phys_mem s)(virt_to_phys (table + 8 * ucast i) := v)\<rparr>"

definition memset_page :: "u64 \<Rightarrow> 'a vmm_scheme \<Rightarrow> 'a vmm_scheme" where
  "memset_page table s =
     s\<lparr>phys_mem := (\<lambda>a. if a - virt_to_phys table < 4096 then 0 else phys_mem s a)\<rparr>"

definition vmm_invlpg :: "u64 \<Rightarrow> 'a vmm_scheme \<Rightarrow> 'a vmm_scheme" where
  "vmm_invlpg a s = s\<lparr>invlpg_log := invlpg_log s @ [a]\<rparr>"

definition vmm_init :: "'a vmm_scheme \<Rightarrow> (u64 \<times> 'a vmm_scheme) kres" where
  "vmm_init s = andthen (pmm_alloc s) (\<lambda>(p, s).
     let pml4 = phys_to_virt p in Inr (pml4, memset_page pml4 s))"

definition table_flags :: "u64 \<Rightarrow> u64" where
  "table_flags flags = (if flags AND VMM_FLAG_USER \<noteq> 0 then 0x07 else 0x03)"

definition next_table :: "u64 \<Rightarrow> u64 \<Rightarrow> u16 \<Rightarrow> 'a vmm_scheme \<Rightarrow> (u64 \<times> 'a vmm_scheme) kres" where
  "next_table iflags table i s =
     (if peek s table i = 0
      then andthen (pmm_alloc s) (\<lambda>(p, s).
             let s = poke table i (p OR iflags) s;
                 t = phys_to_virt p
             in Inr (t, memset_page t s))
      else Inr (phys_to_virt (peek s table i AND VMM_PTE_ADDR_MASK), s))"

definition existing_table :: "string \<Rightarrow> u64 \<Rightarrow> u16 \<Rightarrow> 'a vmm_scheme \<Rightarrow> u64 kres" where
  "existing_table missing table i s =
     andthen (panic_if (peek s table i = 0) missing) (\<lambda>_.
       Inr (phys_to_virt (peek s table i AND VMM_PTE_ADDR_MASK)))"

definition vmm_map :: "u64 \<Rightarrow> u64 \<Rightarrow> u64 \<Rightarrow> u64 \<Rightarrow> 'a vmm_scheme \<Rightarrow> 'a vmm_scheme kres" where
  "vmm_map pml4 phys virt flags s =
     andthen (when_debug (debug s) (andthen
       (panic_if (\<not> is_aligned phys VMM_DEFAULT_PAGE_SIZE) ''vmm_map: unaligned physical address'') (\<lambda>_.
       panic_if (\<not> is_aligned virt VMM_DEFAULT_PAGE_SIZE) ''vmm_map: unaligned virtual address''))) (\<lambda>_.
     let iflags = table_flags flags in
     andthen (next_table iflags pml4 (VMM_PML4_IDX virt) s) (\<lambda>(pdpt, s).
     andthen (next_table iflags pdpt (VMM_PDPT_IDX virt) s) (\<lambda>(pd, s).
     andthen (next_table iflags pd (VMM_PD_IDX virt) s) (\<lambda>(pt, s).
     andthen (when_debug (debug s)
       (panic_if (peek s pt (VMM_PT_IDX virt) \<noteq> 0) ''vmm_map: mapping already exists'')) (\<lambda>_.
     Inr (poke pt (VMM_PT_IDX virt) (phys OR flags) s))))))"

definition vmm_unmap :: "u64 \<Rightarrow> u64 \<Rightarrow> 'a vmm_scheme \<Rightarrow> 'a vmm_scheme kres" where
  "vmm_unmap pml4 virt s =
     andthen (when_debug (debug s)
       (panic_if (\<not> is_aligned virt VMM_DEFAULT_PAGE_SIZE) ''vmm_unmap: unaligned virtual address'')) (\<lambda>_.
     andthen (existing_table ''vmm_unmap: PDPT table doesn't exist'' pml4 (VMM_PML4_IDX virt) s) (\<lambda>pdpt.
     andthen (panic_if (peek s pdpt (VMM_PDPT_IDX virt) = 0) ''vmm_unmap: PD table doesn't exist'') (\<lambda>_.
     andthen (when_debug (debug s) (panic_if (peek s pdpt (VMM_PDPT_IDX virt) AND VMM_PS_FLAG \<noteq> 0)
       ''vmm_unmap: mapping is mapped as huge'')) (\<lambda>_.
     let pd = phys_to_virt (peek s pdpt (VMM_PDPT_IDX virt) AND VMM_PTE_ADDR_MASK) in
     andthen (panic_if (peek s pd (VMM_PD_IDX virt) = 0) ''vmm_unmap: PT table doesn't exist'') (\<lambda>_.
     andthen (when_debug (debug s) (panic_if (peek s pd (VMM_PD_IDX virt) AND VMM_PS_FLAG \<noteq> 0)
       ''vmm_unmap: mapping is mapped as large'')) (\<lambda>_.
     let pt = phys_to_virt (peek s pd (VMM_PD_IDX virt) AND VMM_PTE_ADDR_MASK) in
     andthen (when_debug (debug s) (panic_if (peek s pt (VMM_PT_IDX virt) = 0)
       ''vmm_unmap: mapping doesn't exist'')) (\<lambda>_.
     Inr (poke pt (VMM_PT_IDX virt) 0 s))))))))"

definition vmm_map_large :: "u64 \<Rightarrow> u64 \<Rightarrow> u64 \<Rightarrow> u64 \<Rightarrow> 'a vmm_scheme \<Rightarrow> 'a vmm_scheme kres" where
  "vmm_map_large pml4 phys virt flags s =
     andthen (when_debug (debug s) (andthen
       (panic_if (\<not> is_aligned phys VMM_LARGE_PAGE_SIZE) ''vmm_map_large: unaligned physical address'') (\<lambda>_.
       panic_if (\<not> is_aligned virt VMM_LARGE_PAGE_SIZE) ''vmm_map_large: unaligned virtual address''))) (\<lambda>_.
     let iflags = table_flags flags in
     andthen (next_table iflags pml4 (VMM_PML4_IDX virt) s) (\<lambda>(pdpt, s).
     andthen (when_debug (debug s) (panic_if (peek s pdpt (VMM_PDPT_IDX virt) \<noteq> 0 \<and>
         peek s pdpt (VMM_PDPT_IDX virt) AND VMM_PS_FLAG \<noteq> 0)
       ''vmm_map_large: tried to map through existing huge page'')) (\<lambda>_.
     andthen (next_table iflags pdpt (VMM_PDPT_IDX virt) s) (\<lambda>(pd, s).
     andthen (when_debug (debug s)
       (panic_if (peek s pd (VMM_PD_IDX virt) \<noteq> 0) ''vmm_map_large: mapping already exists'')) (\<lambda>_.
     Inr (poke pd (VMM_PD_IDX virt) (phys OR (flags OR VMM_PS_FLAG)) s))))))"

definition vmm_unmap_large :: "u64 \<Rightarrow> u64 \<Rightarrow> 'a vmm_scheme \<Rightarrow> 'a vmm_scheme kres" where
  "vmm_unmap_large pml4 virt s =
     andthen (when_debug (debug s)
       (panic_if (\<not> is_aligned virt VMM_LARGE_PAGE_SIZE) ''vmm_unmap_large: unaligned virtual address'')) (\<lambda>_.
     andthen (existing_table ''vmm_unmap_large: PDPT table doesn't exist'' pml4 (VMM_PML4_IDX virt) s) (\<lambda>pdpt.
     andthen (existing_table ''vmm_unmap_large: PD table doesn't exist'' pdpt (VMM_PDPT_IDX virt) s) (\<lambda>pd.
     andthen (when_debug (debug s) (andthen
       (panic_if (peek s pd (VMM_PD_IDX virt) AND VMM_PS_FLAG = 0)
         ''vmm_unmap_large: mapping is not mapped as large'') (\<lambda>_.
       panic_if (peek s pd (VMM_PD_IDX virt) = 0) ''vmm_unmap_large: mapping doesn't exist''))) (\<lambda>_.
     Inr (poke pd (VMM_PD_IDX virt) 0 s)))))"

definition vmm_map_huge :: "u64 \<Rightarrow> u64 \<Rightarrow> u64 \<Rightarrow> u64 \<Rightarrow> 'a vmm_scheme \<Rightarrow> 'a vmm_scheme kres" where
  "vmm_map_huge pml4 phys virt flags s =
     andthen (when_debug (debug s) (andthen
       (panic_if (\<not> is_aligned phys VMM_HUGE_PAGE_SIZE) ''vmm_map_huge: unaligned physical address'') (\<lambda>_.
       panic_if (\<not> is_aligned virt VMM_HUGE_PAGE_SIZE) ''vmm_map_huge: unaligned virtual address''))) (\<lambda>_.
     andthen (next_table (table_flags flags) pml4 (VMM_PML4_IDX virt) s) (\<lambda>(pdpt, s).
     andthen (when_debug (debug s)
       (panic_if (peek s pdpt (VMM_PDPT_IDX virt) \<noteq> 0) ''vmm_map_huge: mapping already exists'')) (\<lambda>_.
     Inr (poke pdpt (VMM_PDPT_IDX virt) (phys OR (flags OR VMM_PS_FLAG)) s))))"

definition vmm_unmap_huge :: "u64 \<Rightarrow> u64 \<Rightarrow> 'a vmm_scheme \<Rightarrow> 'a vmm_scheme kres" where
  "vmm_unmap_huge pml4 virt s =
     andthen (when_debug (debug s)
       (panic_if (\<not> is_aligned virt VMM_HUGE_PAGE_SIZE) ''vmm_unmap_huge: unaligned virtual address'')) (\<lambda>_.
     andthen (existing_table ''vmm_unmap_huge: PDPT table doesn't exist'' pml4 (VMM_PML4_IDX virt) s) (\<lambda>pdpt.
     andthen (when_debug (debug s) (andthen
       (panic_if (peek s pdpt (VMM_PDPT_IDX virt) AND VMM_PS_FLAG = 0)
         ''vmm_unmap_huge: mapping is not mapped as huge'') (\<lambda>_.
       panic_if (peek s pdpt (VMM_PDPT_IDX virt) = 0) ''vmm_unmap_huge: mapping doesn't exist''))) (\<lambda>_.
     Inr (poke pdpt (VMM_PDPT_IDX virt) 0 s))))"

definition vmm_free :: "u64 \<Rightarrow> u64 \<Rightarrow> 'a vmm_scheme \<Rightarrow> 'a vmm_scheme kres" where
  "vmm_free pml4 virt s =
     (let i4 = VMM_PML4_IDX virt; i3 = VMM_PDPT_IDX virt; i2 = VMM_PD_IDX virt; i1 = VMM_PT_IDX virt;
          pdpt = phys_to_virt (peek s pml4 i4 AND VMM_PTE_ADDR_MASK)
      in andthen (panic_if (pdpt = 0 \<or> peek s pml4 i4 AND VMM_FLAGS_PRESENT = 0)
           ''vmm_free: PDPT is not present'') (\<lambda>_.
         if peek s pdpt i3 AND VMM_PS_FLAG \<noteq> 0
         then (let phys_start = peek s pdpt i3 AND VMM_PTE_ADDR_MASK;
                   phys_end = phys_start + VMM_HUGE_PAGE_SIZE
               in andthen (for_pages pmm_free phys_start phys_end s) (\<lambda>s.
                    Inr (vmm_invlpg virt (poke pdpt i3 0 s))))
         else
         let pd = phys_to_virt (peek s pdpt i3 AND VMM_PTE_ADDR_MASK) in
         andthen (panic_if (pd = 0 \<or> peek s pdpt i3 AND VMM_FLAGS_PRESENT = 0)
           ''vmm_free: PD is not present'') (\<lambda>_.
         if peek s pd i2 AND VMM_PS_FLAG \<noteq> 0
         then (let phys_start = peek s pd i2 AND VMM_PTE_ADDR_MASK;
                   phys_end = phys_start + VMM_LARGE_PAGE_SIZE
               in andthen (for_pages pmm_free phys_start phys_end s) (\<lambda>s.
                    Inr (vmm_invlpg virt (poke pd i2 0 s))))
         else
         let pt = phys_to_virt (peek s pd i2 AND VMM_PTE_ADDR_MASK) in
         andthen (panic_if (pt = 0 \<or> peek s pt i1 AND VMM_FLAGS_PRESENT = 0)
           ''vmm_free: PT is not present'') (\<lambda>_.
         andthen (pmm_free (peek s pt i1 AND VMM_PTE_ADDR_MASK) s) (\<lambda>s.
           Inr (vmm_invlpg virt (poke pt i1 0 s)))))))"

definition destroy_pt :: "u64 \<Rightarrow> 'a vmm_scheme \<Rightarrow> 'a vmm_scheme kres" where
  "destroy_pt pt_table = foldM (\<lambda>i s.
     if peek s pt_table i = 0 then Inr s
     else pmm_free (peek s pt_table i AND VMM_PTE_ADDR_MASK) s) (map of_nat [0..<512])"

definition destroy_pd :: "u64 \<Rightarrow> 'a vmm_scheme \<Rightarrow> 'a vmm_scheme kres" where
  "destroy_pd pd_table = foldM (\<lambda>i s.
     if peek s pd_table i = 0 then Inr s
     else if peek s pd_table i AND VMM_PS_FLAG \<noteq> 0 then Inr s
     else andthen (destroy_pt (phys_to_virt (peek s pd_table i AND VMM_PTE_ADDR_MASK)) s)
            (\<lambda>s. pmm_free (peek s pd_table i AND VMM_PTE_ADDR_MASK) s)) (map of_nat [0..<512])"

definition destroy_pdpt :: "u64 \<Rightarrow> 'a vmm_scheme \<Rightarrow> 'a vmm_scheme kres" where
  "destroy_pdpt pdpt_table = foldM (\<lambda>i s.
     if peek s pdpt_table i = 0 then Inr s
     else if peek s pdpt_table i AND VMM_PS_FLAG \<noteq> 0 then Inr s
     else andthen (destroy_pd (phys_to_virt (peek s pdpt_table i AND VMM_PTE_ADDR_MASK)) s)
            (\<lambda>s. pmm_free (peek s pdpt_table i AND VMM_PTE_ADDR_MASK) s)) (map of_nat [0..<512])"

definition vmm_destroy :: "u64 \<Rightarrow> 'a vmm_scheme \<Rightarrow> 'a vmm_scheme kres" where
  "vmm_destroy pml4 = foldM (\<lambda>i s.
     if peek s pml4 i = 0 then Inr s
     else andthen (destroy_pdpt (phys_to_virt (peek s pml4 i AND VMM_PTE_ADDR_MASK)) s)
            (\<lambda>s. pmm_free (peek s pml4 i AND VMM_PTE_ADDR_MASK) s)) (map of_nat [0..<256])"

definition vmm_switch :: "u64 \<Rightarrow> 'a vmm_scheme \<Rightarrow> 'a vmm_scheme" where
  "vmm_switch pml4 s = s\<lparr>cr3 := virt_to_phys pml4\<rparr>"

section \<open>The walk of the processor\<close>

text \<open>
  \<open>slot t i\<close> is the address of entry \<open>i\<close> of the table at \<open>t\<close>. \<open>table_at\<close> follows a list of
  indices through entries that point to tables; \<open>hw_walk\<close> is the translation of the
  processor: it returns the entry that maps the page and the number of levels below it (0 for
  a 4 KiB page, 1 for a large, 2 for a huge page).
\<close>

definition slot :: "u64 \<Rightarrow> nat \<Rightarrow> u64" where
  "slot t i = t + 8 * of_nat i"

definition points_to_table :: "u64 \<Rightarrow> bool" where
  "points_to_table e \<longleftrightarrow> bit e 0 \<and> \<not> bit e 7"

fun table_at :: "(u64 \<Rightarrow> u64) \<Rightarrow> u64 \<Rightarrow> nat list \<Rightarrow> u64 option" where
  "table_at m t [] = Some t"
| "table_at m t (i # is) =
     (if points_to_table (m (slot t i)) then table_at m (m (slot t i) AND VMM_PTE_ADDR_MASK) is
      else None)"

fun hw_walk :: "(u64 \<Rightarrow> u64) \<Rightarrow> u64 \<Rightarrow> nat list \<Rightarrow> (nat \<times> u64) option" where
  "hw_walk m t [] = None"
| "hw_walk m t [i] = (if bit (m (slot t i)) 0 then Some (0, m (slot t i)) else None)"
| "hw_walk m t (i # j # is) =
     (let e = m (slot t i) in
      if \<not> bit e 0 then None
      else if bit e 7 then (if length is < 2 then Some (Suc (length is), e) else None)
      else hw_walk m (e AND VMM_PTE_ADDR_MASK) (j # is))"

definition vidx :: "u64 \<Rightarrow> nat list" where
  "vidx va = [unat (VMM_PML4_IDX va), unat (VMM_PDPT_IDX va), unat (VMM_PD_IDX va), unat (VMM_PT_IDX va)]"

definition page_shift :: "nat \<Rightarrow> nat" where
  "page_shift n = 12 + 9 * n"

definition translate :: "(u64 \<Rightarrow> u64) \<Rightarrow> u64 \<Rightarrow> u64 \<Rightarrow> (u64 \<times> u64) option" where
  "translate m root va = (case hw_walk m root (vidx va) of
     None \<Rightarrow> None
   | Some (n, e) \<Rightarrow>
       Some ((e AND VMM_PTE_ADDR_MASK AND NOT (mask (page_shift n))) OR (va AND mask (page_shift n)), e))"

definition table_path :: "nat list \<Rightarrow> bool" where
  "table_path is \<longleftrightarrow> length is \<le> 3 \<and> (\<forall>i\<in>set is. i < 512)"

definition as_wf :: "'a vmm_scheme \<Rightarrow> u64 \<Rightarrow> bool" where
  "as_wf s root \<longleftrightarrow> pmm_wf s \<and>
     (\<forall>is t. table_path is \<longrightarrow> table_at (phys_mem s) root is = Some t \<longrightarrow>
        t \<in> managed_pages s \<and> page_used s t) \<and>
     (\<forall>is js t. table_path is \<longrightarrow> table_path js \<longrightarrow> table_at (phys_mem s) root is = Some t \<longrightarrow>
        table_at (phys_mem s) root js = Some t \<longrightarrow> is = js) \<and>
     (\<forall>is t i. table_path is \<longrightarrow> i < 512 \<longrightarrow>
        table_at (phys_mem s) root is = Some t \<longrightarrow> phys_mem s (slot t i) \<noteq> 0 \<longrightarrow>
        bit (phys_mem s (slot t i)) 0) \<and>
     (\<forall>i<512. \<not> bit (phys_mem s (slot root i)) 7)"

lemma virt_phys_inverse [simp]: "virt_to_phys (phys_to_virt p) = p" "phys_to_virt (virt_to_phys v) = v"
  by (simp_all add: phys_to_virt_def virt_to_phys_def)

lemma virt_to_phys_slot: "virt_to_phys (phys_to_virt t + 8 * ucast i) = slot t (unat (i :: u16))"
  by (simp add: phys_to_virt_def virt_to_phys_def slot_def algebra_simps)

lemma peek_slot: "peek s (phys_to_virt t) i = phys_mem s (slot t (unat i))"
  by (simp add: peek_def virt_to_phys_slot)

lemma poke_slot: "poke (phys_to_virt t) i v s = s\<lparr>phys_mem := (phys_mem s)(slot t (unat i) := v)\<rparr>"
  by (simp add: poke_def virt_to_phys_slot)

lemma memset_page_phys:
  "memset_page (phys_to_virt p) s = s\<lparr>phys_mem := (\<lambda>a. if a - p < 4096 then 0 else phys_mem s a)\<rparr>"
  by (simp add: memset_page_def)

subsection \<open>Addresses of table entries\<close>

lemma aligned_add:
  assumes "is_aligned t 4096" and "unat x < 4096"
  shows "unat (t + x) = unat t + unat x"
proof (rule unat_add_small)
  obtain q where q: "unat t = 4096 * q" using assms(1) by (auto simp: is_aligned_page)
  then have "q < 4503599627370496" using unat_lt2p [of t] by simp
  then show "unat t + unat x < 2 ^ LENGTH(64)" using assms(2) q by simp
qed

lemma aligned_add_inj:
  assumes "is_aligned t 4096" "is_aligned u 4096" and "unat x < 4096" "unat y < 4096"
    and "t + x = u + y"
  shows "t = u \<and> x = y"
proof -
  obtain a b where ab: "unat t = 4096 * a" "unat u = 4096 * b"
    using assms(1,2) by (auto simp: is_aligned_page elim!: dvdE)
  have "unat t + unat x = unat u + unat y"
    using assms aligned_add [of t x] aligned_add [of u y] by simp
  then have "(4096 * a + unat x) div 4096 = (4096 * b + unat y) div 4096" by (simp add: ab)
  then have "unat t = unat u" using assms(3,4) by (simp add: ab)
  then have "t = u" by (simp add: word_unat_eq_iff)
  then show ?thesis using assms(5) by simp
qed

lemma unat_8_mult: "i < 512 \<Longrightarrow> unat (8 * of_nat i :: u64) = 8 * i"
  by (simp add: unat_mult_small unat_of_nat_small)

lemma slot_eq_iff:
  assumes "is_aligned t 4096" "is_aligned u 4096" "i < 512" "j < 512"
  shows "slot t i = slot u j \<longleftrightarrow> t = u \<and> i = j"
proof
  assume e: "slot t i = slot u j"
  then have "t = u" and x: "(8 * of_nat i :: u64) = 8 * of_nat j"
    using aligned_add_inj [OF assms(1,2), of "8 * of_nat i" "8 * of_nat j"] assms
    by (auto simp: slot_def unat_8_mult)
  from x have "unat (8 * of_nat i :: u64) = unat (8 * of_nat j :: u64)" by simp
  then show "t = u \<and> i = j" using \<open>t = u\<close> assms by (simp add: unat_8_mult)
qed simp

lemma slot_in_page_iff:
  assumes "is_aligned t 4096" "is_aligned p 4096" "i < 512"
  shows "slot t i - p < 4096 \<longleftrightarrow> t = p"
proof
  assume l: "slot t i - p < 4096"
  have "t + 8 * of_nat i = p + (slot t i - p)" by (simp add: slot_def)
  then show "t = p"
    using aligned_add_inj [OF assms(1,2), of "8 * of_nat i" "slot t i - p"] assms l
    by (auto simp: unat_8_mult word_less_nat_alt)
next
  assume "t = p"
  then show "slot t i - p < 4096"
    using assms(3) by (simp add: slot_def word_less_nat_alt unat_8_mult)
qed

subsection \<open>Table entries\<close>

lemma bit_addr_mask: "bit VMM_PTE_ADDR_MASK k \<longleftrightarrow> 12 \<le> k \<and> k < 52"
proof -
  have m: "VMM_PTE_ADDR_MASK = push_bit 12 (mask 40)"
    by (simp add: VMM_PTE_ADDR_MASK_def mask_eq_exp_minus_1 push_bit_eq_mult)
  show ?thesis unfolding m by (auto simp: bit_simps)
qed

lemma addr_mask_aligned: "is_aligned (e AND VMM_PTE_ADDR_MASK) 4096"
proof -
  have "(e AND VMM_PTE_ADDR_MASK) AND mask 12 = 0"
    by (rule bit_word_eqI) (auto simp: bit_simps bit_addr_mask)
  then show ?thesis by (simp add: is_aligned_def mask_12)
qed

lemma frame_addr_push: "frame_addr k = push_bit 12 (of_nat k)"
  by (simp add: frame_addr_def push_bit_eq_mult)

lemma frame_addr_mask:
  assumes "k < 2 ^ 32"
  shows "frame_addr k AND VMM_PTE_ADDR_MASK = frame_addr k"
proof (rule bit_word_eqI)
  fix n
  have "bit k (n - 12) \<Longrightarrow> n - 12 < 32"
    using assms by (metis bit_take_bit_iff take_bit_nat_eq_self)
  then show "bit (frame_addr k AND VMM_PTE_ADDR_MASK) n = bit (frame_addr k) n"
    by (auto simp: frame_addr_push bit_simps bit_addr_mask)
qed

lemma frame_is_aligned: "k < 2 ^ 32 \<Longrightarrow> is_aligned (frame_addr k) 4096"
  using frame_addr_aligned [of k] by (simp add: is_aligned_def)

lemma managed_aligned: "pmm_wf s \<Longrightarrow> p \<in> managed_pages s \<Longrightarrow> is_aligned p 4096"
  by (metis frame_is_aligned managed_pagesE)

lemma managed_mask: "pmm_wf s \<Longrightarrow> p \<in> managed_pages s \<Longrightarrow> p AND VMM_PTE_ADDR_MASK = p"
  by (metis frame_addr_mask managed_pagesE)

lemma table_flags_mask: "table_flags f AND VMM_PTE_ADDR_MASK = 0"
  and table_flags_bits: "bit (table_flags f) 0" "\<not> bit (table_flags f) 7"
  by (simp_all add: table_flags_def VMM_PTE_ADDR_MASK_def bit_numeral_rec)

lemma table_link:
  assumes "pmm_wf s" and "p \<in> managed_pages s"
  shows "(p OR table_flags f) AND VMM_PTE_ADDR_MASK = p"
    and "points_to_table (p OR table_flags f)" and "p OR table_flags f \<noteq> 0"
proof -
  have p: "p AND VMM_PTE_ADDR_MASK = p" using assms by (rule managed_mask)
  then show "(p OR table_flags f) AND VMM_PTE_ADDR_MASK = p"
    by (simp add: bit.conj_disj_distrib2 table_flags_mask)
  have "bit p 7 = bit (p AND VMM_PTE_ADDR_MASK) 7" using p by simp
  then have "\<not> bit p 7" by (simp add: bit_and_iff bit_addr_mask)
  then show "points_to_table (p OR table_flags f)"
    using table_flags_bits [of f] by (simp add: points_to_table_def bit_or_iff)
  then show "p OR table_flags f \<noteq> 0" by (auto simp: points_to_table_def)
qed

subsection \<open>Paths through tables\<close>

lemma table_at_append:
  "table_at m t (is @ js) = (case table_at m t is of None \<Rightarrow> None | Some u \<Rightarrow> table_at m u js)"
  by (induction m t "is" rule: table_at.induct) simp_all

lemma table_at_snoc:
  "table_at m t (is @ [i]) = (case table_at m t is of None \<Rightarrow> None
     | Some u \<Rightarrow> if points_to_table (m (slot u i)) then Some (m (slot u i) AND VMM_PTE_ADDR_MASK)
                 else None)"
  by (simp add: table_at_append split: option.split)

lemma hw_walk_table:
  "table_at m t is = Some u \<Longrightarrow> js \<noteq> [] \<Longrightarrow> hw_walk m t (is @ js) = hw_walk m u js"
proof (induction m t "is" rule: table_at.induct)
  case (2 m t i "is")
  obtain j ks where "is @ js = j # ks" using \<open>js \<noteq> []\<close> by (cases "is @ js") auto
  with 2 show ?case by (auto simp: points_to_table_def Let_def split: if_splits)
qed simp

lemma hw_walk_cong:
  assumes "\<And>is i js u. path = is @ i # js \<Longrightarrow> table_at m t is = Some u \<Longrightarrow>
    m' (slot u i) = m (slot u i)"
  shows "hw_walk m' t path = hw_walk m t path"
  using assms
proof (induction m t path rule: hw_walk.induct)
  case (1 m t)
  show ?case by simp
next
  case (2 m t i)
  show ?case using 2 [of "[]" i "[]" t] by simp
next
  case (3 m t i j ks)
  have e: "m' (slot t i) = m (slot t i)" using 3(2) [of "[]" i "j # ks" t] by simp
  show ?case
  proof (cases "points_to_table (m (slot t i))")
    case True
    have "hw_walk m' (m (slot t i) AND VMM_PTE_ADDR_MASK) (j # ks) =
        hw_walk m (m (slot t i) AND VMM_PTE_ADDR_MASK) (j # ks)"
    proof (rule 3(1) [OF refl])
      show "\<not> \<not> bit (m (slot t i)) 0" "\<not> bit (m (slot t i)) 7"
        using True by (simp_all add: points_to_table_def)
      fix ls l ms u
      assume "j # ks = ls @ l # ms" and "table_at m (m (slot t i) AND VMM_PTE_ADDR_MASK) ls = Some u"
      then show "m' (slot u l) = m (slot u l)"
        using 3(2) [of "i # ls" l ms u] True by simp
    qed
    then show ?thesis using e True by (simp add: points_to_table_def)
  next
    case False
    then show ?thesis using e by (auto simp: points_to_table_def Let_def)
  qed
qed

lemma table_path_Nil [simp]: "table_path []"
  by (simp add: table_path_def)

lemma table_path_snoc: "table_path (is @ [i]) \<longleftrightarrow> table_path is \<and> length is < 3 \<and> i < 512"
  by (auto simp: table_path_def)

lemma as_wf_pmm: "as_wf s root \<Longrightarrow> pmm_wf s"
  by (simp add: as_wf_def)

lemma as_wf_table:
  "as_wf s root \<Longrightarrow> table_path is \<Longrightarrow> table_at (phys_mem s) root is = Some t \<Longrightarrow>
     t \<in> managed_pages s \<and> page_used s t"
  by (simp add: as_wf_def)

lemma as_wf_inj:
  "as_wf s root \<Longrightarrow> table_path is \<Longrightarrow> table_path js \<Longrightarrow> table_at (phys_mem s) root is = Some t \<Longrightarrow>
     table_at (phys_mem s) root js = Some t \<Longrightarrow> is = js"
  unfolding as_wf_def by blast

lemma as_wf_aligned:
  "as_wf s root \<Longrightarrow> table_path is \<Longrightarrow> table_at (phys_mem s) root is = Some t \<Longrightarrow> is_aligned t 4096"
  using as_wf_table managed_aligned as_wf_pmm by blast

lemma as_wf_present:
  "as_wf s root \<Longrightarrow> table_path is \<Longrightarrow> i < 512 \<Longrightarrow>
     table_at (phys_mem s) root is = Some t \<Longrightarrow> phys_mem s (slot t i) \<noteq> 0 \<Longrightarrow>
     bit (phys_mem s (slot t i)) 0"
  unfolding as_wf_def by blast

text \<open>Writing a word into one table and clearing a page that is no table changes exactly one
  entry of the tree.\<close>

definition link_mem :: "(u64 \<Rightarrow> u64) \<Rightarrow> u64 \<Rightarrow> u64 \<Rightarrow> u64 \<Rightarrow> u64 \<Rightarrow> u64" where
  "link_mem m a v p = (\<lambda>b. if b - p < 4096 then 0 else (m(a := v)) b)"

lemma table_at_link:
  assumes wf: "as_wf s root" and m: "m = phys_mem s"
    and "is": "table_path is" "length is < 3" "table_at m root is = Some t" "i < 512"
    and e: "m (slot t i) = 0"
    and p: "p \<in> managed_pages s" "\<not> page_used s p"
    and m': "m' = link_mem m (slot t i) (p OR table_flags f) p"
  shows "table_path js \<Longrightarrow> table_at m' root js = (if js = is @ [i] then Some p else table_at m root js)"
proof (induction js rule: rev_induct)
  case Nil
  then show ?case by simp
next
  case (snoc j js)
  then have js: "table_path js" "length js < 3" "j < 512" by (simp_all add: table_path_snoc)
  note pmm = as_wf_pmm [OF wf]
  have pal: "is_aligned p 4096" using managed_aligned [OF pmm p(1)] .
  have none: "table_at m root (is @ [i]) = None"
    using "is"(3) e by (simp add: table_at_snoc points_to_table_def)
  have tal: "is_aligned t 4096" and tp: "t \<noteq> p"
    using as_wf_aligned [OF wf "is"(1)] as_wf_table [OF wf "is"(1)] "is"(3) m p by auto
  show ?case
  proof (cases "js = is @ [i]")
    case True
    have "m' (slot p j) = 0" using pal js(3) by (simp add: m' link_mem_def slot_in_page_iff)
    moreover have "table_at m' root js = Some p" "table_at m root js = None"
      using snoc.IH [OF js(1)] True none by simp_all
    moreover have "js @ [j] \<noteq> is @ [i]" using True by simp
    ultimately show ?thesis by (simp add: table_at_snoc points_to_table_def)
  next
    case False
    then have IH: "table_at m' root js = table_at m root js" using snoc.IH [OF js(1)] by simp
    show ?thesis
    proof (cases "table_at m root js")
      case None
      then show ?thesis
        using IH "is"(3) by (auto simp: table_at_snoc)
    next
      case (Some u)
      then have u: "is_aligned u 4096" "u \<noteq> p"
        using as_wf_aligned [OF wf js(1)] as_wf_table [OF wf js(1)] m p by auto
      show ?thesis
      proof (cases "u = t \<and> j = i")
        case True
        then have "js = is" using as_wf_inj [OF wf js(1) "is"(1)] Some "is"(3) m by simp
        moreover have "m' (slot t i) = p OR table_flags f"
          using tal pal tp "is"(4) by (simp add: m' link_mem_def slot_in_page_iff)
        ultimately show ?thesis
          using True IH Some table_link [OF pmm p(1), of f] by (simp add: table_at_snoc)
      next
        case neq: False
        then have "m' (slot u j) = m (slot u j)"
          using u tal pal js(3) "is"(4) by (auto simp: m' link_mem_def slot_in_page_iff slot_eq_iff)
        moreover have "js @ [j] \<noteq> is @ [i]" using neq Some "is"(3) by auto
        ultimately show ?thesis using IH Some by (auto simp: table_at_snoc)
      qed
    qed
  qed
qed

definition page_path :: "nat list \<Rightarrow> bool" where
  "page_path is \<longleftrightarrow> length is = 4 \<and> (\<forall>i\<in>set is. i < 512)"

lemma page_path_split: "page_path (is @ i # js) \<Longrightarrow> table_path is \<and> i < 512 \<and> length is \<le> 3"
  by (auto simp: page_path_def table_path_def)

lemma hw_walk_zero: "m (slot t i) = 0 \<Longrightarrow> hw_walk m t (i # is) = None"
  by (cases "is") simp_all

lemma hw_walk_link:
  assumes wf: "as_wf s root" and m: "m = phys_mem s"
    and "is": "table_path is" "length is < 3" "table_at m root is = Some t" "i < 512"
    and e: "m (slot t i) = 0"
    and p: "p \<in> managed_pages s" "\<not> page_used s p"
    and m': "m' = link_mem m (slot t i) (p OR table_flags f) p"
    and path: "page_path path"
  shows "hw_walk m' root path = hw_walk m root path"
proof (cases "\<exists>js. path = is @ i # js")
  case True
  then obtain js where js: "path = is @ i # js" by blast
  then obtain j ks where jk: "js = j # ks" using path "is"(2) by (cases js) (auto simp: page_path_def)
  have pal: "is_aligned p 4096" using managed_aligned [OF as_wf_pmm [OF wf] p(1)] .
  have "hw_walk m root path = None"
    using hw_walk_table [OF "is"(3), of "i # js"] e by (simp add: js hw_walk_zero)
  moreover have "m' (slot p j) = 0"
    using pal path by (simp add: m' link_mem_def slot_in_page_iff js jk page_path_def)
  moreover have "table_at m' root (is @ [i]) = Some p"
    using table_at_link [OF wf m "is" e p m', of "is @ [i]"] "is" by (simp add: table_path_snoc)
  ultimately show ?thesis
    using hw_walk_table [of m' root "is @ [i]" p js] by (simp add: js jk hw_walk_zero)
next
  case False
  have pal: "is_aligned p 4096" using managed_aligned [OF as_wf_pmm [OF wf] p(1)] .
  show ?thesis
  proof (rule hw_walk_cong)
    fix ls l ks u
    assume l: "path = ls @ l # ks" and u: "table_at m root ls = Some u"
    have ls: "table_path ls" "l < 512" using path page_path_split by (auto simp: l)
    have "u \<noteq> p" "is_aligned u 4096" "is_aligned t 4096"
      using as_wf_table [OF wf ls(1)] as_wf_aligned [OF wf ls(1)] as_wf_aligned [OF wf "is"(1)]
        u "is"(3) m p by auto
    moreover have "\<not> (u = t \<and> l = i)"
      using as_wf_inj [OF wf ls(1) "is"(1)] u "is"(3) m False l by auto
    ultimately show "m' (slot u l) = m (slot u l)"
      using pal ls(2) "is"(4) by (auto simp: m' link_mem_def slot_in_page_iff slot_eq_iff)
  qed
qed

lemma pmm_phys_mem [simp]:
  "pmm_wf (s\<lparr>phys_mem := m\<rparr>) = pmm_wf s"
  "page_used (s\<lparr>phys_mem := m\<rparr>) = page_used s"
  "managed_pages (s\<lparr>phys_mem := m\<rparr>) = managed_pages s"
  "free_frames (s\<lparr>phys_mem := m\<rparr>) = free_frames s"
  "frame_used (s\<lparr>phys_mem := m\<rparr>) = frame_used s"
  by (simp_all add: pmm_wf_def page_used_def managed_pages_def pmm_pages_def free_frames_def
      frame_used_def fun_eq_iff)

lemma as_wf_linked:
  assumes wf: "as_wf s root" and "is": "table_path is" "length is < 3"
      "table_at (phys_mem s) root is = Some t" "i < 512"
    and e: "phys_mem s (slot t i) = 0"
    and alloc: "pmm_alloc s = Inr (p, s1)"
  shows "as_wf (s1\<lparr>phys_mem := link_mem (phys_mem s) (slot t i) (p OR table_flags f) p\<rparr>) root"
proof -
  let ?m = "phys_mem s" and ?m' = "link_mem (phys_mem s) (slot t i) (p OR table_flags f) p"
  note pmm = as_wf_pmm [OF wf]
  have p: "p \<in> managed_pages s" "\<not> page_used s p" using pmm.alloc_page [OF pmm alloc] by simp_all
  note s1 = pmm.alloc_invar [OF pmm alloc]
  note tab = table_at_link [OF wf refl "is" e p refl, where f = f]
  have none: "table_at ?m root (is @ [i]) = None"
    using "is"(3) e by (simp add: table_at_snoc points_to_table_def)
  have pal: "is_aligned p 4096" using managed_aligned [OF pmm p(1)] .
  have used: "u \<in> managed_pages s \<and> page_used s1 u"
    if "table_path js" "table_at ?m' root js = Some u" for js u
    using that tab [OF that(1)] as_wf_table [OF wf that(1)] pmm.alloc_used [OF pmm alloc] p(1)
    by (auto split: if_splits)
  have inj: "js = ks" if "table_path js" "table_path ks" "table_at ?m' root js = Some u"
      "table_at ?m' root ks = Some u" for js ks u
    using that tab [OF that(1)] tab [OF that(2)] as_wf_inj [OF wf that(1,2)]
      as_wf_table [OF wf that(1)] as_wf_table [OF wf that(2)] p(2)
    by (auto split: if_splits)
  have pres: "bit (?m' (slot u j)) 0" if "table_path js" "j < 512"
      "table_at ?m' root js = Some u" "?m' (slot u j) \<noteq> 0" for js u j
  proof (cases "js = is @ [i]")
    case True
    then have "u = p" using tab [OF that(1)] that(3) by simp
    then show ?thesis using that(2,4) pal by (simp add: link_mem_def slot_in_page_iff)
  next
    case False
    then have u: "table_at ?m root js = Some u" using tab [OF that(1)] that(3) by simp
    have "?m' (slot u j) = (if slot u j = slot t i then p OR table_flags f else ?m (slot u j))"
      using that(4) by (simp add: link_mem_def split: if_splits)
    then show ?thesis
      using as_wf_present [OF wf that(1,2) u] that(4) table_link(2) [OF pmm p(1), of f]
      by (auto simp: points_to_table_def split: if_splits)
  qed
  have pml4: "\<not> bit (?m' (slot root j)) 7" if "j < 512" for j
  proof -
    have "?m' (slot root j) \<in> {0, p OR table_flags f, ?m (slot root j)}" by (simp add: link_mem_def)
    then show ?thesis
      using wf that table_link(2) [OF pmm p(1), of f] by (auto simp: as_wf_def points_to_table_def)
  qed
  show ?thesis
    unfolding as_wf_def using s1 used inj pres pml4 by simp
qed

subsection \<open>Writing an entry that maps a page\<close>

lemma table_at_leaf:
  assumes wf: "as_wf s root" and m: "m = phys_mem s"
    and "is": "table_path is" "table_at m root is = Some t" "i < 512"
    and leaf: "length is = 3 \<or> \<not> points_to_table (m (slot t i)) \<and> \<not> points_to_table v"
  shows "table_path js \<Longrightarrow> table_at (m(slot t i := v)) root js = table_at m root js"
proof (induction js rule: rev_induct)
  case Nil
  then show ?case by simp
next
  case (snoc j js)
  then have js: "table_path js" "length js < 3" "j < 512" by (simp_all add: table_path_snoc)
  note IH = snoc.IH [OF js(1)]
  show ?case
  proof (cases "table_at m root js")
    case None
    then show ?thesis using IH by (simp add: table_at_snoc)
  next
    case (Some u)
    have al: "is_aligned u 4096" "is_aligned t 4096"
      using as_wf_aligned [OF wf js(1)] as_wf_aligned [OF wf "is"(1)] Some "is"(2) m by auto
    show ?thesis
    proof (cases "u = t \<and> j = i")
      case True
      then have "js = is" using as_wf_inj [OF wf js(1) "is"(1)] Some "is"(2) m by simp
      then show ?thesis using leaf js(2) True IH Some by (simp add: table_at_snoc)
    next
      case False
      then have "slot u j \<noteq> slot t i" using al js(3) "is"(3) by (simp add: slot_eq_iff)
      then show ?thesis using IH Some by (simp add: table_at_snoc)
    qed
  qed
qed

lemma hw_walk_leaf_other:
  assumes wf: "as_wf s root" and m: "m = phys_mem s"
    and "is": "table_path is" "table_at m root is = Some t" "i < 512"
    and path: "page_path path" "\<nexists>js. path = is @ i # js"
  shows "hw_walk (m(slot t i := v)) root path = hw_walk m root path"
proof (rule hw_walk_cong)
  fix ls l ks u
  assume l: "path = ls @ l # ks" and u: "table_at m root ls = Some u"
  have ls: "table_path ls" "l < 512" using path page_path_split by (auto simp: l)
  have "is_aligned u 4096" "is_aligned t 4096"
    using as_wf_aligned [OF wf ls(1)] as_wf_aligned [OF wf "is"(1)] u "is"(2) m by auto
  moreover have "\<not> (u = t \<and> l = i)"
    using as_wf_inj [OF wf ls(1) "is"(1)] u "is"(2) m path(2) l by auto
  ultimately show "(m(slot t i := v)) (slot u l) = m (slot u l)"
    using ls(2) "is"(3) by (auto simp: slot_eq_iff)
qed

lemma as_wf_leaf:
  assumes wf: "as_wf s root"
    and "is": "table_path is" "table_at (phys_mem s) root is = Some t" "i < 512"
    and leaf: "length is = 3 \<or> \<not> points_to_table (phys_mem s (slot t i)) \<and> \<not> points_to_table v"
    and v: "v \<noteq> 0 \<Longrightarrow> bit v 0" "is \<noteq> []"
  shows "as_wf (s\<lparr>phys_mem := (phys_mem s)(slot t i := v)\<rparr>) root"
proof -
  let ?m' = "(phys_mem s)(slot t i := v)"
  note tab = table_at_leaf [OF wf refl "is" leaf]
  have pres: "bit (?m' (slot u j)) 0" if "table_path js" "j < 512"
      "table_at ?m' root js = Some u" "?m' (slot u j) \<noteq> 0" for js u j
  proof (cases "slot u j = slot t i")
    case True
    have u: "table_at (phys_mem s) root js = Some u" using tab [OF that(1)] that(3) by simp
    then have "u = t"
      using True as_wf_aligned [OF wf that(1) u] as_wf_aligned [OF wf "is"(1,2)] that(2) "is"(3)
      by (simp add: slot_eq_iff)
    then have "js = is" using as_wf_inj [OF wf that(1) "is"(1)] u "is"(2) by simp
    then show ?thesis using True that(4) v(1) by simp
  next
    case False
    then show ?thesis
      using as_wf_present [OF wf that(1,2)] tab [OF that(1)] that(3,4) by simp
  qed
  have "slot root j \<noteq> slot t i" if "j < 512" for j
  proof -
    have r: "table_at (phys_mem s) root [] = Some root" by simp
    then have "t \<noteq> root" using as_wf_inj [OF wf "is"(1) table_path_Nil] "is"(2) v(2) by auto
    then show ?thesis
      using as_wf_aligned [OF wf table_path_Nil r] as_wf_aligned [OF wf "is"(1,2)] that "is"(3)
      by (simp add: slot_eq_iff)
  qed
  then have pml4: "\<forall>j<512. \<not> bit (?m' (slot root j)) 7" using wf by (simp add: as_wf_def)
  have a: "\<forall>is t. table_path is \<longrightarrow> table_at ?m' root is = Some t \<longrightarrow> t \<in> managed_pages s \<and> page_used s t"
    using tab as_wf_table [OF wf] by simp
  have b: "\<forall>is js t. table_path is \<longrightarrow> table_path js \<longrightarrow> table_at ?m' root is = Some t \<longrightarrow>
        table_at ?m' root js = Some t \<longrightarrow> is = js"
    using tab as_wf_inj [OF wf] by metis
  show ?thesis
    unfolding as_wf_def using as_wf_pmm [OF wf] a b pres pml4 by simp
qed

subsection \<open>One level of the walk in software\<close>

text \<open>\<open>next_table\<close> keeps the address space well formed, every translation and every table,
  and returns the table below the entry.\<close>

lemma pmm_alloc_frame:
  assumes "pmm_wf s" and "pmm_alloc s = Inr (p, s')"
  shows "\<exists>bm. s' = s\<lparr>pmm_bitmap := bm\<rparr>"
  using assms by (rule pmm_allocE) blast

definition tables_grow :: "'a vmm_scheme \<Rightarrow> 'a vmm_scheme \<Rightarrow> u64 \<Rightarrow> bool" where
  "tables_grow s s' root \<longleftrightarrow>
     (\<forall>is t. table_path is \<longrightarrow> table_at (phys_mem s') root is = Some t \<longrightarrow>
        table_at (phys_mem s) root is = Some t \<or> \<not> page_used s t) \<and>
     (\<forall>q\<in>managed_pages s. page_used s q \<longrightarrow> page_used s' q)"

lemma tables_grow_refl: "tables_grow s s root"
  by (simp add: tables_grow_def)

lemma tables_grow_trans:
  assumes "tables_grow s s1 root" and "tables_grow s1 s2 root" and "as_wf s2 root"
    and "managed_pages s1 = managed_pages s" and "managed_pages s2 = managed_pages s1"
  shows "tables_grow s s2 root"
proof -
  have "table_at (phys_mem s) root is = Some t \<or> \<not> page_used s t"
    if "table_path is" "table_at (phys_mem s2) root is = Some t" for "is" t
    using that assms as_wf_table [OF assms(3) that] unfolding tables_grow_def by metis
  then show ?thesis using assms by (auto simp: tables_grow_def)
qed

lemma next_table_spec:
  assumes wf: "as_wf s root" and "is": "table_path is" "length is < 3"
      "table_at (phys_mem s) root is = Some t" "unat i < 512"
    and ps: "\<not> bit (phys_mem s (slot t (unat i))) 7"
    and nt: "next_table (table_flags f) (phys_to_virt t) i s = Inr (v, s')"
  shows "\<exists>u. v = phys_to_virt u \<and> as_wf s' root \<and>
    table_at (phys_mem s') root (is @ [unat i]) = Some u \<and>
    (\<forall>path. page_path path \<longrightarrow> hw_walk (phys_mem s') root path = hw_walk (phys_mem s) root path) \<and>
    debug s' = debug s \<and> managed_pages s' = managed_pages s \<and>
    card (free_frames s) \<le> Suc (card (free_frames s')) \<and>
    (s' = s \<or> table_at (phys_mem s) root (is @ [unat i]) = None \<and>
      (\<forall>j<512. phys_mem s' (slot u j) = 0)) \<and> tables_grow s s' root"
proof (cases "phys_mem s (slot t (unat i)) = 0")
  case True
  note pmm = as_wf_pmm [OF wf]
  from nt True obtain p s1 where a: "pmm_alloc s = Inr (p, s1)" and v: "v = phys_to_virt p"
    and s': "s' = memset_page (phys_to_virt p) (poke (phys_to_virt t) i (p OR table_flags f) s1)"
    by (auto simp: next_table_def peek_slot andthen_eq_Inr_iff Let_def)
  have m1: "phys_mem s1 = phys_mem s" "debug s1 = debug s" using pmm_alloc_frame [OF pmm a] by auto
  have s'': "s' = s1\<lparr>phys_mem := link_mem (phys_mem s) (slot t (unat i)) (p OR table_flags f) p\<rparr>"
    by (simp add: s' poke_slot memset_page_phys link_mem_def m1 cong: if_cong)
  have p: "p \<in> managed_pages s" "\<not> page_used s p" using pmm.alloc_page [OF pmm a] by simp_all
  have "as_wf s' root" unfolding s'' by (rule as_wf_linked [OF wf "is" True a])
  moreover have "table_at (phys_mem s') root (is @ [unat i]) = Some p"
    using table_at_link [OF wf refl "is" True p refl, of "is @ [unat i]" f] "is"
    by (simp add: s'' table_path_snoc)
  moreover have "\<forall>path. page_path path \<longrightarrow> hw_walk (phys_mem s') root path = hw_walk (phys_mem s) root path"
    using hw_walk_link [OF wf refl "is" True p refl] by (simp add: s'')
  moreover have "managed_pages s' = managed_pages s" using pmm.alloc_invar [OF pmm a] by (simp add: s'')
  moreover have "card (free_frames s) \<le> Suc (card (free_frames s'))"
    using pmm_alloc_result [OF pmm a] by (auto simp: s'' card_Diff_singleton_if)
  moreover have "table_at (phys_mem s) root (is @ [unat i]) = None"
    using "is"(3) True by (simp add: table_at_snoc points_to_table_def)
  moreover have "\<forall>j<512. phys_mem s' (slot p j) = 0"
    using managed_aligned [OF pmm p(1)] by (simp add: s'' link_mem_def slot_in_page_iff)
  moreover have "tables_grow s s' root"
    using table_at_link [OF wf refl "is" True p refl, where f = f] p pmm.alloc_used [OF pmm a]
    by (auto simp: tables_grow_def s'')
  ultimately show ?thesis using v m1 by (auto simp: s'')
next
  case False
  have "bit (phys_mem s (slot t (unat i))) 0" by (rule as_wf_present [OF wf "is"(1,4,3) False])
  then have "table_at (phys_mem s) root (is @ [unat i]) = Some (phys_mem s (slot t (unat i)) AND VMM_PTE_ADDR_MASK)"
    using "is"(3) ps by (simp add: table_at_snoc points_to_table_def)
  then show ?thesis using nt False wf by (auto simp: next_table_def peek_slot tables_grow_refl)
qed

lemma next_table_total:
  assumes "pmm_wf s" and "free_frames s \<noteq> {}"
  shows "\<exists>r. next_table g table i s = Inr r"
proof -
  obtain p s' where "pmm_alloc s = Inr (p, s')" using pmm_alloc_total [OF assms] by blast
  then show ?thesis by (simp add: next_table_def Let_def)
qed

text \<open>The state after descending along \<open>is\<close>: the tables on the way are there, nothing is
  mapped differently, and a table that was created is empty.\<close>

definition walked :: "'a vmm_scheme \<Rightarrow> u64 \<Rightarrow> nat list \<Rightarrow> u64 \<Rightarrow> 'a vmm_scheme \<Rightarrow> bool" where
  "walked s root is t s' \<longleftrightarrow> as_wf s' root \<and> table_at (phys_mem s') root is = Some t \<and>
     (\<forall>path. page_path path \<longrightarrow> hw_walk (phys_mem s') root path = hw_walk (phys_mem s) root path) \<and>
     debug s' = debug s \<and> managed_pages s' = managed_pages s \<and>
     card (free_frames s) \<le> length is + card (free_frames s') \<and>
     (s' = s \<or> table_at (phys_mem s) root is = None \<and> (\<forall>j<512. phys_mem s' (slot t j) = 0)) \<and>
     tables_grow s s' root"

lemma walked_refl: "as_wf s root \<Longrightarrow> walked s root [] root s"
  by (simp add: walked_def tables_grow_refl)

lemma walked_step:
  assumes w: "walked s root is t s1" and "is": "table_path is" "length is < 3" "unat i < 512"
    and ps: "\<not> bit (phys_mem s1 (slot t (unat i))) 7"
    and nt: "next_table (table_flags f) (phys_to_virt t) i s1 = Inr (v, s2)"
  shows "\<exists>u. v = phys_to_virt u \<and> walked s root (is @ [unat i]) u s2"
proof -
  from w have wf: "as_wf s1 root" and t: "table_at (phys_mem s1) root is = Some t"
    by (simp_all add: walked_def)
  obtain u where u: "v = phys_to_virt u" "as_wf s2 root"
    "table_at (phys_mem s2) root (is @ [unat i]) = Some u"
    "\<forall>path. page_path path \<longrightarrow> hw_walk (phys_mem s2) root path = hw_walk (phys_mem s1) root path"
    "debug s2 = debug s1" "managed_pages s2 = managed_pages s1"
    "card (free_frames s1) \<le> Suc (card (free_frames s2))"
    "s2 = s1 \<or> table_at (phys_mem s1) root (is @ [unat i]) = None \<and> (\<forall>j<512. phys_mem s2 (slot u j) = 0)"
    "tables_grow s1 s2 root"
    using next_table_spec [OF wf "is"(1,2) t "is"(3) ps nt] by blast
  have "s2 = s \<or> table_at (phys_mem s) root (is @ [unat i]) = None \<and> (\<forall>j<512. phys_mem s2 (slot u j) = 0)"
  proof (cases "s1 = s")
    case True
    then show ?thesis using u(8) by auto
  next
    case False
    then have "table_at (phys_mem s) root is = None" and z: "\<forall>j<512. phys_mem s1 (slot t j) = 0"
      using w by (simp_all add: walked_def)
    moreover have "table_at (phys_mem s1) root (is @ [unat i]) = None"
      using t z "is"(3) by (simp add: table_at_snoc points_to_table_def)
    then have "s2 \<noteq> s1" using u(3) by auto
    ultimately show ?thesis using u(8) by (simp add: table_at_snoc)
  qed
  moreover have "tables_grow s s2 root"
    using tables_grow_trans [OF _ u(9,2) _ u(6)] w by (simp add: walked_def)
  ultimately show ?thesis using u w by (intro exI [of _ u]) (auto simp: walked_def)
qed

lemma walked_total:
  assumes "walked s root is t s1" and "length is < card (free_frames s)"
  shows "\<exists>v s2. next_table g (phys_to_virt t) i s1 = Inr (v, s2)"
proof -
  have "pmm_wf s1" using assms(1) as_wf_pmm by (auto simp: walked_def)
  moreover have "card (free_frames s1) \<noteq> 0" using assms by (auto simp: walked_def)
  then have "free_frames s1 \<noteq> {}" by auto
  ultimately show ?thesis using next_table_total by (metis surj_pair)
qed

lemma walked_leaf:
  assumes "walked s root is t s1" and "j < 512"
  shows "phys_mem s1 (slot t j) =
    (case table_at (phys_mem s) root is of None \<Rightarrow> 0 | Some u \<Rightarrow> phys_mem s (slot u j))"
  using assms by (auto simp: walked_def)

subsection \<open>Indices of a virtual address\<close>

lemma unat_idx: "unat (VMM_PML4_IDX va) = unat va div 2 ^ 39 mod 512"
  "unat (VMM_PDPT_IDX va) = unat va div 2 ^ 30 mod 512"
  "unat (VMM_PD_IDX va) = unat va div 2 ^ 21 mod 512"
  "unat (VMM_PT_IDX va) = unat va div 2 ^ 12 mod 512"
proof -
  have "unat (ucast (drop_bit n va AND 0x1FF) :: u16) = unat va div 2 ^ n mod 512" for n
  proof -
    have "unat (drop_bit n va AND mask 9) = unat va div 2 ^ n mod 512"
      using unat_lt2p [of va]
      by (simp only: unat_and_mask unsigned_drop_bit_eq) (simp add: drop_bit_eq_div take_bit_nat_eq_self)
    moreover have "(0x1FF :: u64) = mask 9" by (simp add: mask_eq_exp_minus_1)
    ultimately show ?thesis by (simp add: unsigned_ucast_eq take_bit_nat_eq_self)
  qed
  then show "unat (VMM_PML4_IDX va) = unat va div 2 ^ 39 mod 512"
    "unat (VMM_PDPT_IDX va) = unat va div 2 ^ 30 mod 512"
    "unat (VMM_PD_IDX va) = unat va div 2 ^ 21 mod 512"
    "unat (VMM_PT_IDX va) = unat va div 2 ^ 12 mod 512"
    unfolding VMM_PML4_IDX_def VMM_PDPT_IDX_def VMM_PD_IDX_def VMM_PT_IDX_def by blast+
qed

lemma idx_less [simp]: "unat (VMM_PML4_IDX va) < 512" "unat (VMM_PDPT_IDX va) < 512"
  "unat (VMM_PD_IDX va) < 512" "unat (VMM_PT_IDX va) < 512"
  by (simp_all add: unat_idx)

lemma page_path_vidx [simp]: "page_path (vidx va)"
  by (simp add: page_path_def vidx_def)

text \<open>\<open>page_of\<close> is the number of the 4 KiB page of an address in the 48 translated bits.\<close>

definition page_of :: "u64 \<Rightarrow> nat" where
  "page_of va = unat va mod 2 ^ 48 div 4096"

lemma digits_eq: "(a :: nat) < 512 ^ 4 \<Longrightarrow> b < 512 ^ 4 \<Longrightarrow>
    a div 512 ^ 3 mod 512 = b div 512 ^ 3 mod 512 \<Longrightarrow> a div 512 ^ 2 mod 512 = b div 512 ^ 2 mod 512 \<Longrightarrow>
    a div 512 mod 512 = b div 512 mod 512 \<Longrightarrow> a mod 512 = b mod 512 \<Longrightarrow> a = b"
proof -
  assume a: "a < 512 ^ 4" "b < 512 ^ 4" "a div 512 ^ 3 mod 512 = b div 512 ^ 3 mod 512"
    "a div 512 ^ 2 mod 512 = b div 512 ^ 2 mod 512" "a div 512 mod 512 = b div 512 mod 512"
    "a mod 512 = b mod 512"
  have step: "x div 512 = y div 512 \<Longrightarrow> x mod 512 = y mod 512 \<Longrightarrow> x = y" for x y :: nat
    by (metis div_mult_mod_eq)
  have "a div 512 ^ 3 div 512 = b div 512 ^ 3 div 512"
    using a(1,2) by (simp flip: div_mult2_eq)
  then have "a div 512 ^ 3 = b div 512 ^ 3" using a(3) by (rule step)
  then have "a div 512 ^ 2 div 512 = b div 512 ^ 2 div 512" by (simp flip: div_mult2_eq)
  then have "a div 512 ^ 2 = b div 512 ^ 2" using a(4) by (rule step)
  then have "a div 512 div 512 = b div 512 div 512" by (simp flip: div_mult2_eq)
  then have "a div 512 = b div 512" using a(5) by (rule step)
  then show "a = b" using a(6) by (rule step)
qed

lemma div_pow_mod:
  assumes "k \<le> 27"
  shows "(x :: nat) div 2 ^ (12 + k) mod 512 = (x mod 2 ^ 48 div 4096) div 2 ^ k mod 512"
proof -
  have "take_bit 9 (drop_bit (12 + k) x) = take_bit 9 (drop_bit k (drop_bit 12 (take_bit 48 x)))"
    using assms by (intro bit_eqI) (auto simp: bit_simps ac_simps)
  then have "x div 2 ^ (12 + k) mod 2 ^ 9 = x mod 2 ^ 48 div 2 ^ 12 div 2 ^ k mod 2 ^ 9"
    by (simp only: take_bit_eq_mod drop_bit_eq_div)
  then show ?thesis by simp
qed

lemma vidx_page_of: "vidx va = [page_of va div 512 ^ 3 mod 512, page_of va div 512 ^ 2 mod 512,
    page_of va div 512 mod 512, page_of va mod 512]"
proof -
  have p: "(512 :: nat) ^ 3 = 2 ^ 27" "(512 :: nat) ^ 2 = 2 ^ 18" "(512 :: nat) = 2 ^ 9" by simp_all
  have n: "(39 :: nat) = 12 + 27" "(30 :: nat) = 12 + 18" "(21 :: nat) = 12 + 9" by simp_all
  have "unat va div 2 ^ 39 mod 512 = page_of va div 512 ^ 3 mod 512"
    unfolding n page_of_def p(1) by (rule div_pow_mod) simp
  moreover have "unat va div 2 ^ 30 mod 512 = page_of va div 512 ^ 2 mod 512"
    unfolding n page_of_def p(2) by (rule div_pow_mod) simp
  moreover have "unat va div 2 ^ 21 mod 512 = page_of va div 2 ^ 9 mod 512"
    unfolding n page_of_def by (rule div_pow_mod) simp
  moreover have "unat va div 2 ^ (12 + 0) mod 512 = page_of va div 2 ^ 0 mod 512"
    unfolding page_of_def by (rule div_pow_mod) simp
  ultimately show ?thesis by (simp add: vidx_def unat_idx)
qed

lemma page_of_less: "page_of v < 512 ^ 4"
proof -
  have "unat v mod 2 ^ 48 < 512 ^ 4 * 4096" by (rule less_le_trans [OF mod_less_divisor]) simp_all
  then show ?thesis unfolding page_of_def by (rule less_mult_imp_div_less)
qed

lemma vidx_eq_iff: "vidx va = vidx vb \<longleftrightarrow> page_of va = page_of vb"
proof
  assume e: "vidx va = vidx vb"
  note lt = page_of_less
  show "page_of va = page_of vb"
    using e unfolding vidx_page_of list.inject by (elim conjE) (rule digits_eq [OF lt lt])
qed (simp add: vidx_page_of)

end
