(* ===== verification/VmmSpec.thy ===== *)
theory VmmSpec
  imports Vmm
begin

text \<open>
  What the operations of kernel/kernel/vmm.c do to the translation of every address, on
  well-formed address spaces: mapping, unmapping and releasing pages of the three sizes,
  the creation of an address space and its destruction.
\<close>

unbundle bit_operations_syntax

section \<open>The operations\<close>

declare table_at.simps(2) [simp del] and hw_walk.simps(3) [simp del]

text \<open>\<open>small_path\<close>: the address is not inside a large or huge page. \<open>leaf_word\<close> is the word of
  the last table on the way to the address, 0 when there is no such table.\<close>

definition small_path :: "(u64 \<Rightarrow> u64) \<Rightarrow> u64 \<Rightarrow> u64 \<Rightarrow> bool" where
  "small_path m root va \<longleftrightarrow> (\<forall>n e. hw_walk m root (vidx va) = Some (n, e) \<longrightarrow> n = 0)"

definition entry_word :: "(u64 \<Rightarrow> u64) \<Rightarrow> u64 \<Rightarrow> nat list \<Rightarrow> nat \<Rightarrow> u64" where
  "entry_word m root is i = (case table_at m root is of None \<Rightarrow> 0 | Some t \<Rightarrow> m (slot t i))"

lemma no_leaf_on_path:
  assumes wf: "as_wf s root" and "is": "table_path is" "length is < 3"
      "table_at (phys_mem s) root is = Some t"
    and path: "page_path (is @ i # js)"
    and big: "\<forall>n e. hw_walk (phys_mem s) root (is @ i # js) = Some (n, e) \<longrightarrow> n < length js"
  shows "\<not> bit (phys_mem s (slot t i)) 7"
proof
  assume b: "bit (phys_mem s (slot t i)) 7"
  have i: "i < 512" using page_path_split [OF path] by simp
  have p: "bit (phys_mem s (slot t i)) 0"
    by (rule as_wf_present [OF wf "is"(1) i "is"(3)]) (use b in auto)
  show False
  proof (cases "is = []")
    case True
    then show False using wf b i "is"(3) by (simp add: as_wf_def)
  next
    case False
    then obtain j ks where js: "js = j # ks" "length ks < 2"
      using path "is"(2) by (cases js; cases "is") (auto simp: page_path_def)
    then have "hw_walk (phys_mem s) root (is @ i # js) = Some (Suc (length ks), phys_mem s (slot t i))"
      using hw_walk_table [OF "is"(3), of "i # js"] p b by (simp add: hw_walk.simps(3) Let_def)
    then show False using big js by auto
  qed
qed

lemma walked_descend:
  assumes w: "walked s root is t s1" and "is": "table_path is" "length is < 3"
    and path: "page_path (is @ unat i # js)"
    and big: "\<forall>n e. hw_walk (phys_mem s) root (is @ unat i # js) = Some (n, e) \<longrightarrow> n < length js"
    and nt: "next_table (table_flags f) (phys_to_virt t) i s1 = Inr (v, s2)"
  shows "\<exists>u. v = phys_to_virt u \<and> walked s root (is @ [unat i]) u s2"
proof (rule walked_step [OF w "is" _ _ nt])
  show "unat i < 512" using page_path_split [OF path] by simp
  show "\<not> bit (phys_mem s1 (slot t (unat i))) 7"
    using w big path by (intro no_leaf_on_path [OF _ "is" _ path]) (auto simp: walked_def)
qed

lemma hw_walk_level: "hw_walk m t path = Some (n, e) \<Longrightarrow> n < 3"
  by (induction m t path rule: hw_walk.induct) (auto simp: hw_walk.simps(3) Let_def split: if_splits)

lemma small_path_intro:
  assumes "as_wf s root" and "hw_walk (phys_mem s) root (vidx va) = None"
  shows "small_path (phys_mem s) root va"
  using assms by (simp add: small_path_def)

abbreviation "i4 va \<equiv> unat (VMM_PML4_IDX va)"
abbreviation "i3 va \<equiv> unat (VMM_PDPT_IDX va)"
abbreviation "i2 va \<equiv> unat (VMM_PD_IDX va)"
abbreviation "i1 va \<equiv> unat (VMM_PT_IDX va)"

lemma vidx_splits:
  "[] @ i4 va # [i3 va, i2 va, i1 va] = vidx va"
  "[i4 va] @ i3 va # [i2 va, i1 va] = vidx va"
  "[i4 va, i3 va] @ i2 va # [i1 va] = vidx va"
  "[i4 va, i3 va, i2 va] @ i1 va # [] = vidx va"
  by (simp_all add: vidx_def)

lemma table_paths [simp]:
  "table_path [i4 va]" "table_path [i4 va, i3 va]" "table_path [i4 va, i3 va, i2 va]"
  by (simp_all add: table_path_def)

lemma walked_pdpt:
  assumes "as_wf s root" and "next_table (table_flags f) (phys_to_virt root) (VMM_PML4_IDX va) s = Inr (v, s1)"
  obtains t where "v = phys_to_virt t" and "walked s root [i4 va] t s1"
proof -
  have "page_path ([] @ i4 va # [i3 va, i2 va, i1 va])" by (simp only: vidx_splits page_path_vidx)
  moreover have "\<forall>n e. hw_walk (phys_mem s) root ([] @ i4 va # [i3 va, i2 va, i1 va]) = Some (n, e) \<longrightarrow>
      n < length [i3 va, i2 va, i1 va]" using hw_walk_level by fastforce
  ultimately show thesis
    using walked_descend [OF walked_refl [OF assms(1)] _ _ _ _ assms(2)] that by fastforce
qed

lemma walked_pd:
  assumes "walked s root [i4 va] t1 s1"
    and "\<forall>n e. hw_walk (phys_mem s) root (vidx va) = Some (n, e) \<longrightarrow> n < 2"
    and "next_table (table_flags f) (phys_to_virt t1) (VMM_PDPT_IDX va) s1 = Inr (v, s2)"
  obtains t where "v = phys_to_virt t" and "walked s root [i4 va, i3 va] t s2"
proof -
  have "page_path ([i4 va] @ i3 va # [i2 va, i1 va])" by (simp only: vidx_splits page_path_vidx)
  moreover have "\<forall>n e. hw_walk (phys_mem s) root ([i4 va] @ i3 va # [i2 va, i1 va]) = Some (n, e) \<longrightarrow>
      n < length [i2 va, i1 va]" unfolding vidx_splits using assms(2) by (simp add: numeral_2_eq_2)
  ultimately show thesis
    using walked_descend [OF assms(1) _ _ _ _ assms(3)] that by fastforce
qed

lemma walked_pt:
  assumes "walked s root [i4 va, i3 va] t2 s2" and "small_path (phys_mem s) root va"
    and "next_table (table_flags f) (phys_to_virt t2) (VMM_PD_IDX va) s2 = Inr (v, s3)"
  obtains t where "v = phys_to_virt t" and "walked s root [i4 va, i3 va, i2 va] t s3"
proof -
  have "page_path ([i4 va, i3 va] @ i2 va # [i1 va])" by (simp only: vidx_splits page_path_vidx)
  moreover have "\<forall>n e. hw_walk (phys_mem s) root ([i4 va, i3 va] @ i2 va # [i1 va]) = Some (n, e) \<longrightarrow>
      n < length [i1 va]" unfolding vidx_splits using assms(2) by (simp add: small_path_def)
  ultimately show thesis
    using walked_descend [OF assms(1) _ _ _ _ assms(3)] that by fastforce
qed

subsection \<open>Mapping and unmapping 4 KiB pages\<close>

lemma vmm_map_walked:
  assumes wf: "as_wf s root" and sm: "small_path (phys_mem s) root virt"
    and map: "vmm_map (phys_to_virt root) phys virt flags s = Inr s'"
  shows "\<exists>t s3. walked s root [i4 virt, i3 virt, i2 virt] t s3 \<and>
    s' = s3\<lparr>phys_mem := (phys_mem s3)(slot t (i1 virt) := phys OR flags)\<rparr> \<and>
    (debug s \<longrightarrow> is_aligned phys 4096 \<and> is_aligned virt 4096 \<and>
       entry_word (phys_mem s) root [i4 virt, i3 virt, i2 virt] (i1 virt) = 0)"
proof -
  from map obtain v1 s1 v2 s2 v3 s3
    where n1: "next_table (table_flags flags) (phys_to_virt root) (VMM_PML4_IDX virt) s = Inr (v1, s1)"
      and n2: "next_table (table_flags flags) v1 (VMM_PDPT_IDX virt) s1 = Inr (v2, s2)"
      and n3: "next_table (table_flags flags) v2 (VMM_PD_IDX virt) s2 = Inr (v3, s3)"
      and dbg: "debug s \<longrightarrow> is_aligned phys 4096 \<and> is_aligned virt 4096"
        "debug s3 \<longrightarrow> peek s3 v3 (VMM_PT_IDX virt) = 0"
      and s': "s' = poke v3 (VMM_PT_IDX virt) (phys OR flags) s3"
    by (auto simp: vmm_map_def Let_def andthen_eq_Inr_iff)
  obtain t1 where t1: "v1 = phys_to_virt t1" "walked s root [i4 virt] t1 s1"
    using wf n1 by (rule walked_pdpt)
  have big: "\<forall>n e. hw_walk (phys_mem s) root (vidx virt) = Some (n, e) \<longrightarrow> n < 2"
    using sm by (auto simp: small_path_def)
  obtain t2 where t2: "v2 = phys_to_virt t2" "walked s root [i4 virt, i3 virt] t2 s2"
    using t1(2) big n2 [unfolded t1(1)] by (rule walked_pd)
  obtain t3 where t3: "v3 = phys_to_virt t3" "walked s root [i4 virt, i3 virt, i2 virt] t3 s3"
    using t2(2) sm n3 [unfolded t2(1)] by (rule walked_pt)
  have "debug s3 = debug s" using t3(2) by (simp add: walked_def)
  then show ?thesis
    using t3 dbg s' walked_leaf [OF t3(2), of "i1 virt"]
    by (auto simp: poke_slot peek_slot entry_word_def)
qed

lemma hw_walk_last:
  assumes "table_at m root [i4 va, i3 va, i2 va] = Some t"
  shows "hw_walk m root (vidx va) =
    (if bit (m (slot t (i1 va))) 0 then Some (0, m (slot t (i1 va))) else None)"
  using hw_walk_table [OF assms, of "[i1 va]"] by (simp only: vidx_splits) simp

lemma vidx_prefix_iff: "(\<exists>js. vidx va = [i4 vb, i3 vb, i2 vb] @ i1 vb # js) \<longleftrightarrow> page_of va = page_of vb"
  unfolding vidx_eq_iff [symmetric] by (auto simp: vidx_def)

text \<open>What writing the last-level entry of an address does.\<close>

lemma write_pte:
  assumes wf: "as_wf s root" and t: "table_at (phys_mem s) root [i4 va, i3 va, i2 va] = Some t"
    and v: "v \<noteq> 0 \<Longrightarrow> bit v 0"
    and s': "s' = s\<lparr>phys_mem := (phys_mem s)(slot t (i1 va) := v)\<rparr>"
  shows "as_wf s' root"
    and "hw_walk (phys_mem s') root (vidx vb) =
      (if page_of vb = page_of va then (if bit v 0 then Some (0, v) else None)
       else hw_walk (phys_mem s) root (vidx vb))"
proof -
  show "as_wf s' root"
    unfolding s' by (rule as_wf_leaf [OF wf _ t]) (use v in simp_all)
  show "hw_walk (phys_mem s') root (vidx vb) =
      (if page_of vb = page_of va then (if bit v 0 then Some (0, v) else None)
       else hw_walk (phys_mem s) root (vidx vb))"
  proof (cases "page_of vb = page_of va")
    case True
    then have "vidx vb = vidx va" by (simp add: vidx_eq_iff)
    moreover have "table_at (phys_mem s') root [i4 va, i3 va, i2 va] = Some t"
      using table_at_leaf [OF wf refl _ t, of "i1 va" v] t by (simp add: s')
    ultimately show ?thesis using True hw_walk_last [of "phys_mem s'" root va t] by (simp add: s')
  next
    case False
    then have "\<nexists>js. vidx vb = [i4 va, i3 va, i2 va] @ i1 va # js" by (simp only: vidx_prefix_iff) simp
    with False show ?thesis
      using hw_walk_leaf_other [OF wf refl _ t _ page_path_vidx, of "i1 va" vb v] by (simp add: s')
  qed
qed

lemma vmm_map_effect:
  assumes wf: "as_wf s root" and sm: "small_path (phys_mem s) root virt" and P: "bit flags 0"
    and map: "vmm_map (phys_to_virt root) phys virt flags s = Inr s'"
  shows "as_wf s' root \<and> debug s' = debug s \<and> managed_pages s' = managed_pages s \<and>
    card (free_frames s) \<le> 3 + card (free_frames s') \<and> tables_grow s s' root \<and>
    (\<forall>va. hw_walk (phys_mem s') root (vidx va) =
      (if page_of va = page_of virt then Some (0, phys OR flags)
       else hw_walk (phys_mem s) root (vidx va)))"
proof -
  obtain t s3 where w: "walked s root [i4 virt, i3 virt, i2 virt] t s3"
    and s': "s' = s3\<lparr>phys_mem := (phys_mem s3)(slot t (i1 virt) := phys OR flags)\<rparr>"
    using vmm_map_walked [OF wf sm map] by blast
  have wf3: "as_wf s3 root" and t: "table_at (phys_mem s3) root [i4 virt, i3 virt, i2 virt] = Some t"
    using w by (simp_all add: walked_def)
  have P': "bit (phys OR flags) 0" using P by (simp add: bit_or_iff)
  have "tables_grow s s' root"
    using w table_at_leaf [OF wf3 refl _ t, of "i1 virt" "phys OR flags"]
    by (auto simp: walked_def tables_grow_def s')
  then show ?thesis
    using write_pte [OF wf3 t _ s'] P' w by (simp add: walked_def) (simp add: s')
qed

lemma vmm_map_total:
  assumes wf: "as_wf s root" and sm: "small_path (phys_mem s) root virt"
    and free: "3 \<le> card (free_frames s)"
    and dbg: "debug s \<Longrightarrow> is_aligned phys 4096 \<and> is_aligned virt 4096 \<and>
      entry_word (phys_mem s) root [i4 virt, i3 virt, i2 virt] (i1 virt) = 0"
  shows "\<exists>s'. vmm_map (phys_to_virt root) phys virt flags s = Inr s'"
proof -
  let ?f = "table_flags flags"
  obtain v1 s1 where n1: "next_table ?f (phys_to_virt root) (VMM_PML4_IDX virt) s = Inr (v1, s1)"
    using walked_total [OF walked_refl [OF wf]] free by force
  then obtain t1 where t1: "v1 = phys_to_virt t1" "walked s root [i4 virt] t1 s1"
    using wf by (metis walked_pdpt)
  obtain v2 s2 where n2: "next_table ?f v1 (VMM_PDPT_IDX virt) s1 = Inr (v2, s2)"
    using walked_total [OF t1(2)] free unfolding t1(1) by force
  have "\<forall>n e. hw_walk (phys_mem s) root (vidx virt) = Some (n, e) \<longrightarrow> n < 2"
    using sm by (auto simp: small_path_def)
  then obtain t2 where t2: "v2 = phys_to_virt t2" "walked s root [i4 virt, i3 virt] t2 s2"
    using n2 [unfolded t1(1)] t1(2) by (metis walked_pd)
  obtain v3 s3 where n3: "next_table ?f v2 (VMM_PD_IDX virt) s2 = Inr (v3, s3)"
    using walked_total [OF t2(2)] free unfolding t2(1) by force
  obtain t3 where t3: "v3 = phys_to_virt t3" "walked s root [i4 virt, i3 virt, i2 virt] t3 s3"
    using t2(2) sm n3 [unfolded t2(1)] by (rule walked_pt)
  have "debug s3 = debug s" using t3(2) by (simp add: walked_def)
  then have "debug s3 \<longrightarrow> peek s3 v3 (VMM_PT_IDX virt) = 0"
    using dbg walked_leaf [OF t3(2), of "i1 virt"] by (auto simp: t3(1) peek_slot entry_word_def)
  then show ?thesis using n1 n2 n3 dbg by (auto simp: vmm_map_def Let_def when_debug_def)
qed

lemma leaf_translate:
  assumes "hw_walk m root (vidx va) = Some (n, phys OR g)"
    and "phys AND VMM_PTE_ADDR_MASK = phys" and "g AND VMM_PTE_ADDR_MASK = 0"
    and "phys AND mask (page_shift n) = 0"
  shows "translate m root va = Some (phys OR (va AND mask (page_shift n)), phys OR g)"
proof -
  have "(phys OR g) AND VMM_PTE_ADDR_MASK AND NOT (mask (page_shift n)) = phys"
  proof (rule bit_word_eqI)
    fix k
    have "bit phys k = bit (phys AND VMM_PTE_ADDR_MASK) k"
      "bit (g AND VMM_PTE_ADDR_MASK) k = False" "bit (phys AND mask (page_shift n)) k = False"
      using assms(2-4) by simp_all
    then show "bit ((phys OR g) AND VMM_PTE_ADDR_MASK AND NOT (mask (page_shift n))) k = bit phys k"
      by (auto simp: bit_simps bit_addr_mask)
  qed
  then show ?thesis using assms(1) by (simp add: translate_def and.assoc)
qed

lemma translate_cong: "hw_walk m' root (vidx va) = hw_walk m root (vidx va) \<Longrightarrow>
    translate m' root va = translate m root va"
  by (simp add: translate_def)

lemma ps_flag: "x AND VMM_PS_FLAG = 0 \<longleftrightarrow> \<not> bit (x :: u64) 7"
  using and_exp_eq_0_iff_not_bit [of x 7] by simp

lemma present_flag: "x AND VMM_FLAGS_PRESENT = 0 \<longleftrightarrow> \<not> bit (x :: u64) 0"
  using and_exp_eq_0_iff_not_bit [of x 0] by simp

text \<open>A translation determines the tables above it.\<close>

lemma hw_walk_pml4:
  assumes "hw_walk m root (vidx va) = Some (n, e)"
  obtains t where "table_at m root [i4 va] = Some t" and "points_to_table (m (slot root (i4 va)))"
    and "t = m (slot root (i4 va)) AND VMM_PTE_ADDR_MASK"
    and "hw_walk m t [i3 va, i2 va, i1 va] = Some (n, e)"
  using assms that
  by (auto simp: vidx_def hw_walk.simps(3) table_at.simps Let_def points_to_table_def split: if_splits)

lemma hw_walk_pdpt:
  assumes "hw_walk m t [i3 va, i2 va, i1 va] = Some (n, e)" and "table_at m root [i4 va] = Some t"
  shows "bit (m (slot t (i3 va))) 0" and "bit (m (slot t (i3 va))) 7 \<longleftrightarrow> n = 2"
    and "n = 2 \<Longrightarrow> e = m (slot t (i3 va))"
    and "n < 2 \<Longrightarrow> table_at m root [i4 va, i3 va] = Some (m (slot t (i3 va)) AND VMM_PTE_ADDR_MASK) \<and>
      hw_walk m (m (slot t (i3 va)) AND VMM_PTE_ADDR_MASK) [i2 va, i1 va] = Some (n, e)"
  using assms(1) table_at_snoc [of m root "[i4 va]" "i3 va"] assms(2)
  by (auto simp: hw_walk.simps(3) Let_def points_to_table_def split: if_splits)

lemma hw_walk_pd:
  assumes "hw_walk m t [i2 va, i1 va] = Some (n, e)" and "table_at m root [i4 va, i3 va] = Some t"
  shows "bit (m (slot t (i2 va))) 0" and "bit (m (slot t (i2 va))) 7 \<longleftrightarrow> n = 1"
    and "n = 1 \<Longrightarrow> e = m (slot t (i2 va))"
    and "n = 0 \<Longrightarrow> table_at m root [i4 va, i3 va, i2 va] = Some (m (slot t (i2 va)) AND VMM_PTE_ADDR_MASK) \<and>
      e = m (slot (m (slot t (i2 va)) AND VMM_PTE_ADDR_MASK) (i1 va)) \<and> bit e 0"
  using assms(1) table_at_snoc [of m root "[i4 va, i3 va]" "i2 va"] assms(2)
  by (auto simp: hw_walk.simps(3) Let_def points_to_table_def split: if_splits)

lemma not_bit_0: "bit (x :: u64) n \<Longrightarrow> x \<noteq> 0"
  by auto

lemma vmm_unmap_effect:
  assumes wf: "as_wf s root" and w: "hw_walk (phys_mem s) root (vidx virt) = Some (0, e)"
    and dbg: "debug s \<Longrightarrow> is_aligned virt 4096"
  shows "\<exists>s'. vmm_unmap (phys_to_virt root) virt s = Inr s' \<and> as_wf s' root \<and>
    free_frames s' = free_frames s \<and>
    (\<forall>va. hw_walk (phys_mem s') root (vidx va) =
      (if page_of va = page_of virt then None else hw_walk (phys_mem s) root (vidx va))) \<and>
    (\<forall>is. table_path is \<longrightarrow> table_at (phys_mem s') root is = table_at (phys_mem s) root is)"
proof -
  let ?m = "phys_mem s"
  obtain t1 where t1: "table_at ?m root [i4 virt] = Some t1" "points_to_table (?m (slot root (i4 virt)))"
      "t1 = ?m (slot root (i4 virt)) AND VMM_PTE_ADDR_MASK"
      "hw_walk ?m t1 [i3 virt, i2 virt, i1 virt] = Some (0, e)"
    using w by (rule hw_walk_pml4)
  define t2 where "t2 = ?m (slot t1 (i3 virt)) AND VMM_PTE_ADDR_MASK"
  have t2: "table_at ?m root [i4 virt, i3 virt] = Some t2" "hw_walk ?m t2 [i2 virt, i1 virt] = Some (0, e)"
    "bit (?m (slot t1 (i3 virt))) 0" "\<not> bit (?m (slot t1 (i3 virt))) 7"
    using hw_walk_pdpt [OF t1(4,1)] by (simp_all add: t2_def)
  define t3 where "t3 = ?m (slot t2 (i2 virt)) AND VMM_PTE_ADDR_MASK"
  have t3: "table_at ?m root [i4 virt, i3 virt, i2 virt] = Some t3"
    "bit (?m (slot t2 (i2 virt))) 0" "\<not> bit (?m (slot t2 (i2 virt))) 7"
    "e = ?m (slot t3 (i1 virt))" "bit e 0"
    using hw_walk_pd(1,2) [OF t2(2,1)] hw_walk_pd(4) [OF t2(2,1) refl] by (auto simp: t3_def)
  have "?m (slot root (i4 virt)) \<noteq> 0" using t1(2) by (auto simp: points_to_table_def)
  moreover note not_bit_0 [OF t2(3)] not_bit_0 [OF t3(2)] not_bit_0 [OF t3(5)]
  ultimately have "vmm_unmap (phys_to_virt root) virt s =
      Inr (s\<lparr>phys_mem := ?m(slot t3 (i1 virt) := 0)\<rparr>)"
    using dbg t2(4) t3(3,4)
    by (simp add: vmm_unmap_def existing_table_def peek_slot poke_slot Let_def ps_flag
        when_debug_def t1(3) [symmetric] t2_def [symmetric] t3_def [symmetric])
  moreover have "\<forall>is. table_path is \<longrightarrow>
      table_at (?m(slot t3 (i1 virt) := 0)) root is = table_at ?m root is"
    using table_at_leaf [OF wf refl _ t3(1), of "i1 virt" 0] by simp
  ultimately show ?thesis
    using write_pte [OF wf t3(1) _ refl, of 0] by (auto simp: bit_0_eq)
qed

subsection \<open>Large and huge pages\<close>

lemma vidx_prefix_large:
  "(\<exists>js. vidx va = [i4 vb, i3 vb] @ i2 vb # js) \<longleftrightarrow> page_of va div 512 = page_of vb div 512"
proof -
  have "(\<exists>js. vidx va = [i4 vb, i3 vb] @ i2 vb # js) \<longleftrightarrow> take 3 (vidx va) = take 3 (vidx vb)"
    by (simp add: vidx_def)
  also have "\<dots> \<longleftrightarrow> page_of va div 512 = page_of vb div 512"
  proof
    assume e: "take 3 (vidx va) = take 3 (vidx vb)"
    have lt: "page_of v div 512 < 512 ^ 4" "page_of v div 512 div 512 ^ 3 mod 512 = 0" for v
      using page_of_less [of v] by (simp_all add: less_mult_imp_div_less flip: div_mult2_eq)
    show "page_of va div 512 = page_of vb div 512"
      by (rule digits_eq [OF lt(1) lt(1)])
        (use e lt(2) in \<open>simp_all add: vidx_page_of flip: div_mult2_eq\<close>)
  next
    assume e: "page_of va div 512 = page_of vb div 512"
    have "page_of v div 262144 = page_of v div 512 div 512"
      "page_of v div 134217728 = page_of v div 512 div 512 div 512" for v
      by (simp_all flip: div_mult2_eq)
    then show "take 3 (vidx va) = take 3 (vidx vb)" using e by (simp add: vidx_page_of)
  qed
  finally show ?thesis .
qed

lemma vidx_prefix_huge:
  "(\<exists>js. vidx va = [i4 vb] @ i3 vb # js) \<longleftrightarrow> page_of va div 512 ^ 2 = page_of vb div 512 ^ 2"
proof -
  have "(\<exists>js. vidx va = [i4 vb] @ i3 vb # js) \<longleftrightarrow> take 2 (vidx va) = take 2 (vidx vb)"
    by (simp add: vidx_def)
  also have "\<dots> \<longleftrightarrow> page_of va div 512 ^ 2 = page_of vb div 512 ^ 2"
  proof
    assume e: "take 2 (vidx va) = take 2 (vidx vb)"
    have lt: "page_of v div 512 ^ 2 < 512 ^ 4" "page_of v div 512 ^ 2 div 512 ^ 3 mod 512 = 0"
      "page_of v div 512 ^ 2 div 512 ^ 2 mod 512 = 0" for v
      using page_of_less [of v] by (simp_all add: less_mult_imp_div_less flip: div_mult2_eq)
    show "page_of va div 512 ^ 2 = page_of vb div 512 ^ 2"
      by (rule digits_eq [OF lt(1) lt(1)])
        (use e lt(2,3) in \<open>simp_all add: vidx_page_of flip: div_mult2_eq\<close>)
  next
    assume e: "page_of va div 512 ^ 2 = page_of vb div 512 ^ 2"
    then have "page_of va div 512 ^ 2 div 512 = page_of vb div 512 ^ 2 div 512" by simp
    then show "take 2 (vidx va) = take 2 (vidx vb)"
      using e by (simp add: vidx_page_of flip: div_mult2_eq)
  qed
  finally show ?thesis .
qed

lemma write_pde:
  assumes wf: "as_wf s root" and t: "table_at (phys_mem s) root [i4 va, i3 va] = Some t"
    and old: "\<not> points_to_table (phys_mem s (slot t (i2 va)))"
    and v: "v = 0 \<or> bit v 0 \<and> bit v 7"
    and s': "s' = s\<lparr>phys_mem := (phys_mem s)(slot t (i2 va) := v)\<rparr>"
  shows "as_wf s' root"
    and "hw_walk (phys_mem s') root (vidx vb) =
      (if page_of vb div 512 = page_of va div 512 then (if v = 0 then None else Some (1, v))
       else hw_walk (phys_mem s) root (vidx vb))"
proof -
  have new: "\<not> points_to_table v" using v by (auto simp: points_to_table_def)
  show "as_wf s' root"
    unfolding s' by (rule as_wf_leaf [OF wf _ t]) (use old new v in simp_all)
  show "hw_walk (phys_mem s') root (vidx vb) =
      (if page_of vb div 512 = page_of va div 512 then (if v = 0 then None else Some (1, v))
       else hw_walk (phys_mem s) root (vidx vb))"
  proof (cases "page_of vb div 512 = page_of va div 512")
    case True
    then obtain js where js: "vidx vb = [i4 va, i3 va] @ i2 va # js" by (auto simp: vidx_prefix_large [symmetric])
    then obtain j where "js = [j]" by (auto simp: vidx_def)
    moreover have "table_at (phys_mem s') root [i4 va, i3 va] = Some t"
      using table_at_leaf [OF wf refl _ t, of "i2 va" v] t old new by (simp add: s')
    ultimately have "hw_walk (phys_mem s') root (vidx vb) = hw_walk (phys_mem s') t [i2 va, j]"
      using hw_walk_table [of "phys_mem s'" root "[i4 va, i3 va]" t "[i2 va, j]"] js by simp
    then show ?thesis using True v by (auto simp: s' hw_walk.simps(3) Let_def)
  next
    case False
    then have "\<nexists>js. vidx vb = [i4 va, i3 va] @ i2 va # js" by (simp only: vidx_prefix_large) simp
    with False show ?thesis
      using hw_walk_leaf_other [OF wf refl _ t _ page_path_vidx, of "i2 va" vb v] by (simp add: s')
  qed
qed

lemma write_pdpte:
  assumes wf: "as_wf s root" and t: "table_at (phys_mem s) root [i4 va] = Some t"
    and old: "\<not> points_to_table (phys_mem s (slot t (i3 va)))"
    and v: "v = 0 \<or> bit v 0 \<and> bit v 7"
    and s': "s' = s\<lparr>phys_mem := (phys_mem s)(slot t (i3 va) := v)\<rparr>"
  shows "as_wf s' root"
    and "hw_walk (phys_mem s') root (vidx vb) =
      (if page_of vb div 512 ^ 2 = page_of va div 512 ^ 2 then (if v = 0 then None else Some (2, v))
       else hw_walk (phys_mem s) root (vidx vb))"
proof -
  have new: "\<not> points_to_table v" using v by (auto simp: points_to_table_def)
  show "as_wf s' root"
    unfolding s' by (rule as_wf_leaf [OF wf _ t]) (use old new v in simp_all)
  show "hw_walk (phys_mem s') root (vidx vb) =
      (if page_of vb div 512 ^ 2 = page_of va div 512 ^ 2 then (if v = 0 then None else Some (2, v))
       else hw_walk (phys_mem s) root (vidx vb))"
  proof (cases "page_of vb div 512 ^ 2 = page_of va div 512 ^ 2")
    case True
    then obtain js where js: "vidx vb = [i4 va] @ i3 va # js"
      by (simp only: vidx_prefix_huge [symmetric]) blast
    then obtain j k where "js = [j, k]" by (auto simp: vidx_def)
    moreover have "table_at (phys_mem s') root [i4 va] = Some t"
      using table_at_leaf [OF wf refl _ t, of "i3 va" v] t old new by (simp add: s')
    ultimately have "hw_walk (phys_mem s') root (vidx vb) = hw_walk (phys_mem s') t [i3 va, j, k]"
      using hw_walk_table [of "phys_mem s'" root "[i4 va]" t "[i3 va, j, k]"] js by simp
    then show ?thesis using True v by (auto simp: s' hw_walk.simps(3) Let_def)
  next
    case False
    then have "\<nexists>js. vidx vb = [i4 va] @ i3 va # js" by (simp only: vidx_prefix_huge) simp
    with False show ?thesis
      using hw_walk_leaf_other [OF wf refl _ t _ page_path_vidx, of "i3 va" vb v] by (simp add: s')
  qed
qed

lemma vmm_map_large_effect:
  assumes wf: "as_wf s root"
    and big: "\<forall>n e. hw_walk (phys_mem s) root (vidx virt) = Some (n, e) \<longrightarrow> n < 2"
    and z: "entry_word (phys_mem s) root [i4 virt, i3 virt] (i2 virt) = 0"
    and free: "2 \<le> card (free_frames s)" and P: "bit flags 0"
    and dbg: "debug s \<Longrightarrow> is_aligned phys 0x200000 \<and> is_aligned virt 0x200000"
  shows "\<exists>s'. vmm_map_large (phys_to_virt root) phys virt flags s = Inr s' \<and> as_wf s' root \<and>
    (\<forall>va. hw_walk (phys_mem s') root (vidx va) =
      (if page_of va div 512 = page_of virt div 512 then Some (1, phys OR (flags OR VMM_PS_FLAG))
       else hw_walk (phys_mem s) root (vidx va)))"
proof -
  let ?f = "table_flags flags" and ?v = "phys OR (flags OR VMM_PS_FLAG)"
  obtain v1 s1 where n1: "next_table ?f (phys_to_virt root) (VMM_PML4_IDX virt) s = Inr (v1, s1)"
    using walked_total [OF walked_refl [OF wf]] free by force
  then obtain t1 where t1: "v1 = phys_to_virt t1" "walked s root [i4 virt] t1 s1"
    using wf by (metis walked_pdpt)
  have ps: "\<not> bit (phys_mem s1 (slot t1 (i3 virt))) 7"
  proof (rule no_leaf_on_path [where root = root and js = "[i2 virt, i1 virt]"])
    show "as_wf s1 root" "table_at (phys_mem s1) root [i4 virt] = Some t1"
      using t1(2) by (simp_all add: walked_def)
    show "page_path ([i4 virt] @ i3 virt # [i2 virt, i1 virt])" by (simp only: vidx_splits page_path_vidx)
    show "\<forall>n e. hw_walk (phys_mem s1) root ([i4 virt] @ i3 virt # [i2 virt, i1 virt]) = Some (n, e) \<longrightarrow>
      n < length [i2 virt, i1 virt]"
      unfolding vidx_splits using t1(2) big by (simp add: walked_def numeral_2_eq_2)
  qed simp_all
  obtain v2 s2 where n2: "next_table ?f v1 (VMM_PDPT_IDX virt) s1 = Inr (v2, s2)"
    using walked_total [OF t1(2)] free unfolding t1(1) by force
  then obtain t2 where t2: "v2 = phys_to_virt t2" "walked s root [i4 virt, i3 virt] t2 s2"
    using big t1 by (metis walked_pd)
  have z2: "phys_mem s2 (slot t2 (i2 virt)) = 0"
    using walked_leaf [OF t2(2), of "i2 virt"] z by (simp add: entry_word_def split: option.splits)
  have "vmm_map_large (phys_to_virt root) phys virt flags s =
      Inr (s2\<lparr>phys_mem := (phys_mem s2)(slot t2 (i2 virt) := ?v)\<rparr>)"
    using n1 n2 t1(1) t2(1) ps z2 dbg
    by (simp add: vmm_map_large_def Let_def peek_slot poke_slot ps_flag when_debug_def)
  moreover have "bit ?v 0 \<and> bit ?v 7" using P by (simp add: bit_or_iff bit_numeral_rec)
  moreover from this have "?v \<noteq> 0" by auto
  ultimately show ?thesis
    using write_pde [OF _ _ _ _ refl, of s2 root virt t2 ?v] t2(2) z2
    by (auto simp: walked_def points_to_table_def)
qed

lemma vmm_map_huge_effect:
  assumes wf: "as_wf s root"
    and z: "entry_word (phys_mem s) root [i4 virt] (i3 virt) = 0"
    and free: "1 \<le> card (free_frames s)" and P: "bit flags 0"
    and dbg: "debug s \<Longrightarrow> is_aligned phys 0x40000000 \<and> is_aligned virt 0x40000000"
  shows "\<exists>s'. vmm_map_huge (phys_to_virt root) phys virt flags s = Inr s' \<and> as_wf s' root \<and>
    (\<forall>va. hw_walk (phys_mem s') root (vidx va) =
      (if page_of va div 512 ^ 2 = page_of virt div 512 ^ 2 then Some (2, phys OR (flags OR VMM_PS_FLAG))
       else hw_walk (phys_mem s) root (vidx va)))"
proof -
  let ?f = "table_flags flags" and ?v = "phys OR (flags OR VMM_PS_FLAG)"
  obtain v1 s1 where n1: "next_table ?f (phys_to_virt root) (VMM_PML4_IDX virt) s = Inr (v1, s1)"
    using walked_total [OF walked_refl [OF wf]] free by force
  then obtain t1 where t1: "v1 = phys_to_virt t1" "walked s root [i4 virt] t1 s1"
    using wf by (metis walked_pdpt)
  have z1: "phys_mem s1 (slot t1 (i3 virt)) = 0"
    using walked_leaf [OF t1(2), of "i3 virt"] z by (simp add: entry_word_def split: option.splits)
  have "vmm_map_huge (phys_to_virt root) phys virt flags s =
      Inr (s1\<lparr>phys_mem := (phys_mem s1)(slot t1 (i3 virt) := ?v)\<rparr>)"
    using n1 t1(1) z1 dbg by (simp add: vmm_map_huge_def Let_def peek_slot poke_slot when_debug_def)
  moreover have "bit ?v 0 \<and> bit ?v 7" using P by (simp add: bit_or_iff bit_numeral_rec)
  moreover from this have "?v \<noteq> 0" by auto
  ultimately show ?thesis
    using write_pdpte [OF _ _ _ _ refl, of s1 root virt t1 ?v] t1(2) z1
    by (auto simp: walked_def points_to_table_def)
qed

lemma vmm_unmap_large_effect:
  assumes wf: "as_wf s root" and w: "hw_walk (phys_mem s) root (vidx virt) = Some (1, e)"
    and dbg: "debug s \<Longrightarrow> is_aligned virt 0x200000"
  shows "\<exists>s'. vmm_unmap_large (phys_to_virt root) virt s = Inr s' \<and> as_wf s' root \<and>
    free_frames s' = free_frames s \<and>
    (\<forall>va. hw_walk (phys_mem s') root (vidx va) =
      (if page_of va div 512 = page_of virt div 512 then None else hw_walk (phys_mem s) root (vidx va)))"
proof -
  let ?m = "phys_mem s"
  obtain t1 where t1: "table_at ?m root [i4 virt] = Some t1" "points_to_table (?m (slot root (i4 virt)))"
      "t1 = ?m (slot root (i4 virt)) AND VMM_PTE_ADDR_MASK"
      "hw_walk ?m t1 [i3 virt, i2 virt, i1 virt] = Some (1, e)"
    using w by (rule hw_walk_pml4)
  define t2 where "t2 = ?m (slot t1 (i3 virt)) AND VMM_PTE_ADDR_MASK"
  have t2: "table_at ?m root [i4 virt, i3 virt] = Some t2" "hw_walk ?m t2 [i2 virt, i1 virt] = Some (1, e)"
    "bit (?m (slot t1 (i3 virt))) 0"
    using hw_walk_pdpt(1,4) [OF t1(4,1)] by (simp_all add: t2_def)
  have b: "bit (?m (slot t2 (i2 virt))) 7"
    using hw_walk_pd(2) [OF t2(2,1)] by simp
  have "?m (slot root (i4 virt)) \<noteq> 0" using t1(2) by (auto simp: points_to_table_def)
  moreover note not_bit_0 [OF t2(3)] not_bit_0 [OF b]
  ultimately have "vmm_unmap_large (phys_to_virt root) virt s =
      Inr (s\<lparr>phys_mem := ?m(slot t2 (i2 virt) := 0)\<rparr>)"
    using dbg b
    by (simp add: vmm_unmap_large_def existing_table_def peek_slot poke_slot Let_def ps_flag
        when_debug_def t1(3) [symmetric] t2_def [symmetric])
  then show ?thesis
    using write_pde [OF wf t2(1) _ _ refl, of 0] b by (auto simp: points_to_table_def)
qed

lemma vmm_unmap_huge_effect:
  assumes wf: "as_wf s root" and w: "hw_walk (phys_mem s) root (vidx virt) = Some (2, e)"
    and dbg: "debug s \<Longrightarrow> is_aligned virt 0x40000000"
  shows "\<exists>s'. vmm_unmap_huge (phys_to_virt root) virt s = Inr s' \<and> as_wf s' root \<and>
    free_frames s' = free_frames s \<and>
    (\<forall>va. hw_walk (phys_mem s') root (vidx va) =
      (if page_of va div 512 ^ 2 = page_of virt div 512 ^ 2 then None
       else hw_walk (phys_mem s) root (vidx va)))"
proof -
  let ?m = "phys_mem s"
  obtain t1 where t1: "table_at ?m root [i4 virt] = Some t1" "points_to_table (?m (slot root (i4 virt)))"
      "t1 = ?m (slot root (i4 virt)) AND VMM_PTE_ADDR_MASK"
      "hw_walk ?m t1 [i3 virt, i2 virt, i1 virt] = Some (2, e)"
    using w by (rule hw_walk_pml4)
  have b: "bit (?m (slot t1 (i3 virt))) 7"
    using hw_walk_pdpt(2) [OF t1(4,1)] by simp
  have "?m (slot root (i4 virt)) \<noteq> 0" using t1(2) by (auto simp: points_to_table_def)
  moreover note not_bit_0 [OF b]
  ultimately have "vmm_unmap_huge (phys_to_virt root) virt s =
      Inr (s\<lparr>phys_mem := ?m(slot t1 (i3 virt) := 0)\<rparr>)"
    using dbg b
    by (simp add: vmm_unmap_huge_def existing_table_def peek_slot poke_slot Let_def ps_flag
        when_debug_def t1(3) [symmetric])
  then show ?thesis
    using write_pdpte [OF wf t1(1) _ _ refl, of 0] b by (auto simp: points_to_table_def)
qed

subsection \<open>Releasing mapped memory\<close>

lemma pmm_free_frame: "pmm_free p s = Inr s' \<Longrightarrow> \<exists>bm. s' = s\<lparr>pmm_bitmap := bm\<rparr>"
  by (auto simp: pmm_free_def Let_def andthen_eq_Inr_iff)

lemma foldM_pmm_free_frame: "foldM pmm_free ps s = Inr s' \<Longrightarrow> \<exists>bm. s' = s\<lparr>pmm_bitmap := bm\<rparr>"
proof (induction ps arbitrary: s)
  case Nil
  then have "s' = s\<lparr>pmm_bitmap := pmm_bitmap s\<rparr>" by simp
  then show ?case by blast
next
  case (Cons p ps)
  from Cons.prems obtain s1 where "pmm_free p s = Inr s1" "foldM pmm_free ps s1 = Inr s'"
    by (auto simp: andthen_eq_Inr_iff)
  then obtain b1 b2 where "s1 = s\<lparr>pmm_bitmap := b1\<rparr>" "s' = s1\<lparr>pmm_bitmap := b2\<rparr>"
    using Cons.IH pmm_free_frame by blast
  then show ?case by auto
qed

text \<open>What mapping and unmapping touch: the bitmap of frames and the physical memory.\<close>

lemma pmm_alloc_only: "pmm_alloc s = Inr (p, s') \<Longrightarrow> \<exists>bm. s' = s\<lparr>pmm_bitmap := bm\<rparr>"
  by (auto simp: pmm_alloc_def andthen_eq_Inr_iff)

lemma next_table_only:
  assumes "next_table f t i s = Inr (v, s')"
  shows "\<exists>bm m. s' = s\<lparr>pmm_bitmap := bm, phys_mem := m\<rparr>"
proof (cases "peek s t i = 0")
  case True
  then obtain p s1 where a: "pmm_alloc s = Inr (p, s1)"
    and s': "s' = memset_page (phys_to_virt p) (poke t i (p OR f) s1)"
    using assms by (auto simp: next_table_def andthen_eq_Inr_iff Let_def)
  then obtain bm where "s1 = s\<lparr>pmm_bitmap := bm\<rparr>" using pmm_alloc_only by blast
  then have "s' = s\<lparr>pmm_bitmap := bm, phys_mem := phys_mem s'\<rparr>"
    unfolding s' memset_page_def poke_def by simp
  then show ?thesis by blast
next
  case False
  then have "s' = s\<lparr>pmm_bitmap := pmm_bitmap s, phys_mem := phys_mem s\<rparr>"
    using assms by (simp add: next_table_def)
  then show ?thesis by blast
qed

lemma vmm_map_only:
  assumes "vmm_map r phys virt flags s = Inr s'"
  shows "\<exists>bm m. s' = s\<lparr>pmm_bitmap := bm, phys_mem := m\<rparr>"
proof -
  from assms obtain v1 s1 v2 s2 v3 s3 where
    n1: "next_table (table_flags flags) r (VMM_PML4_IDX virt) s = Inr (v1, s1)" and
    n2: "next_table (table_flags flags) v1 (VMM_PDPT_IDX virt) s1 = Inr (v2, s2)" and
    n3: "next_table (table_flags flags) v2 (VMM_PD_IDX virt) s2 = Inr (v3, s3)"
    and s': "s' = poke v3 (VMM_PT_IDX virt) (phys OR flags) s3"
    by (auto simp: vmm_map_def Let_def andthen_eq_Inr_iff)
  obtain b1 m1 where "s1 = s\<lparr>pmm_bitmap := b1, phys_mem := m1\<rparr>"
    using next_table_only [OF n1] by blast
  moreover obtain b2 m2 where "s2 = s1\<lparr>pmm_bitmap := b2, phys_mem := m2\<rparr>"
    using next_table_only [OF n2] by blast
  moreover obtain b3 m3 where "s3 = s2\<lparr>pmm_bitmap := b3, phys_mem := m3\<rparr>"
    using next_table_only [OF n3] by blast
  ultimately have "s' = s\<lparr>pmm_bitmap := b3, phys_mem := phys_mem s'\<rparr>" unfolding s' poke_def by simp
  then show ?thesis by blast
qed

lemma vmm_unmap_only:
  assumes "vmm_unmap r virt s = Inr s'"
  shows "\<exists>m. s' = s\<lparr>phys_mem := m\<rparr>"
  using assms by (auto simp: vmm_unmap_def Let_def andthen_eq_Inr_iff poke_def)

text \<open>The frames behind a mapping: one page, or every 4 KiB page of a large or huge page.\<close>

definition mapped_frames :: "nat \<Rightarrow> u64 \<Rightarrow> u64 list" where
  "mapped_frames n e = (let a = e AND VMM_PTE_ADDR_MASK in
     if n = 0 then [a] else page_range a (a + 2 ^ page_shift n))"

definition no_table :: "'a vmm_scheme \<Rightarrow> u64 \<Rightarrow> u64 list \<Rightarrow> bool" where
  "no_table s root ps \<longleftrightarrow> (\<forall>is t. table_path is \<longrightarrow> table_at (phys_mem s) root is = Some t \<longrightarrow> t \<notin> set ps)"

lemma release_frames:
  assumes wf: "as_wf s root" and ps: "set ps \<subseteq> managed_pages s" "distinct ps" "\<forall>p\<in>set ps. page_used s p"
    and nt: "no_table s root ps"
  shows "\<exists>bm. foldM pmm_free ps s = Inr (s\<lparr>pmm_bitmap := bm\<rparr>) \<and> as_wf (s\<lparr>pmm_bitmap := bm\<rparr>) root \<and>
    managed_pages (s\<lparr>pmm_bitmap := bm\<rparr>) = managed_pages s \<and>
    (\<forall>q\<in>managed_pages s. page_used (s\<lparr>pmm_bitmap := bm\<rparr>) q \<longleftrightarrow> q \<notin> set ps \<and> page_used s q)"
proof -
  obtain s' where s': "foldM pmm_free ps s = Inr s'" "pmm_wf s'" "managed_pages s' = managed_pages s"
    "\<forall>q\<in>managed_pages s. page_used s' q \<longleftrightarrow> q \<notin> set ps \<and> page_used s q"
    using pmm.release_all [OF as_wf_pmm [OF wf] ps] by blast
  obtain bm where bm: "s' = s\<lparr>pmm_bitmap := bm\<rparr>" using foldM_pmm_free_frame [OF s'(1)] by blast
  have pm: "phys_mem s' = phys_mem s" by (simp add: bm)
  have "as_wf s' root"
    unfolding as_wf_def pm using s' wf nt
    by (intro conjI) (auto simp: as_wf_def no_table_def)
  then show ?thesis using s' bm by auto
qed

lemma as_wf_invlpg [simp]: "as_wf (s\<lparr>invlpg_log := l\<rparr>) root = as_wf s root"
  "page_used (s\<lparr>invlpg_log := l\<rparr>) = page_used s"
  by (simp_all add: as_wf_def pmm_wf_def managed_pages_def pmm_pages_def page_used_def frame_used_def
      fun_eq_iff)

lemma unat_addr_mask: "unat (e AND VMM_PTE_ADDR_MASK) < 2 ^ 52"
proof -
  have "e AND VMM_PTE_ADDR_MASK = take_bit 52 (e AND VMM_PTE_ADDR_MASK)"
    by (rule bit_word_eqI) (auto simp: bit_simps bit_addr_mask)
  then have "unat (e AND VMM_PTE_ADDR_MASK) = take_bit 52 (unat (e AND VMM_PTE_ADDR_MASK))"
    by (metis unsigned_take_bit_eq)
  then show ?thesis by (metis take_bit_nat_less_exp)
qed

lemma distinct_page_range: "distinct (page_range a b)"
proof -
  have "inj_on (\<lambda>k. a + of_nat k * 4096) {0..<(unat b - unat a + 4095) div 4096}"
  proof (rule inj_onI)
    fix j k
    assume j: "j \<in> {0..<(unat b - unat a + 4095) div 4096}"
      and k: "k \<in> {0..<(unat b - unat a + 4095) div 4096}"
      and e: "a + of_nat j * 4096 = a + of_nat k * 4096"
    have lt: "i * 4096 < 2 ^ 64" if "i \<in> {0..<(unat b - unat a + 4095) div 4096}" for i
      using that unat_lt2p [of b] by (simp add: less_eq_Suc_le less_eq_div_iff_mult_less_eq)
    have "unat (of_nat i * 4096 :: u64) = i * 4096" if "i * 4096 < 2 ^ 64" for i
      using that by (simp add: unat_mult_small unat_of_nat_small)
    then have "j * 4096 = k * 4096" using e lt [OF j] lt [OF k] by (metis add_left_cancel)
    then show "j = k" by simp
  qed
  then show ?thesis by (simp add: page_range_def distinct_map)
qed

lemma distinct_mapped_frames: "distinct (mapped_frames n e)"
  by (simp add: mapped_frames_def Let_def distinct_page_range)

lemma free_loop:
  assumes "n \<in> {1, 2}" and "sz = (2 :: u64) ^ page_shift n"
  shows "for_pages pmm_free (e AND VMM_PTE_ADDR_MASK) ((e AND VMM_PTE_ADDR_MASK) + sz) =
    foldM pmm_free (mapped_frames n e)"
proof -
  have "unat sz \<le> 2 ^ 30" using assms by (auto simp: page_shift_def)
  then have "page_loop_ends (e AND VMM_PTE_ADDR_MASK) ((e AND VMM_PTE_ADDR_MASK) + sz)"
    using unat_addr_mask [of e] by (simp add: page_loop_ends_def unat_add_small)
  then show ?thesis
    using assms by (auto simp: for_pages_def mapped_frames_def Let_def fun_eq_iff)
qed

lemma table_virt_not_null:
  assumes "as_wf s root" and "table_path is" and "table_at (phys_mem s) root is = Some t"
  shows "phys_to_virt t \<noteq> 0"
proof
  assume "phys_to_virt t = 0"
  then have "t = 0x800000000000" by (simp add: phys_to_virt_def PMM_HHDM_START_def eq_neg_iff_add_eq_0 [symmetric])
  moreover obtain k where "t = frame_addr k" "k < 2 ^ 32"
    using as_wf_table [OF assms] as_wf_pmm [OF assms(1)] by (metis managed_pagesE)
  ultimately show False using unat_frame_addr [of k] by simp
qed

definition same_page :: "nat \<Rightarrow> u64 \<Rightarrow> u64 \<Rightarrow> bool" where
  "same_page n va vb \<longleftrightarrow> page_of va div 512 ^ n = page_of vb div 512 ^ n"

text \<open>The part of \<open>vmm_free\<close> after the page was found: the frames are released, the entry is
  cleared, the page is flushed.\<close>

lemma vmm_free_found:
  assumes wf: "as_wf s root" and w: "hw_walk (phys_mem s) root (vidx virt) = Some (n, e)"
  obtains t i where "vmm_free (phys_to_virt root) virt s =
      andthen (foldM pmm_free (mapped_frames n e) s) (\<lambda>s. Inr (vmm_invlpg virt (poke (phys_to_virt t) i 0 s)))"
    and "\<And>s' bm vb. as_wf (s\<lparr>pmm_bitmap := bm\<rparr>) root \<Longrightarrow>
      s' = poke (phys_to_virt t) i 0 (s\<lparr>pmm_bitmap := bm\<rparr>) \<Longrightarrow>
      as_wf s' root \<and> hw_walk (phys_mem s') root (vidx vb) =
        (if same_page n vb virt then None else hw_walk (phys_mem s) root (vidx vb))"
proof -
  let ?m = "phys_mem s"
  obtain t1 where t1: "table_at ?m root [i4 virt] = Some t1" "points_to_table (?m (slot root (i4 virt)))"
      "t1 = ?m (slot root (i4 virt)) AND VMM_PTE_ADDR_MASK"
      "hw_walk ?m t1 [i3 virt, i2 virt, i1 virt] = Some (n, e)"
    using w by (rule hw_walk_pml4)
  have p1: "bit (?m (slot root (i4 virt))) 0" "phys_to_virt t1 \<noteq> 0"
    using t1(2) table_virt_not_null [OF wf _ t1(1)] by (simp_all add: points_to_table_def)
  note h1 = hw_walk_pdpt [OF t1(4,1)]
  have huge: "for_pages pmm_free (e AND VMM_PTE_ADDR_MASK)
      ((e AND VMM_PTE_ADDR_MASK) + VMM_HUGE_PAGE_SIZE) s = foldM pmm_free (mapped_frames 2 e) s"
    by (subst free_loop [of 2]) (simp_all add: page_shift_def)
  have large: "for_pages pmm_free (e AND VMM_PTE_ADDR_MASK)
      ((e AND VMM_PTE_ADDR_MASK) + VMM_LARGE_PAGE_SIZE) s = foldM pmm_free (mapped_frames 1 e) s"
    by (subst free_loop [of 1]) (simp_all add: page_shift_def)
  consider "n = 2" | "n < 2" using hw_walk_level [OF w] by linarith
  then show thesis
  proof cases
    case 1
    have "vmm_free (phys_to_virt root) virt s = andthen (foldM pmm_free (mapped_frames n e) s)
        (\<lambda>s. Inr (vmm_invlpg virt (poke (phys_to_virt t1) (VMM_PDPT_IDX virt) 0 s)))"
      using p1 h1(1-3) 1 huge
      by (simp add: vmm_free_def Let_def peek_slot t1(3) [symmetric] present_flag ps_flag page_shift_def)
    moreover have "as_wf s' root \<and> hw_walk (phys_mem s') root (vidx vb) =
        (if same_page n vb virt then None else hw_walk ?m root (vidx vb))"
      if "as_wf (s\<lparr>pmm_bitmap := bm\<rparr>) root"
        "s' = poke (phys_to_virt t1) (VMM_PDPT_IDX virt) 0 (s\<lparr>pmm_bitmap := bm\<rparr>)" for s' bm vb
      using write_pdpte(1) [OF that(1), of virt t1 0 s'] write_pdpte(2) [OF that(1), of virt t1 0 s' vb] t1(1) that(2) h1(2) 1
      by (simp add: poke_slot points_to_table_def same_page_def)
    ultimately show thesis by (rule that)
  next
    case 2
    define t2 where "t2 = ?m (slot t1 (i3 virt)) AND VMM_PTE_ADDR_MASK"
    have t2: "table_at ?m root [i4 virt, i3 virt] = Some t2" "hw_walk ?m t2 [i2 virt, i1 virt] = Some (n, e)"
      "bit (?m (slot t1 (i3 virt))) 0" "\<not> bit (?m (slot t1 (i3 virt))) 7"
      using h1(1,2,4) 2 by (simp_all add: t2_def)
    have p2: "phys_to_virt t2 \<noteq> 0" using table_virt_not_null [OF wf _ t2(1)] by simp
    note h2 = hw_walk_pd [OF t2(2,1)]
    consider "n = 1" | "n = 0" using 2 by linarith
    then show thesis
    proof cases
      case 1
      have "vmm_free (phys_to_virt root) virt s = andthen (foldM pmm_free (mapped_frames n e) s)
          (\<lambda>s. Inr (vmm_invlpg virt (poke (phys_to_virt t2) (VMM_PD_IDX virt) 0 s)))"
        using p1 p2 t2(3,4) h2(1-3) 1 large
        by (simp add: vmm_free_def Let_def peek_slot t1(3) [symmetric] t2_def [symmetric]
            present_flag ps_flag page_shift_def)
      moreover have "as_wf s' root \<and> hw_walk (phys_mem s') root (vidx vb) =
          (if same_page n vb virt then None else hw_walk ?m root (vidx vb))"
        if "as_wf (s\<lparr>pmm_bitmap := bm\<rparr>) root"
          "s' = poke (phys_to_virt t2) (VMM_PD_IDX virt) 0 (s\<lparr>pmm_bitmap := bm\<rparr>)" for s' bm vb
        using write_pde(1) [OF that(1), of virt t2 0 s'] write_pde(2) [OF that(1), of virt t2 0 s' vb] t2(1) that(2) h2(2) 1
        by (simp add: poke_slot points_to_table_def same_page_def)
      ultimately show thesis by (rule that)
    next
      case 2
      define t3 where "t3 = ?m (slot t2 (i2 virt)) AND VMM_PTE_ADDR_MASK"
      have t3: "table_at ?m root [i4 virt, i3 virt, i2 virt] = Some t3" "\<not> bit (?m (slot t2 (i2 virt))) 7"
        "e = ?m (slot t3 (i1 virt))" "bit e 0"
        using h2(2) h2(4) [OF 2] 2 by (auto simp: t3_def)
      have "phys_to_virt t3 \<noteq> 0" using table_virt_not_null [OF wf _ t3(1)] by simp
      then have "vmm_free (phys_to_virt root) virt s = andthen (foldM pmm_free (mapped_frames n e) s)
          (\<lambda>s. Inr (vmm_invlpg virt (poke (phys_to_virt t3) (VMM_PT_IDX virt) 0 s)))"
        using p1 p2 t2(3,4) t3(2-4) 2
        by (simp add: vmm_free_def Let_def peek_slot t1(3) [symmetric] t2_def [symmetric]
            t3_def [symmetric] present_flag ps_flag mapped_frames_def andthen_assoc)
      moreover have "as_wf s' root \<and> hw_walk (phys_mem s') root (vidx vb) =
          (if same_page n vb virt then None else hw_walk ?m root (vidx vb))"
        if "as_wf (s\<lparr>pmm_bitmap := bm\<rparr>) root"
          "s' = poke (phys_to_virt t3) (VMM_PT_IDX virt) 0 (s\<lparr>pmm_bitmap := bm\<rparr>)" for s' bm vb
        using write_pte(1) [OF that(1), of virt t3 0 s'] write_pte(2) [OF that(1), of virt t3 0 s' vb] t3(1) that(2) 2
        by (simp add: poke_slot same_page_def)
      ultimately show thesis by (rule that)
    qed
  qed
qed

lemma unmapped_entry_word:
  assumes "as_wf s root" and "hw_walk (phys_mem s) root (vidx va) = None"
  shows "entry_word (phys_mem s) root [i4 va, i3 va, i2 va] (i1 va) = 0"
proof (cases "table_at (phys_mem s) root [i4 va, i3 va, i2 va]")
  case None
  then show ?thesis by (simp add: entry_word_def)
next
  case (Some t)
  then show ?thesis
    using hw_walk_last [OF Some] as_wf_present [OF assms(1) _ _ Some, of "i1 va"] assms(2)
    by (auto simp: entry_word_def split: if_splits)
qed

subsection \<open>A new address space\<close>

lemma as_wf_empty:
  assumes "pmm_wf s" and "root \<in> managed_pages s" and "page_used s root"
    and z: "\<forall>i<512. phys_mem s (slot root i) = 0"
  shows "as_wf s root" and "hw_walk (phys_mem s) root (vidx va) = None"
proof -
  have tab: "table_at (phys_mem s) root is = (if is = [] then Some root else None)"
    if "table_path is" for "is"
    using that z by (cases "is") (auto simp: table_at.simps table_path_def points_to_table_def)
  show "as_wf s root" unfolding as_wf_def using assms by (auto simp: tab)
  show "hw_walk (phys_mem s) root (vidx va) = None"
    unfolding vidx_def using z by (intro hw_walk_zero) simp
qed

lemma vmm_init_effect:
  assumes "pmm_wf s" and "vmm_init s = Inr (v, s')"
  shows "\<exists>root. v = phys_to_virt root \<and> root \<in> managed_pages s \<and> \<not> page_used s root \<and>
    as_wf s' root \<and> (\<forall>va. hw_walk (phys_mem s') root (vidx va) = None)"
proof -
  from assms(2) obtain p s1 where a: "pmm_alloc s = Inr (p, s1)" and v: "v = phys_to_virt p"
    and s': "s' = memset_page (phys_to_virt p) s1"
    by (auto simp: vmm_init_def andthen_eq_Inr_iff Let_def)
  note i = pmm.alloc_invar [OF assms(1) a] and pg = pmm.alloc_page [OF assms(1) a]
  have "page_used s' p" using pmm.alloc_used [OF assms(1) a] pg by (simp add: s' memset_page_phys)
  moreover have "\<forall>i<512. phys_mem s' (slot p i) = 0"
    using managed_aligned [OF assms(1)] pg by (simp add: s' memset_page_phys slot_in_page_iff)
  ultimately show ?thesis
    using as_wf_empty [of s' p] i pg v by (auto simp: s' memset_page_phys)
qed

subsection \<open>Destroying the lower half\<close>

text \<open>The frames \<open>vmm_destroy\<close> releases, in its order: below every entry the pages, then the
  table itself.\<close>

definition pt_frames :: "(u64 \<Rightarrow> u64) \<Rightarrow> u64 \<Rightarrow> u64 list" where
  "pt_frames m t = concat (map (\<lambda>i. if m (slot t i) = 0 then [] else [m (slot t i) AND VMM_PTE_ADDR_MASK]) [0..<512])"

definition sub_frames :: "((u64 \<Rightarrow> u64) \<Rightarrow> u64 \<Rightarrow> u64 list) \<Rightarrow> (u64 \<Rightarrow> u64) \<Rightarrow> u64 \<Rightarrow> u64 list" where
  "sub_frames below m t = concat (map (\<lambda>i. let e = m (slot t i) in
     if e = 0 \<or> bit e 7 then [] else below m (e AND VMM_PTE_ADDR_MASK) @ [e AND VMM_PTE_ADDR_MASK]) [0..<512])"

definition lower_half_frames :: "(u64 \<Rightarrow> u64) \<Rightarrow> u64 \<Rightarrow> u64 list" where
  "lower_half_frames m t = concat (map (\<lambda>i. let e = m (slot t i) in
     if e = 0 then [] else sub_frames (sub_frames pt_frames) m (e AND VMM_PTE_ADDR_MASK) @
       [e AND VMM_PTE_ADDR_MASK]) [0..<256])"

lemma foldM_release_concat:
  assumes "\<And>i s. i \<in> set is \<Longrightarrow> phys_mem s = m \<Longrightarrow> f (of_nat i) s = foldM pmm_free (g i) s"
    and "phys_mem s = m"
  shows "foldM f (map of_nat is) s = foldM pmm_free (concat (map g is)) s"
  using assms
proof (induction "is" arbitrary: s)
  case Nil
  then show ?case by simp
next
  case (Cons i "is")
  show ?case
  proof (cases "foldM pmm_free (g i) s")
    case (Inl e)
    then show ?thesis using Cons.prems by (simp add: foldM_append)
  next
    case (Inr s1)
    then have "phys_mem s1 = m" using foldM_pmm_free_frame Cons.prems(2) by fastforce
    then show ?thesis using Cons Inr by (simp add: foldM_append)
  qed
qed

lemma peek_of_nat: "i < 512 \<Longrightarrow> peek s (phys_to_virt t) (of_nat i) = phys_mem s (slot t i)"
  by (simp add: peek_slot unat_of_nat_small)

lemma release_then:
  assumes "\<And>s. phys_mem s = m \<Longrightarrow> d s = foldM pmm_free ps s"
    and "\<And>s. phys_mem s = m \<Longrightarrow> h s = p" and "phys_mem s = m"
  shows "andthen (d s) (\<lambda>s. pmm_free (h s) s) = foldM pmm_free (ps @ [p]) s"
proof (cases "foldM pmm_free ps s")
  case (Inl e)
  then show ?thesis using assms by (simp add: foldM_append)
next
  case (Inr s1)
  then have "phys_mem s1 = m" using foldM_pmm_free_frame assms(3) by fastforce
  then show ?thesis using assms Inr by (simp add: foldM_append)
qed

lemma destroy_pt_eq: "destroy_pt (phys_to_virt t) s = foldM pmm_free (pt_frames (phys_mem s) t) s"
  unfolding destroy_pt_def pt_frames_def
  by (rule foldM_release_concat) (simp_all add: peek_of_nat)

lemma destroy_pd_eq:
  "destroy_pd (phys_to_virt t) s = foldM pmm_free (sub_frames pt_frames (phys_mem s) t) s"
  unfolding destroy_pd_def sub_frames_def
  by (rule foldM_release_concat)
     (auto simp: peek_of_nat Let_def ps_flag destroy_pt_eq intro!: release_then)

lemma destroy_pdpt_eq:
  "destroy_pdpt (phys_to_virt t) s = foldM pmm_free (sub_frames (sub_frames pt_frames) (phys_mem s) t) s"
  unfolding destroy_pdpt_def sub_frames_def [of "sub_frames pt_frames"]
  by (rule foldM_release_concat)
     (auto simp: peek_of_nat Let_def ps_flag destroy_pd_eq intro!: release_then)

lemma vmm_destroy_eq:
  "vmm_destroy (phys_to_virt t) s = foldM pmm_free (lower_half_frames (phys_mem s) t) s"
  unfolding vmm_destroy_def lower_half_frames_def
  by (rule foldM_release_concat)
     (auto simp: peek_of_nat Let_def destroy_pdpt_eq intro!: release_then)

section \<open>Mapping as an interface\<close>

text \<open>
  What kernel start-up, the slab allocator and the program loader use of the manager: mapping
  one page makes it readable at its address and changes no other page. Mapping a list of
  pages one by one then gives each of them its frame.
\<close>

locale page_mapper =
  fixes map_page :: "u64 \<Rightarrow> u64 \<Rightarrow> 's \<Rightarrow> 's kres"
    and look :: "'s \<Rightarrow> u64 \<Rightarrow> 'e option"
    and entry :: "u64 \<Rightarrow> 'e"
    and ok :: "'s \<Rightarrow> u64 \<Rightarrow> u64 \<Rightarrow> bool"
    and invar :: "'s \<Rightarrow> bool"
    and room :: "'s \<Rightarrow> nat"
    and cost :: nat
  assumes map_one: "invar s \<Longrightarrow> look s virt = None \<Longrightarrow> ok s phys virt \<Longrightarrow> cost \<le> room s \<Longrightarrow>
      \<exists>s'. map_page phys virt s = Inr s' \<and> invar s' \<and> room s \<le> cost + room s' \<and> ok s' = ok s \<and>
        (\<forall>va. look s' va = (if page_of va = page_of virt then Some (entry phys) else look s va))"
begin

lemma map_all:
  assumes "invar s" and "distinct (map (page_of \<circ> snd) xs)"
    and "\<forall>(p, v)\<in>set xs. ok s p v \<and> look s v = None" and "length xs * cost \<le> room s"
  shows "\<exists>s'. foldM (\<lambda>(p, v). map_page p v) xs s = Inr s' \<and> invar s' \<and>
    (\<forall>va. look s' va = (case find (\<lambda>(p, v). page_of v = page_of va) xs of
       None \<Rightarrow> look s va | Some (p, v) \<Rightarrow> Some (entry p)))"
  using assms
proof (induction xs arbitrary: s)
  case Nil
  then show ?case by simp
next
  case (Cons x xs)
  obtain p v where x: "x = (p, v)" by (cases x)
  then obtain s1 where s1: "map_page p v s = Inr s1" "invar s1" "room s \<le> cost + room s1" "ok s1 = ok s"
    "\<forall>va. look s1 va = (if page_of va = page_of v then Some (entry p) else look s va)"
    using map_one [of s v p] Cons.prems by auto
  have "\<forall>(q, w)\<in>set xs. ok s1 q w \<and> look s1 w = None"
    using Cons.prems(2,3) s1(4,5) by (force simp: x)
  moreover have "length xs * cost \<le> room s1" using Cons.prems(4) s1(3) by simp
  ultimately obtain s' where s': "foldM (\<lambda>(p, v). map_page p v) xs s1 = Inr s'" "invar s'"
    "\<forall>va. look s' va = (case find (\<lambda>(p, v). page_of v = page_of va) xs of
       None \<Rightarrow> look s1 va | Some (p, v) \<Rightarrow> Some (entry p))"
    using Cons.IH [of s1] s1(2) Cons.prems(2) by auto
  have "look s' va = (case find (\<lambda>(p, v). page_of v = page_of va) (x # xs) of
       None \<Rightarrow> look s va | Some (p, v) \<Rightarrow> Some (entry p))" for va
  proof (cases "page_of v = page_of va")
    case True
    then have "find (\<lambda>(p, v). page_of v = page_of va) xs = None"
      using Cons.prems(2) by (force simp: x find_None_iff)
    then show ?thesis using True s'(3) s1(5) by (simp add: x)
  next
    case False
    then show ?thesis using s'(3) s1(5) by (auto simp: x split: option.split)
  qed
  then show ?case using s1(1) s'(1,2) by (auto simp: x)
qed

end

definition walk_entry :: "'a vmm_scheme \<Rightarrow> u64 \<Rightarrow> u64 \<Rightarrow> (nat \<times> u64) option" where
  "walk_entry s root va = hw_walk (phys_mem s) root (vidx va)"

interpretation vm: page_mapper
  "\<lambda>phys virt. vmm_map (phys_to_virt root) phys virt (flags OR VMM_FLAGS_PRESENT)"
  "\<lambda>s. walk_entry s root" "\<lambda>phys. (0, phys OR (flags OR VMM_FLAGS_PRESENT))"
  "\<lambda>s phys virt. is_aligned phys 4096 \<and> is_aligned virt 4096"
  "\<lambda>s. as_wf s root" "\<lambda>s. card (free_frames s)" 3
  for root flags
proof (unfold_locales, goal_cases)
  case (1 s virt phys)
  have sm: "small_path (phys_mem s) root virt" using 1 by (simp add: small_path_def walk_entry_def)
  obtain s' where s': "vmm_map (phys_to_virt root) phys virt (flags OR VMM_FLAGS_PRESENT) s = Inr s'"
    using vmm_map_total [OF 1(1) sm 1(4)] 1(3) unmapped_entry_word [OF 1(1)] 1(2)
    unfolding walk_entry_def by blast
  have "bit (flags OR VMM_FLAGS_PRESENT) 0" by (simp add: bit_or_iff)
  from vmm_map_effect [OF 1(1) sm this s'] s' show ?case by (simp add: walk_entry_def)
qed

section \<open>Properties\<close>

text \<open>C1: mapping a 4 KiB page. In a well-formed address space, for an address that is not
  mapped, with three free frames and aligned addresses, \<open>vmm_map\<close> succeeds in debug and release
  builds; the processor then translates every address of the page to the frame with the
  offset kept and the given flags, every other address is translated as before, and the
  address space stays well formed.\<close>

theorem vmm_map_correct:
  assumes "as_wf s root" and "translate (phys_mem s) root virt = None"
    and "3 \<le> card (free_frames s)"
    and "is_aligned phys 4096" and "is_aligned virt 4096"
    and "phys AND VMM_PTE_ADDR_MASK = phys" and "flags AND VMM_PTE_ADDR_MASK = 0" and "bit flags 0"
  shows "\<exists>s'. vmm_map (phys_to_virt root) phys virt flags s = Inr s' \<and> as_wf s' root \<and>
    (\<forall>va. translate (phys_mem s') root va =
      (if page_of va = page_of virt then Some (phys OR (va AND mask 12), phys OR flags)
       else translate (phys_mem s) root va))"
proof -
  have w: "hw_walk (phys_mem s) root (vidx virt) = None"
    using assms(2) by (auto simp: translate_def split: option.splits)
  then have sm: "small_path (phys_mem s) root virt" by (simp add: small_path_def)
  obtain s' where s': "vmm_map (phys_to_virt root) phys virt flags s = Inr s'"
    using vmm_map_total [OF assms(1) sm assms(3)] assms(4,5) unmapped_entry_word [OF assms(1) w] by blast
  note e = vmm_map_effect [OF assms(1) sm assms(8) s']
  have "phys AND mask (page_shift 0) = 0"
    using assms(4) by (simp add: is_aligned_def page_shift_def mask_12)
  then have "translate (phys_mem s') root va = Some (phys OR (va AND mask 12), phys OR flags)"
    if "page_of va = page_of virt" for va
    using leaf_translate [of "phys_mem s'" root va 0 phys flags] e that assms(6,7)
    by (simp add: page_shift_def)
  moreover have "translate (phys_mem s') root va = translate (phys_mem s) root va"
    if "page_of va \<noteq> page_of virt" for va
    using e that by (intro translate_cong) simp
  ultimately show ?thesis using s' e by auto
qed

definition vmm_example :: vmm where
  "vmm_example = pmm.extend pmm_example \<lparr>phys_mem = \<lambda>_. 0, cr3 = 0, invlpg_log = []\<rparr>"

lemma vmm_example_pmm:
  "pmm_wf vmm_example" "free_frames vmm_example = {10, 16, 17, 18, 19, 20, 21, 22, 23}"
  "0 \<in> managed_pages vmm_example" "page_used vmm_example 0" "phys_mem vmm_example = (\<lambda>_. 0)"
proof -
  show "pmm_wf vmm_example"
    using pmm_example_wf by (simp add: pmm_wf_def pmm_pages_def vmm_example_def pmm.defs pmm_example_def)
  show "free_frames vmm_example = {10, 16, 17, 18, 19, 20, 21, 22, 23}"
    unfolding pmm_example_free [symmetric]
    by (simp add: free_frames_def pmm_pages_def frame_used_def vmm_example_def pmm.defs)
  show "0 \<in> managed_pages vmm_example"
    by (auto simp: managed_pages_def pmm_pages_def vmm_example_def pmm.defs pmm_example_def frame_addr_def
        intro!: image_eqI [of _ _ 0])
  show "page_used vmm_example 0"
    by (simp add: page_used_def frame_used_def vmm_example_def pmm.defs pmm_example_def bm_get_def)
  show "phys_mem vmm_example = (\<lambda>_. 0)" by (simp add: vmm_example_def pmm.defs)
qed

lemma vmm_example_wf: "as_wf vmm_example 0" "hw_walk (phys_mem vmm_example) 0 (vidx va) = None"
  using as_wf_empty [of vmm_example 0] vmm_example_pmm by simp_all

lemma vmm_example_card: "card (free_frames vmm_example) = 9"
  by (simp add: vmm_example_pmm)

lemma vmm_example_untranslated: "translate (phys_mem vmm_example) 0 va = None"
  using vmm_example_wf(2) by (simp add: translate_def)

theorem vmm_map_correct_witness:
  "\<exists>s'. vmm_map (phys_to_virt 0) 0x5000 0xFFFFFFFF80001000 0x3 vmm_example = Inr s' \<and>
     translate (phys_mem s') 0 0xFFFFFFFF80001234 = Some (0x5234, 0x5003) \<and>
     translate (phys_mem s') 0 0xFFFFFFFF80002234 = None"
proof -
  obtain s' where s': "vmm_map (phys_to_virt 0) 0x5000 0xFFFFFFFF80001000 0x3 vmm_example = Inr s'"
    "\<forall>va. translate (phys_mem s') 0 va =
      (if page_of va = page_of 0xFFFFFFFF80001000 then Some (0x5000 OR (va AND mask 12), 0x5000 OR 0x3)
       else translate (phys_mem vmm_example) 0 va)"
    using vmm_map_correct [OF vmm_example_wf(1) vmm_example_untranslated, of "0x5000" "0xFFFFFFFF80001000" "0x3"]
    by (auto simp: vmm_example_card is_aligned_def VMM_PTE_ADDR_MASK_def)
  moreover have "page_of 0xFFFFFFFF80001234 = page_of 0xFFFFFFFF80001000"
    "page_of 0xFFFFFFFF80002234 \<noteq> page_of 0xFFFFFFFF80001000" by (simp_all add: page_of_def)
  ultimately show ?thesis
    by (simp add: vmm_example_untranslated mask_eq_exp_minus_1)
qed

text \<open>C13: \<open>vmm_unmap\<close> of a page that is mapped with 4 KiB removes exactly the translation of
  its addresses, allocates and releases nothing, and keeps the address space well formed;
  unmapping a page just mapped by \<open>vmm_map\<close> restores every translation.\<close>

theorem vmm_map_unmap_roundtrip:
  assumes "as_wf s root" and "translate (phys_mem s) root virt = None"
    and "is_aligned virt 4096" and "bit flags 0"
    and "vmm_map (phys_to_virt root) phys virt flags s = Inr s1"
  shows "\<exists>s2. vmm_unmap (phys_to_virt root) virt s1 = Inr s2 \<and> as_wf s2 root \<and>
    free_frames s2 = free_frames s1 \<and>
    (\<forall>va. translate (phys_mem s2) root va = translate (phys_mem s) root va)"
proof -
  have w: "hw_walk (phys_mem s) root (vidx virt) = None"
    using assms(2) by (auto simp: translate_def split: option.splits)
  then have sm: "small_path (phys_mem s) root virt" by (simp add: small_path_def)
  note e = vmm_map_effect [OF assms(1) sm assms(4,5)]
  then have "as_wf s1 root" "hw_walk (phys_mem s1) root (vidx virt) = Some (0, phys OR flags)" by auto
  from vmm_unmap_effect [OF this] assms(3) obtain s2
    where s2: "vmm_unmap (phys_to_virt root) virt s1 = Inr s2" "as_wf s2 root"
      "free_frames s2 = free_frames s1"
      "\<forall>va. hw_walk (phys_mem s2) root (vidx va) =
        (if page_of va = page_of virt then None else hw_walk (phys_mem s1) root (vidx va))" by blast
  have "hw_walk (phys_mem s2) root (vidx va) = hw_walk (phys_mem s) root (vidx va)" for va
  proof (cases "page_of va = page_of virt")
    case True
    then have "vidx va = vidx virt" by (simp add: vidx_eq_iff)
    then show ?thesis using s2(4) w True by simp
  next
    case False
    then show ?thesis using s2(4) e by simp
  qed
  then show ?thesis using s2(1-3) by (auto intro: translate_cong)
qed

theorem vmm_map_unmap_roundtrip_witness:
  "\<exists>s1 s2. vmm_map (phys_to_virt 0) 0x5000 0x400000 0x7 vmm_example = Inr s1 \<and>
     vmm_unmap (phys_to_virt 0) 0x400000 s1 = Inr s2 \<and> translate (phys_mem s2) 0 0x400123 = None"
proof -
  have "small_path (phys_mem vmm_example) 0 0x400000"
    using vmm_example_wf(2) [of "0x400000"] by (simp add: small_path_def)
  then obtain s1 where s1: "vmm_map (phys_to_virt 0) 0x5000 0x400000 0x7 vmm_example = Inr s1"
    using vmm_map_total [OF vmm_example_wf(1), of "0x400000" "0x5000" "0x7"]
      unmapped_entry_word [OF vmm_example_wf(1) vmm_example_wf(2)]
    by (auto simp: vmm_example_card is_aligned_def)
  with vmm_map_unmap_roundtrip [OF vmm_example_wf(1) vmm_example_untranslated _ _ s1]
  show ?thesis by (auto simp: is_aligned_def bit_numeral_rec vmm_example_untranslated)
qed

text \<open>mapping a large (2 MiB) page whose entry is free translates every address of the
  page to the frame with its 21-bit offset kept and changes no other address; \<open>vmm_unmap_large\<close>
  then restores every translation.\<close>

theorem vmm_map_large_correct:
  assumes "as_wf s root" and "\<forall>n e. hw_walk (phys_mem s) root (vidx virt) = Some (n, e) \<longrightarrow> n < 2"
    and "entry_word (phys_mem s) root [i4 virt, i3 virt] (i2 virt) = 0"
    and "2 \<le> card (free_frames s)"
    and "is_aligned phys 0x200000" and "is_aligned virt 0x200000"
    and "phys AND VMM_PTE_ADDR_MASK = phys" and "flags AND VMM_PTE_ADDR_MASK = 0" and "bit flags 0"
  shows "\<exists>s1 s2. vmm_map_large (phys_to_virt root) phys virt flags s = Inr s1 \<and> as_wf s1 root \<and>
    (\<forall>va. translate (phys_mem s1) root va =
      (if same_page 1 va virt then Some (phys OR (va AND mask 21), phys OR (flags OR VMM_PS_FLAG))
       else translate (phys_mem s) root va)) \<and>
    vmm_unmap_large (phys_to_virt root) virt s1 = Inr s2 \<and> as_wf s2 root \<and>
    (\<forall>va. translate (phys_mem s2) root va =
      (if same_page 1 va virt then None else translate (phys_mem s) root va))"
proof -
  let ?g = "flags OR VMM_PS_FLAG"
  obtain s1 where s1: "vmm_map_large (phys_to_virt root) phys virt flags s = Inr s1" "as_wf s1 root"
    "\<forall>va. hw_walk (phys_mem s1) root (vidx va) =
      (if page_of va div 512 = page_of virt div 512 then Some (1, phys OR ?g)
       else hw_walk (phys_mem s) root (vidx va))"
    using vmm_map_large_effect [OF assms(1-4,9)] assms(5,6) by blast
  obtain s2 where s2: "vmm_unmap_large (phys_to_virt root) virt s1 = Inr s2" "as_wf s2 root"
    "\<forall>va. hw_walk (phys_mem s2) root (vidx va) =
      (if page_of va div 512 = page_of virt div 512 then None else hw_walk (phys_mem s1) root (vidx va))"
    using vmm_unmap_large_effect [OF s1(2), of virt] s1(3) assms(6) by fastforce
  have g: "?g AND VMM_PTE_ADDR_MASK = 0"
    using assms(8) by (simp add: bit.conj_disj_distrib2 VMM_PTE_ADDR_MASK_def)
  have p: "phys AND mask (page_shift 1) = 0"
    using assms(5) by (simp add: is_aligned_def page_shift_def mask_21)
  have "translate (phys_mem s1) root va = Some (phys OR (va AND mask 21), phys OR ?g)"
    if "same_page 1 va virt" for va
    using leaf_translate [OF _ assms(7) g p, of "phys_mem s1" root va] s1(3) that
    by (simp add: same_page_def page_shift_def)
  moreover have "translate (phys_mem s1) root va = translate (phys_mem s) root va"
    if "\<not> same_page 1 va virt" for va
    using s1(3) that by (intro translate_cong) (simp add: same_page_def)
  moreover have "translate (phys_mem s2) root va = (if same_page 1 va virt then None else translate (phys_mem s) root va)"
    for va using s1(3) s2(3) by (simp add: translate_def same_page_def)
  ultimately show ?thesis using s1 s2 by auto
qed

lemma vmm_example_entry: "entry_word (phys_mem vmm_example) 0 is i = 0"
  by (simp add: entry_word_def vmm_example_pmm split: option.split)

theorem vmm_map_large_correct_witness:
  "\<exists>s1. vmm_map_large (phys_to_virt 0) 0x600000 0xFFFF800000200000 0x3 vmm_example = Inr s1 \<and>
     translate (phys_mem s1) 0 0xFFFF800000212345 = Some (0x612345, 0x600083)"
proof -
  have "same_page 1 0xFFFF800000212345 0xFFFF800000200000" by (simp add: same_page_def page_of_def)
  then show ?thesis
    using vmm_map_large_correct [OF vmm_example_wf(1) _ vmm_example_entry, of "0xFFFF800000200000" "0x600000" "0x3"]
    by (auto simp: vmm_example_wf(2) vmm_example_card is_aligned_def VMM_PTE_ADDR_MASK_def
        mask_eq_exp_minus_1)
qed

text \<open>mapping a huge (1 GiB) page whose entry is free translates every address of the page
  to the frame with its 30-bit offset kept and changes no other address; \<open>vmm_unmap_huge\<close> then
  restores every translation.\<close>

theorem vmm_map_huge_correct:
  assumes "as_wf s root"
    and "entry_word (phys_mem s) root [i4 virt] (i3 virt) = 0"
    and "1 \<le> card (free_frames s)"
    and "is_aligned phys 0x40000000" and "is_aligned virt 0x40000000"
    and "phys AND VMM_PTE_ADDR_MASK = phys" and "flags AND VMM_PTE_ADDR_MASK = 0" and "bit flags 0"
  shows "\<exists>s1 s2. vmm_map_huge (phys_to_virt root) phys virt flags s = Inr s1 \<and> as_wf s1 root \<and>
    (\<forall>va. translate (phys_mem s1) root va =
      (if same_page 2 va virt then Some (phys OR (va AND mask 30), phys OR (flags OR VMM_PS_FLAG))
       else translate (phys_mem s) root va)) \<and>
    vmm_unmap_huge (phys_to_virt root) virt s1 = Inr s2 \<and> as_wf s2 root \<and>
    (\<forall>va. translate (phys_mem s2) root va =
      (if same_page 2 va virt then None else translate (phys_mem s) root va))"
proof -
  let ?g = "flags OR VMM_PS_FLAG"
  obtain s1 where s1: "vmm_map_huge (phys_to_virt root) phys virt flags s = Inr s1" "as_wf s1 root"
    "\<forall>va. hw_walk (phys_mem s1) root (vidx va) =
      (if page_of va div 512 ^ 2 = page_of virt div 512 ^ 2 then Some (2, phys OR ?g)
       else hw_walk (phys_mem s) root (vidx va))"
    using vmm_map_huge_effect [OF assms(1-3,8)] assms(4,5) by blast
  obtain s2 where s2: "vmm_unmap_huge (phys_to_virt root) virt s1 = Inr s2" "as_wf s2 root"
    "\<forall>va. hw_walk (phys_mem s2) root (vidx va) =
      (if page_of va div 512 ^ 2 = page_of virt div 512 ^ 2 then None
       else hw_walk (phys_mem s1) root (vidx va))"
    using vmm_unmap_huge_effect [OF s1(2), of virt "phys OR ?g"] s1(3) assms(5) by auto
  have g: "?g AND VMM_PTE_ADDR_MASK = 0"
    using assms(7) by (simp add: bit.conj_disj_distrib2 VMM_PTE_ADDR_MASK_def)
  have p: "phys AND mask (page_shift 2) = 0"
    using assms(4) by (simp add: is_aligned_def page_shift_def mask_30)
  have "translate (phys_mem s1) root va = Some (phys OR (va AND mask 30), phys OR ?g)"
    if "same_page 2 va virt" for va
    using leaf_translate [OF _ assms(6) g p, of "phys_mem s1" root va] s1(3) that
    by (simp add: same_page_def page_shift_def)
  moreover have "translate (phys_mem s1) root va = translate (phys_mem s) root va"
    if "\<not> same_page 2 va virt" for va
    using s1(3) that by (intro translate_cong) (simp add: same_page_def)
  moreover have "translate (phys_mem s2) root va = (if same_page 2 va virt then None else translate (phys_mem s) root va)"
    for va using s1(3) s2(3) by (simp add: translate_def same_page_def)
  ultimately show ?thesis using s1 s2 by auto
qed

theorem vmm_map_huge_correct_witness:
  "\<exists>s1. vmm_map_huge (phys_to_virt 0) 0x80000000 0xFFFF800080000000 0x3 vmm_example = Inr s1 \<and>
     translate (phys_mem s1) 0 0xFFFF800092345678 = Some (0x92345678, 0x80000083)"
proof -
  have "same_page 2 0xFFFF800092345678 0xFFFF800080000000" by (simp add: same_page_def page_of_def)
  then show ?thesis
    using vmm_map_huge_correct [OF vmm_example_wf(1) vmm_example_entry, of "0x80000000" "0xFFFF800080000000" "0x3"]
    by (auto simp: vmm_example_wf(2) vmm_example_card is_aligned_def VMM_PTE_ADDR_MASK_def
        mask_eq_exp_minus_1)
qed


text \<open>An address space with one page: the tables are the frames 0, 1, 2 and 3, and address 0 is
  mapped to frame 5.\<close>

definition mapped_example :: vmm where
  "mapped_example = vmm_example\<lparr>phys_mem := (\<lambda>a. if a = 0 then 0x1003 else if a = 0x1000 then 0x2003
     else if a = 0x2000 then 0x3003 else if a = 0x3000 then 0x5003 else 0)\<rparr>"

lemma mapped_example_mem:
  assumes "i < 512"
  shows "phys_mem mapped_example (slot 0 i) = (if i = 0 then 0x1003 else 0)"
    "phys_mem mapped_example (slot 0x1000 i) = (if i = 0 then 0x2003 else 0)"
    "phys_mem mapped_example (slot 0x2000 i) = (if i = 0 then 0x3003 else 0)"
    "phys_mem mapped_example (slot 0x3000 i) = (if i = 0 then 0x5003 else 0)"
proof -
  have s: "t = slot t 0" for t :: u64 by (simp add: slot_def)
  have al: "is_aligned 0 4096" "is_aligned 0x1000 4096" "is_aligned 0x2000 4096" "is_aligned 0x3000 4096"
    by (simp_all add: is_aligned_def)
  have q: "slot t i = u \<longleftrightarrow> t = u \<and> i = 0" if "is_aligned t 4096" "is_aligned u 4096" for t u
    using slot_eq_iff [OF that assms, of 0] s [of u] by simp
  show "phys_mem mapped_example (slot 0 i) = (if i = 0 then 0x1003 else 0)"
    "phys_mem mapped_example (slot 0x1000 i) = (if i = 0 then 0x2003 else 0)"
    "phys_mem mapped_example (slot 0x2000 i) = (if i = 0 then 0x3003 else 0)"
    "phys_mem mapped_example (slot 0x3000 i) = (if i = 0 then 0x5003 else 0)"
    by (simp_all add: mapped_example_def q al)
qed

lemma mapped_example_tables:
  "table_path is \<Longrightarrow> table_at (phys_mem mapped_example) 0 is =
     (if set is \<subseteq> {0} then Some (of_nat (length is) * 0x1000) else None)"
proof (induction "is" rule: rev_induct)
  case (snoc i "is")
  then have p: "table_path is" "length is < 3" "i < 512" by (simp_all add: table_path_snoc)
  have step: "points_to_table (phys_mem mapped_example (slot (of_nat n * 0x1000) i)) = (i = 0)"
    "i = 0 \<Longrightarrow> phys_mem mapped_example (slot (of_nat n * 0x1000) i) AND VMM_PTE_ADDR_MASK = of_nat (Suc n) * 0x1000"
    if "n < 3" for n
  proof -
    have "n = 0 \<or> n = 1 \<or> n = 2" using that by linarith
    then show "points_to_table (phys_mem mapped_example (slot (of_nat n * 0x1000) i)) = (i = 0)"
      "i = 0 \<Longrightarrow> phys_mem mapped_example (slot (of_nat n * 0x1000) i) AND VMM_PTE_ADDR_MASK = of_nat (Suc n) * 0x1000"
      by (elim disjE; simp add: mapped_example_mem p(3) points_to_table_def VMM_PTE_ADDR_MASK_def bit_numeral_rec)+
  qed
  show ?case
    using snoc.IH [OF p(1)] step [OF p(2)] by (auto simp: table_at_snoc)
qed simp

lemma mapped_example_wf: "as_wf mapped_example 0"
  and mapped_example_walk: "hw_walk (phys_mem mapped_example) 0 (vidx 0) = Some (0, 0x5003)"
  and mapped_example_no_table: "no_table mapped_example 0 [0x5000]"
proof -
  have pm: "pmm_wf mapped_example" "managed_pages mapped_example = managed_pages vmm_example"
    "page_used mapped_example = page_used vmm_example"
    using vmm_example_pmm by (simp_all add: mapped_example_def)
  have tab: "\<exists>n\<le>3. t = frame_addr n \<and> (\<forall>i<512. phys_mem mapped_example (slot t i) \<noteq> 0 \<longrightarrow>
      phys_mem mapped_example (slot t i) \<in> {0x1003, 0x2003, 0x3003, 0x5003}) \<and>
      is = replicate n 0"
    if "table_path is" "table_at (phys_mem mapped_example) 0 is = Some t" for "is" t
  proof -
    have z: "is = replicate (length is) 0" and t: "t = frame_addr (length is)"
      using that mapped_example_tables [OF that(1)]
      by (auto simp: frame_addr_def subset_iff intro!: replicate_eqI split: if_splits)
    have "length is \<le> 3" using that(1) by (simp add: table_path_def)
    moreover from this have "length is = 0 \<or> length is = 1 \<or> length is = 2 \<or> length is = 3" by linarith
    then have "\<forall>i<512. phys_mem mapped_example (slot t i) \<noteq> 0 \<longrightarrow>
      phys_mem mapped_example (slot t i) \<in> {0x1003, 0x2003, 0x3003, 0x5003}"
      by (elim disjE; simp add: mapped_example_mem t frame_addr_def)
    ultimately show ?thesis using z t by blast
  qed
  have used: "frame_addr n \<in> managed_pages vmm_example \<and> page_used vmm_example (frame_addr n)" if "n \<le> 3" for n
  proof -
    have "n = 0 \<or> n = 1 \<or> n = 2 \<or> n = 3" using that by linarith
    then show ?thesis
      by (auto simp: managed_pages_def pmm_pages_def page_used_frame_addr frame_used_def vmm_example_def
          pmm.defs pmm_example_def bm_get_def bit_numeral_rec)
  qed
  have inj: "is = js" if "table_path is" "table_path js" "table_at (phys_mem mapped_example) 0 is = Some t"
    "table_at (phys_mem mapped_example) 0 js = Some t" for "is" js t
    using tab [OF that(1,3)] tab [OF that(2,4)] frame_addr_inj by force
  have tabs: "t \<in> managed_pages vmm_example \<and> page_used vmm_example t"
    if "table_path is" "table_at (phys_mem mapped_example) 0 is = Some t" for "is" t
    using tab [OF that] used by blast
  show "as_wf mapped_example 0"
    unfolding as_wf_def
  proof (intro conjI allI impI)
    fix "is" t i assume a: "table_path is" "i < 512" "table_at (phys_mem mapped_example) 0 is = Some t"
      "phys_mem mapped_example (slot t i) \<noteq> 0"
    then have "phys_mem mapped_example (slot t i) \<in> {0x1003, 0x2003, 0x3003, 0x5003}" using tab by blast
    then show "bit (phys_mem mapped_example (slot t i)) 0" by (auto simp: bit_numeral_rec)
  next
    fix i :: nat assume "i < 512"
    then show "\<not> bit (phys_mem mapped_example (slot 0 i)) 7"
      by (simp add: mapped_example_mem bit_numeral_rec)
  qed (use pm tabs inj in simp_all)
  have "vidx 0 = [0, 0, 0, 0]" by (simp add: vidx_page_of page_of_def)
  then show "hw_walk (phys_mem mapped_example) 0 (vidx 0) = Some (0, 0x5003)"
    by (simp add: hw_walk.simps Let_def mapped_example_mem VMM_PTE_ADDR_MASK_def bit_numeral_rec)
  have "frame_addr n \<noteq> 0x5000" if "n \<le> 3" for n
    using that unat_frame_addr [of n] by auto
  then show "no_table mapped_example 0 [0x5000]" using tab by (force simp: no_table_def)
qed



lemma concat_map_single:
  assumes "\<And>i. 0 < i \<Longrightarrow> i < n \<Longrightarrow> f i = []" and "0 < n"
  shows "concat (map f [0..<n]) = f 0"
proof -
  have "concat (map f [Suc 0..<n]) = []" using assms(1) by auto
  then show ?thesis using assms(2) by (simp add: upt_conv_Cons)
qed

lemma mapped_example_frames: "lower_half_frames (phys_mem mapped_example) 0 = [0x5000, 0x3000, 0x2000, 0x1000]"
proof -
  have "pt_frames (phys_mem mapped_example) 0x3000 = [0x5000]"
    unfolding pt_frames_def
    by (subst concat_map_single) (simp_all add: mapped_example_mem VMM_PTE_ADDR_MASK_def)
  then have "sub_frames pt_frames (phys_mem mapped_example) 0x2000 = [0x5000, 0x3000]"
    unfolding sub_frames_def
    by (subst concat_map_single) (simp_all add: mapped_example_mem VMM_PTE_ADDR_MASK_def bit_numeral_rec)
  then have "sub_frames (sub_frames pt_frames) (phys_mem mapped_example) 0x1000 = [0x5000, 0x3000, 0x2000]"
    unfolding sub_frames_def [of "sub_frames pt_frames"]
    by (subst concat_map_single) (simp_all add: mapped_example_mem VMM_PTE_ADDR_MASK_def bit_numeral_rec)
  then show ?thesis
    unfolding lower_half_frames_def
    by (subst concat_map_single) (simp_all add: mapped_example_mem VMM_PTE_ADDR_MASK_def)
qed


text \<open>\<open>vmm_init\<close> returns the direct-map address of a frame that was free, and the frame is
  the root of a well-formed address space in which no address is translated.\<close>

theorem vmm_init_correct:
  assumes "pmm_wf s" and "free_frames s \<noteq> {}"
  shows "\<exists>root s'. vmm_init s = Inr (phys_to_virt root, s') \<and> root \<in> managed_pages s \<and>
    \<not> page_used s root \<and> as_wf s' root \<and> (\<forall>va. translate (phys_mem s') root va = None)"
proof -
  obtain p s1 where "pmm_alloc s = Inr (p, s1)" using pmm_alloc_total [OF assms] by blast
  then obtain v s' where "vmm_init s = Inr (v, s')" by (simp add: vmm_init_def Let_def)
  with vmm_init_effect [OF assms(1) this] show ?thesis by (auto simp: translate_def)
qed

theorem vmm_init_correct_witness:
  "\<exists>root s'. vmm_init vmm_example = Inr (phys_to_virt root, s') \<and> translate (phys_mem s') root 0 = None"
  using vmm_init_correct [OF vmm_example_pmm(1)] by (auto simp: vmm_example_pmm(2))

text \<open>mapping a list of pages one after another with \<open>vmm_map\<close> (as the loops of the kernel do)
  maps each page to its frame and leaves every other address alone, when the pages are
  different, unmapped and aligned and three frames per page are free.\<close>

theorem vmm_map_list:
  assumes "as_wf s root" and "distinct (map (page_of \<circ> snd) xs)"
    and "\<forall>(p, v)\<in>set xs. (is_aligned p 4096 \<and> is_aligned v 4096) \<and> walk_entry s root v = None"
    and "length xs * 3 \<le> card (free_frames s)"
  shows "\<exists>s'. foldM (\<lambda>(p, v). vmm_map (phys_to_virt root) p v (flags OR VMM_FLAGS_PRESENT)) xs s = Inr s' \<and>
    as_wf s' root \<and>
    (\<forall>va. walk_entry s' root va = (case find (\<lambda>(p, v). page_of v = page_of va) xs of
       None \<Rightarrow> walk_entry s root va | Some (p, v) \<Rightarrow> Some (0, p OR (flags OR VMM_FLAGS_PRESENT))))"
  using assms by (rule vm.map_all)

theorem vmm_map_list_witness:
  "\<exists>s'. foldM (\<lambda>(p, v). vmm_map (phys_to_virt 0) p v (0x2 OR VMM_FLAGS_PRESENT))
      [(0x5000, 0x400000), (0x6000, 0x401000)] vmm_example = Inr s' \<and>
     walk_entry s' 0 0x401ABC = Some (0, 0x6003)"
proof -
  have "page_of 0x400000 \<noteq> page_of 0x401000" "page_of 0x401000 = page_of 0x401ABC"
    "page_of 0x400000 \<noteq> page_of 0x401ABC" by (simp_all add: page_of_def)
  then show ?thesis
    using vmm_map_list [OF vmm_example_wf(1), of "[(0x5000, 0x400000), (0x6000, 0x401000)]" "0x2"]
    by (auto simp: vmm_example_card vmm_example_wf(2) walk_entry_def is_aligned_def)
qed

end
