(* ===== verification/Dll.thy ===== *)
theory Dll
  imports Prelude
begin

text \<open>
  Doubly linked lists in a store of links, as the slab lists of kernel/kernel/slab.c use them.
  A store maps the address of an element to its successor and predecessor; 0 is the null
  pointer. \<open>dll L xs\<close>: the elements \<open>xs\<close> are linked in this order, with null at both ends.

  The lemmas are the effects of the pointer updates of a push at the front and of an unlink
  from any position.
\<close>

type_synonym links = "u64 \<Rightarrow> (u64 \<times> u64) option"

definition hd0 :: "u64 list \<Rightarrow> u64" where
  "hd0 xs = (case xs of [] \<Rightarrow> 0 | x # _ \<Rightarrow> x)"

definition last0 :: "u64 list \<Rightarrow> u64" where
  "last0 xs = (if xs = [] then 0 else last xs)"

definition dll :: "links \<Rightarrow> u64 list \<Rightarrow> bool" where
  "dll L xs \<longleftrightarrow> 0 \<notin> set xs \<and> (\<forall>ys x zs. xs = ys @ x # zs \<longrightarrow> L x = Some (hd0 zs, last0 ys))"

definition set_next :: "u64 \<Rightarrow> u64 \<Rightarrow> links \<Rightarrow> links" where
  "set_next p v L = L(p := map_option (\<lambda>(n, q). (v, q)) (L p))"

definition set_prev :: "u64 \<Rightarrow> u64 \<Rightarrow> links \<Rightarrow> links" where
  "set_prev p v L = L(p := map_option (\<lambda>(n, q). (n, v)) (L p))"

lemma hd0_simps [simp]: "hd0 [] = 0" "hd0 (x # xs) = x"
  by (simp_all add: hd0_def)

lemma last0_simps [simp]: "last0 [] = 0" "last0 (xs @ [x]) = x"
  by (simp_all add: last0_def)

lemma last0_append: "last0 (xs @ ys) = (if ys = [] then last0 xs else last0 ys)"
  by (simp add: last0_def)

lemma last0_Cons: "last0 (x # xs) = (if xs = [] then x else last0 xs)"
  by (simp add: last0_def)

lemma hd0_append: "hd0 (xs @ ys) = (if xs = [] then hd0 ys else hd0 xs)"
  by (cases xs) simp_all

lemma hd0_eq_0_iff: "0 \<notin> set xs \<Longrightarrow> hd0 xs = 0 \<longleftrightarrow> xs = []"
  by (cases xs) auto

lemma last0_eq_0_iff: "0 \<notin> set xs \<Longrightarrow> last0 xs = 0 \<longleftrightarrow> xs = []"
  by (auto simp: last0_def dest: last_in_set)

lemma dll_lookup: "dll L (ys @ x # zs) \<Longrightarrow> L x = Some (hd0 zs, last0 ys)"
  unfolding dll_def by blast

lemma dll_nonnull: "dll L xs \<Longrightarrow> 0 \<notin> set xs"
  by (simp add: dll_def)

lemma dll_in_store: "dll L xs \<Longrightarrow> x \<in> set xs \<Longrightarrow> L x \<noteq> None"
  by (auto simp: in_set_conv_decomp dest: dll_lookup)

lemma dll_Nil [simp]: "dll L []"
  by (simp add: dll_def)

lemma dll_cong:
  assumes "dll L xs" and "\<And>x. x \<in> set xs \<Longrightarrow> L' x = L x"
  shows "dll L' xs"
  using assms unfolding dll_def by (metis in_set_conv_decomp)

text \<open>Pushing a new element at the front: the old head gets the new element as predecessor.\<close>

lemma dll_push:
  assumes "dll L xs" and "x \<notin> set xs" and "x \<noteq> 0" and "distinct xs"
    and "L' x = Some (hd0 xs, 0)"
    and "\<And>y. y \<in> set xs \<Longrightarrow> L' y = (if y = hd0 xs then set_prev y x L y else L y)"
  shows "dll L' (x # xs)"
  unfolding dll_def
proof (intro conjI allI impI)
  show "0 \<notin> set (x # xs)" using assms(1,3) by (auto simp: dll_def)
  fix ys y zs
  assume e: "x # xs = ys @ y # zs"
  show "L' y = Some (hd0 zs, last0 ys)"
  proof (cases ys)
    case Nil
    then show ?thesis using e assms(5) by simp
  next
    case (Cons w ws)
    with e have xs: "xs = ws @ y # zs" and w: "w = x" by simp_all
    note y = dll_lookup [OF assms(1) [unfolded xs]]
    show ?thesis
    proof (cases "ws = []")
      case True
      then show ?thesis using assms(6) [of y] y by (simp add: Cons w xs set_prev_def last0_Cons)
    next
      case False
      then obtain v vs where "ws = v # vs" by (cases ws) auto
      then have "y \<noteq> hd0 xs" using assms(4) by (auto simp: xs)
      then show ?thesis using assms(6) [of y] y False by (simp add: Cons xs last0_Cons)
    qed
  qed
qed

text \<open>Unlinking an element: its neighbours are linked to each other.\<close>

lemma dll_unlink:
  assumes "dll L (as @ y # bs)" and d: "distinct (as @ y # bs)"
    and "L' = (if last0 as \<noteq> 0 then set_next (last0 as) (hd0 bs) else id)
               ((if hd0 bs \<noteq> 0 then set_prev (hd0 bs) (last0 as) else id) L)"
  shows "dll L' (as @ bs)"
  unfolding dll_def
proof (intro conjI allI impI)
  have nn: "0 \<notin> set as" "0 \<notin> set bs" using dll_nonnull [OF assms(1)] by simp_all
  then show "0 \<notin> set (as @ bs)" by simp
  fix ys x zs
  assume e: "as @ bs = ys @ x # zs"
  then consider us where "as = ys @ x # us" "zs = us @ bs" | us where "ys = as @ us" "bs = us @ x # zs"
    by (auto simp: append_eq_append_conv2 append_eq_Cons_conv)
  then show "L' x = Some (hd0 zs, last0 ys)"
  proof cases
    case 1
    have "L x = Some (hd0 (us @ y # bs), last0 ys)"
      using dll_lookup [of L ys x "us @ y # bs"] assms(1) 1 by simp
    moreover have "x \<noteq> hd0 bs \<or> bs = []" using d 1 by (cases bs) auto
    moreover have "x = last0 as \<longleftrightarrow> us = []" using d 1 by (cases us rule: rev_cases) (auto simp: last0_append last0_Cons)
    moreover have "last0 as \<noteq> 0" using nn(1) 1 by (simp add: last0_eq_0_iff)
    ultimately show ?thesis
      using nn 1 by (auto simp: assms(3) set_next_def set_prev_def hd0_append hd0_eq_0_iff)
  next
    case 2
    have "L x = Some (hd0 zs, last0 (as @ y # us))"
      using dll_lookup [of L "as @ y # us" x zs] assms(1) 2 by simp
    moreover have "x \<noteq> last0 as \<or> as = []" using d 2 by (auto simp: last0_def)
    moreover have "x = hd0 bs \<longleftrightarrow> us = []" using d 2 by (cases us) auto
    moreover have "hd0 bs \<noteq> 0" using nn(2) 2 by (simp add: hd0_eq_0_iff)
    ultimately show ?thesis
      using nn 2 by (auto simp: assms(3) set_next_def set_prev_def last0_append last0_Cons last0_eq_0_iff)
  qed
qed

lemma set_next_other [simp]: "x \<noteq> p \<Longrightarrow> set_next p v L x = L x"
  and set_prev_other [simp]: "x \<noteq> p \<Longrightarrow> set_prev p v L x = L x"
  by (simp_all add: set_next_def set_prev_def)

end
