(* ===== verification/Slab.thy ===== *)
theory Slab
  imports VmmSpec Dll
begin

text \<open>
  The slab allocator of kernel/kernel/slab.c and \<^verbatim>\<open>kmalloc\<close> on top of it
  (kernel/kernel/kmalloc.c).

  A slab is one page of the slab window, mapped by \<open>vmm_map\<close>; its header is the record
  \<open>SlabHeader\<close> at the start of the page, kept in \<open>slab_at\<close> under the address of the page for
  as long as the page is mapped. The words of the objects (the links of the free list) are
  kept in \<open>words\<close> under their address. Reading or writing a slab that is not there, or a
  word outside the object area of a slab, is \<open>Fault\<close>. A null pointer is 0.
\<close>

unbundle bit_operations_syntax

section \<open>State and operations\<close>

record SlabHeader =
  count_objects :: u32
  next_free :: u64
  next_slab :: u64
  prev_slab :: u64
  slab_phys :: u64
  slab_bin :: u16

record BinHeader =
  object_size :: u32
  max_objects :: u32
  free_slabs :: u64
  full_slabs :: u64

record slab_state = vmm +
  kernel_pml4 :: u64
  bins :: "BinHeader list"
  slab_top :: u64
  slab_at :: "u64 \<Rightarrow> SlabHeader option"
  slab_words :: "u64 \<Rightarrow> u64"

definition SLAB_VIRT_START :: u64 where
  "SLAB_VIRT_START = 0xFFFF900000000000"

definition SLAB_VIRT_END :: u64 where
  "SLAB_VIRT_END = SLAB_VIRT_START + 0x10000000000"

abbreviation SLAB_TOTAL_BINS :: nat where
  "SLAB_TOTAL_BINS \<equiv> 24"

abbreviation sizeof_SlabHeader :: u64 where
  "sizeof_SlabHeader \<equiv> 48"

definition VMM_FLAGS_KERNEL_DATA :: u64 where
  "VMM_FLAGS_KERNEL_DATA = 0x8000000000000003"

definition bin_sizes :: "u32 list" where
  "bin_sizes = [8, 16, 24, 32, 40, 48, 56, 64, 80, 96, 112, 128, 160, 192, 224, 256,
     320, 384, 448, 512, 640, 768, 896, 1024]"

definition initial_bins :: "BinHeader list" where
  "initial_bins = map (\<lambda>sz. \<lparr>object_size = sz,
     max_objects = (4096 - ucast sizeof_SlabHeader) div sz, free_slabs = 0, full_slabs = 0\<rparr>) bin_sizes"

definition read_slab :: "u64 \<Rightarrow> 'a slab_state_scheme \<Rightarrow> SlabHeader kres" where
  "read_slab p s = checked (slab_at s p)"

definition update_slab :: "u64 \<Rightarrow> (SlabHeader \<Rightarrow> SlabHeader) \<Rightarrow> 'a slab_state_scheme \<Rightarrow> 'a slab_state_scheme kres" where
  "update_slab p f s = andthen (read_slab p s) (\<lambda>h. Inr (s\<lparr>slab_at := (slab_at s)(p \<mapsto> f h)\<rparr>))"

text \<open>\<^verbatim>\<open>if (p != NULL) p->prev_slab = v;\<close> and the same for \<^verbatim>\<open>next_slab\<close>.\<close>

definition put_prev :: "u64 \<Rightarrow> u64 \<Rightarrow> 'a slab_state_scheme \<Rightarrow> 'a slab_state_scheme kres" where
  "put_prev p v s = (if p \<noteq> 0 then update_slab p (\<lambda>h. h\<lparr>prev_slab := v\<rparr>) s else Inr s)"

definition put_next :: "u64 \<Rightarrow> u64 \<Rightarrow> 'a slab_state_scheme \<Rightarrow> 'a slab_state_scheme kres" where
  "put_next p v s = (if p \<noteq> 0 then update_slab p (\<lambda>h. h\<lparr>next_slab := v\<rparr>) s else Inr s)"

definition update_bin :: "nat \<Rightarrow> (BinHeader \<Rightarrow> BinHeader) \<Rightarrow> 'a slab_state_scheme \<Rightarrow> 'a slab_state_scheme" where
  "update_bin b f s = s\<lparr>bins := (bins s)[b := f (bins s ! b)]\<rparr>"

definition slab_page :: "u64 \<Rightarrow> u64" where
  "slab_page a = a AND NOT 0xFFF"

definition word_ok :: "u64 \<Rightarrow> 'a slab_state_scheme \<Rightarrow> bool" where
  "word_ok a s \<longleftrightarrow> slab_at s (slab_page a) \<noteq> None \<and> sizeof_SlabHeader \<le> a - slab_page a \<and>
     a - slab_page a \<le> 4088"

definition read_word :: "u64 \<Rightarrow> 'a slab_state_scheme \<Rightarrow> u64 kres" where
  "read_word a s = (if word_ok a s then Inr (slab_words s a) else Inl Fault)"

definition write_word :: "u64 \<Rightarrow> u64 \<Rightarrow> 'a slab_state_scheme \<Rightarrow> 'a slab_state_scheme kres" where
  "write_word a v s = (if word_ok a s then Inr (s\<lparr>slab_words := (slab_words s)(a := v)\<rparr>) else Inl Fault)"

text \<open>\<^verbatim>\<open>for (i = ...; i < slab_virt_end; i += object_size)\<close>; the fuel is the number of words of a
  page, which bounds the number of objects.\<close>

fun init_links :: "nat \<Rightarrow> u64 \<Rightarrow> u64 \<Rightarrow> u64 \<Rightarrow> 'a slab_state_scheme \<Rightarrow> 'a slab_state_scheme kres" where
  "init_links fuel sz i slab_virt_end s =
     (if i < slab_virt_end
      then (case fuel of
              0 \<Rightarrow> Inl Diverge
            | Suc n \<Rightarrow> andthen (write_word i (i + sz) s) (init_links n sz (i + sz) slab_virt_end))
      else Inr s)"

definition new_slab :: "nat \<Rightarrow> 'a slab_state_scheme \<Rightarrow> 'a slab_state_scheme kres" where
  "new_slab b s =
     andthen (pmm_alloc s) (\<lambda>(p, s).
     let slab_virt = SLAB_VIRT_START + slab_top s;
         slab_virt_end = slab_virt + VMM_DEFAULT_PAGE_SIZE;
         sz = ucast (object_size (bins s ! b)) :: u64
     in
     andthen (vmm_map (kernel_pml4 s) p slab_virt VMM_FLAGS_KERNEL_DATA s) (\<lambda>s.
     let s = s\<lparr>slab_top := slab_top s + VMM_DEFAULT_PAGE_SIZE\<rparr>;
         s = s\<lparr>slab_at := (slab_at s)(slab_virt \<mapsto> \<lparr>count_objects = 0, next_free = 0, next_slab = 0,
               prev_slab = 0, slab_phys = p, slab_bin = of_nat b\<rparr>)\<rparr>
     in
     andthen (init_links 512 sz (slab_virt + sizeof_SlabHeader) slab_virt_end s) (\<lambda>s.
     andthen (write_word (slab_virt_end - sz) 0 s) (\<lambda>s.
     andthen (update_slab slab_virt (\<lambda>h. h\<lparr>next_free := slab_virt + sizeof_SlabHeader,
               next_slab := free_slabs (bins s ! b), prev_slab := 0\<rparr>) s) (\<lambda>s.
     andthen (put_prev (free_slabs (bins s ! b)) slab_virt s) (\<lambda>s.
     Inr (update_bin b (\<lambda>x. x\<lparr>free_slabs := slab_virt\<rparr>) s)))))))"

definition move_to_full :: "nat \<Rightarrow> u64 \<Rightarrow> 'a slab_state_scheme \<Rightarrow> 'a slab_state_scheme kres" where
  "move_to_full b slab s =
     andthen (read_slab slab s) (\<lambda>h.
     let s = update_bin b (\<lambda>x. x\<lparr>free_slabs := next_slab h\<rparr>) s in
     andthen (put_prev (free_slabs (bins s ! b)) 0 s) (\<lambda>s.
     andthen (put_prev (full_slabs (bins s ! b)) slab s) (\<lambda>s.
     andthen (update_slab slab (\<lambda>h. h\<lparr>next_slab := full_slabs (bins s ! b), prev_slab := 0\<rparr>) s) (\<lambda>s.
     Inr (update_bin b (\<lambda>x. x\<lparr>full_slabs := slab\<rparr>) s)))))"

definition take_object :: "nat \<Rightarrow> 'a slab_state_scheme \<Rightarrow> (u64 \<times> 'a slab_state_scheme) kres" where
  "take_object b s =
     (let slab = free_slabs (bins s ! b) in
      andthen (read_slab slab s) (\<lambda>h.
      let addr = next_free h in
      andthen (read_word addr s) (\<lambda>next.
      andthen (update_slab slab (\<lambda>h. h\<lparr>next_free := next\<rparr>) s) (\<lambda>s.
      andthen (update_slab (slab_page addr) (\<lambda>h. h\<lparr>count_objects := count_objects h + 1\<rparr>) s) (\<lambda>s.
      andthen (read_slab slab s) (\<lambda>h.
      andthen (if count_objects h = max_objects (bins s ! b) then move_to_full b slab s else Inr s) (\<lambda>s.
      Inr (addr, s))))))))"

definition bin_alloc :: "u16 \<Rightarrow> 'a slab_state_scheme \<Rightarrow> (u64 \<times> 'a slab_state_scheme) kres" where
  "bin_alloc bin_idx s =
     andthen (when_debug (debug s) (andthen
       (panic_if (unat bin_idx \<ge> SLAB_TOTAL_BINS) ''bin_alloc: invalid bin index'') (\<lambda>_.
       panic_if (slab_top s \<ge> SLAB_VIRT_END - VMM_DEFAULT_PAGE_SIZE)
         ''bin_alloc: virtal address space exhausted for slab allocation''))) (\<lambda>_.
     if unat bin_idx \<ge> length (bins s) then Inl Fault
     else andthen (if free_slabs (bins s ! unat bin_idx) = 0 then new_slab (unat bin_idx) s else Inr s)
            (take_object (unat bin_idx)))"

text \<open>Unlinking from the list whose head is read and written by \<open>hd_of\<close> and \<open>set_hd\<close>.\<close>

definition unlink_slab :: "(BinHeader \<Rightarrow> u64) \<Rightarrow> (u64 \<Rightarrow> BinHeader \<Rightarrow> BinHeader) \<Rightarrow> nat \<Rightarrow> u64 \<Rightarrow>
    'a slab_state_scheme \<Rightarrow> 'a slab_state_scheme kres" where
  "unlink_slab hd_of set_hd b slab s =
     andthen (read_slab slab s) (\<lambda>h.
     let s = (if hd_of (bins s ! b) = slab then update_bin b (set_hd (next_slab h)) s else s) in
     andthen (put_prev (next_slab h) (prev_slab h) s) (\<lambda>s.
     andthen (read_slab slab s) (\<lambda>h.
     put_next (prev_slab h) (next_slab h) s)))"

definition full_to_free :: "nat \<Rightarrow> u64 \<Rightarrow> 'a slab_state_scheme \<Rightarrow> 'a slab_state_scheme kres" where
  "full_to_free b slab s =
     andthen (unlink_slab full_slabs (\<lambda>v x. x\<lparr>full_slabs := v\<rparr>) b slab s) (\<lambda>s.
     andthen (put_prev (free_slabs (bins s ! b)) slab s) (\<lambda>s.
     andthen (update_slab slab (\<lambda>h. h\<lparr>next_slab := free_slabs (bins s ! b), prev_slab := 0\<rparr>) s) (\<lambda>s.
     Inr (update_bin b (\<lambda>x. x\<lparr>free_slabs := slab\<rparr>) s))))"

definition release_slab :: "nat \<Rightarrow> u64 \<Rightarrow> 'a slab_state_scheme \<Rightarrow> 'a slab_state_scheme kres" where
  "release_slab b slab s =
     andthen (unlink_slab free_slabs (\<lambda>v x. x\<lparr>free_slabs := v\<rparr>) b slab s) (\<lambda>s.
     andthen (read_slab slab s) (\<lambda>h.
     andthen (pmm_free (slab_phys h) s) (\<lambda>s.
     andthen (vmm_unmap (kernel_pml4 s) slab s) (\<lambda>s.
     Inr (vmm_invlpg slab (s\<lparr>slab_at := (slab_at s)(slab := None)\<rparr>))))))"

definition bin_free :: "u64 \<Rightarrow> 'a slab_state_scheme \<Rightarrow> 'a slab_state_scheme kres" where
  "bin_free addr s =
     andthen (when_debug (debug s)
       (panic_if (addr < SLAB_VIRT_START \<or> addr > SLAB_VIRT_END)
         ''bin_free: non-slab allocated address passed'')) (\<lambda>_.
     let slab = slab_page addr in
     andthen (read_slab slab s) (\<lambda>h.
     let b = unat (slab_bin h) in
     andthen (when_debug (debug s) (panic_if (b \<ge> SLAB_TOTAL_BINS) ''bin_free: invalid bin index'')) (\<lambda>_.
     if b \<ge> length (bins s) then Inl Fault else
     let was_full = (count_objects h = max_objects (bins s ! b)) in
     andthen (write_word addr (next_free h) s) (\<lambda>s.
     andthen (update_slab slab (\<lambda>h. h\<lparr>next_free := addr, count_objects := count_objects h - 1\<rparr>) s) (\<lambda>s.
     andthen (if was_full then full_to_free b slab s else Inr s) (\<lambda>s.
     andthen (read_slab slab s) (\<lambda>h.
     if count_objects h = 0 then release_slab b slab s else Inr s)))))))"

definition kmalloc_bin :: "u64 \<Rightarrow> u16 option" where
  "kmalloc_bin num_bytes =
     (if num_bytes \<le> 8 then Some 0
      else if num_bytes \<le> 16 then Some 1
      else if num_bytes \<le> 24 then Some 2
      else if num_bytes \<le> 32 then Some 3
      else if num_bytes \<le> 40 then Some 4
      else if num_bytes \<le> 48 then Some 5
      else if num_bytes \<le> 56 then Some 6
      else if num_bytes \<le> 64 then Some 7
      else if num_bytes \<le> 80 then Some 8
      else if num_bytes \<le> 96 then Some 9
      else if num_bytes \<le> 112 then Some 10
      else if num_bytes \<le> 128 then Some 11
      else if num_bytes \<le> 160 then Some 12
      else if num_bytes \<le> 192 then Some 13
      else if num_bytes \<le> 224 then Some 14
      else if num_bytes \<le> 256 then Some 15
      else if num_bytes \<le> 320 then Some 16
      else if num_bytes \<le> 384 then Some 17
      else if num_bytes \<le> 448 then Some 18
      else if num_bytes \<le> 512 then Some 19
      else if num_bytes \<le> 640 then Some 20
      else if num_bytes \<le> 768 then Some 21
      else if num_bytes \<le> 896 then Some 22
      else if num_bytes \<le> 1024 then Some 23
      else None)"

definition kmalloc :: "u64 \<Rightarrow> 'a slab_state_scheme \<Rightarrow> (u64 \<times> 'a slab_state_scheme) kres" where
  "kmalloc num_bytes s =
     andthen (panic_if (num_bytes = 0) ''kmalloc: cannot allocated 0 bytes'') (\<lambda>_.
     case kmalloc_bin num_bytes of
       Some b \<Rightarrow> bin_alloc b s
     | None \<Rightarrow> Inl (KPanic ''kmalloc: unsupported num_bytes''))"

definition kfree :: "u64 \<Rightarrow> 'a slab_state_scheme \<Rightarrow> 'a slab_state_scheme kres" where
  "kfree ptr s = bin_free ptr s"

section \<open>The lists of slabs\<close>

text \<open>\<open>links\<close> and \<open>cores\<close> split the headers into their list pointers and the rest.
  \<open>relink s L B s'\<close>: the state changed only in the list pointers, to \<open>L\<close>, and in the bins, to \<open>B\<close>.\<close>

definition links :: "'a slab_state_scheme \<Rightarrow> links" where
  "links s = (\<lambda>p. map_option (\<lambda>h. (next_slab h, prev_slab h)) (slab_at s p))"

definition cores :: "'a slab_state_scheme \<Rightarrow> u64 \<Rightarrow> (u32 \<times> u64 \<times> u64 \<times> u16) option" where
  "cores s = (\<lambda>p. map_option (\<lambda>h. (count_objects h, next_free h, slab_phys h, slab_bin h)) (slab_at s p))"

definition relink :: "'a slab_state_scheme \<Rightarrow> links \<Rightarrow> BinHeader list \<Rightarrow> 'a slab_state_scheme \<Rightarrow> bool" where
  "relink s L B s' \<longleftrightarrow> links s' = L \<and> cores s' = cores s \<and> (\<exists>A. s' = s\<lparr>slab_at := A, bins := B\<rparr>)"

lemma relink_refl: "relink s (links s) (bins s) s"
  by (auto simp: relink_def intro!: exI [of _ "slab_at s"])

lemma relink_trans: "relink s L B s1 \<Longrightarrow> relink s1 L' B' s2 \<Longrightarrow> relink s L' B' s2"
  by (auto simp: relink_def)

lemma relink_bin: "relink s (links s) ((bins s)[b := f (bins s ! b)]) (update_bin b f s)"
  by (auto simp: relink_def update_bin_def links_def cores_def intro!: exI [of _ "slab_at s"])

lemma relink_bins: "relink s L B s' \<Longrightarrow> bins s' = B" "relink s L B s' \<Longrightarrow> links s' = L"
  by (auto simp: relink_def)

lemma links_None: "links s p = None \<longleftrightarrow> slab_at s p = None"
  by (simp add: links_def)

lemma update_slab_prev:
  assumes "links s p \<noteq> None"
  shows "\<exists>s'. update_slab p (\<lambda>h. h\<lparr>prev_slab := v\<rparr>) s = Inr s' \<and>
    relink s (set_prev p v (links s)) (bins s) s'"
  using assms
  by (auto simp: update_slab_def read_slab_def relink_def links_def cores_def set_prev_def fun_eq_iff)

lemma update_slab_next:
  assumes "links s p \<noteq> None"
  shows "\<exists>s'. update_slab p (\<lambda>h. h\<lparr>next_slab := v\<rparr>) s = Inr s' \<and>
    relink s (set_next p v (links s)) (bins s) s'"
  using assms
  by (auto simp: update_slab_def read_slab_def relink_def links_def cores_def set_next_def fun_eq_iff)

lemma update_slab_both:
  assumes "links s p \<noteq> None"
  shows "\<exists>s'. update_slab p (\<lambda>h. h\<lparr>next_slab := n, prev_slab := q\<rparr>) s = Inr s' \<and>
    relink s ((links s)(p \<mapsto> (n, q))) (bins s) s'"
  using assms
  by (auto simp: update_slab_def read_slab_def relink_def links_def cores_def fun_eq_iff)

lemma read_slab_links:
  assumes "links s p = Some (n, q)"
  shows "\<exists>h. read_slab p s = Inr h \<and> next_slab h = n \<and> prev_slab h = q"
  using assms by (auto simp: links_def read_slab_def)

text \<open>\<^verbatim>\<open>if (head != NULL) head->prev_slab = v\<close>\<close>

lemma maybe_set_prev:
  assumes "p \<noteq> 0 \<Longrightarrow> links s p \<noteq> None"
  shows "\<exists>s'. put_prev p v s = Inr s' \<and>
    relink s ((if p \<noteq> 0 then set_prev p v else id) (links s)) (bins s) s'"
  using assms update_slab_prev [of s p v] by (auto simp: relink_refl put_prev_def)

lemma maybe_set_next:
  assumes "p \<noteq> 0 \<Longrightarrow> links s p \<noteq> None"
  shows "\<exists>s'. put_next p v s = Inr s' \<and>
    relink s ((if p \<noteq> 0 then set_next p v else id) (links s)) (bins s) s'"
  using assms update_slab_next [of s p v] by (auto simp: relink_refl put_next_def)

lemma set_prev_None: "set_prev p v L x = None \<longleftrightarrow> L x = None"
  and set_next_None: "set_next p v L x = None \<longleftrightarrow> L x = None"
  by (simp_all add: set_prev_def set_next_def)

lemma hd0_in: "hd0 xs \<noteq> 0 \<Longrightarrow> hd0 xs \<in> set xs"
  by (cases xs) simp_all

lemma last0_in: "last0 xs \<noteq> 0 \<Longrightarrow> last0 xs \<in> set xs"
  by (auto simp: last0_def split: if_splits)

lemma unlink_slab_spec:
  assumes d: "dll (links s) (as @ y # bs)" and dist: "distinct (as @ y # bs)"
    and h: "hd_of (bins s ! b) = hd0 (as @ y # bs)"
  shows "\<exists>s'. unlink_slab hd_of set_hd b y s = Inr s' \<and>
    relink s ((if last0 as \<noteq> 0 then set_next (last0 as) (hd0 bs) else id)
        ((if hd0 bs \<noteq> 0 then set_prev (hd0 bs) (last0 as) else id) (links s)))
      (if as = [] then (bins s)[b := set_hd (hd0 bs) (bins s ! b)] else bins s) s'"
proof -
  note ly = dll_lookup [OF d]
  obtain hy where hy: "read_slab y s = Inr hy" "next_slab hy = hd0 bs" "prev_slab hy = last0 as"
    using read_slab_links [OF ly] by auto
  have eq: "hd_of (bins s ! b) = y \<longleftrightarrow> as = []"
    using h dist by (cases as) auto
  define s1 where "s1 = (if as = [] then update_bin b (set_hd (next_slab hy)) s else s)"
  have r1: "relink s (links s) (if as = [] then (bins s)[b := set_hd (hd0 bs) (bins s ! b)] else bins s) s1"
    using relink_bin [of s b "set_hd (hd0 bs)"] relink_refl [of s] by (simp add: s1_def hy(2))
  have in1: "hd0 bs \<noteq> 0 \<Longrightarrow> links s1 (hd0 bs) \<noteq> None"
    using dll_in_store [OF d] hd0_in [of bs] relink_bins(2) [OF r1] by auto
  obtain s2 where s2: "put_prev (hd0 bs) (last0 as) s1 = Inr s2"
    "relink s1 ((if hd0 bs \<noteq> 0 then set_prev (hd0 bs) (last0 as) else id) (links s1)) (bins s1) s2"
    using maybe_set_prev [OF in1] by blast
  have L2: "links s2 = (if hd0 bs \<noteq> 0 then set_prev (hd0 bs) (last0 as) else id) (links s)"
    using relink_bins(2) [OF s2(2)] relink_bins(2) [OF r1] by simp
  have "hd0 bs \<noteq> y" using dist hd0_in [of bs] dll_nonnull [OF d] by auto
  then have "links s2 y = Some (hd0 bs, last0 as)" using ly by (simp add: L2)
  then obtain hy2 where hy2: "read_slab y s2 = Inr hy2" "next_slab hy2 = hd0 bs" "prev_slab hy2 = last0 as"
    using read_slab_links by blast
  have in2: "last0 as \<noteq> 0 \<Longrightarrow> links s2 (last0 as) \<noteq> None"
    using dll_in_store [OF d, of "last0 as"] last0_in [of as] by (simp add: L2 set_prev_None del: not_None_eq)
  obtain s3 where s3: "put_next (last0 as) (hd0 bs) s2 = Inr s3"
    "relink s2 ((if last0 as \<noteq> 0 then set_next (last0 as) (hd0 bs) else id) (links s2)) (bins s2) s3"
    using maybe_set_next [OF in2] by blast
  have "unlink_slab hd_of set_hd b y s = Inr s3"
    using hy hy2 s2(1) s3(1) by (simp add: unlink_slab_def Let_def eq s1_def [symmetric] split del: if_split)
  moreover have "bins s2 = bins s1" using relink_bins(1) [OF s2(2)] .
  moreover note relink_trans [OF relink_trans [OF r1 s2(2)] s3(2)]
  ultimately show ?thesis using relink_bins(1) [OF r1] by (auto simp: L2)
qed

definition pushed :: "u64 \<Rightarrow> u64 list \<Rightarrow> links \<Rightarrow> links" where
  "pushed y xs L = ((if hd0 xs \<noteq> 0 then set_prev (hd0 xs) y else id) L)(y \<mapsto> (hd0 xs, 0))"

definition unlinked :: "u64 list \<Rightarrow> u64 list \<Rightarrow> links \<Rightarrow> links" where
  "unlinked as bs L = (if last0 as \<noteq> 0 then set_next (last0 as) (hd0 bs) else id)
     ((if hd0 bs \<noteq> 0 then set_prev (hd0 bs) (last0 as) else id) L)"

lemma dll_pushed:
  assumes "dll L xs" and "distinct xs" and "y \<notin> set xs" and "y \<noteq> 0"
  shows "dll (pushed y xs L) (y # xs)"
  by (rule dll_push [OF assms(1,3,4,2)])
     (use assms dll_nonnull [OF assms(1)] in \<open>auto simp: pushed_def\<close>)

lemma dll_unlinked: "dll L (as @ y # bs) \<Longrightarrow> distinct (as @ y # bs) \<Longrightarrow> dll (unlinked as bs L) (as @ bs)"
  by (rule dll_unlink) (auto simp: unlinked_def)

lemma pushed_other: "x \<noteq> y \<Longrightarrow> x \<notin> set xs \<Longrightarrow> pushed y xs L x = L x"
  using hd0_in [of xs] by (cases "x = hd0 xs") (auto simp: pushed_def)

lemma unlinked_other: "x \<notin> set as \<Longrightarrow> x \<notin> set bs \<Longrightarrow> unlinked as bs L x = L x"
proof -
  assume "x \<notin> set as" "x \<notin> set bs"
  then have "last0 as \<noteq> 0 \<Longrightarrow> x \<noteq> last0 as" "hd0 bs \<noteq> 0 \<Longrightarrow> x \<noteq> hd0 bs"
    using last0_in [of as] hd0_in [of bs] by auto
  then show ?thesis by (simp add: unlinked_def)
qed

lemma links_None_pushed: "pushed y xs L x = None \<longleftrightarrow> L x = None \<and> x \<noteq> y"
  by (simp add: pushed_def set_prev_None)

lemma links_None_unlinked: "unlinked as bs L x = None \<longleftrightarrow> L x = None"
  by (simp add: unlinked_def set_prev_None set_next_None)

text \<open>Moving the head of the free list to the full list.\<close>

lemma move_to_full_spec:
  assumes fl: "dll (links s) (y # fs)" "distinct (y # fs)" "free_slabs (bins s ! b) = y"
    and ul: "dll (links s) ul" "distinct ul" "full_slabs (bins s ! b) = hd0 ul"
    and disj: "set (y # fs) \<inter> set ul = {}" and b: "b < length (bins s)"
  shows "\<exists>s'. move_to_full b y s = Inr s' \<and>
    relink s (pushed y ul (unlinked [] fs (links s)))
      ((bins s)[b := (bins s ! b)\<lparr>free_slabs := hd0 fs, full_slabs := y\<rparr>]) s'"
proof -
  have ly: "links s y = Some (hd0 fs, 0)" using dll_lookup [of "links s" "[]" y fs] fl(1) by simp
  obtain hy where hy: "read_slab y s = Inr hy" "next_slab hy = hd0 fs" "prev_slab hy = 0"
    using read_slab_links [OF ly] by auto
  define s1 where "s1 = update_bin b (\<lambda>x. x\<lparr>free_slabs := hd0 fs\<rparr>) s"
  have r1: "relink s (links s) ((bins s)[b := (bins s ! b)\<lparr>free_slabs := hd0 fs\<rparr>]) s1"
    unfolding s1_def by (rule relink_bin)
  note b1 = relink_bins [OF r1]
  have f1: "free_slabs (bins s1 ! b) = hd0 fs" "full_slabs (bins s1 ! b) = hd0 ul"
    using b ul(3) by (simp_all add: b1)
  have in1: "hd0 fs \<noteq> 0 \<Longrightarrow> links s1 (hd0 fs) \<noteq> None"
    using dll_in_store [OF fl(1), of "hd0 fs"] hd0_in [of fs] by (simp add: b1)
  obtain s2 where s2: "put_prev (hd0 fs) 0 s1 = Inr s2"
    "relink s1 ((if hd0 fs \<noteq> 0 then set_prev (hd0 fs) 0 else id) (links s1)) (bins s1) s2"
    using maybe_set_prev [OF in1] by blast
  note b2 = relink_bins [OF s2(2)]
  have in2: "hd0 ul \<noteq> 0 \<Longrightarrow> links s2 (hd0 ul) \<noteq> None"
    using dll_in_store [OF ul(1), of "hd0 ul"] hd0_in [of ul] by (simp add: b2 b1 set_prev_None del: not_None_eq)
  obtain s3 where s3: "put_prev (hd0 ul) y s2 = Inr s3"
    "relink s2 ((if hd0 ul \<noteq> 0 then set_prev (hd0 ul) y else id) (links s2)) (bins s2) s3"
    using maybe_set_prev [OF in2] by blast
  note b3 = relink_bins [OF s3(2)]
  have "links s3 y \<noteq> None" using ly by (simp add: b3 b2 b1 set_prev_None del: not_None_eq)
  then obtain s4 where s4: "update_slab y (\<lambda>h. h\<lparr>next_slab := hd0 ul, prev_slab := 0\<rparr>) s3 = Inr s4"
    "relink s3 ((links s3)(y \<mapsto> (hd0 ul, 0))) (bins s3) s4"
    using update_slab_both by blast
  note b4 = relink_bins [OF s4(2)]
  have bs: "bins s2 = bins s1" "bins s3 = bins s1" "bins s4 = bins s1" by (simp_all add: b2 b3 b4)
  have "move_to_full b y s = Inr (update_bin b (\<lambda>x. x\<lparr>full_slabs := y\<rparr>) s4)"
    using hy s2(1) s3(1) s4(1) f1
    by (simp add: move_to_full_def Let_def s1_def [symmetric] bs)
  moreover have "relink s (links s4) ((bins s4)[b := (bins s4 ! b)\<lparr>full_slabs := y\<rparr>])
      (update_bin b (\<lambda>x. x\<lparr>full_slabs := y\<rparr>) s4)"
    using relink_trans [OF relink_trans [OF relink_trans [OF relink_trans [OF r1 s2(2)] s3(2)] s4(2)] relink_bin]
    .
  moreover have "links s4 = pushed y ul (unlinked [] fs (links s))"
    by (simp add: b4 b3 b2 b1 pushed_def unlinked_def)
  moreover have "(bins s4)[b := (bins s4 ! b)\<lparr>full_slabs := y\<rparr>] =
      (bins s)[b := (bins s ! b)\<lparr>free_slabs := hd0 fs, full_slabs := y\<rparr>]"
    using b by (simp add: bs b1)
  ultimately show ?thesis by auto
qed

lemma full_to_free_spec:
  assumes ul: "dll (links s) (as @ y # bs)" "distinct (as @ y # bs)" "full_slabs (bins s ! b) = hd0 (as @ y # bs)"
    and fl: "dll (links s) fl" "distinct fl" "free_slabs (bins s ! b) = hd0 fl"
    and disj: "set (as @ y # bs) \<inter> set fl = {}" and b: "b < length (bins s)"
  shows "\<exists>s'. full_to_free b y s = Inr s' \<and>
    relink s (pushed y fl (unlinked as bs (links s)))
      ((bins s)[b := (bins s ! b)\<lparr>free_slabs := y, full_slabs := hd0 (as @ bs)\<rparr>]) s'"
proof -
  obtain s1 where s1: "unlink_slab full_slabs (\<lambda>v x. x\<lparr>full_slabs := v\<rparr>) b y s = Inr s1"
    "relink s (unlinked as bs (links s))
      (if as = [] then (bins s)[b := (bins s ! b)\<lparr>full_slabs := hd0 bs\<rparr>] else bins s) s1"
    using unlink_slab_spec [where hd_of = full_slabs, OF ul, of "\<lambda>v x. x\<lparr>full_slabs := v\<rparr>"]
    unfolding unlinked_def by blast
  note b1 = relink_bins [OF s1(2)]
  have f1: "free_slabs (bins s1 ! b) = hd0 fl" using b fl(3) by (simp add: b1)
  have in1: "hd0 fl \<noteq> 0 \<Longrightarrow> links s1 (hd0 fl) \<noteq> None"
    using dll_in_store [OF fl(1), of "hd0 fl"] hd0_in [of fl] by (simp add: b1 links_None_unlinked del: not_None_eq)
  obtain s2 where s2: "put_prev (hd0 fl) y s1 = Inr s2"
    "relink s1 ((if hd0 fl \<noteq> 0 then set_prev (hd0 fl) y else id) (links s1)) (bins s1) s2"
    using maybe_set_prev [OF in1] by blast
  note b2 = relink_bins [OF s2(2)]
  have "links s2 y \<noteq> None"
    using dll_in_store [OF ul(1), of y] by (simp add: b2 b1 set_prev_None links_None_unlinked del: not_None_eq)
  then obtain s3 where s3: "update_slab y (\<lambda>h. h\<lparr>next_slab := hd0 fl, prev_slab := 0\<rparr>) s2 = Inr s3"
    "relink s2 ((links s2)(y \<mapsto> (hd0 fl, 0))) (bins s2) s3"
    using update_slab_both by blast
  note b3 = relink_bins [OF s3(2)]
  have bs: "bins s2 = bins s1" "bins s3 = bins s1" by (simp_all add: b2 b3)
  have "full_to_free b y s = Inr (update_bin b (\<lambda>x. x\<lparr>free_slabs := y\<rparr>) s3)"
    using s1(1) s2(1) s3(1) f1 by (simp add: full_to_free_def bs)
  moreover have "relink s (links s3) ((bins s3)[b := (bins s3 ! b)\<lparr>free_slabs := y\<rparr>])
      (update_bin b (\<lambda>x. x\<lparr>free_slabs := y\<rparr>) s3)"
    using relink_trans [OF relink_trans [OF relink_trans [OF s1(2) s2(2)] s3(2)] relink_bin] .
  moreover have "links s3 = pushed y fl (unlinked as bs (links s))"
    by (simp add: b3 b2 b1 pushed_def)
  moreover have "(bins s3)[b := (bins s3 ! b)\<lparr>free_slabs := y\<rparr>] =
      (bins s)[b := (bins s ! b)\<lparr>free_slabs := y, full_slabs := hd0 (as @ bs)\<rparr>]"
    using b ul(3) by (cases as; cases "bins s ! b") (simp_all add: bs b1)
  ultimately show ?thesis by auto
qed

end
