(* ===== verification/SlabSpec.thy ===== *)
theory SlabSpec
  imports Slab
begin

text \<open>
  Correctness of the slab allocator: the invariant that ties the lists of slabs, the free
  lists inside the slabs and the page tables together, and what allocation and release do to
  the set of live objects.
\<close>

unbundle bit_operations_syntax

declare init_links.simps [simp del]

section \<open>Objects of a slab\<close>

definition osize :: "nat \<Rightarrow> nat" where
  "osize b = unat (bin_sizes ! b)"

definition omax :: "nat \<Rightarrow> nat" where
  "omax b = 4048 div osize b"

definition obj :: "u64 \<Rightarrow> nat \<Rightarrow> nat \<Rightarrow> u64" where
  "obj p b k = p + of_nat (48 + k * osize b)"

definition grid :: "u64 \<Rightarrow> nat \<Rightarrow> u64 set" where
  "grid p b = obj p b ` {..<omax b}"

lemma length_bin_sizes: "length bin_sizes = 24"
  by (simp add: bin_sizes_def)

lemma osize_facts:
  assumes "b < 24"
  shows "8 \<le> osize b" "osize b \<le> 1024" "osize b mod 8 = 0" "3 \<le> omax b" "omax b \<le> 506"
    "48 + omax b * osize b \<le> 4096"
proof -
  have "\<forall>z\<in>set bin_sizes. 8 \<le> unat z \<and> unat z \<le> 1024 \<and> unat z mod 8 = 0 \<and> 3 \<le> 4048 div unat z \<and>
      4048 div unat z \<le> 506 \<and> 48 + 4048 div unat z * unat z \<le> 4096"
    by (simp add: bin_sizes_def)
  moreover have "bin_sizes ! b \<in> set bin_sizes" using assms by (simp add: length_bin_sizes)
  ultimately show "8 \<le> osize b" "osize b \<le> 1024" "osize b mod 8 = 0" "3 \<le> omax b" "omax b \<le> 506"
    "48 + omax b * osize b \<le> 4096"
    by (simp_all add: osize_def omax_def)
qed

lemma ucast_osize: "b < 24 \<Longrightarrow> (ucast (bin_sizes ! b) :: u64) = of_nat (osize b)"
  by (simp add: osize_def)

lemma obj_offset:
  assumes "b < 24" and "k < omax b"
  shows "48 + k * osize b + osize b \<le> 4096"
proof -
  have "Suc k * osize b \<le> omax b * osize b" using assms(2) by (intro mult_le_mono1) simp
  then show ?thesis using osize_facts(6) [OF assms(1)] by simp
qed

lemma slab_page_offset:
  assumes "is_aligned p 4096" and "n < 4096"
  shows "slab_page (p + of_nat n) = p" and "p + of_nat n - slab_page (p + of_nat n) = of_nat n"
proof -
  have n: "unat (of_nat n :: u64) = n" using assms(2) by (simp add: unat_of_nat_small)
  have u: "unat (p + of_nat n) = unat p + n" using aligned_add [OF assms(1)] n assms(2) by simp
  obtain q where q: "unat p = 4096 * q" using assms(1) by (auto simp: is_aligned_page)
  have "slab_page (p + of_nat n) = (p + of_nat n) AND NOT (mask 12)"
    by (simp add: slab_page_def mask_eq_exp_minus_1)
  then have "unat (slab_page (p + of_nat n)) = unat (p + of_nat n) div 2 ^ 12 * 2 ^ 12"
    by (simp only: unat_and_not_mask)
  also have "\<dots> = unat p" using assms(2) by (simp add: u q)
  finally show *: "slab_page (p + of_nat n) = p" by (simp add: word_unat_eq_iff)
  then show "p + of_nat n - slab_page (p + of_nat n) = of_nat n" by simp
qed

lemma slab_page_obj: "is_aligned p 4096 \<Longrightarrow> b < 24 \<Longrightarrow> k < omax b \<Longrightarrow> slab_page (obj p b k) = p"
  unfolding obj_def using obj_offset [of b k] osize_facts(1) [of b] by (intro slab_page_offset) auto

lemma word_ok_obj:
  assumes "is_aligned p 4096" and "b < 24" and "k < omax b" and "slab_at s p \<noteq> None"
  shows "word_ok (obj p b k) s"
proof -
  have n: "48 + k * osize b \<le> 4088" using obj_offset [OF assms(2,3)] osize_facts(1) [OF assms(2)] by simp
  then have "unat (of_nat (48 + k * osize b) :: u64) = 48 + k * osize b" by (intro unat_of_nat_small) simp
  then show ?thesis
    using slab_page_offset [OF assms(1), of "48 + k * osize b"] n assms(4)
    by (simp add: word_ok_def obj_def word_le_nat_alt del: of_nat_add)
qed

lemma obj_inj:
  assumes "is_aligned p 4096" "is_aligned q 4096" and "b < 24" and "j < omax b" "k < omax b"
    and "obj p b j = obj q b k"
  shows "p = q \<and> j = k"
proof -
  have "p = q" using slab_page_obj [OF assms(1,3,4)] slab_page_obj [OF assms(2,3,5)] assms(6) by simp
  have u: "unat (of_nat (48 + i * osize b) :: u64) = 48 + i * osize b" if "i < omax b" for i
    using obj_offset [OF assms(3) that] by (intro unat_of_nat_small) simp
  have "of_nat (48 + j * osize b) = (of_nat (48 + k * osize b) :: u64)"
    using assms(6) \<open>p = q\<close> by (simp only: obj_def add_left_cancel)
  then have "j * osize b = k * osize b" using u [OF assms(4)] u [OF assms(5)] by simp
  then show ?thesis using \<open>p = q\<close> osize_facts(1) [OF assms(3)] by auto
qed

lemma card_grid: "is_aligned p 4096 \<Longrightarrow> b < 24 \<Longrightarrow> card (grid p b) = omax b"
  unfolding grid_def by (subst card_image) (auto intro!: inj_onI dest: obj_inj [of p p b])

text \<open>The objects on the free list of a slab: as many as the count says are not in use.\<close>

fun chain_list :: "(u64 \<Rightarrow> u64) \<Rightarrow> nat \<Rightarrow> u64 \<Rightarrow> u64 list" where
  "chain_list w 0 p = []"
| "chain_list w (Suc n) p = p # chain_list w n (w p)"

definition free_objs :: "'a slab_state_scheme \<Rightarrow> u64 \<Rightarrow> u64 list" where
  "free_objs s p = (case slab_at s p of None \<Rightarrow> []
     | Some h \<Rightarrow> chain_list (slab_words s) (omax (unat (slab_bin h)) - unat (count_objects h)) (next_free h))"

definition live :: "'a slab_state_scheme \<Rightarrow> u64 set" where
  "live s = {a. \<exists>p h. slab_at s p = Some h \<and> a \<in> grid p (unat (slab_bin h)) \<and> a \<notin> set (free_objs s p)}"

lemma length_chain_list [simp]: "length (chain_list w n p) = n"
  by (induction n arbitrary: p) simp_all

lemma chain_list_cong:
  "(\<And>x. x \<in> set (chain_list w n p) \<Longrightarrow> w' x = w x) \<Longrightarrow> chain_list w' n p = chain_list w n p"
  by (induction n arbitrary: p) auto

definition slab_ok :: "'a slab_state_scheme \<Rightarrow> nat \<Rightarrow> u64 \<Rightarrow> bool" where
  "slab_ok s b p \<longleftrightarrow> is_aligned p 4096 \<and> SLAB_VIRT_START \<le> p \<and> unat p < unat SLAB_VIRT_START + unat (slab_top s) \<and>
     (\<exists>h. slab_at s p = Some h \<and> unat (slab_bin h) = b \<and> unat (count_objects h) \<le> omax b) \<and>
     distinct (free_objs s p) \<and> set (free_objs s p) \<subseteq> grid p b"

definition bins_ok :: "'a slab_state_scheme \<Rightarrow> bool" where
  "bins_ok s \<longleftrightarrow> length (bins s) = 24 \<and>
     (\<forall>b<24. object_size (bins s ! b) = bin_sizes ! b \<and> unat (max_objects (bins s ! b)) = omax b)"

definition lists_wf :: "'a slab_state_scheme \<Rightarrow> (nat \<Rightarrow> u64 list) \<Rightarrow> (nat \<Rightarrow> u64 list) \<Rightarrow> bool" where
  "lists_wf s fl ul \<longleftrightarrow> bins_ok s \<and>
     (\<forall>b<24. free_slabs (bins s ! b) = hd0 (fl b) \<and> full_slabs (bins s ! b) = hd0 (ul b) \<and>
        dll (links s) (fl b) \<and> dll (links s) (ul b) \<and> distinct (fl b @ ul b) \<and>
        (\<forall>p\<in>set (fl b @ ul b). slab_ok s b p)) \<and>
     (\<forall>p. slab_at s p \<noteq> None \<longrightarrow> (\<exists>b<24. p \<in> set (fl b @ ul b)))"

definition sorted_out :: "'a slab_state_scheme \<Rightarrow> (nat \<Rightarrow> u64 list) \<Rightarrow> (nat \<Rightarrow> u64 list) \<Rightarrow> bool" where
  "sorted_out s fl ul \<longleftrightarrow>
     (\<forall>b<24. (\<forall>p\<in>set (fl b). free_objs s p \<noteq> []) \<and> (\<forall>p\<in>set (ul b). free_objs s p = []))"

lemma lists_wfD:
  assumes "lists_wf s fl ul" and "b < 24"
  shows "free_slabs (bins s ! b) = hd0 (fl b)" "full_slabs (bins s ! b) = hd0 (ul b)"
    "dll (links s) (fl b)" "dll (links s) (ul b)" "distinct (fl b @ ul b)"
    "\<And>p. p \<in> set (fl b @ ul b) \<Longrightarrow> slab_ok s b p"
  using assms by (simp_all add: lists_wf_def)

lemma slab_okE:
  assumes "slab_ok s b p"
  obtains h where "slab_at s p = Some h" and "unat (slab_bin h) = b" and "unat (count_objects h) \<le> omax b"
    and "is_aligned p 4096" and "distinct (free_objs s p)" and "set (free_objs s p) \<subseteq> grid p b"
  using assms by (auto simp: slab_ok_def)

lemma lists_disjoint:
  assumes "lists_wf s fl ul" and "b < 24" "c < 24" and "p \<in> set (fl b @ ul b)" "p \<in> set (fl c @ ul c)"
  shows "b = c"
  using lists_wfD(6) [OF assms(1,2,4)] lists_wfD(6) [OF assms(1,3,5)] by (auto simp: slab_ok_def)

lemma free_objs_cores: "free_objs s p = (case cores s p of None \<Rightarrow> []
    | Some (c, n, f, b) \<Rightarrow> chain_list (slab_words s) (omax (unat b) - unat c) n)"
  by (simp add: free_objs_def cores_def split: option.split)

lemma slab_ok_cores: "slab_ok s b p \<longleftrightarrow> is_aligned p 4096 \<and> SLAB_VIRT_START \<le> p \<and>
    unat p < unat SLAB_VIRT_START + unat (slab_top s) \<and>
    (\<exists>c n f d. cores s p = Some (c, n, f, d) \<and> unat d = b \<and> unat c \<le> omax b) \<and>
    distinct (free_objs s p) \<and> set (free_objs s p) \<subseteq> grid p b"
  by (auto simp: slab_ok_def cores_def)

lemma live_cores: "live s = {a. \<exists>p c n f b. cores s p = Some (c, n, f, b) \<and> a \<in> grid p (unat b) \<and>
    a \<notin> set (free_objs s p)}"
  by (fastforce simp: live_def cores_def)

lemma relink_frame:
  assumes "relink s L B s'"
  shows "slab_words s' = slab_words s" "slab_top s' = slab_top s" "cores s' = cores s"
    "free_objs s' = free_objs s" "slab_ok s' b p = slab_ok s b p" "live s' = live s"
    "slab_at s' p = None \<longleftrightarrow> slab_at s p = None"
proof -
  show 1: "slab_words s' = slab_words s" "slab_top s' = slab_top s" "cores s' = cores s"
    using assms by (auto simp: relink_def)
  show 2: "free_objs s' = free_objs s" unfolding fun_eq_iff free_objs_cores 1 by simp
  show "slab_ok s' b p = slab_ok s b p" "live s' = live s" by (simp_all add: slab_ok_cores live_cores 1 2)
  have "cores s' p = None \<longleftrightarrow> cores s p = None" by (simp add: 1)
  then show "slab_at s' p = None \<longleftrightarrow> slab_at s p = None" by (simp add: cores_def)
qed

lemma lists_wf_relist:
  assumes wf: "lists_wf s fl ul" and b: "b < 24"
    and r: "relink s L ((bins s)[b := (bins s ! b)\<lparr>free_slabs := hd0 xs, full_slabs := hd0 ys\<rparr>]) s'"
    and xs: "dll L xs" "dll L ys" "distinct (xs @ ys)" "set (xs @ ys) = set (fl b @ ul b)"
    and other: "\<And>x. x \<notin> set (fl b @ ul b) \<Longrightarrow> L x = links s x"
  shows "lists_wf s' (fl(b := xs)) (ul(b := ys))"
proof -
  have len: "length (bins s) = 24" using wf by (simp add: lists_wf_def bins_ok_def)
  have bins': "bins s' ! c = (if c = b then (bins s ! b)\<lparr>free_slabs := hd0 xs, full_slabs := hd0 ys\<rparr>
      else bins s ! c)" if "c < 24" for c
    using that len b by (simp add: relink_bins(1) [OF r])
  show ?thesis
    unfolding lists_wf_def
  proof (intro conjI allI impI ballI)
    show "bins_ok s'"
      using wf len b by (auto simp: lists_wf_def bins_ok_def relink_bins(1) [OF r] nth_list_update)
  next
    fix c :: nat assume c: "c < 24"
    show "free_slabs (bins s' ! c) = hd0 ((fl(b := xs)) c)" "full_slabs (bins s' ! c) = hd0 ((ul(b := ys)) c)"
      using bins' [OF c] lists_wfD(1,2) [OF wf c] by simp_all
    have o: "\<And>x. x \<in> set (fl c @ ul c) \<Longrightarrow> c \<noteq> b \<Longrightarrow> L x = links s x"
      using lists_disjoint [OF wf c b] other by blast
    show "dll (links s') ((fl(b := xs)) c)"
      using xs(1) o by (auto simp: relink_bins(2) [OF r] intro!: dll_cong [OF lists_wfD(3) [OF wf c]])
    show "dll (links s') ((ul(b := ys)) c)"
      using xs(2) o by (auto simp: relink_bins(2) [OF r] intro!: dll_cong [OF lists_wfD(4) [OF wf c]])
    show "distinct ((fl(b := xs)) c @ (ul(b := ys)) c)"
      using xs(3) lists_wfD(5) [OF wf c] by simp
    fix p assume p: "p \<in> set ((fl(b := xs)) c @ (ul(b := ys)) c)"
    then have "p \<in> set (fl c @ ul c)" using xs(4) by (cases "c = b") auto
    then show "slab_ok s' c p" using lists_wfD(6) [OF wf c] relink_frame(5) [OF r] by simp
  next
    fix p assume "slab_at s' p \<noteq> None"
    then obtain c where "c < 24" "p \<in> set (fl c @ ul c)"
      using wf relink_frame(7) [OF r] by (auto simp: lists_wf_def)
    then show "\<exists>c<24. p \<in> set ((fl(b := xs)) c @ (ul(b := ys)) c)"
      using xs(4) by (intro exI [of _ c]) (cases "c = b"; simp)
  qed
qed

text \<open>Changing the free list of one slab: the other slabs are untouched.\<close>

lemma lists_wf_core:
  assumes wf: "lists_wf s fl ul" and b: "b < 24" and p: "p \<in> set (fl b @ ul b)"
    and s': "s' = s\<lparr>slab_at := (slab_at s)(p \<mapsto> h'), slab_words := w'\<rparr>"
    and h: "slab_at s p = Some h" "slab_bin h' = slab_bin h" "slab_phys h' = slab_phys h"
      "next_slab h' = next_slab h" "prev_slab h' = prev_slab h" "unat (count_objects h') \<le> omax b"
    and w': "\<And>x. slab_page x \<noteq> p \<Longrightarrow> w' x = slab_words s x"
    and objs: "free_objs s' p = os" "distinct os" "set os \<subseteq> grid p b"
  shows "lists_wf s' fl ul" and "\<And>q. q \<noteq> p \<Longrightarrow> free_objs s' q = free_objs s q"
    and "links s' = links s"
proof -
  show l: "links s' = links s" by (auto simp: links_def s' fun_eq_iff h)
  have al: "is_aligned p 4096" using lists_wfD(6) [OF wf b p] by (simp add: slab_ok_def)
  have sb: "unat (slab_bin h) = b" using lists_wfD(6) [OF wf b p] h(1) by (auto simp: slab_ok_def)
  show same: "free_objs s' q = free_objs s q" if "q \<noteq> p" for q
  proof (cases "slab_at s q")
    case None
    then show ?thesis using that by (simp add: free_objs_def s')
  next
    case (Some g)
    then obtain c where c: "c < 24" "q \<in> set (fl c @ ul c)" using wf by (auto simp: lists_wf_def)
    then have ok: "slab_ok s c q" using lists_wfD(6) [OF wf] by blast
    have "slab_page x = q" if "x \<in> set (free_objs s q)" for x
      using ok that c(1) by (auto simp: slab_ok_def grid_def slab_page_obj)
    then have "\<And>x. x \<in> set (free_objs s q) \<Longrightarrow> w' x = slab_words s x" using w' that by auto
    then show ?thesis
      using that Some by (auto simp: free_objs_def s' intro!: chain_list_cong)
  qed
  have ok: "slab_ok s' c q" if "c < 24" "q \<in> set (fl c @ ul c)" for c q
  proof (cases "q = p")
    case True
    then have "c = b" using lists_disjoint [OF wf that(1) b that(2)] p by simp
    then show ?thesis
      using lists_wfD(6) [OF wf b p] objs h sb by (auto simp: slab_ok_def True s')
  next
    case False
    then show ?thesis
      using lists_wfD(6) [OF wf that] same [OF False] by (auto simp: slab_ok_def s')
  qed
  show "lists_wf s' fl ul"
    unfolding lists_wf_def
  proof (intro conjI allI impI ballI)
    show "bins_ok s'" using wf by (simp add: lists_wf_def bins_ok_def s')
  next
    fix c :: nat assume c: "c < 24"
    show "free_slabs (bins s' ! c) = hd0 (fl c)" "full_slabs (bins s' ! c) = hd0 (ul c)"
      "dll (links s') (fl c)" "dll (links s') (ul c)" "distinct (fl c @ ul c)"
      using lists_wfD(1-5) [OF wf c] by (simp_all only: l) (simp_all add: s')
    fix q assume "q \<in> set (fl c @ ul c)"
    then show "slab_ok s' c q" using ok [OF c] by blast
  next
    fix q assume "slab_at s' q \<noteq> None"
    then have "slab_at s q \<noteq> None" using h(1) by (auto simp: s' split: if_splits)
    then show "\<exists>c<24. q \<in> set (fl c @ ul c)" using wf by (simp add: lists_wf_def)
  qed
qed

definition live_others :: "'a slab_state_scheme \<Rightarrow> u64 \<Rightarrow> u64 set" where
  "live_others s p = {a. \<exists>q g. q \<noteq> p \<and> slab_at s q = Some g \<and> a \<in> grid q (unat (slab_bin g)) \<and>
     a \<notin> set (free_objs s q)}"

lemma live_split:
  assumes "slab_at s p = Some h"
  shows "live s = live_others s p \<union> (grid p (unat (slab_bin h)) - set (free_objs s p))" (is "?l = ?r")
proof
  show "?l \<subseteq> ?r"
  proof
    fix a assume "a \<in> ?l"
    then obtain q g where q: "slab_at s q = Some g" "a \<in> grid q (unat (slab_bin g))" "a \<notin> set (free_objs s q)"
      by (auto simp: live_def)
    then show "a \<in> ?r" using assms by (cases "q = p") (auto simp: live_others_def)
  qed
  show "?r \<subseteq> ?l" using assms by (auto simp: live_def live_others_def)
qed

lemma live_core:
  assumes "slab_at s p = Some h" "slab_at s' = (slab_at s)(p \<mapsto> h')" "slab_bin h' = slab_bin h"
    and "\<And>q. q \<noteq> p \<Longrightarrow> free_objs s' q = free_objs s q"
  shows "live s' = live_others s p \<union> (grid p (unat (slab_bin h)) - set (free_objs s' p))"
proof -
  have "live_others s' p = live_others s p" using assms(2,4) by (auto simp: live_others_def)
  then show ?thesis using live_split [of s' p h'] assms(2,3) by simp
qed

lemma lists_wf_member:
  assumes "lists_wf s fl ul" and "slab_at s p = Some h"
  obtains c where "c < 24" and "p \<in> set (fl c @ ul c)" and "slab_ok s c p" and "unat (slab_bin h) = c"
    and "is_aligned p 4096"
proof -
  have "slab_at s p \<noteq> None" using assms(2) by simp
  then obtain c where c: "c < 24" "p \<in> set (fl c @ ul c)" using assms(1) unfolding lists_wf_def by blast
  then have "slab_ok s c p" using lists_wfD(6) [OF assms(1)] by blast
  then show thesis using that c assms(2) by (auto simp: slab_ok_def)
qed

lemma grid_member_slab:
  assumes "lists_wf s fl ul" and "slab_at s q = Some g" and "a \<in> grid q (unat (slab_bin g))"
  shows "slab_page a = q"
proof -
  obtain c where "c < 24" "unat (slab_bin g) = c" "is_aligned q 4096"
    using assms(1,2) by (rule lists_wf_member)
  then show ?thesis using assms(3) by (auto simp: grid_def slab_page_obj)
qed

definition frames_of :: "'a slab_state_scheme \<Rightarrow> u64 \<Rightarrow> u64 option" where
  "frames_of s = (\<lambda>p. map_option slab_phys (slab_at s p))"

lemma frames_of_cores: "frames_of s p = map_option (\<lambda>(c, n, f, b). f) (cores s p)"
  by (cases "slab_at s p") (simp_all add: frames_of_def cores_def)

lemma relink_frames: "relink s L B s' \<Longrightarrow> frames_of s' = frames_of s"
  by (simp add: fun_eq_iff frames_of_cores relink_frame(3))

definition bin_at :: "'a slab_state_scheme \<Rightarrow> u64 \<Rightarrow> nat option" where
  "bin_at s = (\<lambda>p. map_option (\<lambda>h. unat (slab_bin h)) (slab_at s p))"

lemma bin_at_cores: "bin_at s p = map_option (\<lambda>(c, n, f, b). unat b) (cores s p)"
  by (cases "slab_at s p") (simp_all add: bin_at_def cores_def)

lemma relink_bin_at: "relink s L B s' \<Longrightarrow> bin_at s' = bin_at s"
  by (simp add: fun_eq_iff bin_at_cores relink_frame(3))

definition only_slabs :: "'a slab_state_scheme \<Rightarrow> 'a slab_state_scheme \<Rightarrow> bool" where
  "only_slabs s s' \<longleftrightarrow> frames_of s' = frames_of s \<and> bin_at s' = bin_at s \<and> debug s' = debug s \<and>
     pmm_bitmap s' = pmm_bitmap s \<and> pmm_bitmap_size s' = pmm_bitmap_size s \<and> phys_mem s' = phys_mem s \<and>
     cr3 s' = cr3 s \<and> invlpg_log s' = invlpg_log s \<and> kernel_pml4 s' = kernel_pml4 s \<and> slab_top s' = slab_top s"

lemma only_slabs_relink: "relink s L B s' \<Longrightarrow> only_slabs s s'"
  using relink_frames [of s L B s'] relink_bin_at [of s L B s'] by (auto simp: only_slabs_def relink_def)

lemma only_slabs_trans: "only_slabs s s1 \<Longrightarrow> only_slabs s1 s2 \<Longrightarrow> only_slabs s s2"
  by (simp add: only_slabs_def)

lemma take_object_spec:
  assumes wf: "lists_wf s fl ul" and so: "sorted_out s fl ul" and b: "b < 24" and ne: "fl b \<noteq> []"
  shows "\<exists>a s' fl' ul'. take_object b s = Inr (a, s') \<and> lists_wf s' fl' ul' \<and> sorted_out s' fl' ul' \<and>
    a \<in> grid (hd (fl b)) b \<and> a \<notin> live s \<and> live s' = insert a (live s) \<and> only_slabs s s'"
proof -
  obtain p fs where fl: "fl b = p # fs" using ne by (cases "fl b") auto
  have pin: "p \<in> set (fl b @ ul b)" by (simp add: fl)
  obtain h where h: "slab_at s p = Some h" "unat (slab_bin h) = b" "unat (count_objects h) \<le> omax b"
    and al: "is_aligned p 4096" and objs: "distinct (free_objs s p)" "set (free_objs s p) \<subseteq> grid p b"
    using lists_wfD(6) [OF wf b pin] by (rule slab_okE)
  have "free_objs s p \<noteq> []" using so b by (simp add: sorted_out_def fl)
  then obtain k where k: "omax b - unat (count_objects h) = Suc k"
    using h by (cases "omax b - unat (count_objects h)") (auto simp: free_objs_def)
  define a where "a = next_free h"
  define rest where "rest = chain_list (slab_words s) k (slab_words s a)"
  have fo: "free_objs s p = a # rest" using h k by (simp add: free_objs_def a_def rest_def)
  have ag: "a \<in> grid p b" using objs(2) fo by simp
  then obtain i where i: "i < omax b" "a = obj p b i" by (auto simp: grid_def)
  have pa: "slab_page a = p" and wa: "word_ok a s"
    using slab_page_obj [OF al b i(1)] word_ok_obj [OF al b i(1), of s] h(1) by (simp_all add: i(2))
  define h' where "h' = h\<lparr>next_free := slab_words s a, count_objects := count_objects h + 1\<rparr>"
  define s1 where "s1 = s\<lparr>slab_at := (slab_at s)(p \<mapsto> h')\<rparr>"
  have cnt: "unat (count_objects h') = unat (count_objects h) + 1"
    using k osize_facts(5) [OF b] by (simp add: h'_def unat_add_small)
  have fo1: "free_objs s1 p = rest"
  proof -
    have "omax b - (unat (count_objects h) + 1) = k" using k by simp
    then show ?thesis using h(2) cnt by (simp add: free_objs_def s1_def h'_def rest_def)
  qed
  have rest: "distinct rest" "set rest \<subseteq> grid p b" "a \<notin> set rest" using objs fo by auto
  have s1': "s1 = s\<lparr>slab_at := (slab_at s)(p \<mapsto> h'), slab_words := slab_words s\<rparr>" by (simp add: s1_def)
  have cle: "unat (count_objects h') \<le> omax b" using cnt k by simp
  note c = lists_wf_core [OF wf b pin s1' h(1) _ _ _ _ cle _ fo1 rest(1,2)]
  have wf1: "lists_wf s1 fl ul" and same: "\<And>q. q \<noteq> p \<Longrightarrow> free_objs s1 q = free_objs s q"
    and l1: "links s1 = links s" by (rule c; simp add: h'_def)+
  have lv: "a \<notin> live s" "live s1 = insert a (live s)"
  proof -
    have g: "q = p" if "slab_at s q = Some g" "a \<in> grid q (unat (slab_bin g))" for q g
      using grid_member_slab [OF wf that] pa by simp
    then show "a \<notin> live s" using h fo by (auto simp: live_def)
    have "live s1 = live_others s p \<union> (grid p b - set rest)"
      using live_core [OF h(1), of s1 h'] same fo1 h(2) by (simp add: s1_def h'_def)
    also have "\<dots> = insert a (live s)"
      unfolding live_split [OF h(1)] using rest ag fo h(2) by auto
    finally show "live s1 = insert a (live s)" .
  qed
  have os1: "only_slabs s s1"
    by (simp add: only_slabs_def fun_eq_iff frames_of_def bin_at_def s1_def h'_def h(1))
  have full: "count_objects h' = max_objects (bins s ! b) \<longleftrightarrow> rest = []"
  proof -
    have "unat (max_objects (bins s ! b)) = omax b" using wf b by (simp add: lists_wf_def bins_ok_def)
    then have "count_objects h' = max_objects (bins s ! b) \<longleftrightarrow> k = 0"
      using cnt k by (auto simp: word_unat_eq_iff)
    then show ?thesis by (cases k) (simp_all add: rest_def)
  qed
  have t: "take_object b s = andthen (if rest = [] then move_to_full b p s1 else Inr s1) (\<lambda>s. Inr (a, s))"
    using h(1) wa pa full lists_wfD(1) [OF wf b]
    by (simp add: take_object_def Let_def read_slab_def read_word_def update_slab_def fl a_def [symmetric]
        s1_def h'_def)
  show ?thesis
  proof (cases "rest = []")
    case False
    have "sorted_out s1 fl ul"
      unfolding sorted_out_def
    proof (intro allI impI conjI ballI)
      fix c q assume c: "(c :: nat) < 24"
      { assume "q \<in> set (fl c)"
        then show "free_objs s1 q \<noteq> []"
          using so c same [of q] fo1 False by (cases "q = p") (auto simp: sorted_out_def) }
      { assume q: "q \<in> set (ul c)"
        then have "q \<noteq> p"
          using lists_disjoint [OF wf c b, of q] lists_wfD(5) [OF wf b] pin by (auto simp: fl)
        then show "free_objs s1 q = []" using so c same [of q] q by (auto simp: sorted_out_def) }
    qed
    then show ?thesis using t False wf1 lv os1 ag fl by auto
  next
    case True
    have d1: "dll (links s1) (p # fs)" "distinct (p # fs)" "dll (links s1) (ul b)" "distinct (ul b)"
      "set (p # fs) \<inter> set (ul b) = {}"
      using lists_wfD(3-5) [OF wf1 b] by (auto simp: fl)
    have len: "b < length (bins s1)" using wf1 b by (simp add: lists_wf_def bins_ok_def)
    obtain s2 where s2: "move_to_full b p s1 = Inr s2"
      and r: "relink s1 (pushed p (ul b) (unlinked [] fs (links s1)))
        ((bins s1)[b := (bins s1 ! b)\<lparr>free_slabs := hd0 fs, full_slabs := p\<rparr>]) s2"
      using move_to_full_spec [OF d1(1,2) _ d1(3,4) _ d1(5) len] lists_wfD(1,2) [OF wf1 b] fl by auto
    have p0: "p \<noteq> 0" using dll_nonnull [OF d1(1)] by auto
    have wf2: "lists_wf s2 (fl(b := fs)) (ul(b := p # ul b))"
    proof (rule lists_wf_relist [OF wf1 b])
      show "relink s1 (pushed p (ul b) (unlinked [] fs (links s1)))
        ((bins s1)[b := (bins s1 ! b)\<lparr>free_slabs := hd0 fs, full_slabs := hd0 (p # ul b)\<rparr>]) s2"
        using r by simp
      have u: "dll (unlinked [] fs (links s1)) fs" using dll_unlinked [of "links s1" "[]" p fs] d1 by simp
      show "dll (pushed p (ul b) (unlinked [] fs (links s1))) fs"
        using d1(2,5) by (intro dll_cong [OF u] pushed_other) auto
      have "dll (unlinked [] fs (links s1)) (ul b)"
        using d1(5) by (intro dll_cong [OF d1(3)] unlinked_other) auto
      then show "dll (pushed p (ul b) (unlinked [] fs (links s1))) (p # ul b)"
        using d1(4,5) p0 by (intro dll_pushed) auto
      show "distinct (fs @ p # ul b)" using d1 by auto
      show "set (fs @ p # ul b) = set (fl b @ ul b)" by (auto simp: fl)
      fix x assume "x \<notin> set (fl b @ ul b)"
      then show "pushed p (ul b) (unlinked [] fs (links s1)) x = links s1 x"
        by (simp add: fl pushed_other unlinked_other)
    qed
    have fo2: "free_objs s2 = free_objs s1" using relink_frame(4) [OF r] .
    have "sorted_out s2 (fl(b := fs)) (ul(b := p # ul b))"
      unfolding sorted_out_def
    proof (intro allI impI conjI ballI)
      fix c q assume c: "(c :: nat) < 24"
      { assume q: "q \<in> set ((fl(b := fs)) c)"
        then have "q \<in> set (fl c)" "q \<noteq> p"
          using lists_disjoint [OF wf c b, of q] pin d1(2) by (auto simp: fl split: if_splits)
        then show "free_objs s2 q \<noteq> []" using so c same [of q] by (auto simp: sorted_out_def fo2) }
      { assume q: "q \<in> set ((ul(b := p # ul b)) c)"
        then show "free_objs s2 q = []"
          using so c same [of q] fo1 True
          by (cases "q = p") (auto simp: sorted_out_def fo2 split: if_splits) }
    qed
    moreover have "live s2 = insert a (live s)" using relink_frame(6) [OF r] lv by simp
    ultimately show ?thesis
      using t True s2 wf2 lv(1) ag fl only_slabs_trans [OF os1 only_slabs_relink [OF r]] by auto
  qed
qed

section \<open>Putting an object back\<close>

lemma live_page:
  assumes wf: "lists_wf s fl ul" and a: "a \<in> live s"
  obtains h b where "slab_at s (slab_page a) = Some h" and "unat (slab_bin h) = b" and "b < 24"
    and "slab_page a \<in> set (fl b @ ul b)" and "a \<in> grid (slab_page a) b"
    and "a \<notin> set (free_objs s (slab_page a))"
proof -
  from a obtain p h where p: "slab_at s p = Some h" "a \<in> grid p (unat (slab_bin h))" "a \<notin> set (free_objs s p)"
    by (auto simp: live_def)
  obtain c where c: "c < 24" "p \<in> set (fl c @ ul c)" "unat (slab_bin h) = c"
    using wf p(1) by (rule lists_wf_member)
  have "slab_page a = p" using grid_member_slab [OF wf p(1,2)] .
  then show thesis using that p c by simp
qed

text \<open>The state of \<open>bin_free\<close> after the object was pushed onto the free list of its slab.\<close>

definition pushed_back :: "u64 \<Rightarrow> SlabHeader \<Rightarrow> 'a slab_state_scheme \<Rightarrow> 'a slab_state_scheme" where
  "pushed_back a h s = s\<lparr>slab_at := (slab_at s)(slab_page a \<mapsto> h\<lparr>next_free := a, count_objects := count_objects h - 1\<rparr>),
     slab_words := (slab_words s)(a := next_free h)\<rparr>"

lemma pushed_back_spec:
  assumes wf: "lists_wf s fl ul" and b: "b < 24" and pin: "slab_page a \<in> set (fl b @ ul b)"
    and h: "slab_at s (slab_page a) = Some h" "unat (slab_bin h) = b"
    and ag: "a \<in> grid (slab_page a) b" and af: "a \<notin> set (free_objs s (slab_page a))"
  shows "lists_wf (pushed_back a h s) fl ul"
    and "free_objs (pushed_back a h s) q = (if q = slab_page a then a # free_objs s q else free_objs s q)"
    and "live (pushed_back a h s) = live s - {a}" and "only_slabs s (pushed_back a h s)"
    and "unat (count_objects h) = Suc (unat (count_objects h - 1))"
    and "unat (count_objects h) = omax b \<longleftrightarrow> free_objs s (slab_page a) = []"
    and "unat (count_objects h) \<le> omax b"
proof -
  let ?p = "slab_page a" and ?s = "pushed_back a h s"
  let ?h = "h\<lparr>next_free := a, count_objects := count_objects h - 1\<rparr>"
  have al: "is_aligned ?p 4096" and ok: "distinct (free_objs s ?p)" "set (free_objs s ?p) \<subseteq> grid ?p b"
    and cle: "unat (count_objects h) \<le> omax b"
    using lists_wfD(6) [OF wf b pin] h by (auto simp: slab_ok_def)
  show "unat (count_objects h) \<le> omax b" by (rule cle)
  have len: "length (free_objs s ?p) = omax b - unat (count_objects h)" using h by (simp add: free_objs_def)
  show "unat (count_objects h) = omax b \<longleftrightarrow> free_objs s ?p = []"
    using len cle by (cases "free_objs s ?p") auto
  have "card (set (a # free_objs s ?p)) \<le> card (grid ?p b)"
    using ok ag by (intro card_mono) (auto simp: grid_def)
  then have "Suc (omax b - unat (count_objects h)) \<le> omax b"
    using ok(1) af len card_grid [OF al b] by (simp add: distinct_card)
  then have pos: "0 < unat (count_objects h)" by simp
  then have "count_objects h \<noteq> 0" by auto
  then show cnt: "unat (count_objects h) = Suc (unat (count_objects h - 1))"
    using pos by (simp add: unat_minus_one)
  have fo: "free_objs ?s ?p = a # free_objs s ?p"
  proof -
    have n: "omax b - unat (count_objects h - 1) = Suc (omax b - unat (count_objects h))"
      using cnt cle by simp
    have "chain_list ((slab_words s)(a := next_free h)) (omax b - unat (count_objects h)) (next_free h) =
        chain_list (slab_words s) (omax b - unat (count_objects h)) (next_free h)"
      using af h by (intro chain_list_cong) (auto simp: free_objs_def)
    then show ?thesis using h n by (simp add: free_objs_def pushed_back_def)
  qed
  have s': "?s = s\<lparr>slab_at := (slab_at s)(?p \<mapsto> ?h), slab_words := (slab_words s)(a := next_free h)\<rparr>"
    by (simp add: pushed_back_def)
  have ccle: "unat (count_objects ?h) \<le> omax b" using cnt cle by simp
  have wo: "\<And>x. slab_page x \<noteq> ?p \<Longrightarrow> ((slab_words s)(a := next_free h)) x = slab_words s x" by auto
  note c = lists_wf_core [OF wf b pin s' h(1) _ _ _ _ ccle wo fo]
  have d: "distinct (a # free_objs s ?p)" "set (a # free_objs s ?p) \<subseteq> grid ?p b" using ok af ag by auto
  show "lists_wf ?s fl ul" by (rule c(1)) (use d in simp_all)
  have same: "free_objs ?s q = free_objs s q" if "q \<noteq> ?p" for q
    by (rule c(2)) (use d that in simp_all)
  then show "free_objs ?s q = (if q = ?p then a # free_objs s q else free_objs s q)" using fo by simp
  have "live ?s = live_others s ?p \<union> (grid ?p b - set (free_objs ?s ?p))"
    using live_core [OF h(1), of ?s ?h] same h(2) by (simp add: pushed_back_def)
  also have "\<dots> = live s - {a}"
  proof -
    have "a \<notin> live_others s ?p" using grid_member_slab [OF wf] by (auto simp: live_others_def)
    then show ?thesis unfolding live_split [OF h(1)] using fo h(2) by auto
  qed
  finally show "live ?s = live s - {a}" .
  show "only_slabs s ?s"
    by (simp add: only_slabs_def fun_eq_iff frames_of_def bin_at_def pushed_back_def h(1))
qed

end
