(* ===== verification/SlabHeap.thy ===== *)
theory SlabHeap
  imports SlabSpec
begin

text \<open>
  The slab allocator as a heap of objects: slabs are created and given back through the page
  tables and the frame allocator, and \<open>bin_alloc\<close> and \<open>bin_free\<close> satisfy the contract of an
  object heap, on which the properties of \<^verbatim>\<open>kmalloc\<close> and \<^verbatim>\<open>kfree\<close> rest.
\<close>

unbundle bit_operations_syntax

section \<open>Changing the lists of one bin\<close>

lemma lists_wf_update:
  assumes wf: "lists_wf s fl ul" and b: "b < 24"
    and bins': "bins s' = (bins s)[b := (bins s ! b)\<lparr>free_slabs := hd0 xs, full_slabs := hd0 ys\<rparr>]"
    and l: "dll (links s') xs" "dll (links s') ys" "distinct (xs @ ys)"
    and ok: "\<And>q. q \<in> set (xs @ ys) \<Longrightarrow> slab_ok s' b q"
    and other: "\<And>c q. c < 24 \<Longrightarrow> c \<noteq> b \<Longrightarrow> q \<in> set (fl c @ ul c) \<Longrightarrow> links s' q = links s q \<and> slab_ok s' c q"
    and cover: "\<And>q. slab_at s' q \<noteq> None \<Longrightarrow> q \<in> set (xs @ ys) \<or> slab_at s q \<noteq> None \<and> q \<notin> set (fl b @ ul b)"
  shows "lists_wf s' (fl(b := xs)) (ul(b := ys))"
proof -
  have len: "length (bins s) = 24" using wf by (simp add: lists_wf_def bins_ok_def)
  show ?thesis
    unfolding lists_wf_def
  proof (intro conjI allI impI ballI)
    show "bins_ok s'"
      using wf len b by (auto simp: lists_wf_def bins_ok_def bins' nth_list_update)
  next
    fix c :: nat assume c: "c < 24"
    show "free_slabs (bins s' ! c) = hd0 ((fl(b := xs)) c)" "full_slabs (bins s' ! c) = hd0 ((ul(b := ys)) c)"
      using c len lists_wfD(1,2) [OF wf c] by (simp_all add: bins' nth_list_update)
    show "dll (links s') ((fl(b := xs)) c)"
      using l(1) other [OF c] by (auto intro!: dll_cong [OF lists_wfD(3) [OF wf c]])
    show "dll (links s') ((ul(b := ys)) c)"
      using l(2) other [OF c] by (auto intro!: dll_cong [OF lists_wfD(4) [OF wf c]])
    show "distinct ((fl(b := xs)) c @ (ul(b := ys)) c)"
      using l(3) lists_wfD(5) [OF wf c] by simp
    fix p assume p: "p \<in> set ((fl(b := xs)) c @ (ul(b := ys)) c)"
    then show "slab_ok s' c p" using ok [of p] other [OF c, of p] by (cases "c = b") simp_all
  next
    fix p assume p: "slab_at s' p \<noteq> None"
    show "\<exists>c<24. p \<in> set ((fl(b := xs)) c @ (ul(b := ys)) c)"
    proof (cases "p \<in> set (xs @ ys)")
      case True
      then show ?thesis using b by (intro exI [of _ b]) simp
    next
      case False
      then have "slab_at s p \<noteq> None" "p \<notin> set (fl b @ ul b)" using cover [OF p] by auto
      then obtain c where "c < 24" "p \<in> set (fl c @ ul c)" using wf by (auto simp: lists_wf_def)
      then show ?thesis using \<open>p \<notin> set (fl b @ ul b)\<close> by (intro exI [of _ c]) (cases "c = b"; simp)
    qed
  qed
qed

lemma live_others_cores: "live_others s p = {a. \<exists>q c n f b. q \<noteq> p \<and> cores s q = Some (c, n, f, b) \<and>
    a \<in> grid q (unat b) \<and> a \<notin> set (free_objs s q)}"
  by (fastforce simp: live_others_def cores_def)

text \<open>Dropping a slab from the free list of its bin.\<close>

lemma lists_wf_remove:
  assumes wf: "lists_wf s fl ul" and b: "b < 24" and fl: "fl b = as @ p # bs"
    and bins': "bins s' = (bins s)[b := (bins s ! b)\<lparr>free_slabs := hd0 (as @ bs)\<rparr>]"
    and links': "\<And>q. q \<noteq> p \<Longrightarrow> links s' q = unlinked as bs (links s) q"
    and cores': "\<And>q. q \<noteq> p \<Longrightarrow> cores s' q = cores s q" and p': "slab_at s' p = None"
    and frame: "slab_words s' = slab_words s" "slab_top s' = slab_top s"
  shows "lists_wf s' (fl(b := as @ bs)) ul" and "\<And>q. q \<noteq> p \<Longrightarrow> free_objs s' q = free_objs s q"
    and "live s' = live_others s p"
proof -
  have d: "distinct (as @ p # bs @ ul b)" using lists_wfD(5) [OF wf b] by (simp add: fl)
  show fo: "free_objs s' q = free_objs s q" if "q \<noteq> p" for q
    unfolding free_objs_cores frame cores' [OF that] ..
  have ok: "slab_ok s' c q" if "slab_ok s c q" "q \<noteq> p" for c q
    using that cores' fo by (simp add: slab_ok_cores frame)
  have bins'': "bins s' = (bins s)[b := (bins s ! b)\<lparr>free_slabs := hd0 (as @ bs), full_slabs := hd0 (ul b)\<rparr>]"
    unfolding bins' lists_wfD(2) [OF wf b, symmetric] by simp
  have "lists_wf s' (fl(b := as @ bs)) (ul(b := ul b))"
  proof (rule lists_wf_update [OF wf b bins''])
    have u: "dll (unlinked as bs (links s)) (as @ bs)"
      by (rule dll_unlinked [of _ as p]) (use lists_wfD(3) [OF wf b] d in \<open>auto simp: fl\<close>)
    show "dll (links s') (as @ bs)" using d by (intro dll_cong [OF u] links') auto
    have "links s' x = links s x" if "x \<in> set (ul b)" for x
    proof -
      have "x \<noteq> p" "x \<notin> set as" "x \<notin> set bs" using that d by auto
      then show ?thesis using links' unlinked_other by simp
    qed
    then show "dll (links s') (ul b)" by (intro dll_cong [OF lists_wfD(4) [OF wf b]])
    show "distinct ((as @ bs) @ ul b)" using d by auto
    show "slab_ok s' b q" if "q \<in> set ((as @ bs) @ ul b)" for q
      using that d by (intro ok lists_wfD(6) [OF wf b]) (auto simp: fl)
  next
    fix c q assume c: "c < 24" "c \<noteq> b" "q \<in> set (fl c @ ul c)"
    then have n: "q \<notin> set (as @ p # bs)" using lists_disjoint [OF wf c(1) b c(3)] by (auto simp: fl)
    show "links s' q = links s q \<and> slab_ok s' c q"
      using n links' [of q] unlinked_other [of q as bs "links s"] ok lists_wfD(6) [OF wf c(1,3)] by auto
  next
    fix q assume q: "slab_at s' q \<noteq> None"
    then have "q \<noteq> p" using p' by auto
    have "slab_at s q \<noteq> None" using q cores' [OF \<open>q \<noteq> p\<close>] by (cases "slab_at s q") (auto simp: cores_def)
    then show "q \<in> set ((as @ bs) @ ul b) \<or> slab_at s q \<noteq> None \<and> q \<notin> set (fl b @ ul b)"
      using \<open>q \<noteq> p\<close> by (auto simp: fl)
  qed
  then show "lists_wf s' (fl(b := as @ bs)) ul" by simp
  have np: "q \<noteq> p" if "cores s' q = Some x" for q x using that p' by (auto simp: cores_def)
  show "live s' = live_others s p" (is "?l = ?r")
  proof (rule set_eqI iffI)+
    fix a assume "a \<in> ?l"
    then obtain q c n f d where *: "cores s' q = Some (c, n, f, d)" "a \<in> grid q (unat d)" "a \<notin> set (free_objs s' q)"
      unfolding live_cores by blast
    then show "a \<in> ?r" using np [OF *(1)] cores' fo unfolding live_others_cores by auto
  next
    fix a assume "a \<in> ?r"
    then obtain q c n f d where *: "q \<noteq> p" "cores s q = Some (c, n, f, d)" "a \<in> grid q (unat d)" "a \<notin> set (free_objs s q)"
      unfolding live_others_cores by blast
    then have "cores s' q = Some (c, n, f, d)" "a \<notin> set (free_objs s' q)"
      using cores' [OF *(1)] fo [OF *(1)] by simp_all
    then show "a \<in> ?l" using *(3) unfolding live_cores by blast
  qed
qed

section \<open>The memory behind the slabs\<close>

definition slab_root :: "'a slab_state_scheme \<Rightarrow> u64" where
  "slab_root s = virt_to_phys (kernel_pml4 s)"

text \<open>Every slab is backed by a frame of its own, which its header names, and the window above
  \<open>slab_top\<close> is unmapped.\<close>

definition backed :: "'a slab_state_scheme \<Rightarrow> bool" where
  "backed s \<longleftrightarrow> (\<forall>p f. frames_of s p = Some f \<longrightarrow>
     walk_entry s (slab_root s) p = Some (0, f OR VMM_FLAGS_KERNEL_DATA) \<and>
     f \<in> managed_pages s \<and> page_used s f \<and> no_table s (slab_root s) [f]) \<and>
     (\<forall>p q f. frames_of s p = Some f \<longrightarrow> frames_of s q = Some f \<longrightarrow> p = q)"

definition window_clear :: "'a slab_state_scheme \<Rightarrow> bool" where
  "window_clear s \<longleftrightarrow> (\<forall>n. unat (slab_top s) \<le> n \<longrightarrow> n < 2 ^ 40 \<longrightarrow>
     walk_entry s (slab_root s) (SLAB_VIRT_START + of_nat n) = None)"

definition slab_mem :: "'a slab_state_scheme \<Rightarrow> bool" where
  "slab_mem s \<longleftrightarrow> as_wf s (slab_root s) \<and> 4096 dvd unat (slab_top s) \<and> unat (slab_top s) \<le> 2 ^ 40 \<and>
     backed s \<and> window_clear s"

text \<open>No slab is kept without an object in use.\<close>

definition slabs_used :: "'a slab_state_scheme \<Rightarrow> bool" where
  "slabs_used s \<longleftrightarrow> (\<forall>p. slab_at s p \<noteq> None \<longrightarrow> p \<in> slab_page ` live s)"

definition slab_inv :: "'a slab_state_scheme \<Rightarrow> bool" where
  "slab_inv s \<longleftrightarrow> slab_mem s \<and> slabs_used s \<and> (\<exists>fl ul. lists_wf s fl ul \<and> sorted_out s fl ul)"

lemma pmm_cong:
  assumes "pmm_bitmap s' = pmm_bitmap s" "pmm_bitmap_size s' = pmm_bitmap_size s"
  shows "managed_pages s' = managed_pages s" "page_used s' = page_used s" "free_frames s' = free_frames s"
    "pmm_wf s' = pmm_wf s"
  using assms
  by (simp_all add: managed_pages_def pmm_pages_def fun_eq_iff page_used_def frame_used_def free_frames_def
      pmm_wf_def)

lemma as_wf_cong:
  assumes "pmm_bitmap s' = pmm_bitmap s" "pmm_bitmap_size s' = pmm_bitmap_size s" "phys_mem s' = phys_mem s"
    "debug s' = debug s"
  shows "as_wf s' root = as_wf s root" "walk_entry s' root = walk_entry s root" "no_table s' root = no_table s root"
  by (simp_all add: as_wf_def walk_entry_def [abs_def] no_table_def [abs_def] assms(3) pmm_cong [OF assms(1,2)])

lemma only_slabs_mem:
  assumes "only_slabs s s'"
  shows "slab_mem s' = slab_mem s" "free_frames s' = free_frames s" "debug s' = debug s"
proof -
  have o: "frames_of s' = frames_of s" "slab_root s' = slab_root s" "slab_top s' = slab_top s" "debug s' = debug s"
    and e: "pmm_bitmap s' = pmm_bitmap s" "pmm_bitmap_size s' = pmm_bitmap_size s" "phys_mem s' = phys_mem s"
    using assms by (auto simp: only_slabs_def slab_root_def)
  note c = as_wf_cong [OF e o(4)] pmm_cong [OF e(1,2)]
  show "slab_mem s' = slab_mem s" by (simp add: slab_mem_def backed_def window_clear_def c o)
  show "free_frames s' = free_frames s" "debug s' = debug s" by (simp_all add: c o)
qed

section \<open>Giving back an object\<close>

lemma obj_in_window:
  assumes "slab_ok s b p" and "b < 24" and "a \<in> grid p b" and "4096 dvd unat (slab_top s)" "unat (slab_top s) \<le> 2 ^ 40"
  shows "SLAB_VIRT_START \<le> a" and "a + of_nat (osize b) \<le> SLAB_VIRT_END"
    and "unat (a + of_nat (osize b)) = unat a + osize b"
proof -
  have p: "is_aligned p 4096" "unat SLAB_VIRT_START \<le> unat p" "unat p < unat SLAB_VIRT_START + unat (slab_top s)"
    using assms(1) by (simp_all add: slab_ok_def word_le_nat_alt)
  obtain i where i: "i < omax b" "a = obj p b i" using assms(3) by (auto simp: grid_def)
  note o = obj_offset [OF assms(2) i(1)] osize_facts(1) [OF assms(2)]
  let ?S = "18446620928407240704 :: nat"
  have S: "unat SLAB_VIRT_START = ?S" "unat SLAB_VIRT_END = ?S + 2 ^ 40"
    by (simp_all add: SLAB_VIRT_START_def SLAB_VIRT_END_def)
  obtain q t where qt: "unat p = 4096 * q" "unat (slab_top s) = 4096 * t"
    using p(1) assms(4) by (auto simp: is_aligned_page elim!: dvdE)
  have "4096 * q < 4096 * (4503569562599424 + t)" using p(3) unfolding S qt by simp
  then have "q < 4503569562599424 + t" by (simp only: mult_less_cancel1)
  then have le: "unat p + 4096 \<le> ?S + unat (slab_top s)" unfolding qt by linarith
  have "unat (of_nat (48 + i * osize b) :: u64) = 48 + i * osize b" using o by (intro unat_of_nat_small) simp
  then have a: "unat a = unat p + (48 + i * osize b)"
    unfolding i(2) obj_def using aligned_add [OF p(1), of "of_nat (48 + i * osize b)"] o by simp
  then show "SLAB_VIRT_START \<le> a" using p(2) by (simp add: word_le_nat_alt)
  have z: "unat (of_nat (osize b) :: u64) = osize b" using o by (intro unat_of_nat_small) simp
  have "unat a + osize b \<le> ?S + 2 ^ 40" using a o le assms(5) by linarith
  then show u: "unat (a + of_nat (osize b)) = unat a + osize b"
    using z by (subst unat_add_small) simp_all
  show "a + of_nat (osize b) \<le> SLAB_VIRT_END"
    using \<open>unat a + osize b \<le> ?S + 2 ^ 40\<close> by (simp only: word_le_nat_alt u S)
qed

lemma sorted_out_move:
  assumes wf: "lists_wf s fl ul" and so: "sorted_out s fl ul" and b: "b < 24" and ul: "ul b = as @ p # bs"
    and fo: "\<And>q. q \<noteq> p \<Longrightarrow> free_objs s' q = free_objs s q" "free_objs s' p \<noteq> []"
  shows "sorted_out s' (fl(b := p # fl b)) (ul(b := as @ bs))"
  unfolding sorted_out_def
proof (intro allI impI conjI ballI)
  fix c q assume c: "(c :: nat) < 24"
  { assume "q \<in> set ((fl(b := p # fl b)) c)"
    then have "q = p \<or> q \<in> set (fl c)" by (auto split: if_splits)
    then show "free_objs s' q \<noteq> []"
      using so c fo by (cases "q = p") (auto simp: sorted_out_def) }
  { assume "q \<in> set ((ul(b := as @ bs)) c)"
    then have q: "q \<in> set (ul c)" "q \<noteq> p"
      using lists_disjoint [OF wf c b, of q] lists_wfD(5) [OF wf b] by (auto simp: ul split: if_splits)
    then show "free_objs s' q = []" using so c fo(1) by (auto simp: sorted_out_def) }
qed

lemma bin_free_front:
  assumes wf: "lists_wf s fl ul" and so: "sorted_out s fl ul" and mem: "slab_mem s" and a: "a \<in> live s"
  shows "\<exists>s1 fl1 ul1 b h1. bin_free a s =
      (if count_objects h1 = 0 then release_slab b (slab_page a) s1 else Inr s1) \<and>
    lists_wf s1 fl1 ul1 \<and> sorted_out s1 fl1 ul1 \<and> live s1 = live s - {a} \<and> only_slabs s s1 \<and>
    b < 24 \<and> slab_page a \<in> set (fl1 b) \<and> slab_at s1 (slab_page a) = Some h1 \<and> unat (slab_bin h1) = b"
proof -
  let ?p = "slab_page a"
  obtain h b where h: "slab_at s ?p = Some h" "unat (slab_bin h) = b" and b: "b < 24"
    and pin: "?p \<in> set (fl b @ ul b)" and ag: "a \<in> grid ?p b" and af: "a \<notin> set (free_objs s ?p)"
    using wf a by (rule live_page)
  note pb = pushed_back_spec [OF wf b pin h ag af]
  let ?s = "pushed_back a h s"
  have ok: "slab_ok s b ?p" using lists_wfD(6) [OF wf b pin] .
  then have al: "is_aligned ?p 4096" by (simp add: slab_ok_def)
  have win: "\<not> a < SLAB_VIRT_START" "\<not> SLAB_VIRT_END < a"
  proof -
    note w = obj_in_window [OF ok b ag] mem [unfolded slab_mem_def]
    show "\<not> a < SLAB_VIRT_START" using w by (simp add: linorder_not_less)
    have "unat (a + of_nat (osize b)) \<le> unat SLAB_VIRT_END" using w by (simp add: word_le_nat_alt)
    then show "\<not> SLAB_VIRT_END < a" using w by (simp add: word_less_nat_alt linorder_not_less)
  qed
  obtain i where i: "a = obj ?p b i" "i < omax b" using ag by (auto simp: grid_def)
  have wok: "word_ok a s" by (subst i(1)) (rule word_ok_obj [OF al b i(2)], simp add: h(1))
  have len: "length (bins s) = 24" and mx: "unat (max_objects (bins s ! b)) = omax b"
    using wf b by (simp_all add: lists_wf_def bins_ok_def)
  define was_full where "was_full \<longleftrightarrow> free_objs s ?p = []"
  have full: "count_objects h = max_objects (bins s ! b) \<longleftrightarrow> was_full"
    unfolding was_full_def using pb(6) mx by (simp add: word_unat_eq_iff)
  have eq: "s\<lparr>slab_words := (slab_words s)(a := next_free h), slab_at := (slab_at s)(?p \<mapsto>
      h\<lparr>next_free := a, count_objects := count_objects h - 1\<rparr>)\<rparr> = ?s"
    by (simp add: pushed_back_def)
  have front: "bin_free a s = andthen (if was_full then full_to_free b ?p ?s else Inr ?s) (\<lambda>s.
      andthen (read_slab ?p s) (\<lambda>h. if count_objects h = 0 then release_slab b ?p s else Inr s))"
    using h wok win b len
    by (simp add: bin_free_def Let_def when_debug_def panic_if_def read_slab_def write_word_def
        update_slab_def eq full cong: if_cong)
  show ?thesis
  proof (cases was_full)
    case False
    have "?p \<in> set (fl b)"
      using pin so b False by (auto simp: sorted_out_def was_full_def)
    moreover have "sorted_out ?s fl ul"
      using so False pb(2) unfolding sorted_out_def was_full_def by auto
    moreover obtain h1 where "slab_at ?s ?p = Some h1" "unat (slab_bin h1) = b"
      using h by (simp add: pushed_back_def)
    ultimately show ?thesis
      using front False pb(1,3,4) b by (auto simp: read_slab_def)
  next
    case True
    have "?p \<in> set (ul b)" using pin so b True by (auto simp: sorted_out_def was_full_def)
    then obtain as bs where ul: "ul b = as @ ?p # bs" by (meson split_list)
    note L = lists_wfD [OF pb(1) b]
    have d: "dll (links ?s) (as @ ?p # bs)" "distinct (as @ ?p # bs)" "distinct (fl b)"
      "set (as @ ?p # bs) \<inter> set (fl b) = {}"
      using L(4,5) by (auto simp: ul)
    have len': "b < length (bins ?s)" using len b by (simp add: pushed_back_def)
    obtain s1 where s1: "full_to_free b ?p ?s = Inr s1"
      and r: "relink ?s (pushed ?p (fl b) (unlinked as bs (links ?s)))
        ((bins ?s)[b := (bins ?s ! b)\<lparr>free_slabs := ?p, full_slabs := hd0 (as @ bs)\<rparr>]) s1"
      using full_to_free_spec [OF d(1,2) _ L(3) d(3) L(1) d(4) len'] L(2) by (auto simp: ul)
    have p0: "?p \<noteq> 0" using dll_nonnull [OF d(1)] by auto
    have wf1: "lists_wf s1 (fl(b := ?p # fl b)) (ul(b := as @ bs))"
    proof (rule lists_wf_relist [OF pb(1) b])
      show "relink ?s (pushed ?p (fl b) (unlinked as bs (links ?s)))
        ((bins ?s)[b := (bins ?s ! b)\<lparr>free_slabs := hd0 (?p # fl b), full_slabs := hd0 (as @ bs)\<rparr>]) s1"
        using r by simp
      have u: "dll (unlinked as bs (links ?s)) (as @ bs)" using dll_unlinked [OF d(1,2)] .
      show "dll (pushed ?p (fl b) (unlinked as bs (links ?s))) (as @ bs)"
        using d(2,4) by (intro dll_cong [OF u] pushed_other) auto
      have "dll (unlinked as bs (links ?s)) (fl b)"
        using d(4) by (intro dll_cong [OF L(3)] unlinked_other) auto
      then show "dll (pushed ?p (fl b) (unlinked as bs (links ?s))) (?p # fl b)"
        using d(3,4) p0 by (intro dll_pushed) auto
      show "distinct ((?p # fl b) @ as @ bs)" using d by auto
      show "set ((?p # fl b) @ as @ bs) = set (fl b @ ul b)" by (auto simp: ul)
      fix x assume "x \<notin> set (fl b @ ul b)"
      then show "pushed ?p (fl b) (unlinked as bs (links ?s)) x = links ?s x"
        by (simp add: ul pushed_other unlinked_other)
    qed
    have fo1: "free_objs s1 q = (if q = ?p then a # free_objs s q else free_objs s q)" for q
      using relink_frame(4) [OF r] pb(2) by simp
    have so1: "sorted_out s1 (fl(b := ?p # fl b)) (ul(b := as @ bs))"
      by (rule sorted_out_move [OF wf so b ul]) (simp_all add: fo1)
    have "cores s1 ?p = cores ?s ?p" using relink_frame(3) [OF r] by simp
    then obtain h1 where h1: "slab_at s1 ?p = Some h1" "unat (slab_bin h1) = b"
      using h by (cases "slab_at s1 ?p") (auto simp: cores_def pushed_back_def)
    have "live s1 = live s - {a}" using relink_frame(6) [OF r] pb(3) by simp
    then show ?thesis
      using front True s1 wf1 so1 h1 b only_slabs_trans [OF pb(4) only_slabs_relink [OF r]]
      by (intro exI [of _ s1] exI [of _ "fl(b := ?p # fl b)"] exI [of _ "ul(b := as @ bs)"] exI [of _ b]
          exI [of _ h1]) (simp add: read_slab_def)
  qed
qed

section \<open>Giving back a slab\<close>

lemma window_page:
  assumes "n < 2 ^ 40"
  shows "page_of (SLAB_VIRT_START + of_nat n) = 38654705664 + n div 4096"
    and "unat (SLAB_VIRT_START + of_nat n) = unat SLAB_VIRT_START + n"
proof -
  have n: "unat (of_nat n :: u64) = n" using assms by (intro unat_of_nat_small) simp
  have S: "unat SLAB_VIRT_START = 65535 * 2 ^ 48 + 158329674399744" by (simp add: SLAB_VIRT_START_def)
  show u: "unat (SLAB_VIRT_START + of_nat n) = unat SLAB_VIRT_START + n"
    using assms by (subst unat_add_small) (simp_all add: n S)
  have "unat (SLAB_VIRT_START + of_nat n) = 65535 * 2 ^ 48 + (158329674399744 + n)"
    unfolding u S by (simp only: add.assoc)
  then have "unat (SLAB_VIRT_START + of_nat n) mod 2 ^ 48 = (158329674399744 + n) mod 2 ^ 48"
    by (simp only: mod_mult_self3)
  also have "\<dots> = 38654705664 * 4096 + n" using assms by (subst mod_less) simp_all
  finally show "page_of (SLAB_VIRT_START + of_nat n) = 38654705664 + n div 4096"
    unfolding page_of_def by (simp only: div_mult_self3)
qed

lemma slab_offset:
  assumes "slab_ok s b p" and "unat (slab_top s) \<le> 2 ^ 40"
  obtains n where "p = SLAB_VIRT_START + of_nat n" and "n < unat (slab_top s)" and "4096 dvd n"
proof -
  define n where "n = unat p - unat SLAB_VIRT_START"
  have p: "is_aligned p 4096" "unat SLAB_VIRT_START \<le> unat p" "unat p < unat SLAB_VIRT_START + unat (slab_top s)"
    using assms(1) by (simp_all add: slab_ok_def word_le_nat_alt)
  have u: "unat p = unat SLAB_VIRT_START + n" using p by (simp add: n_def)
  have lt: "n < unat (slab_top s)" using p u by simp
  then have "unat (SLAB_VIRT_START + of_nat n) = unat p" using window_page(2) [of n] assms(2) u by simp
  then have "p = SLAB_VIRT_START + of_nat n" by (simp add: word_unat_eq_iff)
  moreover have "4096 dvd n"
  proof -
    have "4096 dvd unat p" using p(1) by (simp add: is_aligned_page dvd_eq_mod_eq_0)
    moreover have "4096 dvd unat SLAB_VIRT_START" by (simp add: SLAB_VIRT_START_def)
    ultimately show ?thesis unfolding n_def by (rule dvd_diff_nat)
  qed
  ultimately show thesis using lt that by blast
qed

lemma slab_pages_distinct:
  assumes "slab_ok s b p" "slab_ok s c q" and "unat (slab_top s) \<le> 2 ^ 40" and "page_of p = page_of q"
  shows "p = q"
proof -
  obtain m where m: "p = SLAB_VIRT_START + of_nat m" "m < unat (slab_top s)" "4096 dvd m"
    using assms(1,3) by (rule slab_offset)
  obtain n where n: "q = SLAB_VIRT_START + of_nat n" "n < unat (slab_top s)" "4096 dvd n"
    using assms(2,3) by (rule slab_offset)
  have "m div 4096 = n div 4096"
    using assms(3,4) m n window_page(1) [of m] window_page(1) [of n] by simp
  then have "m = n" using m(3) n(3) by (auto elim!: dvdE)
  then show ?thesis using m n by simp
qed

lemma frame_slab:
  assumes wf: "lists_wf s fl ul" and "frames_of s p = Some f"
  obtains c where "c < 24" and "slab_ok s c p" and "p \<in> set (fl c @ ul c)"
proof -
  obtain h where "slab_at s p = Some h" using assms(2) by (auto simp: frames_of_def)
  from wf this show thesis by (rule lists_wf_member) (use that in blast)
qed

text \<open>Unmapping the page of one slab and freeing its frame leaves the memory of the others alone.\<close>

lemma slab_mem_drop:
  assumes mem: "slab_mem s" and wf: "lists_wf s fl ul" and p: "frames_of s p = Some f"
    and frames': "frames_of s' = (frames_of s)(p := None)"
    and same: "kernel_pml4 s' = kernel_pml4 s" "slab_top s' = slab_top s"
    and wf': "as_wf s' (slab_root s)" and mg: "managed_pages s' = managed_pages s"
    and used: "\<And>q. q \<in> managed_pages s \<Longrightarrow> page_used s' q \<longleftrightarrow> q \<noteq> f \<and> page_used s q"
    and walk: "\<And>va. walk_entry s' (slab_root s) va =
      (if page_of va = page_of p then None else walk_entry s (slab_root s) va)"
    and tabs: "\<And>is. table_path is \<Longrightarrow>
      table_at (phys_mem s') (slab_root s) is = table_at (phys_mem s) (slab_root s) is"
  shows "slab_mem s'"
proof -
  have r: "slab_root s' = slab_root s" by (simp add: slab_root_def same)
  have m: "unat (slab_top s) \<le> 2 ^ 40" "4096 dvd unat (slab_top s)" "backed s" "window_clear s"
    using mem by (simp_all add: slab_mem_def)
  note bk = m(3) [unfolded backed_def]
  obtain c where c: "slab_ok s c p" using wf p by (rule frame_slab)
  have "backed s'"
    unfolding backed_def r
  proof (intro conjI allI impI)
    fix q g assume "frames_of s' q = Some g"
    then have q: "q \<noteq> p" "frames_of s q = Some g" by (simp_all add: frames' split: if_splits)
    obtain d where d: "slab_ok s d q" using wf q(2) by (rule frame_slab)
    have "page_of q \<noteq> page_of p" using slab_pages_distinct [OF d c m(1)] q(1) by blast
    then show "walk_entry s' (slab_root s) q = Some (0, g OR VMM_FLAGS_KERNEL_DATA)"
      using bk q(2) by (simp add: walk)
    show g: "g \<in> managed_pages s'" using bk q(2) by (simp add: mg)
    have "g \<noteq> f" using bk q p by blast
    then show "page_used s' g" using used [of g] g mg bk q(2) by simp
    show "no_table s' (slab_root s) [g]" using bk q(2) tabs by (simp add: no_table_def)
  next
    fix q q' g assume "frames_of s' q = Some g" "frames_of s' q' = Some g"
    then have "frames_of s q = Some g" "frames_of s q' = Some g" by (simp_all add: frames' split: if_splits)
    then show "q = q'" using bk by blast
  qed
  moreover have "window_clear s'" using m(4) by (simp add: window_clear_def r same walk)
  ultimately show ?thesis using wf' m by (simp add: slab_mem_def r same)
qed

lemma release_slab_spec:
  assumes mem: "slab_mem s" and wf: "lists_wf s fl ul" and so: "sorted_out s fl ul" and b: "b < 24"
    and p: "p \<in> set (fl b)" and h: "slab_at s p = Some h" "count_objects h = 0"
  shows "\<exists>s' fl'. release_slab b p s = Inr s' \<and> lists_wf s' fl' ul \<and> sorted_out s' fl' ul \<and>
    live s' = live s \<and> slab_mem s' \<and> debug s' = debug s \<and> managed_pages s' = managed_pages s \<and>
    (\<forall>q\<in>managed_pages s. page_used s' q \<longleftrightarrow> q \<noteq> slab_phys h \<and> page_used s q) \<and> slab_at s' p = None \<and>
    (\<forall>q. q \<noteq> p \<longrightarrow> bin_at s' q = bin_at s q)"
proof -
  let ?r = "slab_root s" and ?f = "slab_phys h"
  obtain as bs where fl: "fl b = as @ p # bs" using p by (meson split_list)
  have ok: "slab_ok s b p" using lists_wfD(6) [OF wf b] p by simp
  have L: "dll (links s) (as @ p # bs)" "distinct (as @ p # bs)" "free_slabs (bins s ! b) = hd0 (as @ p # bs)"
    using lists_wfD(1,3,5) [OF wf b] by (auto simp: fl)
  obtain s1 where s1: "unlink_slab free_slabs (\<lambda>v x. x\<lparr>free_slabs := v\<rparr>) b p s = Inr s1"
    and rl: "relink s (unlinked as bs (links s))
      (if as = [] then (bins s)[b := (bins s ! b)\<lparr>free_slabs := hd0 bs\<rparr>] else bins s) s1"
    using unlink_slab_spec [where hd_of = free_slabs, OF L, of "\<lambda>v x. x\<lparr>free_slabs := v\<rparr>"]
    unfolding unlinked_def by blast
  have bins1: "bins s1 = (bins s)[b := (bins s ! b)\<lparr>free_slabs := hd0 (as @ bs)\<rparr>]"
    using relink_bins(1) [OF rl] L(3) by (cases as) auto
  note os = only_slabs_relink [OF rl]
  have mem1: "slab_mem s1" using only_slabs_mem(1) [OF os] mem by simp
  have r1: "slab_root s1 = ?r" "frames_of s1 = frames_of s" "debug s1 = debug s"
    using os by (simp_all add: only_slabs_def slab_root_def)
  have "cores s1 p = cores s p" by (simp add: relink_frame(3) [OF rl])
  then obtain h1 where h1: "slab_at s1 p = Some h1" "slab_phys h1 = ?f"
    using h by (cases "slab_at s1 p") (auto simp: cores_def)
  have fp: "frames_of s1 p = Some ?f" using h1 by (simp add: frames_of_def)
  have wf1: "as_wf s1 ?r" and bk: "backed s1" using mem1 by (simp_all add: slab_mem_def r1)
  note bk = bk [unfolded backed_def r1(1)]
  have f: "?f \<in> managed_pages s1" "page_used s1 ?f" "no_table s1 ?r [?f]"
    and w: "walk_entry s1 ?r p = Some (0, ?f OR VMM_FLAGS_KERNEL_DATA)"
    using bk fp by simp_all
  obtain bm where s2: "pmm_free ?f s1 = Inr (s1\<lparr>pmm_bitmap := bm\<rparr>)" and wf2: "as_wf (s1\<lparr>pmm_bitmap := bm\<rparr>) ?r"
    and mg2: "managed_pages (s1\<lparr>pmm_bitmap := bm\<rparr>) = managed_pages s1"
    and us2: "\<forall>q\<in>managed_pages s1. page_used (s1\<lparr>pmm_bitmap := bm\<rparr>) q \<longleftrightarrow> q \<notin> {?f} \<and> page_used s1 q"
    using release_frames [OF wf1, of "[?f]"] f by (auto simp: andthen_eq_Inr_iff)
  define s2 where "s2 = s1\<lparr>pmm_bitmap := bm\<rparr>"
  have k: "kernel_pml4 s2 = phys_to_virt ?r"
    using os by (simp add: s2_def slab_root_def only_slabs_def virt_to_phys_def phys_to_virt_def)
  have w2: "hw_walk (phys_mem s2) ?r (vidx p) = Some (0, ?f OR VMM_FLAGS_KERNEL_DATA)"
    using w by (simp add: walk_entry_def s2_def)
  have al: "is_aligned p 4096" using ok by (simp add: slab_ok_def)
  have wf2': "as_wf s2 ?r" using wf2 by (simp add: s2_def)
  obtain s3 where s3: "vmm_unmap (kernel_pml4 s2) p s2 = Inr s3" "as_wf s3 ?r"
    "\<forall>va. hw_walk (phys_mem s3) ?r (vidx va) =
      (if page_of va = page_of p then None else hw_walk (phys_mem s2) ?r (vidx va))"
    "\<forall>is. table_path is \<longrightarrow> table_at (phys_mem s3) ?r is = table_at (phys_mem s2) ?r is"
    using vmm_unmap_effect [OF wf2' w2 al] unfolding k by blast
  obtain m3 where m3: "s3 = s2\<lparr>phys_mem := m3\<rparr>" using vmm_unmap_only [OF s3(1)] by blast
  define s4 where "s4 = vmm_invlpg p (s3\<lparr>slab_at := (slab_at s3)(p := None)\<rparr>)"
  have s4': "s4 = s1\<lparr>pmm_bitmap := bm, phys_mem := m3, slab_at := (slab_at s1)(p := None),
      invlpg_log := invlpg_log s1 @ [p]\<rparr>"
    by (simp add: s4_def m3 s2_def vmm_invlpg_def)
  have run: "release_slab b p s = Inr s4"
    using s1 h1 s2 s3(1) by (simp add: release_slab_def read_slab_def s2_def s4_def)
  have c4: "as_wf s4 ?r = as_wf s3 ?r" "managed_pages s4 = managed_pages s2" "page_used s4 = page_used s2"
    "walk_entry s4 ?r = walk_entry s3 ?r"
    using as_wf_cong(1,2) [of s4 s3 ?r] pmm_cong(1,2) [of s4 s2] by (simp_all add: s4' m3 s2_def)
  have e1: "managed_pages s1 = managed_pages s" "page_used s1 = page_used s" "phys_mem s1 = phys_mem s"
    using os pmm_cong(1,2) [of s1 s] by (simp_all add: only_slabs_def)
  have us4: "\<And>q. q \<in> managed_pages s \<Longrightarrow> page_used s4 q \<longleftrightarrow> q \<noteq> ?f \<and> page_used s q"
    using us2 e1 by (simp add: c4 s2_def)
  have mg4: "managed_pages s4 = managed_pages s" using mg2 e1 by (simp add: c4 s2_def)
  have mem4: "slab_mem s4"
  proof (rule slab_mem_drop [OF mem wf])
    show "frames_of s p = Some ?f" using h by (simp add: frames_of_def)
    show "frames_of s4 = (frames_of s)(p := None)"
      by (simp add: fun_eq_iff frames_of_def s4') (use r1(2) in \<open>simp add: fun_eq_iff frames_of_def\<close>)
    show "kernel_pml4 s4 = kernel_pml4 s" "slab_top s4 = slab_top s" using os by (simp_all add: s4' only_slabs_def)
    show "as_wf s4 ?r" using c4(1) s3(2) by simp
    show "walk_entry s4 ?r va = (if page_of va = page_of p then None else walk_entry s ?r va)" for va
      using s3(3) e1(3) by (simp add: c4 walk_entry_def s2_def)
    show "table_at (phys_mem s4) ?r is = table_at (phys_mem s) ?r is" if "table_path is" for "is"
      using s3(4) that e1(3) by (simp add: m3 s4' s2_def)
  qed (use us4 mg4 in blast)+
  have at4: "slab_at s4 = (slab_at s1)(p := None)" by (simp add: s4')
  have lk4: "links s4 q = unlinked as bs (links s) q" if "q \<noteq> p" for q
    using that relink_bins(2) [OF rl] by (auto simp: links_def at4 fun_eq_iff)
  have co4: "cores s4 q = cores s q" if "q \<noteq> p" for q
    using that relink_frame(3) [OF rl] by (auto simp: cores_def at4 fun_eq_iff)
  have fr4: "slab_words s4 = slab_words s" "slab_top s4 = slab_top s" "bins s4 = bins s1" "slab_at s4 p = None"
    using relink_frame(1,2) [OF rl] by (simp_all add: s4')
  note rm = lists_wf_remove [OF wf b fl fr4(3) [unfolded bins1] lk4 co4 fr4(4,1,2)]
  have "live s = live_others s p"
  proof -
    have sb: "unat (slab_bin h) = b" using ok h(1) by (auto simp: slab_ok_def)
    have d: "distinct (free_objs s p)" "set (free_objs s p) \<subseteq> grid p b" using ok by (auto simp: slab_ok_def)
    have "length (free_objs s p) = omax b" using h sb by (simp add: free_objs_def)
    then have "set (free_objs s p) = grid p b"
      using d card_grid [OF al b] by (intro card_subset_eq) (auto simp: grid_def distinct_card)
    then show ?thesis using live_split [OF h(1)] sb by simp
  qed
  then have lv: "live s4 = live s" using rm(3) by simp
  have "sorted_out s4 (fl(b := as @ bs)) ul"
    unfolding sorted_out_def
  proof (intro allI impI conjI ballI)
    fix c q assume c: "(c :: nat) < 24"
    { assume q: "q \<in> set ((fl(b := as @ bs)) c)"
      then have "q \<in> set (fl c)" "q \<noteq> p"
        using lists_disjoint [OF wf c b, of q] L(2) by (auto simp: fl split: if_splits)
      then show "free_objs s4 q \<noteq> []" using so c rm(2) by (auto simp: sorted_out_def) }
    { assume q: "q \<in> set (ul c)"
      then have "q \<noteq> p" using lists_disjoint [OF wf c b, of q] lists_wfD(5) [OF wf b] by (auto simp: fl)
      then show "free_objs s4 q = []" using so c q rm(2) by (auto simp: sorted_out_def) }
  qed
  then show ?thesis
    using run rm(1) lv mem4 mg4 us4 r1(3) fr4(4) co4
    by (intro exI [of _ s4] exI [of _ "fl(b := as @ bs)"]) (simp add: s4' bin_at_cores)
qed

section \<open>Creating a slab\<close>

lemma init_links_spec:
  assumes v: "is_aligned v 4096" "unat v + 8192 < 2 ^ 64" and z: "8 \<le> z" "8 dvd z" "z \<le> 1024"
    and at: "slab_at s v \<noteq> None" and n: "48 \<le> n" "8 dvd n" "n < 4096 + 1024" "4096 \<le> n + fuel * z"
  shows "\<exists>W. init_links fuel (of_nat z) (v + of_nat n) (v + 4096) s = Inr (s\<lparr>slab_words := W\<rparr>) \<and>
    (\<forall>j. n + j * z < 4096 \<longrightarrow> W (v + of_nat (n + j * z)) = v + of_nat (n + Suc j * z)) \<and>
    (\<forall>x. (\<forall>k. n \<le> k \<longrightarrow> k < 4096 \<longrightarrow> x \<noteq> v + of_nat k) \<longrightarrow> W x = slab_words s x)"
  using at n
proof (induction fuel arbitrary: n s)
  case 0
  then have "\<not> v + of_nat n < v + 4096"
    using v z by (simp add: word_less_nat_alt unat_add_small unat_of_nat_small)
  then show ?case using 0 by (intro exI [of _ "slab_words s"]) (simp add: init_links.simps)
next
  case (Suc fuel)
  have u: "unat (v + of_nat k) = unat v + k" if "k < 8192" for k
    using that v by (simp add: unat_add_small unat_of_nat_small)
  have lt: "v + of_nat n < v + 4096 \<longleftrightarrow> n < 4096"
    using u [of n] u [of 4096] Suc.prems by (simp add: word_less_nat_alt)
  show ?case
  proof (cases "n < 4096")
    case False
    then show ?thesis using lt by (intro exI [of _ "slab_words s"]) (simp add: init_links.simps)
  next
    case True
    obtain m where m: "n = 8 * m" using Suc.prems(3) by auto
    then have le: "n \<le> 4088" using True by simp
    note pg = slab_page_offset [OF v(1), of n]
    have "unat (of_nat n :: u64) = n" using True by (simp add: unat_of_nat_small)
    then have ok: "word_ok (v + of_nat n) s"
      using pg Suc.prems le by (simp add: word_ok_def word_le_nat_alt)
    define s1 where "s1 = s\<lparr>slab_words := (slab_words s)(v + of_nat n := v + of_nat n + of_nat z)\<rparr>"
    have a: "slab_at s1 v \<noteq> None" "48 \<le> n + z" "8 dvd n + z" "n + z < 4096 + 1024" "4096 \<le> n + z + fuel * z"
      using Suc.prems z True by (simp_all add: s1_def)
    obtain W where W: "init_links fuel (of_nat z) (v + of_nat (n + z)) (v + 4096) s1 = Inr (s1\<lparr>slab_words := W\<rparr>)"
      "\<forall>j. n + z + j * z < 4096 \<longrightarrow> W (v + of_nat (n + z + j * z)) = v + of_nat (n + z + Suc j * z)"
      "\<forall>x. (\<forall>k. n + z \<le> k \<longrightarrow> k < 4096 \<longrightarrow> x \<noteq> v + of_nat k) \<longrightarrow> W x = slab_words s1 x"
      using Suc.IH [OF a] by blast
    have run: "init_links (Suc fuel) (of_nat z) (v + of_nat n) (v + 4096) s = Inr (s\<lparr>slab_words := W\<rparr>)"
      using W(1) lt True ok by (simp add: init_links.simps write_word_def s1_def add.assoc)
    have inj: "v + of_nat j \<noteq> v + of_nat k" if "j < 4096" "k < 4096" "j \<noteq> k" for j k
    proof
      assume eq: "v + of_nat j = v + of_nat k"
      have "j < 8192" "k < 8192" using that by simp_all
      then have "unat v + j = unat v + k" using arg_cong [OF eq, of unat] u by metis
      then show False using that by simp
    qed
    have "W (v + of_nat n) = slab_words s1 (v + of_nat n)"
      using inj [of n] True z by (intro W(3) [rule_format]) auto
    then have first: "W (v + of_nat n) = v + of_nat (n + z)" by (simp add: s1_def add.assoc)
    have "W (v + of_nat (n + j * z)) = v + of_nat (n + Suc j * z)" if "n + j * z < 4096" for j
    proof (cases j)
      case 0
      then show ?thesis using first by simp
    next
      case (Suc i)
      then show ?thesis using W(2) [rule_format, of i] that by (simp add: algebra_simps)
    qed
    moreover have "W x = slab_words s x" if x: "\<forall>k. n \<le> k \<longrightarrow> k < 4096 \<longrightarrow> x \<noteq> v + of_nat k" for x
    proof -
      have "W x = slab_words s1 x" using x by (intro W(3) [rule_format]) simp
      then show ?thesis using x True by (simp add: s1_def)
    qed
    ultimately show ?thesis using run by blast
  qed
qed

lemma chain_list_map:
  assumes "\<And>j. i \<le> j \<Longrightarrow> Suc j < i + n \<Longrightarrow> w (g j) = g (Suc j)"
  shows "chain_list w n (g i) = map g [i..<i + n]"
  using assms
proof (induction n arbitrary: i)
  case 0
  then show ?case by simp
next
  case (Suc n)
  show ?case
  proof (cases n)
    case 0
    then show ?thesis by simp
  next
    case (Suc k)
    then have "w (g i) = g (Suc i)" using Suc.prems [of i] by simp
    moreover have "chain_list w n (g (Suc i)) = map g [Suc i..<Suc i + n]"
      using Suc.prems by (intro Suc.IH) simp
    ultimately show ?thesis by (simp add: upt_conv_Cons del: upt_Suc)
  qed
qed

lemma slab_filled:
  assumes v: "is_aligned v 4096" "unat v + 8192 < 2 ^ 64" and b: "b < 24" and at: "slab_at s v \<noteq> None"
  shows "\<exists>W. andthen (init_links 512 (of_nat (osize b)) (v + 48) (v + 4096) s)
      (write_word (v + 4096 - of_nat (osize b)) 0) = Inr (s\<lparr>slab_words := W\<rparr>) \<and>
    chain_list W (omax b) (v + 48) = map (obj v b) [0..<omax b] \<and>
    (\<forall>x. slab_page x \<noteq> v \<longrightarrow> W x = slab_words s x)"
proof -
  let ?z = "osize b"
  note z = osize_facts [OF b]
  have zd: "8 dvd ?z" using z(3) by (simp add: dvd_eq_mod_eq_0)
  have n0: "(48 :: nat) \<le> 48" "8 dvd (48 :: nat)" "(48 :: nat) < 4096 + 1024" "4096 \<le> 48 + 512 * ?z"
    using z by simp_all
  obtain W where W: "init_links 512 (of_nat ?z) (v + of_nat 48) (v + 4096) s = Inr (s\<lparr>slab_words := W\<rparr>)"
    "\<forall>j. 48 + j * ?z < 4096 \<longrightarrow> W (v + of_nat (48 + j * ?z)) = v + of_nat (48 + Suc j * ?z)"
    "\<forall>x. (\<forall>k. 48 \<le> k \<longrightarrow> k < 4096 \<longrightarrow> x \<noteq> v + of_nat k) \<longrightarrow> W x = slab_words s x"
    using init_links_spec [OF v z(1) zd z(2) at n0] by blast
  define e where "e = v + of_nat (4096 - ?z)"
  have e: "v + 4096 - of_nat ?z = e" using z by (simp add: e_def of_nat_diff)
  have ez: "4096 - ?z < 4096" "4096 - ?z \<le> 4088" "48 \<le> 4096 - ?z" using z by simp_all
  have pe: "slab_page e = v" "e - v = of_nat (4096 - ?z)" unfolding e_def
    using slab_page_offset [OF v(1) ez(1)] by simp_all
  have uz: "unat (of_nat (4096 - ?z) :: u64) = 4096 - ?z" using ez by (intro unat_of_nat_small) simp
  then have ok: "word_ok e (s\<lparr>slab_words := W\<rparr>)"
    using at ez unfolding word_ok_def pe word_le_nat_alt by simp
  let ?W = "W(e := 0)"
  have "?W (obj v b j) = obj v b (Suc j)" if "Suc j < omax b" for j
  proof -
    have "Suc (Suc j) * ?z \<le> omax b * ?z" using that by (intro mult_le_mono1) simp
    then have le: "48 + j * ?z + 2 * ?z \<le> 4096" using z(6) by simp
    have "unat (of_nat (48 + j * ?z) :: u64) = 48 + j * ?z" using le by (intro unat_of_nat_small) simp
    then have "unat (v + of_nat (48 + j * ?z)) = unat v + (48 + j * ?z)"
      using le aligned_add [OF v(1), of "of_nat (48 + j * ?z)"] z(1) by simp
    moreover have "unat e = unat v + (4096 - ?z)"
      using aligned_add [OF v(1), of "of_nat (4096 - ?z)"] uz ez(1) unfolding e_def by linarith
    ultimately have "obj v b j \<noteq> e" using le z(1) by (auto simp: obj_def)
    moreover have "48 + j * ?z < 4096" using le z(1) by simp
    ultimately show ?thesis using W(2) by (simp add: obj_def)
  qed
  then have "chain_list ?W (omax b) (obj v b 0) = map (obj v b) [0..<0 + omax b]"
    by (intro chain_list_map) simp
  moreover have "W x = slab_words s x" if "slab_page x \<noteq> v" for x
    using that slab_page_offset(1) [OF v(1)] by (intro W(3) [rule_format]) auto
  ultimately show ?thesis
    using W(1) ok pe(1) by (intro exI [of _ ?W]) (auto simp: e write_word_def obj_def)
qed

text \<open>The state \<open>new_slab\<close> leaves: a page mapped to a fresh frame, with the free list through all its
  objects, at the head of the free slabs of an empty bin.\<close>

definition with_slab :: "nat \<Rightarrow> u64 \<Rightarrow> u64 \<Rightarrow> (u64 \<Rightarrow> u64) \<Rightarrow> 'a slab_state_scheme \<Rightarrow> 'a slab_state_scheme" where
  "with_slab b v f W s = s\<lparr>slab_top := slab_top s + VMM_DEFAULT_PAGE_SIZE,
     slab_at := (slab_at s)(v \<mapsto> \<lparr>count_objects = 0, next_free = v + 48, next_slab = 0, prev_slab = 0,
       slab_phys = f, slab_bin = of_nat b\<rparr>),
     slab_words := W, bins := (bins s)[b := (bins s ! b)\<lparr>free_slabs := v\<rparr>]\<rparr>"

lemma new_slab_run:
  assumes b: "b < 24" and empty: "free_slabs (bins s ! b) = 0" and size: "object_size (bins s ! b) = bin_sizes ! b"
    and al: "pmm_alloc s = Inr (f, s1)" and v: "v = SLAB_VIRT_START + slab_top s"
    and mp: "vmm_map (kernel_pml4 s) f v VMM_FLAGS_KERNEL_DATA s1 = Inr s2"
    and vv: "is_aligned v 4096" "unat v + 8192 < 2 ^ 64"
  shows "\<exists>W. new_slab b s = Inr (with_slab b v f W s2) \<and>
    chain_list W (omax b) (v + 48) = map (obj v b) [0..<omax b] \<and>
    (\<forall>x. slab_page x \<noteq> v \<longrightarrow> W x = slab_words s x)"
proof -
  obtain bm where s1: "s1 = s\<lparr>pmm_bitmap := bm\<rparr>" using pmm_alloc_only [OF al] by blast
  obtain bm' m where s2: "s2 = s1\<lparr>pmm_bitmap := bm', phys_mem := m\<rparr>" using vmm_map_only [OF mp] by blast
  have sz: "ucast (object_size (bins s ! b)) = (of_nat (osize b) :: u64)"
    using ucast_osize [OF b] size by simp
  define s3 where "s3 = s2\<lparr>slab_top := slab_top s2 + VMM_DEFAULT_PAGE_SIZE, slab_at := (slab_at s2)(v \<mapsto>
     \<lparr>count_objects = 0, next_free = 0, next_slab = 0, prev_slab = 0, slab_phys = f, slab_bin = of_nat b\<rparr>)\<rparr>"
  have "slab_at s3 v \<noteq> None" by (simp add: s3_def)
  then obtain W where W: "andthen (init_links 512 (of_nat (osize b)) (v + 48) (v + 4096) s3)
      (write_word (v + 4096 - of_nat (osize b)) 0) = Inr (s3\<lparr>slab_words := W\<rparr>)"
    "chain_list W (omax b) (v + 48) = map (obj v b) [0..<omax b]" "\<forall>x. slab_page x \<noteq> v \<longrightarrow> W x = slab_words s3 x"
    using slab_filled [OF vv b] by blast
  from W(1) obtain s4 where s4: "init_links 512 (of_nat (osize b)) (v + 48) (v + 4096) s3 = Inr s4"
    "write_word (v + 4096 - of_nat (osize b)) 0 s4 = Inr (s3\<lparr>slab_words := W\<rparr>)"
    by (auto simp: andthen_eq_Inr_iff)
  have k: "kernel_pml4 s1 = kernel_pml4 s" "bins s1 = bins s" "slab_top s1 = slab_top s" "slab_top s2 = slab_top s"
    "slab_at s2 = slab_at s" "bins s2 = bins s" "slab_words s3 = slab_words s"
    by (simp_all add: s1 s2 s3_def)
  have "new_slab b s = Inr (update_bin b (\<lambda>x. x\<lparr>free_slabs := v\<rparr>) (s3\<lparr>slab_words := W, slab_at := (slab_at s3)(v \<mapsto>
     \<lparr>count_objects = 0, next_free = v + 48, next_slab = 0, prev_slab = 0, slab_phys = f, slab_bin = of_nat b\<rparr>)\<rparr>))"
    unfolding new_slab_def al using mp s4
    by (simp add: k sz v [symmetric] s3_def [symmetric] Let_def)
       (simp add: s3_def update_slab_def read_slab_def k empty put_prev_def)
  also have "\<dots> = Inr (with_slab b v f W s2)"
    by (simp add: update_bin_def with_slab_def s3_def k)
  finally show ?thesis using W(2,3) k by auto
qed

lemma as_wf_alloc:
  assumes wf: "as_wf s root" and a: "pmm_alloc s = Inr (f, s1)"
  shows "as_wf s1 root" and "phys_mem s1 = phys_mem s" and "debug s1 = debug s" and "managed_pages s1 = managed_pages s"
    and "f \<in> managed_pages s" and "\<not> page_used s f" and "is_aligned f 4096"
    and "card (free_frames s) \<le> Suc (card (free_frames s1))"
    and "\<And>q. q \<in> managed_pages s \<Longrightarrow> page_used s1 q \<longleftrightarrow> q = f \<or> page_used s q"
proof -
  note pmm = as_wf_pmm [OF wf]
  obtain bm where s1: "s1 = s\<lparr>pmm_bitmap := bm\<rparr>" using pmm_alloc_only [OF a] by blast
  show m: "phys_mem s1 = phys_mem s" "debug s1 = debug s" by (simp_all add: s1)
  show f: "f \<in> managed_pages s" "\<not> page_used s f" using pmm.alloc_page [OF pmm a] by auto
  show "is_aligned f 4096" using managed_aligned [OF pmm f(1)] .
  show mg: "managed_pages s1 = managed_pages s" using pmm.alloc_invar [OF pmm a] by simp
  show u: "page_used s1 q \<longleftrightarrow> q = f \<or> page_used s q" if "q \<in> managed_pages s" for q
    using pmm.alloc_used [OF pmm a that] .
  show "card (free_frames s) \<le> Suc (card (free_frames s1))"
    using pmm_alloc_result [OF pmm a] by (auto simp: card_Diff_singleton_if)
  show "as_wf s1 root"
    unfolding as_wf_def m using wf u pmm.alloc_invar [OF pmm a]
    by (intro conjI) (auto simp: as_wf_def)
qed

lemma new_slab_mem:
  assumes mem: "slab_mem s" and wf: "lists_wf s fl ul" and free: "4 \<le> card (free_frames s)"
    and top: "unat (slab_top s) + 4096 \<le> 2 ^ 40" and v: "v = SLAB_VIRT_START + slab_top s"
  shows "\<exists>f s1 s2. pmm_alloc s = Inr (f, s1) \<and> vmm_map (kernel_pml4 s) f v VMM_FLAGS_KERNEL_DATA s1 = Inr s2 \<and>
    is_aligned v 4096 \<and> unat v + 8192 < 2 ^ 64 \<and> unat v = unat SLAB_VIRT_START + unat (slab_top s) \<and>
    card (free_frames s) \<le> 4 + card (free_frames s2) \<and> managed_pages s2 = managed_pages s \<and>
    (\<forall>q\<in>managed_pages s. page_used s q \<longrightarrow> page_used s2 q) \<and> debug s2 = debug s \<and>
    (\<forall>W. slab_mem (with_slab b v f W s2))"
proof -
  let ?r = "slab_root s"
  note m = mem [unfolded slab_mem_def]
  have wf0: "as_wf s ?r" and t40: "unat (slab_top s) < 2 ^ 40" using m top by simp_all
  have vv: "v = SLAB_VIRT_START + of_nat (unat (slab_top s))" by (simp add: v)
  note pv = window_page [OF t40, folded vv]
  have uv: "unat v = unat SLAB_VIRT_START + unat (slab_top s)" using pv(2) .
  have al: "is_aligned v 4096"
  proof -
    have "4096 dvd unat SLAB_VIRT_START" by (simp add: SLAB_VIRT_START_def)
    then have "4096 dvd unat v" using m unfolding uv by (intro dvd_add) auto
    then show ?thesis by (simp add: is_aligned_page dvd_eq_mod_eq_0)
  qed
  have w0: "walk_entry s ?r v = None" using m t40 unfolding window_clear_def vv by blast
  have "free_frames s \<noteq> {}" using free by auto
  then obtain f s1 where a: "pmm_alloc s = Inr (f, s1)"
    using pmm_alloc_total [OF as_wf_pmm [OF wf0]] by blast
  note s1 = as_wf_alloc [OF wf0 a]
  have k: "kernel_pml4 s = phys_to_virt ?r" by (simp add: slab_root_def virt_to_phys_def phys_to_virt_def)
  have w1: "hw_walk (phys_mem s1) ?r (vidx v) = None" using w0 s1(2) by (simp add: walk_entry_def)
  then have sp: "small_path (phys_mem s1) ?r v" by (simp add: small_path_def)
  have "3 \<le> card (free_frames s1)" using s1(8) free by simp
  then obtain s2 where s2: "vmm_map (phys_to_virt ?r) f v VMM_FLAGS_KERNEL_DATA s1 = Inr s2"
    using vmm_map_total [OF s1(1) sp] s1(7) al unmapped_entry_word [OF s1(1) w1] by blast
  have P: "bit VMM_FLAGS_KERNEL_DATA 0" by (simp add: VMM_FLAGS_KERNEL_DATA_def bit_0_eq)
  note e = vmm_map_effect [OF s1(1) sp P s2]
  obtain bm where o1: "s1 = s\<lparr>pmm_bitmap := bm\<rparr>" using pmm_alloc_only [OF a] by blast
  obtain bm' mm where o2: "s2 = s1\<lparr>pmm_bitmap := bm', phys_mem := mm\<rparr>" using vmm_map_only [OF s2] by blast
  have grow: "page_used s q \<Longrightarrow> page_used s2 q" "page_used s2 f" if "q \<in> managed_pages s" for q
    using e s1(4,5,9) that unfolding tables_grow_def by auto
  have nt: "no_table s2 ?r [g]" if "g \<in> managed_pages s" "g = f \<or> page_used s g \<and> no_table s ?r [g]" for g
    unfolding no_table_def
  proof (intro allI impI)
    fix "is" t assume t: "table_path is" "table_at (phys_mem s2) ?r is = Some t"
    then have "table_at (phys_mem s) ?r is = Some t \<or> \<not> page_used s1 t"
      using e s1(2) unfolding tables_grow_def by auto
    moreover have "t \<noteq> g" if "table_at (phys_mem s) ?r is = Some t"
      using \<open>g = f \<or> _\<close> as_wf_table [OF wf0 t(1) that] s1(6) t(1) that by (auto simp: no_table_def)
    moreover have "page_used s1 g" using that s1(9) by blast
    ultimately show "t \<notin> set [g]" by auto
  qed
  have "slab_mem (with_slab b v f W s2)" for W
  proof -
    let ?s = "with_slab b v f W s2"
    have r: "slab_root ?s = ?r" by (simp add: slab_root_def with_slab_def o1 o2)
    have tp: "unat (slab_top ?s) = unat (slab_top s) + 4096"
      using top by (simp add: with_slab_def o1 o2 unat_add_small)
    have fr: "frames_of ?s = (frames_of s)(v \<mapsto> f)" by (simp add: frames_of_def with_slab_def o1 o2 fun_eq_iff)
    have c: "as_wf ?s ?r = as_wf s2 ?r" "walk_entry ?s ?r = walk_entry s2 ?r" "no_table ?s ?r = no_table s2 ?r"
      "managed_pages ?s = managed_pages s2" "page_used ?s = page_used s2"
      using as_wf_cong [of ?s s2 ?r] pmm_cong [of ?s s2] by (simp_all add: with_slab_def)
    have wk: "walk_entry s2 ?r va = (if page_of va = page_of v then Some (0, f OR VMM_FLAGS_KERNEL_DATA)
        else walk_entry s ?r va)" for va
      using e s1(2) by (simp add: walk_entry_def)
    have "window_clear ?s"
      unfolding window_clear_def r tp c wk
    proof (intro allI impI)
      fix n assume n: "unat (slab_top s) + 4096 \<le> n" "n < 2 ^ 40"
      then have "unat (slab_top s) div 4096 < n div 4096"
        using div_le_mono [OF n(1), of 4096] by simp
      then show "(if page_of (SLAB_VIRT_START + of_nat n) = page_of v then Some (0, f OR VMM_FLAGS_KERNEL_DATA)
          else walk_entry s ?r (SLAB_VIRT_START + of_nat n)) = None"
        using window_page(1) [OF n(2)] pv(1) m n by (simp add: window_clear_def)
    qed
    moreover have "backed ?s"
      unfolding backed_def r c
    proof (intro conjI allI impI)
      fix q g assume "frames_of ?s q = Some g"
      then consider "q = v" "g = f" | "q \<noteq> v" "frames_of s q = Some g" by (auto simp: fr split: if_splits)
      then have "walk_entry s2 ?r q = Some (0, g OR VMM_FLAGS_KERNEL_DATA) \<and> g \<in> managed_pages s2 \<and>
          page_used s2 g \<and> no_table s2 ?r [g]"
      proof cases
        case 1
        then show ?thesis using wk e s1(4,5) grow(2) nt [of f] by auto
      next
        case 2
        have g: "walk_entry s ?r q = Some (0, g OR VMM_FLAGS_KERNEL_DATA)" "g \<in> managed_pages s"
          "page_used s g" "no_table s ?r [g]"
          using m 2(2) by (auto simp: backed_def)
        have "page_of q \<noteq> page_of v" using g(1) w0 unfolding walk_entry_def by (auto simp: vidx_eq_iff [symmetric])
        then show ?thesis using g wk e s1(4) grow(1) nt by auto
      qed
      then show "walk_entry s2 ?r q = Some (0, g OR VMM_FLAGS_KERNEL_DATA)" "g \<in> managed_pages s2"
          "page_used s2 g" "no_table s2 ?r [g]" by blast+
    next
      have nf: "frames_of s x \<noteq> Some f" for x using m s1(6) by (auto simp: backed_def)
      fix q q' g assume "frames_of ?s q = Some g" "frames_of ?s q' = Some g"
      then show "q = q'" using m nf by (auto simp: fr backed_def split: if_splits)
    qed
    ultimately show ?thesis using m top e by (auto simp: slab_mem_def r tp c)
  qed
  moreover have "unat v + 8192 < 2 ^ 64" using top unfolding uv by (simp add: SLAB_VIRT_START_def)
  moreover have "card (free_frames s) \<le> 4 + card (free_frames s2)" using s1(8) e by simp
  ultimately show ?thesis
    using a s2 al uv e s1(3,4) grow(1) unfolding k by (intro exI [of _ f] exI [of _ s1] exI [of _ s2]) simp
qed

lemma new_slab_lists:
  assumes wf: "lists_wf s fl ul" and so: "sorted_out s fl ul" and b: "b < 24" and fl: "fl b = []"
    and v: "is_aligned v 4096" "unat v = unat SLAB_VIRT_START + unat (slab_top s)"
    and top: "unat (slab_top s) + 4096 \<le> 2 ^ 40"
    and chain: "chain_list W (omax b) (v + 48) = map (obj v b) [0..<omax b]"
    and W: "\<forall>x. slab_page x \<noteq> v \<longrightarrow> W x = slab_words s x"
    and s': "slab_at s' = (slab_at s)(v \<mapsto> \<lparr>count_objects = 0, next_free = v + 48, next_slab = 0, prev_slab = 0,
       slab_phys = f, slab_bin = of_nat b\<rparr>)" "slab_words s' = W" "slab_top s' = slab_top s + 4096"
       "bins s' = (bins s)[b := (bins s ! b)\<lparr>free_slabs := v\<rparr>]"
  shows "lists_wf s' (fl(b := [v])) ul" and "sorted_out s' (fl(b := [v])) ul" and "live s' = live s"
    and "v \<noteq> 0"
proof -
  have bb: "unat (of_nat b :: u16) = b" using b by (intro unat_of_nat_small) simp
  show v0: "v \<noteq> 0" using v(2) by (auto simp: SLAB_VIRT_START_def)
  have tp: "unat (slab_top s') = unat (slab_top s) + 4096" using top by (simp add: s' unat_add_small)
  have old: "q \<noteq> v" if "slab_ok s c q" for c q using that v(2) by (auto simp: slab_ok_def)
  have new: "slab_at s v = None"
  proof (rule ccontr)
    assume "slab_at s v \<noteq> None"
    then obtain c where "c < 24" "v \<in> set (fl c @ ul c)" using wf by (auto simp: lists_wf_def)
    then show False using old lists_wfD(6) [OF wf] by blast
  qed
  have fov: "free_objs s' v = map (obj v b) [0..<omax b]" by (simp add: free_objs_def s' bb chain)
  have pgs: "slab_page x = q" if "slab_ok s c q" "c < 24" "x \<in> set (free_objs s q)" for c q x
    using that by (auto simp: slab_ok_def grid_def slab_page_obj)
  have fo: "free_objs s' q = free_objs s q" if "q \<noteq> v" for q
  proof (cases "slab_at s q")
    case None
    then show ?thesis using that by (simp add: free_objs_def s')
  next
    case (Some g)
    obtain c where "c < 24" "slab_ok s c q" using wf Some by (rule lists_wf_member)
    then have "\<And>x. x \<in> set (free_objs s q) \<Longrightarrow> W x = slab_words s x" using W that pgs by auto
    then show ?thesis using that Some by (auto simp: free_objs_def s' intro!: chain_list_cong)
  qed
  have ok: "slab_ok s' c q" if "slab_ok s c q" for c q
    using that old [OF that] fo by (auto simp: slab_ok_def tp s'(1))
  have okv: "slab_ok s' b v"
  proof -
    have "inj_on (obj v b) {0..<omax b}" using obj_inj [OF v(1) v(1) b] by (auto intro!: inj_onI)
    then show ?thesis
      using v by (auto simp: slab_ok_def fov tp s'(1) bb distinct_map grid_def word_le_nat_alt)
  qed
  have "lists_wf s' (fl(b := [v])) (ul(b := ul b))"
  proof (rule lists_wf_update [OF wf b])
    show "bins s' = (bins s)[b := (bins s ! b)\<lparr>free_slabs := hd0 [v], full_slabs := hd0 (ul b)\<rparr>]"
      unfolding s' lists_wfD(2) [OF wf b, symmetric] by simp
    show "dll (links s') [v]" using v0 by (auto simp: links_def s' dll_def Cons_eq_append_conv)
    have u: "x \<noteq> v" if "x \<in> set (ul b)" for x using old lists_wfD(6) [OF wf b] that by auto
    then show "dll (links s') (ul b)"
      by (intro dll_cong [OF lists_wfD(4) [OF wf b]]) (auto simp: links_def s')
    show "distinct ([v] @ ul b)" using u lists_wfD(5) [OF wf b] by auto
    show "slab_ok s' b q" if "q \<in> set ([v] @ ul b)" for q
      using that okv ok lists_wfD(6) [OF wf b, of q] by auto
  next
    fix c q assume c: "c < 24" "c \<noteq> b" "q \<in> set (fl c @ ul c)"
    then have "slab_ok s c q" using lists_wfD(6) [OF wf] by blast
    then show "links s' q = links s q \<and> slab_ok s' c q" using ok old by (auto simp: links_def s')
  next
    fix q assume q: "slab_at s' q \<noteq> None"
    then show "q \<in> set ([v] @ ul b) \<or> slab_at s q \<noteq> None \<and> q \<notin> set (fl b @ ul b)"
      by (cases "q = v") (auto simp: s' fl)
  qed
  then show "lists_wf s' (fl(b := [v])) ul" by simp
  show "sorted_out s' (fl(b := [v])) ul"
    unfolding sorted_out_def
  proof (intro allI impI conjI ballI)
    fix c q assume c: "(c :: nat) < 24"
    { assume "q \<in> set ((fl(b := [v])) c)"
      then show "free_objs s' q \<noteq> []"
        using so c fo [of q] fov osize_facts(4) [OF b] by (cases "q = v") (auto simp: sorted_out_def split: if_splits) }
    { assume q: "q \<in> set (ul c)"
      then have "q \<noteq> v" using old lists_wfD(6) [OF wf c] by auto
      then show "free_objs s' q = []" using so c fo q by (auto simp: sorted_out_def) }
  qed
  have "live s' = live_others s' v"
    using live_split [of s' v] by (simp add: s'(1) fov bb grid_def atLeast0LessThan)
  also have "\<dots> = live s"
  proof -
    have "q \<noteq> v" if "slab_at s q = Some g" for q g using new that by auto
    then have "(q \<noteq> v \<and> slab_at s' q = Some g \<and> a \<in> grid q (unat (slab_bin g)) \<and> a \<notin> set (free_objs s' q)) \<longleftrightarrow>
        (slab_at s q = Some g \<and> a \<in> grid q (unat (slab_bin g)) \<and> a \<notin> set (free_objs s q))" for q g a
      using fo by (auto simp: s'(1))
    then show ?thesis unfolding live_others_def live_def by simp
  qed
  finally show "live s' = live s" .
qed

section \<open>Allocation and release\<close>

text \<open>The size of the block an object lives in, by the bin of its slab.\<close>

definition block_size :: "'a slab_state_scheme \<Rightarrow> u64 \<Rightarrow> nat" where
  "block_size s a = (case slab_at s (slab_page a) of None \<Rightarrow> 0 | Some h \<Rightarrow> osize (unat (slab_bin h)))"

lemma block_size_bin_at: "block_size s a = (case bin_at s (slab_page a) of None \<Rightarrow> 0 | Some b \<Rightarrow> osize b)"
  by (simp add: block_size_def bin_at_def split: option.split)

text \<open>Enough memory for one more slab: its frame and three page tables, and a page of the window.\<close>

definition slab_room :: "'a slab_state_scheme \<Rightarrow> bool" where
  "slab_room s \<longleftrightarrow> 4 \<le> card (free_frames s) \<and> unat (slab_top s) + 4096 \<le> 2 ^ 40"

lemma live_slab: "a \<in> live s \<Longrightarrow> lists_wf s fl ul \<Longrightarrow> bin_at s (slab_page a) \<noteq> None"
  by (erule live_page) (auto simp: bin_at_def)

lemma take_object_inv:
  assumes wf: "lists_wf s fl ul" and so: "sorted_out s fl ul" and b: "b < 24" and ne: "fl b \<noteq> []" and mem: "slab_mem s"
    and us: "\<And>p. slab_at s p \<noteq> None \<Longrightarrow> p \<noteq> hd (fl b) \<Longrightarrow> p \<in> slab_page ` live s"
  shows "\<exists>a s'. take_object b s = Inr (a, s') \<and> slab_inv s' \<and> a \<notin> live s \<and> live s' = insert a (live s) \<and>
    block_size s' a = osize b \<and> (\<forall>x. block_size s' x = block_size s x) \<and> only_slabs s s'"
proof -
  obtain a s' fl' ul' where t: "take_object b s = Inr (a, s')" "lists_wf s' fl' ul'" "sorted_out s' fl' ul'"
    "a \<in> grid (hd (fl b)) b" "a \<notin> live s" "live s' = insert a (live s)" "only_slabs s s'"
    using take_object_spec [OF wf so b ne] by blast
  have hin: "hd (fl b) \<in> set (fl b @ ul b)" using ne by simp
  have ok: "slab_ok s b (hd (fl b))" using lists_wfD(6) [OF wf b hin] .
  then have pa: "slab_page a = hd (fl b)" using t(4) b by (auto simp: grid_def slab_ok_def slab_page_obj)
  have ba: "bin_at s' = bin_at s" using t(7) by (simp add: only_slabs_def)
  have bs: "block_size s' x = block_size s x" for x by (simp add: block_size_bin_at ba)
  have at: "slab_at s' p = None \<longleftrightarrow> slab_at s p = None" for p
    using fun_cong [OF ba, of p] by (cases "slab_at s p"; cases "slab_at s' p") (auto simp: bin_at_def)
  have "slabs_used s'"
    unfolding slabs_used_def
  proof (intro allI impI)
    fix p assume "slab_at s' p \<noteq> None"
    then have "slab_at s p \<noteq> None" by (simp add: at del: not_None_eq)
    then show "p \<in> slab_page ` live s'" using us [of p] pa t(6) by (cases "p = hd (fl b)") auto
  qed
  moreover have "slab_mem s'" using only_slabs_mem(1) [OF t(7)] mem by simp
  ultimately have "slab_inv s'" using t(2,3) unfolding slab_inv_def by blast
  moreover have "block_size s a = osize b" using ok pa by (auto simp: block_size_def slab_ok_def)
  ultimately show ?thesis using t bs by auto
qed

lemma bin_alloc_spec:
  assumes inv: "slab_inv s" and room: "slab_room s" and b: "unat i < 24"
  shows "\<exists>a s'. bin_alloc i s = Inr (a, s') \<and> slab_inv s' \<and> a \<notin> live s \<and> live s' = insert a (live s) \<and>
    block_size s' a = osize (unat i) \<and> (\<forall>x\<in>live s. block_size s' x = block_size s x)"
proof -
  let ?b = "unat i"
  from inv obtain fl ul where wf: "lists_wf s fl ul" and so: "sorted_out s fl ul" and mem: "slab_mem s"
    and us: "slabs_used s" by (auto simp: slab_inv_def)
  have len: "length (bins s) = 24" and bin: "object_size (bins s ! ?b) = bin_sizes ! ?b"
    using wf b by (simp_all add: lists_wf_def bins_ok_def)
  have hd: "free_slabs (bins s ! ?b) = hd0 (fl ?b)" using lists_wfD(1) [OF wf b] .
  have top: "unat (slab_top s) + 4096 \<le> 2 ^ 40" and fr: "4 \<le> card (free_frames s)"
    using room by (simp_all add: slab_room_def)
  have "\<not> SLAB_VIRT_END - VMM_DEFAULT_PAGE_SIZE \<le> slab_top s"
    using top by (simp add: word_le_nat_alt SLAB_VIRT_END_def SLAB_VIRT_START_def)
  then have run: "bin_alloc i s = andthen (if free_slabs (bins s ! ?b) = 0 then new_slab ?b s else Inr s) (take_object ?b)"
    using b len by (simp add: bin_alloc_def when_debug_def panic_if_def)
  show ?thesis
  proof (cases "fl ?b = []")
    case False
    then have "free_slabs (bins s ! ?b) \<noteq> 0"
      using hd dll_nonnull [OF lists_wfD(3) [OF wf b]] hd0_in [of "fl ?b"] by (cases "fl ?b") auto
    moreover obtain a s' where "take_object ?b s = Inr (a, s')" "slab_inv s'" "a \<notin> live s" "live s' = insert a (live s)"
      "block_size s' a = osize ?b" "\<forall>x. block_size s' x = block_size s x"
      using take_object_inv [OF wf so b False mem] us unfolding slabs_used_def by blast
    ultimately show ?thesis using run by auto
  next
    case True
    define v where "v = SLAB_VIRT_START + slab_top s"
    obtain f s1 s2 where n: "pmm_alloc s = Inr (f, s1)" "vmm_map (kernel_pml4 s) f v VMM_FLAGS_KERNEL_DATA s1 = Inr s2"
      "is_aligned v 4096" "unat v + 8192 < 2 ^ 64" "unat v = unat SLAB_VIRT_START + unat (slab_top s)"
      "\<And>W. slab_mem (with_slab ?b v f W s2)"
      using new_slab_mem [OF mem wf fr top v_def, of ?b] by blast
    have e: "free_slabs (bins s ! ?b) = 0" using hd True by simp
    obtain W where W: "new_slab ?b s = Inr (with_slab ?b v f W s2)"
      "chain_list W (omax ?b) (v + 48) = map (obj v ?b) [0..<omax ?b]" "\<forall>x. slab_page x \<noteq> v \<longrightarrow> W x = slab_words s x"
      using new_slab_run [OF b e bin n(1) v_def n(2-4)] by blast
    obtain bm where o1: "s1 = s\<lparr>pmm_bitmap := bm\<rparr>" using pmm_alloc_only [OF n(1)] by blast
    obtain bm' mm where o2: "s2 = s1\<lparr>pmm_bitmap := bm', phys_mem := mm\<rparr>" using vmm_map_only [OF n(2)] by blast
    let ?s = "with_slab ?b v f W s2"
    note l = new_slab_lists [OF wf so b True n(3,5) top W(2,3), of ?s f]
    have l': "lists_wf ?s (fl(?b := [v])) ul" "sorted_out ?s (fl(?b := [v])) ul" "live ?s = live s"
      by (rule l; simp add: with_slab_def o1 o2)+
    have us': "\<And>p. slab_at ?s p \<noteq> None \<Longrightarrow> p \<noteq> hd ((fl(?b := [v])) ?b) \<Longrightarrow> p \<in> slab_page ` live ?s"
      using us unfolding l'(3) slabs_used_def by (simp add: with_slab_def o1 o2 del: not_None_eq)
    have ne: "(fl(?b := [v])) ?b \<noteq> []" by simp
    obtain a s' where t: "take_object ?b ?s = Inr (a, s')" "slab_inv s'" "a \<notin> live ?s" "live s' = insert a (live ?s)"
      "block_size s' a = osize ?b" "\<forall>x. block_size s' x = block_size ?s x"
      using take_object_inv [OF l'(1,2) b ne n(6) us'] by blast
    have "block_size ?s x = block_size s x" if xl: "x \<in> live s" for x
    proof -
      have "slab_page x \<noteq> v"
      proof
        assume "slab_page x = v"
        moreover obtain h where "slab_at s (slab_page x) = Some h" using wf xl by (rule live_page)
        ultimately have "slab_at s v = Some h" by simp
        with wf obtain c where "slab_ok s c v" by (rule lists_wf_member)
        then show False using n(5) by (simp add: slab_ok_def)
      qed
      then show ?thesis by (simp add: block_size_def with_slab_def o1 o2)
    qed
    then show ?thesis using run e W(1) t l'(3) by auto
  qed
qed

lemma live_on_page:
  assumes wf: "lists_wf s fl ul" and h: "slab_at s p = Some h" and n: "count_objects h \<noteq> 0"
  shows "p \<in> slab_page ` live s"
proof -
  obtain c where c: "c < 24" and ok: "slab_ok s c p" and b: "unat (slab_bin h) = c" and al: "is_aligned p 4096"
    using wf h by (rule lists_wf_member)
  have d: "distinct (free_objs s p)" "unat (count_objects h) \<le> omax c" using ok h by (auto simp: slab_ok_def)
  have "0 < unat (count_objects h)" using n by (simp add: unat_gt_0)
  then have "card (set (free_objs s p)) < card (grid p c)"
    using d h b card_grid [OF al c] by (simp add: distinct_card free_objs_def)
  then have "\<not> grid p c \<subseteq> set (free_objs s p)" by (meson card_mono leD List.finite_set)
  then obtain a where a: "a \<in> grid p c" "a \<notin> set (free_objs s p)" by blast
  then have "a \<in> live s" using h b by (auto simp: live_def)
  moreover have "slab_page a = p" using a(1) c al by (auto simp: grid_def slab_page_obj)
  ultimately show ?thesis by blast
qed

lemma bin_free_spec:
  assumes inv: "slab_inv s" and a: "a \<in> live s"
  shows "\<exists>s'. bin_free a s = Inr s' \<and> slab_inv s' \<and> live s' = live s - {a} \<and>
    (\<forall>x\<in>live s'. block_size s' x = block_size s x)"
proof -
  let ?p = "slab_page a"
  from inv obtain fl ul where wf: "lists_wf s fl ul" and so: "sorted_out s fl ul" and mem: "slab_mem s"
    and us: "slabs_used s" by (auto simp: slab_inv_def)
  obtain s1 fl1 ul1 b h1 where f: "bin_free a s = (if count_objects h1 = 0 then release_slab b ?p s1 else Inr s1)"
    "lists_wf s1 fl1 ul1" "sorted_out s1 fl1 ul1" "live s1 = live s - {a}" "only_slabs s s1"
    "b < 24" "?p \<in> set (fl1 b)" "slab_at s1 ?p = Some h1"
    using bin_free_front [OF wf so mem a] by blast
  have mem1: "slab_mem s1" using only_slabs_mem(1) [OF f(5)] mem by simp
  have ba: "bin_at s1 = bin_at s" using f(5) by (simp add: only_slabs_def)
  have bs1: "block_size s1 x = block_size s x" for x by (simp add: block_size_bin_at ba)
  have us1: "q \<in> slab_page ` live s1" if "slab_at s1 q \<noteq> None" "q \<noteq> ?p" for q
  proof -
    have "slab_at s q \<noteq> None"
      using that(1) fun_cong [OF ba, of q] by (cases "slab_at s q") (auto simp: bin_at_def)
    then have "q \<in> slab_page ` live s" using us unfolding slabs_used_def by blast
    then show ?thesis using that(2) f(4) by auto
  qed
  show ?thesis
  proof (cases "count_objects h1 = 0")
    case False
    have "slabs_used s1"
      unfolding slabs_used_def using us1 live_on_page [OF f(2,8) False] by blast
    then have "slab_inv s1" using mem1 f(2,3) unfolding slab_inv_def by blast
    then show ?thesis using f(1,4) False bs1 by simp
  next
    case True
    obtain s' fl' where r: "release_slab b ?p s1 = Inr s'" "lists_wf s' fl' ul1" "sorted_out s' fl' ul1"
      "live s' = live s1" "slab_mem s'" "slab_at s' ?p = None" "\<And>q. q \<noteq> ?p \<Longrightarrow> bin_at s' q = bin_at s1 q"
      using release_slab_spec [OF mem1 f(2,3,6-8) True] by blast
    have np: "slab_page x \<noteq> ?p" if xl: "x \<in> live s'" for x
    proof
      assume e: "slab_page x = ?p"
      obtain h where "slab_at s' (slab_page x) = Some h" using r(2) xl by (rule live_page)
      then show False using r(6) e by simp
    qed
    have "slabs_used s'"
      unfolding slabs_used_def
    proof (intro allI impI)
      fix q assume q: "slab_at s' q \<noteq> None"
      then have "q \<noteq> ?p" using r(6) by auto
      moreover have "slab_at s1 q \<noteq> None"
        using q r(7) [OF \<open>q \<noteq> ?p\<close>] by (cases "slab_at s1 q") (auto simp: bin_at_def)
      ultimately show "q \<in> slab_page ` live s'" using us1 r(4) by simp
    qed
    then have "slab_inv s'" using r(2,3,5) unfolding slab_inv_def by blast
    moreover have "block_size s' x = block_size s x" if "x \<in> live s'" for x
      using np [OF that] r(7) by (simp add: block_size_bin_at ba)
    ultimately show ?thesis using f(1,4) True r(1,4) by auto
  qed
qed

text \<open>The blocks of live objects do not overlap.\<close>

lemma live_disjoint:
  assumes inv: "slab_inv s" and x: "x \<in> live s" and y: "y \<in> live s" and ne: "x \<noteq> y"
  shows "unat x + block_size s x \<le> unat y \<or> unat y + block_size s y \<le> unat x"
proof -
  from inv obtain fl ul where wf: "lists_wf s fl ul" by (auto simp: slab_inv_def)
  have pos: "\<exists>p b i. slab_page a = p \<and> bin_at s p = Some b \<and> b < 24 \<and> i < omax b \<and> is_aligned p 4096 \<and>
      unat a = unat p + 48 + i * osize b \<and> block_size s a = osize b \<and> 48 + i * osize b + osize b \<le> 4096"
    if al: "a \<in> live s" for a
  proof -
    obtain h b where h: "slab_at s (slab_page a) = Some h" "unat (slab_bin h) = b" "b < 24"
      "slab_page a \<in> set (fl b @ ul b)" "a \<in> grid (slab_page a) b"
      using wf al by (rule live_page)
    have ai: "is_aligned (slab_page a) 4096" using lists_wfD(6) [OF wf h(3,4)] by (simp add: slab_ok_def)
    obtain i where i: "i < omax b" "a = obj (slab_page a) b i" using h(5) by (auto simp: grid_def)
    note o = obj_offset [OF h(3) i(1)]
    have "unat (of_nat (48 + i * osize b) :: u64) = 48 + i * osize b"
      using o osize_facts(1) [OF h(3)] by (intro unat_of_nat_small) simp
    then have "unat (obj (slab_page a) b i) = unat (slab_page a) + 48 + i * osize b"
      using aligned_add [OF ai, of "of_nat (48 + i * osize b)"] o osize_facts(1) [OF h(3)] by (simp add: obj_def)
    then have "unat a = unat (slab_page a) + 48 + i * osize b" using i(2) by simp
    then show ?thesis using h i(1) ai o by (auto simp: bin_at_def block_size_def)
  qed
  obtain p b i where X: "bin_at s p = Some b" "b < 24" "is_aligned p 4096"
    "unat x = unat p + 48 + i * osize b" "block_size s x = osize b" "48 + i * osize b + osize b \<le> 4096"
    using pos [OF x] by blast
  obtain q c j where Y: "bin_at s q = Some c" "c < 24" "is_aligned q 4096"
    "unat y = unat q + 48 + j * osize c" "block_size s y = osize c" "48 + j * osize c + osize c \<le> 4096"
    using pos [OF y] by blast
  show ?thesis
  proof (cases "p = q")
    case True
    then have bc: "b = c" using X(1) Y(1) by simp
    have "i \<noteq> j" using ne X(4) Y(4) True bc by (auto simp: word_unat_eq_iff)
    then have "Suc i \<le> j \<or> Suc j \<le> i" by auto
    then have "Suc i * osize b \<le> j * osize b \<or> Suc j * osize b \<le> i * osize b"
      using mult_le_mono1 by blast
    then show ?thesis using X Y True bc by auto
  next
    case False
    obtain m n where mn: "unat p = 4096 * m" "unat q = 4096 * n"
      using X(3) Y(3) by (auto simp: is_aligned_page elim!: dvdE)
    have "m \<noteq> n" using False mn by (auto simp: word_unat_eq_iff)
    then have "m + 1 \<le> n \<or> n + 1 \<le> m" by auto
    then show ?thesis using X(4-6) Y(4-6) mn by (elim disjE) linarith+
  qed
qed

section \<open>The heap as an interface\<close>

text \<open>
  What the rest of the kernel relies on: an allocation yields a fresh object whose block holds
  the requested bytes and overlaps no other block, and leaves the others alone; releasing a live
  object succeeds and takes exactly that object away.
\<close>

locale object_heap =
  fixes alloc :: "u64 \<Rightarrow> 's \<Rightarrow> (u64 \<times> 's) kres"
    and release :: "u64 \<Rightarrow> 's \<Rightarrow> 's kres"
    and objs :: "'s \<Rightarrow> u64 set"
    and size_of :: "'s \<Rightarrow> u64 \<Rightarrow> nat"
    and good :: "u64 \<Rightarrow> bool"
    and room :: "'s \<Rightarrow> bool"
    and invar :: "'s \<Rightarrow> bool"
  assumes alloc_ok: "invar s \<Longrightarrow> room s \<Longrightarrow> good n \<Longrightarrow>
      \<exists>a s'. alloc n s = Inr (a, s') \<and> invar s' \<and> a \<notin> objs s \<and> objs s' = insert a (objs s) \<and>
        unat n \<le> size_of s' a \<and> (\<forall>x\<in>objs s. size_of s' x = size_of s x)"
    and release_ok: "invar s \<Longrightarrow> a \<in> objs s \<Longrightarrow>
      \<exists>s'. release a s = Inr s' \<and> invar s' \<and> objs s' = objs s - {a} \<and>
        (\<forall>x\<in>objs s'. size_of s' x = size_of s x)"
    and disjoint: "invar s \<Longrightarrow> x \<in> objs s \<Longrightarrow> y \<in> objs s \<Longrightarrow> x \<noteq> y \<Longrightarrow>
      unat x + size_of s x \<le> unat y \<or> unat y + size_of s y \<le> unat x"
begin

lemma alloc_apart:
  assumes "invar s" and "room s" and "good n"
  shows "\<exists>a s'. alloc n s = Inr (a, s') \<and> invar s' \<and> a \<notin> objs s \<and> objs s' = insert a (objs s) \<and>
    unat n \<le> size_of s' a \<and> (\<forall>x\<in>objs s. size_of s' x = size_of s x \<and>
      (unat x + size_of s x \<le> unat a \<or> unat a + unat n \<le> unat x))"
proof -
  obtain a s' where a: "alloc n s = Inr (a, s')" "invar s'" "a \<notin> objs s" "objs s' = insert a (objs s)"
    "unat n \<le> size_of s' a" "\<forall>x\<in>objs s. size_of s' x = size_of s x"
    using alloc_ok [OF assms] by blast
  have "unat x + size_of s x \<le> unat a \<or> unat a + unat n \<le> unat x" if "x \<in> objs s" for x
    using disjoint [OF a(2), of x a] a that by fastforce
  then show ?thesis using a by blast
qed

lemma alloc_release:
  assumes "invar s" and "room s" and "good n"
  shows "\<exists>a s' s''. alloc n s = Inr (a, s') \<and> release a s' = Inr s'' \<and> invar s'' \<and> objs s'' = objs s \<and>
    (\<forall>x\<in>objs s. size_of s'' x = size_of s x)"
proof -
  obtain a s' where a: "alloc n s = Inr (a, s')" "invar s'" "a \<notin> objs s" "objs s' = insert a (objs s)"
    "\<forall>x\<in>objs s. size_of s' x = size_of s x"
    using alloc_ok [OF assms] by blast
  moreover obtain s'' where "release a s' = Inr s''" "invar s''" "objs s'' = objs s' - {a}"
    "\<forall>x\<in>objs s''. size_of s'' x = size_of s' x"
    using release_ok [OF a(2), of a] a(4) by auto
  ultimately show ?thesis by auto
qed

lemma release_list:
  assumes "invar s" and "set xs \<subseteq> objs s" and "distinct xs"
  shows "\<exists>s'. foldM release xs s = Inr s' \<and> invar s' \<and> objs s' = objs s - set xs"
  using assms
proof (induction xs arbitrary: s)
  case Nil
  then show ?case by simp
next
  case (Cons x xs)
  then obtain t where t: "release x s = Inr t" "invar t" "objs t = objs s - {x}"
    using release_ok [of s x] by auto
  have "set xs \<subseteq> objs t" using Cons.prems t(3) by auto
  then obtain s' where "foldM release xs t = Inr s'" "invar s'" "objs s' = objs t - set xs"
    using Cons.IH [OF t(2)] Cons.prems by auto
  then show ?case using t by auto
qed

end

fun first_fit :: "u16 \<Rightarrow> u32 list \<Rightarrow> u64 \<Rightarrow> u16 option" where
  "first_fit i [] n = None"
| "first_fit i (z # zs) n = (if n \<le> ucast z then Some i else first_fit (i + 1) zs n)"

lemma kmalloc_bin_unfold: "kmalloc_bin n = first_fit 0 bin_sizes n"
  by (simp add: kmalloc_bin_def bin_sizes_def)

lemma first_fit_Some:
  assumes "first_fit i zs n = Some b" and "unat i + length zs < 2 ^ 16"
  shows "unat i \<le> unat b \<and> unat b < unat i + length zs \<and> n \<le> ucast (zs ! (unat b - unat i)) \<and>
    (\<forall>j < unat b - unat i. ucast (zs ! j) < n)"
  using assms
proof (induction zs arbitrary: i)
  case (Cons z zs)
  show ?case
  proof (cases "n \<le> ucast z")
    case False
    have i: "unat (i + 1) = Suc (unat i)" using Cons.prems(2) by (simp add: unat_add_small)
    then have IH: "Suc (unat i) \<le> unat b \<and> unat b < Suc (unat i) + length zs \<and>
        n \<le> ucast (zs ! (unat b - Suc (unat i))) \<and> (\<forall>j < unat b - Suc (unat i). ucast (zs ! j) < n)"
      using Cons.IH [of "i + 1"] Cons.prems False by simp
    then have "Suc (unat i) \<le> unat b" by blast
    then have e: "unat b - unat i = Suc (unat b - Suc (unat i))" by linarith
    have "ucast ((z # zs) ! j) < n" if "j < unat b - unat i" for j
      using that IH False unfolding e by (cases j) auto
    then show ?thesis using IH e by simp
  qed (use Cons.prems in simp)
qed simp

lemma first_fit_None: "first_fit i zs n = None \<longleftrightarrow> (\<forall>z\<in>set zs. ucast z < n)"
  by (induction zs arbitrary: i) auto

definition kmalloc_ok :: "u64 \<Rightarrow> bool" where
  "kmalloc_ok n \<longleftrightarrow> 0 < n \<and> n \<le> 1024"

lemma kmalloc_ok_bin:
  assumes "kmalloc_ok n"
  shows "\<exists>b. kmalloc_bin n = Some b \<and> unat b < 24 \<and> unat n \<le> osize (unat b)"
proof -
  have "(1024 :: u32) \<in> set bin_sizes" "\<not> ucast (1024 :: u32) < n"
    using assms by (simp_all add: bin_sizes_def kmalloc_ok_def not_less)
  then have "first_fit 0 bin_sizes n \<noteq> None" unfolding first_fit_None by blast
  then obtain b where b: "first_fit 0 bin_sizes n = Some b" by blast
  have "unat b < 24" "n \<le> ucast (bin_sizes ! unat b)"
    using first_fit_Some [OF b] by (simp_all add: length_bin_sizes)
  then have "unat n \<le> unat (of_nat (osize (unat b)) :: u64)"
    unfolding word_le_nat_alt ucast_osize [OF \<open>unat b < 24\<close>] by simp
  also have "\<dots> = osize (unat b)"
    using osize_facts(2) [OF \<open>unat b < 24\<close>] by (intro unat_of_nat_small) simp
  finally have "unat n \<le> osize (unat b)" .
  then show ?thesis using b \<open>unat b < 24\<close> by (auto simp: kmalloc_bin_unfold)
qed

interpretation heap: object_heap kmalloc kfree live block_size kmalloc_ok slab_room slab_inv
proof (unfold_locales, goal_cases)
  case (1 s n)
  obtain b where b: "kmalloc_bin n = Some b" "unat b < 24" "unat n \<le> osize (unat b)"
    using kmalloc_ok_bin [OF 1(3)] by blast
  have "n \<noteq> 0" using 1(3) by (auto simp: kmalloc_ok_def)
  then have "kmalloc n s = bin_alloc b s" using b(1) by (simp add: kmalloc_def panic_if_def)
  then show ?case using bin_alloc_spec [OF 1(1,2) b(2)] b(3) by auto
next
  case (2 s a)
  then show ?case using bin_free_spec by (simp add: kfree_def)
next
  case (3 s x y)
  then show ?case by (rule live_disjoint)
qed

section \<open>Properties\<close>

lemma slab_inv_initial:
  assumes wf: "as_wf s (slab_root s)" and clear: "\<And>n. n < 2 ^ 40 \<Longrightarrow> walk_entry s (slab_root s) (SLAB_VIRT_START + of_nat n) = None"
    and s: "bins s = initial_bins" "slab_top s = 0" "slab_at s = (\<lambda>_. None)"
  shows "slab_inv s" and "live s = {}"
proof -
  have len: "length initial_bins = 24" by (simp add: initial_bins_def bin_sizes_def)
  have i: "free_slabs (initial_bins ! b) = 0" "full_slabs (initial_bins ! b) = 0"
    "object_size (initial_bins ! b) = bin_sizes ! b"
    "max_objects (initial_bins ! b) = (4096 - ucast sizeof_SlabHeader) div (bin_sizes ! b)" if "b < 24" for b
    using that len by (simp_all add: initial_bins_def length_bin_sizes)
  have "unat (max_objects (initial_bins ! b)) = omax b" if "b < 24" for b
    unfolding i(4) [OF that] omax_def osize_def unat_div by simp
  then have "bins_ok s" using i(3) len by (simp add: bins_ok_def s)
  then have "lists_wf s (\<lambda>_. []) (\<lambda>_. [])" using i by (simp add: lists_wf_def s dll_def)
  moreover have "sorted_out s (\<lambda>_. []) (\<lambda>_. [])" by (simp add: sorted_out_def)
  moreover have "slab_mem s"
    using wf clear by (simp add: slab_mem_def backed_def window_clear_def frames_of_def s)
  moreover have "slabs_used s" by (simp add: slabs_used_def s)
  ultimately show "slab_inv s" unfolding slab_inv_def by blast
  show "live s = {}" by (simp add: live_def s)
qed

definition slab_example :: slab_state where
  "slab_example = vmm.extend vmm_example \<lparr>kernel_pml4 = phys_to_virt 0, bins = initial_bins, slab_top = 0,
     slab_at = \<lambda>_. None, slab_words = \<lambda>_. 0\<rparr>"

lemma slab_example_inv: "slab_inv slab_example" "live slab_example = {}" "slab_room slab_example"
proof -
  have r: "slab_root slab_example = 0"
    by (simp add: slab_root_def slab_example_def vmm.defs phys_to_virt_def virt_to_phys_def)
  have f: "pmm_bitmap slab_example = pmm_bitmap vmm_example" "pmm_bitmap_size slab_example = pmm_bitmap_size vmm_example"
    "phys_mem slab_example = phys_mem vmm_example"
    by (simp_all add: slab_example_def vmm.defs)
  note c = pmm_cong [OF f(1,2)]
  have w: "as_wf slab_example 0" "hw_walk (phys_mem slab_example) 0 (vidx va) = None" for va
    using as_wf_empty [of slab_example 0] vmm_example_pmm unfolding c f(3) by simp_all
  have e: "bins slab_example = initial_bins" "slab_top slab_example = 0" "slab_at slab_example = (\<lambda>_. None)"
    by (simp_all add: slab_example_def vmm.defs)
  show "slab_inv slab_example" "live slab_example = {}"
    by (rule slab_inv_initial [OF _ _ e]; simp add: r w walk_entry_def)+
  show "slab_room slab_example" using vmm_example_card by (simp add: slab_room_def c e)
qed

text \<open>C2: For every size from 1 to 1024 bytes, with memory for one more slab, \<^verbatim>\<open>kmalloc\<close> returns: the address it
  returns was not in use, its block holds the requested bytes and overlaps the block of no object in use,
  the objects in use before stay in use with their sizes, and the invariant of the allocator holds again.\<close>
theorem kmalloc_correct:
  assumes "slab_inv s" and "slab_room s" and "0 < n" and "n \<le> 1024"
  shows "\<exists>a s'. kmalloc n s = Inr (a, s') \<and> slab_inv s' \<and> a \<notin> live s \<and> live s' = insert a (live s) \<and>
    unat n \<le> block_size s' a \<and> (\<forall>x\<in>live s. block_size s' x = block_size s x \<and>
      (unat x + block_size s x \<le> unat a \<or> unat a + unat n \<le> unat x))"
  using assms by (intro heap.alloc_apart) (simp_all add: kmalloc_ok_def)

theorem kmalloc_correct_witness:
  "\<exists>a s'. kmalloc 100 slab_example = Inr (a, s') \<and> live s' = {a} \<and> 100 \<le> block_size s' a"
proof -
  have "(0 :: u64) < 100" "(100 :: u64) \<le> 1024" by simp_all
  from kmalloc_correct [OF slab_example_inv(1,3) this] show ?thesis
    by (auto simp: slab_example_inv(2))
qed

text \<open>C8: Releasing an object in use with \<^verbatim>\<open>kfree\<close> succeeds, whether its slab was full, stays partly used or
  becomes empty (and is then unmapped and its frame freed): exactly that object leaves the set of objects in
  use, the others keep their blocks and the invariant holds again.\<close>
theorem kfree_correct:
  assumes "slab_inv s" and "a \<in> live s"
  shows "\<exists>s'. kfree a s = Inr s' \<and> slab_inv s' \<and> live s' = live s - {a} \<and>
    (\<forall>x\<in>live s'. block_size s' x = block_size s x)"
  using assms by (rule heap.release_ok)

theorem kfree_correct_witness:
  "\<exists>a s' s''. kmalloc 24 slab_example = Inr (a, s') \<and> kfree a s' = Inr s'' \<and> live s'' = {}"
proof -
  have "kmalloc_ok 24" by (simp add: kmalloc_ok_def)
  from heap.alloc_ok [OF slab_example_inv(1,3) this] obtain a s' where
    a: "kmalloc 24 slab_example = Inr (a, s')" "slab_inv s'" "live s' = {a}"
    by (auto simp: slab_example_inv(2))
  from kfree_correct [OF a(2), of a] a show ?thesis by auto
qed

text \<open>Allocating and releasing at once leaves the set of objects in use and their blocks as they were.\<close>
theorem kmalloc_kfree_roundtrip:
  assumes "slab_inv s" and "slab_room s" and "0 < n" and "n \<le> 1024"
  shows "\<exists>a s' s''. kmalloc n s = Inr (a, s') \<and> kfree a s' = Inr s'' \<and> slab_inv s'' \<and> live s'' = live s \<and>
    (\<forall>x\<in>live s. block_size s'' x = block_size s x)"
  using assms by (intro heap.alloc_release) (simp_all add: kmalloc_ok_def)

theorem kmalloc_kfree_roundtrip_witness:
  "\<exists>a s' s''. kmalloc 1024 slab_example = Inr (a, s') \<and> kfree a s' = Inr s'' \<and> live s'' = {}"
proof -
  have "(0 :: u64) < 1024" "(1024 :: u64) \<le> 1024" by simp_all
  from kmalloc_kfree_roundtrip [OF slab_example_inv(1,3) this] show ?thesis
    by (auto simp: slab_example_inv(2))
qed

text \<open>The bin \<^verbatim>\<open>kmalloc\<close> chooses with its chain of comparisons is the first of the table of object
  sizes whose objects hold the request: the smallest size class that fits.\<close>
theorem kmalloc_bin_first_fit:
  "kmalloc_bin n = first_fit 0 bin_sizes n \<and>
   (\<forall>b. kmalloc_bin n = Some b \<longrightarrow>
     unat b < 24 \<and> n \<le> ucast (bin_sizes ! unat b) \<and> (\<forall>c < unat b. ucast (bin_sizes ! c) < n))"
  using first_fit_Some [of 0 bin_sizes n] by (simp add: kmalloc_bin_unfold length_bin_sizes)

theorem kmalloc_bin_first_fit_witness:
  "kmalloc_bin 100 = Some 10 \<and> 100 \<le> (ucast (bin_sizes ! 10) :: u64) \<and> ucast (bin_sizes ! 9) < (100 :: u64)"
proof -
  have b: "kmalloc_bin 100 = Some 10" by (simp add: kmalloc_bin_def)
  have "\<forall>b. kmalloc_bin 100 = Some b \<longrightarrow>
     unat b < 24 \<and> (100 :: u64) \<le> ucast (bin_sizes ! unat b) \<and> (\<forall>c < unat b. ucast (bin_sizes ! c) < (100 :: u64))"
    using kmalloc_bin_first_fit by blast
  from spec [OF this, of 10] b have "(100 :: u64) \<le> ucast (bin_sizes ! unat (10 :: u16))"
    "\<forall>c < unat (10 :: u16). ucast (bin_sizes ! c) < (100 :: u64)" by blast+
  then show ?thesis using b by simp
qed



end
