(* ===== verification/Io.thy ===== *)
theory Io
  imports Prelude
begin

text \<open>
  Port input and output (kernel/common/io.c, boot/stage2/stage2_io.c). The devices behind the
  ports are not part of the program: a device is a pair of functions that give the byte or word
  read from a port after a history of accesses. A driver is a function of the device and of the
  history so far; its result is \<open>None\<close> when it never returns, which only a polling loop can do,
  and otherwise the value it returns with the extended history.
\<close>

unbundle bit_operations_syntax

datatype io_event = InB u16 u8 | InW u16 u16 | OutB u16 u8 | OutW u16 u16

type_synonym io_hist = "io_event list"

record io_device =
  dev_inb :: "io_hist \<Rightarrow> u16 \<Rightarrow> u8"
  dev_inw :: "io_hist \<Rightarrow> u16 \<Rightarrow> u16"

type_synonym 'a io = "io_device \<Rightarrow> io_hist \<Rightarrow> ('a \<times> io_hist) option"

definition ret :: "'a \<Rightarrow> 'a io" where
  "ret x = (\<lambda>d h. Some (x, h))"

definition bind_io :: "'a io \<Rightarrow> ('a \<Rightarrow> 'b io) \<Rightarrow> 'b io" where
  "bind_io m f = (\<lambda>d h. case m d h of None \<Rightarrow> None | Some (x, h') \<Rightarrow> f x d h')"

definition then_io :: "'a io \<Rightarrow> 'b io \<Rightarrow> 'b io" where
  "then_io m k = bind_io m (\<lambda>_. k)"

definition io_inb :: "u16 \<Rightarrow> u8 io" where
  "io_inb port = (\<lambda>d h. let v = dev_inb d h port in Some (v, h @ [InB port v]))"

definition io_inw :: "u16 \<Rightarrow> u16 io" where
  "io_inw port = (\<lambda>d h. let v = dev_inw d h port in Some (v, h @ [InW port v]))"

definition io_outb :: "u16 \<Rightarrow> u8 \<Rightarrow> unit io" where
  "io_outb port v = (\<lambda>d h. Some ((), h @ [OutB port v]))"

definition io_outw :: "u16 \<Rightarrow> u16 \<Rightarrow> unit io" where
  "io_outw port v = (\<lambda>d h. Some ((), h @ [OutW port v]))"

fun seq_io :: "unit io list \<Rightarrow> unit io" where
  "seq_io [] = ret ()"
| "seq_io (m # ms) = then_io m (seq_io ms)"

text \<open>\<^verbatim>\<open>for (i = 0; i < n; i++) xs[i] = m\<close>\<close>

fun replicate_io :: "nat \<Rightarrow> 'a io \<Rightarrow> 'a list io" where
  "replicate_io 0 m = ret []"
| "replicate_io (Suc n) m = bind_io m (\<lambda>x. bind_io (replicate_io n m) (\<lambda>xs. ret (x # xs)))"

text \<open>\<^verbatim>\<open>while (!ok(v = inb(port)));\<close>\<close>

partial_function (option) poll_inb :: "u16 \<Rightarrow> (u8 \<Rightarrow> bool) \<Rightarrow> u8 io" where
  "poll_inb port ok d h =
     (let v = dev_inb d h port; h' = h @ [InB port v] in
      if ok v then Some (v, h') else poll_inb port ok d h')"

section \<open>Running drivers\<close>

lemma ret_apply [simp]: "ret x d h = Some (x, h)"
  by (simp add: ret_def)

lemma bind_io_Some [simp]: "m d h = Some (x, h') \<Longrightarrow> bind_io m f d h = f x d h'"
  by (simp add: bind_io_def)

lemma then_io_Some [simp]: "m d h = Some (x, h') \<Longrightarrow> then_io m k d h = k d h'"
  by (simp add: then_io_def bind_io_def)

lemma io_outb_apply [simp]: "io_outb p v d h = Some ((), h @ [OutB p v])"
  by (simp add: io_outb_def)

lemma io_inb_apply [simp]: "io_inb p d h = Some (dev_inb d h p, h @ [InB p (dev_inb d h p)])"
  by (simp add: io_inb_def Let_def)

lemma io_inw_apply [simp]: "io_inw p d h = Some (dev_inw d h p, h @ [InW p (dev_inw d h p)])"
  by (simp add: io_inw_def Let_def)

lemma bind_io_eq_Some: "bind_io m f d h = Some (y, h'') \<longleftrightarrow> (\<exists>x h'. m d h = Some (x, h') \<and> f x d h' = Some (y, h''))"
  by (auto simp: bind_io_def split: option.splits)

text \<open>\<open>reads d p n h\<close> is the history after \<open>n\<close> more reads of a port.\<close>

fun reads :: "io_device \<Rightarrow> u16 \<Rightarrow> nat \<Rightarrow> io_hist \<Rightarrow> io_hist" where
  "reads d p 0 h = h"
| "reads d p (Suc n) h = reads d p n (h @ [InB p (dev_inb d h p)])"

definition becomes_ready :: "io_device \<Rightarrow> u16 \<Rightarrow> (u8 \<Rightarrow> bool) \<Rightarrow> io_hist \<Rightarrow> bool" where
  "becomes_ready d p ok h \<longleftrightarrow> (\<exists>n. ok (dev_inb d (reads d p n h) p))"

text \<open>A polling loop returns as soon as the device reports ready, and loops forever if it never does.\<close>

lemma poll_inb_ready:
  assumes "ok (dev_inb d (reads d p n h) p)"
  shows "\<exists>k\<le>n. ok (dev_inb d (reads d p k h) p) \<and>
    poll_inb p ok d h = Some (dev_inb d (reads d p k h) p, reads d p (Suc k) h)"
  using assms
proof (induction n arbitrary: h)
  case 0
  then show ?case by (subst poll_inb.simps) (simp add: Let_def)
next
  case (Suc n)
  show ?case
  proof (cases "ok (dev_inb d h p)")
    case True
    then show ?thesis by (intro exI [of _ 0]) (subst poll_inb.simps, simp add: Let_def)
  next
    case False
    let ?h = "h @ [InB p (dev_inb d h p)]"
    obtain k where "k \<le> n" "ok (dev_inb d (reads d p k ?h) p)"
      "poll_inb p ok d ?h = Some (dev_inb d (reads d p k ?h) p, reads d p (Suc k) ?h)"
      using Suc.IH [of ?h] Suc.prems by auto
    then show ?thesis
      using False by (intro exI [of _ "Suc k"]) (subst poll_inb.simps, simp add: Let_def)
  qed
qed

lemma poll_inb_returns: "becomes_ready d p ok h \<Longrightarrow>
    \<exists>k. ok (dev_inb d (reads d p k h) p) \<and> poll_inb p ok d h = Some (dev_inb d (reads d p k h) p, reads d p (Suc k) h)"
  using poll_inb_ready unfolding becomes_ready_def by blast

lemma poll_inb_result:
  assumes "poll_inb p ok d h = Some (v, h')"
  shows "ok v \<and> (\<exists>n. v = dev_inb d (reads d p n h) p \<and> h' = reads d p (Suc n) h)"
proof -
  have "\<exists>n. ok (fst r) \<and> fst r = dev_inb d (reads d p n h) p \<and> snd r = reads d p (Suc n) h"
    if "poll_inb p ok d h = Some r" for r
  proof (rule poll_inb.raw_induct [where P = "\<lambda>p ok d h r. \<exists>n. ok (fst r) \<and>
        fst r = dev_inb d (reads d p n h) p \<and> snd r = reads d p (Suc n) h", OF _ that])
    fix poll p ok d h r
    assume 1: "\<And>p ok d h r. poll p ok d h = Some r \<Longrightarrow>
        \<exists>n. ok (fst r) \<and> fst r = dev_inb d (reads d p n h) p \<and> snd r = reads d p (Suc n) h"
      "(let v = dev_inb d h p; h' = h @ [InB p v] in if ok v then Some (v, h') else poll p ok d h') = Some r"
    let ?v = "dev_inb d h p"
    show "\<exists>n. ok (fst r) \<and> fst r = dev_inb d (reads d p n h) p \<and> snd r = reads d p (Suc n) h"
    proof (cases "ok ?v")
      case True
      then show ?thesis using 1(2) by (auto simp: Let_def intro!: exI [of _ 0])
    next
      case False
      then have "poll p ok d (h @ [InB p ?v]) = Some r" using 1(2) by (simp add: Let_def)
      from 1(1) [OF this] obtain n where "ok (fst r)" "fst r = dev_inb d (reads d p n (h @ [InB p ?v])) p"
        "snd r = reads d p (Suc n) (h @ [InB p ?v])" by blast
      then show ?thesis by (intro exI [of _ "Suc n"] conjI) simp_all
    qed
  qed
  from this [OF assms] show ?thesis by auto
qed

text \<open>The output of a history: what was written to one port, in order.\<close>

fun written :: "u16 \<Rightarrow> io_hist \<Rightarrow> u8 list" where
  "written p [] = []"
| "written p (e # h) = (case e of OutB q v \<Rightarrow> if q = p then v # written p h else written p h | _ \<Rightarrow> written p h)"

lemma written_append [simp]: "written p (h @ h') = written p h @ written p h'"
  by (induction h) (auto split: io_event.split)

lemma written_reads [simp]: "written q (reads d p n h) = written q h"
  by (induction n arbitrary: h) simp_all

end
