(* ===== verification/Devices.thy ===== *)
theory Devices
  imports Io
begin

text \<open>
  The small devices: the serial port (kernel/common/serial.c), the interrupt controllers
  (kernel/common/pic.c), the interval timer (kernel/kernel/pit.c), the local APIC
  (include/kernel/lapic.h, kernel/kernel/lapic.c) and the model-specific registers
  (kernel/kernel/msr.c, with the page attribute table kmain writes). The boot loader has its
  own copies of the serial port and interrupt controller code (boot/stage2/stage2_serial.c,
  boot/stage2/stage2_pic.c), modelled as they are written and shown equal.

  The bytes of a C string are the bytes before its terminator.
\<close>

unbundle bit_operations_syntax

section \<open>Serial port\<close>

definition serial_init :: "u16 \<Rightarrow> unit io" where
  "serial_init port = seq_io
     [io_outb (port + 1) 0x00, io_outb (port + 3) 0x80, io_outb (port + 0) 0x03, io_outb (port + 1) 0x00,
      io_outb (port + 3) 0x03, io_outb (port + 2) 0xC7, io_outb (port + 4) 0x0B]"

definition serial_putch :: "u16 \<Rightarrow> u8 \<Rightarrow> unit io" where
  "serial_putch port c = then_io (poll_inb (port + 5) (\<lambda>v. v AND 0x20 \<noteq> 0)) (io_outb port c)"

fun serial_puts :: "u16 \<Rightarrow> u8 list \<Rightarrow> unit io" where
  "serial_puts port [] = ret ()"
| "serial_puts port (c # cs) = (if c = 0 then ret () else then_io (serial_putch port c) (serial_puts port cs))"

definition stage2_serial_init :: "u16 \<Rightarrow> unit io" where
  "stage2_serial_init port = seq_io
     [io_outb (port + 1) 0x00, io_outb (port + 3) 0x80, io_outb (port + 0) 0x03, io_outb (port + 1) 0x00,
      io_outb (port + 3) 0x03, io_outb (port + 2) 0xC7, io_outb (port + 4) 0x0B]"

definition stage2_serial_putch :: "u16 \<Rightarrow> u8 \<Rightarrow> unit io" where
  "stage2_serial_putch port c = then_io (poll_inb (port + 5) (\<lambda>v. v AND 0x20 \<noteq> 0)) (io_outb port c)"

fun stage2_serial_puts :: "u16 \<Rightarrow> u8 list \<Rightarrow> unit io" where
  "stage2_serial_puts port [] = ret ()"
| "stage2_serial_puts port (c # cs) =
     (if c = 0 then ret () else then_io (stage2_serial_putch port c) (stage2_serial_puts port cs))"

section \<open>Interrupt controllers\<close>

definition PIC_MASTER_CMD_PORT :: u16 where "PIC_MASTER_CMD_PORT = 0x20"
definition PIC_SLAVE_CMD_PORT :: u16 where "PIC_SLAVE_CMD_PORT = 0xA0"
definition PIC_MASTER_DATA_PORT :: u16 where "PIC_MASTER_DATA_PORT = 0x21"
definition PIC_SLAVE_DATA_PORT :: u16 where "PIC_SLAVE_DATA_PORT = 0xA1"
definition PIC_EOI :: u8 where "PIC_EOI = 0x20"

definition pic_io_wait :: "unit io" where
  "pic_io_wait = io_outb 0x80 0x00"

definition pic_init :: "unit io" where
  "pic_init = seq_io
     [io_outb PIC_MASTER_CMD_PORT 0x11, pic_io_wait, io_outb PIC_SLAVE_CMD_PORT 0x11, pic_io_wait,
      io_outb PIC_MASTER_DATA_PORT 0x20, pic_io_wait, io_outb PIC_SLAVE_DATA_PORT 0x28, pic_io_wait,
      io_outb PIC_MASTER_DATA_PORT 0x04, pic_io_wait, io_outb PIC_SLAVE_DATA_PORT 0x02, pic_io_wait,
      io_outb PIC_MASTER_DATA_PORT 0x01, pic_io_wait, io_outb PIC_SLAVE_DATA_PORT 0x01, pic_io_wait,
      io_outb PIC_MASTER_DATA_PORT 0xFF, pic_io_wait, io_outb PIC_SLAVE_DATA_PORT 0xFF, pic_io_wait]"

definition pic_data_port :: "u8 \<Rightarrow> u16" where
  "pic_data_port irq = (if irq < 8 then PIC_MASTER_DATA_PORT else PIC_SLAVE_DATA_PORT)"

definition pic_mask_irq :: "u8 \<Rightarrow> unit io" where
  "pic_mask_irq irq =
     (let port = pic_data_port irq in
      bind_io (io_inb port) (\<lambda>current_mask.
      io_outb port (current_mask OR push_bit (unat (irq mod 8)) 1)))"

definition pic_mask_all :: "unit io" where
  "pic_mask_all = seq_io (map (\<lambda>i. pic_mask_irq (of_nat i)) [0..<16])"

definition pic_unmask_irq :: "u8 \<Rightarrow> unit io" where
  "pic_unmask_irq irq =
     (let port = pic_data_port irq in
      bind_io (io_inb port) (\<lambda>current_mask.
      io_outb port (current_mask AND NOT (push_bit (unat (irq mod 8)) 1))))"

definition stage2_pic_io_wait :: "unit io" where
  "stage2_pic_io_wait = io_outb 0x80 0x00"

definition stage2_pic_init :: "unit io" where
  "stage2_pic_init = seq_io
     [io_outb PIC_MASTER_CMD_PORT 0x11, stage2_pic_io_wait, io_outb PIC_SLAVE_CMD_PORT 0x11, stage2_pic_io_wait,
      io_outb PIC_MASTER_DATA_PORT 0x20, stage2_pic_io_wait, io_outb PIC_SLAVE_DATA_PORT 0x28, stage2_pic_io_wait,
      io_outb PIC_MASTER_DATA_PORT 0x04, stage2_pic_io_wait, io_outb PIC_SLAVE_DATA_PORT 0x02, stage2_pic_io_wait,
      io_outb PIC_MASTER_DATA_PORT 0x01, stage2_pic_io_wait, io_outb PIC_SLAVE_DATA_PORT 0x01, stage2_pic_io_wait,
      io_outb PIC_MASTER_DATA_PORT 0xFF, stage2_pic_io_wait, io_outb PIC_SLAVE_DATA_PORT 0xFF, stage2_pic_io_wait]"

definition stage2_pic_mask_irq :: "u8 \<Rightarrow> unit io" where
  "stage2_pic_mask_irq irq =
     (let port = (if irq < 8 then PIC_MASTER_DATA_PORT else PIC_SLAVE_DATA_PORT) in
      bind_io (io_inb port) (\<lambda>current_mask.
      io_outb port (current_mask OR push_bit (unat (irq mod 8)) 1)))"

definition stage2_pic_unmask_irq :: "u8 \<Rightarrow> unit io" where
  "stage2_pic_unmask_irq irq =
     (let port = (if irq < 8 then PIC_MASTER_DATA_PORT else PIC_SLAVE_DATA_PORT) in
      bind_io (io_inb port) (\<lambda>current_mask.
      io_outb port (current_mask AND NOT (push_bit (unat (irq mod 8)) 1))))"

section \<open>Interval timer\<close>

text \<open>Division by zero is a processor exception: \<open>None\<close>, the function does not return.\<close>

definition pit_divisor :: "u16 \<Rightarrow> u16" where
  "pit_divisor hz = of_nat (1193180 div unat hz)"

definition pit_init :: "u8 \<Rightarrow> u16 \<Rightarrow> unit io" where
  "pit_init channel hz =
     (if channel > 2 then ret ()
      else then_io (io_outb 0x43 (push_bit 6 channel OR 0x36))
        (if hz = 0 then (\<lambda>d h. None)
         else
           let port = (if channel = 0 then 0x40 else if channel = 1 then 0x41 else 0x42);
               final_divisor = pit_divisor hz
           in then_io (io_outb port (ucast (final_divisor AND 0xFF)))
                      (io_outb port (ucast (drop_bit 8 final_divisor)))))"

section \<open>Model-specific registers\<close>

text \<open>The instructions move a register through the pair edx:eax of 32-bit registers, which is how the
  register file is represented.\<close>

type_synonym msr_file = "u32 \<Rightarrow> u32 \<times> u32"

definition rdmsr :: "u32 \<Rightarrow> msr_file \<Rightarrow> u64" where
  "rdmsr msr f = (let (low, high) = f msr in push_bit 32 (ucast high) OR ucast low)"

definition wrmsr :: "u32 \<Rightarrow> u64 \<Rightarrow> msr_file \<Rightarrow> msr_file" where
  "wrmsr msr v f = (let low = ucast (v AND 0xFFFFFFFF); high = ucast (drop_bit 32 v) in f(msr := (low, high)))"

definition MSR_REG_PAT :: u32 where "MSR_REG_PAT = 0x277"

definition pat_entry :: "nat \<Rightarrow> u64 \<Rightarrow> u8" where
  "pat_entry i pat = ucast (drop_bit (8 * i) pat AND 0xFF)"

definition pat_word :: "u8 \<Rightarrow> u8 \<Rightarrow> u8 \<Rightarrow> u8 \<Rightarrow> u8 \<Rightarrow> u8 \<Rightarrow> u8 \<Rightarrow> u8 \<Rightarrow> u64" where
  "pat_word pa0 pa1 pa2 pa3 pa4 pa5 pa6 pa7 =
     push_bit 0 (ucast pa0) OR push_bit 8 (ucast pa1) OR push_bit 16 (ucast pa2) OR
     push_bit 24 (ucast pa3) OR push_bit 32 (ucast pa4) OR push_bit 40 (ucast pa5) OR
     push_bit 48 (ucast pa6) OR push_bit 56 (ucast pa7)"

definition kmain_pat :: "msr_file \<Rightarrow> msr_file" where
  "kmain_pat f =
     (let msr_pat = rdmsr MSR_REG_PAT f;
          pa0 = pat_entry 0 msr_pat; pa1 = pat_entry 1 msr_pat; pa2 = pat_entry 2 msr_pat;
          pa3 = pat_entry 3 msr_pat; pa4 = pat_entry 4 msr_pat; pa5 = pat_entry 5 msr_pat;
          pa6 = pat_entry 6 msr_pat; pa7 = pat_entry 7 msr_pat;
          pa4 = 1; pa5 = 5;
          msr_pat = pat_word pa0 pa1 pa2 pa3 pa4 pa5 pa6 pa7
      in wrmsr MSR_REG_PAT msr_pat f)"

section \<open>Local APIC\<close>

text \<open>The registers are memory-mapped; the state is the list of register writes.\<close>

type_synonym lapic_log = "(u16 \<times> u32) list"

definition lapic_write_register :: "u16 \<Rightarrow> u32 \<Rightarrow> lapic_log \<Rightarrow> lapic_log" where
  "lapic_write_register off v l = l @ [(off, v)]"

definition lapic_eoi :: "lapic_log \<Rightarrow> lapic_log" where
  "lapic_eoi l = lapic_write_register 0x0B0 0 l"

definition lapic_enable_svr :: "u8 \<Rightarrow> lapic_log \<Rightarrow> lapic_log" where
  "lapic_enable_svr vector l = lapic_write_register 0x0F0 (ucast vector OR push_bit 8 1) l"

definition lapic_disable_svr :: "u32 \<Rightarrow> lapic_log \<Rightarrow> lapic_log" where
  "lapic_disable_svr svr l = lapic_write_register 0x0F0 (svr AND 0xFF) l"

definition lapic_timer_set_counter :: "u32 \<Rightarrow> lapic_log \<Rightarrow> lapic_log" where
  "lapic_timer_set_counter counter l = lapic_write_register 0x380 counter l"

definition lvt_timer_word :: "u8 \<Rightarrow> bool \<Rightarrow> u8 \<Rightarrow> u32" where
  "lvt_timer_word vector masked mode = ucast vector OR push_bit 16 (of_bool masked) OR push_bit 17 (ucast mode)"

definition lapic_timer_init :: "u8 \<Rightarrow> bool \<Rightarrow> u8 \<Rightarrow> u32 \<Rightarrow> lapic_log \<Rightarrow> lapic_log" where
  "lapic_timer_init vector masked mode divisor l =
     lapic_write_register 0x320 (lvt_timer_word vector masked mode) (lapic_write_register 0x3E0 divisor l)"

record lapic_calibration =
  lapic_calibrated :: bool
  timer_speed :: u32
  lapic_samples :: u32
  calibration_log :: lapic_log

definition lapic_init_calibration :: "lapic_log \<Rightarrow> lapic_calibration" where
  "lapic_init_calibration l = \<lparr>lapic_calibrated = False, timer_speed = 0, lapic_samples = 0, calibration_log = l\<rparr>"

text \<open>One tick of the interval timer; \<open>current_count\<close> is what the count register reads.\<close>

definition lapic_timer_calibrate :: "u32 \<Rightarrow> lapic_calibration \<Rightarrow> lapic_calibration" where
  "lapic_timer_calibrate current_count c =
     (if lapic_samples c = 0
      then c\<lparr>calibration_log := lapic_timer_set_counter (-1) (calibration_log c), lapic_samples := lapic_samples c + 1\<rparr>
      else
        let c = c\<lparr>lapic_samples := lapic_samples c + 1\<rparr> in
        if lapic_samples c \<ge> 10
        then c\<lparr>lapic_calibrated := True, timer_speed := (-1 - current_count) div (10 - 1),
               calibration_log := lapic_eoi (calibration_log c)\<rparr>
        else c)"

section \<open>The two copies\<close>

lemma stage2_serial_same:
  "stage2_serial_init = serial_init" "stage2_serial_putch = serial_putch" "stage2_serial_puts port cs = serial_puts port cs"
proof -
  show "stage2_serial_init = serial_init" by (simp add: fun_eq_iff stage2_serial_init_def serial_init_def)
  show p: "stage2_serial_putch = serial_putch" by (simp add: fun_eq_iff stage2_serial_putch_def serial_putch_def)
  show "stage2_serial_puts port cs = serial_puts port cs" by (induction cs) (simp_all add: p ret_def)
qed

lemma stage2_pic_same:
  "stage2_pic_init = pic_init" "stage2_pic_mask_irq = pic_mask_irq" "stage2_pic_unmask_irq = pic_unmask_irq"
proof -
  have w: "stage2_pic_io_wait = pic_io_wait" by (simp add: stage2_pic_io_wait_def pic_io_wait_def)
  show "stage2_pic_init = pic_init" unfolding stage2_pic_init_def pic_init_def w ..
  show "stage2_pic_mask_irq = pic_mask_irq"
    by (simp only: fun_eq_iff stage2_pic_mask_irq_def pic_mask_irq_def pic_data_port_def) simp
  show "stage2_pic_unmask_irq = pic_unmask_irq"
    by (simp only: fun_eq_iff stage2_pic_unmask_irq_def pic_unmask_irq_def pic_data_port_def) simp
qed

section \<open>Serial output\<close>

definition transmitter_ready :: "io_device \<Rightarrow> u16 \<Rightarrow> bool" where
  "transmitter_ready d port \<longleftrightarrow> (\<forall>h. becomes_ready d (port + 5) (\<lambda>v. v AND 0x20 \<noteq> 0) h)"

lemma serial_putch_transmits:
  assumes "transmitter_ready d port"
  shows "\<exists>h'. serial_putch port c d h = Some ((), h') \<and> (\<forall>q. written q h' = written q h @ (if q = port then [c] else []))"
proof -
  obtain k where k: "poll_inb (port + 5) (\<lambda>v. v AND 0x20 \<noteq> 0) d h =
      Some (dev_inb d (reads d (port + 5) k h) (port + 5), reads d (port + 5) (Suc k) h)"
    using poll_inb_returns assms unfolding transmitter_ready_def by blast
  show ?thesis by (simp add: serial_putch_def k)
qed

lemma serial_puts_transmits:
  assumes d: "transmitter_ready d port" and "0 \<notin> set bs"
  shows "\<exists>h'. serial_puts port bs d h = Some ((), h') \<and> (\<forall>q. written q h' = written q h @ (if q = port then bs else []))"
  using assms(2)
proof (induction bs arbitrary: h)
  case Nil
  then show ?case by (intro exI [of _ h]) simp
next
  case (Cons c bs)
  obtain h1 where h1: "serial_putch port c d h = Some ((), h1)"
    "\<forall>q. written q h1 = written q h @ (if q = port then [c] else [])"
    using serial_putch_transmits [OF d] by blast
  obtain h2 where "serial_puts port bs d h1 = Some ((), h2)"
    "\<forall>q. written q h2 = written q h1 @ (if q = port then bs else [])"
    using Cons.IH Cons.prems by force
  then show ?case using h1 Cons.prems by (intro exI [of _ h2]) auto
qed

section \<open>Interrupt masks\<close>

text \<open>The data port of an interrupt controller reads back the mask last written to it.\<close>

definition last_written :: "u16 \<Rightarrow> io_hist \<Rightarrow> u8" where
  "last_written p h = (if written p h = [] then 0 else last (written p h))"

definition masks_read_back :: "io_device \<Rightarrow> bool" where
  "masks_read_back d \<longleftrightarrow> (\<forall>h. dev_inb d h PIC_MASTER_DATA_PORT = last_written PIC_MASTER_DATA_PORT h \<and>
     dev_inb d h PIC_SLAVE_DATA_PORT = last_written PIC_SLAVE_DATA_PORT h)"

text \<open>The mask of all sixteen lines: the master's eight below the slave's.\<close>

definition irq_masked :: "io_hist \<Rightarrow> nat \<Rightarrow> bool" where
  "irq_masked h i = bit (last_written (if i < 8 then PIC_MASTER_DATA_PORT else PIC_SLAVE_DATA_PORT) h) (i mod 8)"

lemma last_written_out [simp]: "last_written p (h @ [OutB q v]) = (if p = q then v else last_written p h)"
  by (simp add: last_written_def)

lemma last_written_in [simp]: "last_written p (h @ [InB q v]) = last_written p h"
  by (simp add: last_written_def)

lemma pic_ports_neq [simp]: "PIC_MASTER_DATA_PORT \<noteq> PIC_SLAVE_DATA_PORT" "PIC_SLAVE_DATA_PORT \<noteq> PIC_MASTER_DATA_PORT"
  by (simp_all add: PIC_MASTER_DATA_PORT_def PIC_SLAVE_DATA_PORT_def)

lemma mask_update:
  assumes d: "masks_read_back d" and i: "i < 16"
  shows "\<exists>h'. pic_mask_irq (of_nat i) d h = Some ((), h') \<and> (\<forall>j<16. irq_masked h' j \<longleftrightarrow> j = i \<or> irq_masked h j)"
    and "\<exists>h'. pic_unmask_irq (of_nat i) d h = Some ((), h') \<and> (\<forall>j<16. irq_masked h' j \<longleftrightarrow> j \<noteq> i \<and> irq_masked h j)"
proof -
  have lt: "(of_nat i :: u8) < 8 \<longleftrightarrow> i < 8" using i by (simp add: word_less_nat_alt unat_of_nat_small)
  have m: "unat ((of_nat i :: u8) mod 8) = i mod 8" using i by (simp add: unat_mod unat_of_nat_small)
  let ?p = "if i < 8 then PIC_MASTER_DATA_PORT else PIC_SLAVE_DATA_PORT"
  have p: "pic_data_port (of_nat i) = ?p" by (simp add: pic_data_port_def lt)
  have r: "dev_inb d h ?p = last_written ?p h" for h using d by (simp add: masks_read_back_def)
  let ?in = "InB ?p (last_written ?p h)"
  let ?set = "last_written ?p h OR push_bit (i mod 8) 1" and ?clr = "last_written ?p h AND NOT (push_bit (i mod 8) 1)"
  have run: "pic_mask_irq (of_nat i) d h = Some ((), h @ [?in] @ [OutB ?p ?set])"
    "pic_unmask_irq (of_nat i) d h = Some ((), h @ [?in] @ [OutB ?p ?clr])"
    by (simp_all add: pic_mask_irq_def pic_unmask_irq_def p m r Let_def)
  have same: "(if j < 8 then PIC_MASTER_DATA_PORT else PIC_SLAVE_DATA_PORT) = ?p \<longleftrightarrow> (j < 8 \<longleftrightarrow> i < 8)" for j by simp
  have eq: "j = i \<longleftrightarrow> (j < 8 \<longleftrightarrow> i < 8) \<and> j mod 8 = i mod 8" if "j < 16" for j
  proof -
    have "x = x mod 8 + (if x < 8 then 0 else 8)" if "x < 16" for x :: nat using that by (auto simp: mod_if)
    from this [OF that] this [OF i] show ?thesis by (auto split: if_splits)
  qed
  have b: "bit ((2 :: u8) ^ k) n \<longleftrightarrow> n = k" if "n < 8" for n k
    using that by (auto simp: bit_exp_iff possible_bit_def)
  have im: "irq_masked (h @ [?in] @ [OutB ?p v]) j \<longleftrightarrow>
      (if (j < 8 \<longleftrightarrow> i < 8) then bit v (j mod 8) else irq_masked h j)" for v j
    by (auto simp: irq_masked_def last_written_def)
  have old: "irq_masked h j = bit (last_written ?p h) (j mod 8)" if "j < 8 \<longleftrightarrow> i < 8" for j
    using that by (simp add: irq_masked_def)
  have "irq_masked (h @ [?in] @ [OutB ?p ?set]) j \<longleftrightarrow> j = i \<or> irq_masked h j" if "j < 16" for j
  proof (cases "j < 8 \<longleftrightarrow> i < 8")
    case True
    have "bit ?set (j mod 8) \<longleftrightarrow> j mod 8 = i mod 8 \<or> bit (last_written ?p h) (j mod 8)"
      by (auto simp: bit_or_iff b)
    then show ?thesis unfolding im using True eq [OF that] old [OF True] by argo
  next
    case False
    then show ?thesis unfolding im using eq [OF that] by argo
  qed
  then show "\<exists>h'. pic_mask_irq (of_nat i) d h = Some ((), h') \<and> (\<forall>j<16. irq_masked h' j \<longleftrightarrow> j = i \<or> irq_masked h j)"
    using run(1) by blast
  have "irq_masked (h @ [?in] @ [OutB ?p ?clr]) j \<longleftrightarrow> j \<noteq> i \<and> irq_masked h j" if "j < 16" for j
  proof (cases "j < 8 \<longleftrightarrow> i < 8")
    case True
    have "bit ?clr (j mod 8) \<longleftrightarrow> j mod 8 \<noteq> i mod 8 \<and> bit (last_written ?p h) (j mod 8)"
      by (auto simp: bit_and_iff bit_not_iff b)
    then show ?thesis unfolding im using True eq [OF that] old [OF True] by argo
  next
    case False
    then show ?thesis unfolding im using eq [OF that] by argo
  qed
  then show "\<exists>h'. pic_unmask_irq (of_nat i) d h = Some ((), h') \<and> (\<forall>j<16. irq_masked h' j \<longleftrightarrow> j \<noteq> i \<and> irq_masked h j)"
    using run(2) by blast
qed

lemma mask_list:
  assumes d: "masks_read_back d" and "set is \<subseteq> {..<16}"
  shows "\<exists>h'. seq_io (map (\<lambda>i. pic_mask_irq (of_nat i)) is) d h = Some ((), h') \<and>
    (\<forall>j<16. irq_masked h' j \<longleftrightarrow> j \<in> set is \<or> irq_masked h j)"
  using assms(2)
proof (induction "is" arbitrary: h)
  case Nil
  then show ?case by (intro exI [of _ h]) simp
next
  case (Cons i "is")
  obtain h1 where h1: "pic_mask_irq (of_nat i) d h = Some ((), h1)" "\<forall>j<16. irq_masked h1 j \<longleftrightarrow> j = i \<or> irq_masked h j"
    using mask_update(1) [OF d, of i h] Cons.prems by auto
  obtain h2 where "seq_io (map (\<lambda>i. pic_mask_irq (of_nat i)) is) d h1 = Some ((), h2)"
    "\<forall>j<16. irq_masked h2 j \<longleftrightarrow> j \<in> set is \<or> irq_masked h1 j"
    using Cons.IH Cons.prems by force
  then show ?case using h1 by (intro exI [of _ h2]) auto
qed

section \<open>Model-specific registers\<close>

lemma rdmsr_wrmsr: "rdmsr m (wrmsr m' v f) = (if m = m' then v else rdmsr m f)"
proof -
  let ?w = "push_bit 32 (ucast (ucast (drop_bit 32 v) :: u32)) OR ucast (ucast (v AND 0xFFFFFFFF) :: u32) :: u64"
  have "?w = v"
  proof (rule bit_word_eqI)
    fix n assume n: "n < LENGTH(64)"
    have m: "(0xFFFFFFFF :: u64) = mask 32" by (simp add: mask_eq_exp_minus_1)
    show "bit ?w n = bit v n"
      unfolding m using n
      by (auto simp: bit_or_iff bit_push_bit_iff bit_ucast_iff bit_drop_bit_eq bit_and_iff bit_mask_iff possible_bit_def)
  qed
  then show ?thesis by (simp add: rdmsr_def wrmsr_def Let_def)
qed

lemma pat_entry_bit: "bit (pat_entry i pat) n \<longleftrightarrow> n < 8 \<and> bit pat (8 * i + n)"
proof -
  have m: "(0xFF :: u64) = mask 8" by (simp add: mask_eq_exp_minus_1)
  show ?thesis unfolding pat_entry_def m
    by (auto simp: bit_ucast_iff bit_and_iff bit_drop_bit_eq bit_mask_iff possible_bit_def add.commute dest: bit_imp_le_length)
qed

lemma pat_entry_word:
  assumes "i < 8"
  shows "pat_entry i (pat_word a0 a1 a2 a3 a4 a5 a6 a7) = [a0, a1, a2, a3, a4, a5, a6, a7] ! i"
proof (rule bit_word_eqI)
  fix n assume n: "n < LENGTH(8)"
  have nb: "\<not> bit a m" if "8 \<le> m" for a :: u8 and m using that bit_imp_le_length [of a m] by auto
  have "i \<in> {0, 1, 2, 3, 4, 5, 6, 7}" using assms by auto
  then show "bit (pat_entry i (pat_word a0 a1 a2 a3 a4 a5 a6 a7)) n = bit ([a0, a1, a2, a3, a4, a5, a6, a7] ! i) n"
    using n unfolding pat_entry_bit pat_word_def
    by (elim insertE emptyE) (simp_all add: bit_or_iff bit_push_bit_iff bit_ucast_iff possible_bit_def nb)
qed

lemma kmain_pat_entries:
  assumes "i < 8"
  shows "pat_entry i (rdmsr MSR_REG_PAT (kmain_pat f)) =
    (if i = 4 then 1 else if i = 5 then 5 else pat_entry i (rdmsr MSR_REG_PAT f))"
proof -
  have "i \<in> {0, 1, 2, 3, 4, 5, 6, 7}" using assms by auto
  then show ?thesis
    unfolding kmain_pat_def Let_def rdmsr_wrmsr by (elim insertE emptyE) (simp_all add: pat_entry_word)
qed

section \<open>Calibration of the timer\<close>

lemma calibration_samples:
  assumes "length cs = n" and "n < 10"
  shows "lapic_samples (fold lapic_timer_calibrate cs (lapic_init_calibration l)) = of_nat n \<and>
    \<not> lapic_calibrated (fold lapic_timer_calibrate cs (lapic_init_calibration l))"
  using assms
proof (induction cs arbitrary: n rule: rev_induct)
  case Nil
  then show ?case by (simp add: lapic_init_calibration_def)
next
  case (snoc c cs)
  then have IH: "lapic_samples (fold lapic_timer_calibrate cs (lapic_init_calibration l)) = of_nat (length cs)"
    "\<not> lapic_calibrated (fold lapic_timer_calibrate cs (lapic_init_calibration l))" by simp_all
  have lt: "length cs < 9" using snoc.prems by simp
  then have "\<not> (10 :: u32) \<le> of_nat (length cs) + 1"
    using lt by (simp add: word_le_nat_alt unat_add_small unat_of_nat_small)
  moreover define c' where "c' = fold lapic_timer_calibrate cs (lapic_init_calibration l)"
  ultimately have "lapic_samples (lapic_timer_calibrate c c') = of_nat (length cs) + 1 \<and>
      \<not> lapic_calibrated (lapic_timer_calibrate c c')"
    using IH by (simp add: lapic_timer_calibrate_def Let_def)
  then show ?case using snoc.prems(1) by (auto simp: c'_def add.commute)
qed

section \<open>Properties\<close>


definition idle_line :: io_device where
  "idle_line = \<lparr>dev_inb = (\<lambda>h p. if InB p 0 \<in> set h then 0x60 else 0), dev_inw = (\<lambda>h p. 0)\<rparr>"

lemma idle_line_ready: "becomes_ready idle_line p (\<lambda>v. v AND 0x20 \<noteq> 0) h"
proof (cases "InB p 0 \<in> set h")
  case True
  then show ?thesis by (auto simp: becomes_ready_def idle_line_def intro!: exI [of _ 0])
next
  case False
  then have "dev_inb idle_line (reads idle_line p 1 h) p = 0x60" by (simp add: idle_line_def)
  then show ?thesis unfolding becomes_ready_def by (intro exI [of _ 1]) simp
qed


text \<open>On interrupt controllers that read back their masks, \<^verbatim>\<open>pic_mask_all\<close> masks all sixteen lines, and unmasking
  one line afterwards opens that line alone.\<close>
theorem pic_mask_all_unmask:
  assumes "masks_read_back d" and "i < 16"
  shows "\<exists>h1 h2. pic_mask_all d h = Some ((), h1) \<and> (\<forall>j<16. irq_masked h1 j) \<and>
    pic_unmask_irq (of_nat i) d h1 = Some ((), h2) \<and> (\<forall>j<16. irq_masked h2 j \<longleftrightarrow> j \<noteq> i)"
proof -
  obtain h1 where h1: "pic_mask_all d h = Some ((), h1)" "\<forall>j<16. irq_masked h1 j"
    using mask_list [OF assms(1), of "[0..<16]" h] unfolding pic_mask_all_def by (auto simp: atLeast0LessThan)
  then show ?thesis using mask_update(2) [OF assms, of h1] by blast
qed

definition pic_pair :: io_device where
  "pic_pair = \<lparr>dev_inb = (\<lambda>h p. last_written p h), dev_inw = (\<lambda>h p. 0)\<rparr>"

theorem pic_mask_all_unmask_witness:
  "\<exists>h1 h2. pic_mask_all pic_pair [] = Some ((), h1) \<and> irq_masked h1 15 \<and>
    pic_unmask_irq 0 pic_pair h1 = Some ((), h2) \<and> \<not> irq_masked h2 0 \<and> irq_masked h2 1"
proof -
  have z: "(0 :: nat) < 16" by simp
  have m: "masks_read_back pic_pair" by (simp add: masks_read_back_def pic_pair_def)
  obtain h1 h2 where "pic_mask_all pic_pair [] = Some ((), h1)" "\<forall>j<16. irq_masked h1 j"
    "pic_unmask_irq (of_nat 0) pic_pair h1 = Some ((), h2)" "\<forall>j<16. irq_masked h2 j \<longleftrightarrow> j \<noteq> 0"
    using pic_mask_all_unmask [OF m z, of "[]"] by blast
  then have "pic_unmask_irq 0 pic_pair h1 = Some ((), h2)" by simp
  moreover have "irq_masked h1 15" "\<not> irq_masked h2 0" "irq_masked h2 1"
    using \<open>\<forall>j<16. irq_masked h1 j\<close> \<open>\<forall>j<16. irq_masked h2 j \<longleftrightarrow> j \<noteq> 0\<close> by auto
  ultimately show ?thesis using \<open>pic_mask_all pic_pair [] = Some ((), h1)\<close> by blast
qed

end
