(* ===== verification/Interrupts.thy ===== *)
theory Interrupts
  imports Devices
begin

text \<open>
  Interrupts and descriptor tables: the register file and the frames on the stack
  (include/common/regs64.h, include/common/idt64.h), the entry and exit code of the interrupt
  stubs (kernel/interrupt.asm), the interrupt descriptor table and the dispatcher (kernel/idt.c,
  boot/stage2/stage2_idt.c), and the segment descriptors (kernel/common/gdt.c,
  boot/stage2/stage2_gdt.c).

  The stack is the list of its 64-bit words, the word under the stack pointer first.
\<close>

unbundle bit_operations_syntax

section \<open>Registers and frames\<close>

record Registers64 =
  reg_r15 :: u64
  reg_r14 :: u64
  reg_r13 :: u64
  reg_r12 :: u64
  reg_r11 :: u64
  reg_r10 :: u64
  reg_r9 :: u64
  reg_r8 :: u64
  reg_rbp :: u64
  reg_rdi :: u64
  reg_rsi :: u64
  reg_rdx :: u64
  reg_rcx :: u64
  reg_rbx :: u64
  reg_rax :: u64

record IretFrame =
  iret_rip :: u64
  iret_cs :: u64
  iret_rflags :: u64
  iret_rsp :: u64
  iret_ss :: u64

record InterruptFrame =
  registers :: Registers64
  int_no :: u64
  err_code :: u64
  iret_frame :: IretFrame

record ProcessContext =
  ctx_rax :: u64
  ctx_rbx :: u64
  ctx_rcx :: u64
  ctx_rdx :: u64
  ctx_rsi :: u64
  ctx_rdi :: u64
  ctx_rbp :: u64
  ctx_r8 :: u64
  ctx_r9 :: u64
  ctx_r10 :: u64
  ctx_r11 :: u64
  ctx_r12 :: u64
  ctx_r13 :: u64
  ctx_r14 :: u64
  ctx_r15 :: u64
  ctx_rip :: u64
  ctx_cs :: u64
  ctx_rflags :: u64
  ctx_rsp :: u64
  ctx_ss :: u64

text \<open>The words of a \<^verbatim>\<open>ProcessContext\<close> in memory, in the order of its fields.\<close>

definition context_words :: "ProcessContext \<Rightarrow> u64 list" where
  "context_words c = [ctx_rax c, ctx_rbx c, ctx_rcx c, ctx_rdx c, ctx_rsi c, ctx_rdi c, ctx_rbp c, ctx_r8 c, ctx_r9 c, ctx_r10 c, ctx_r11 c, ctx_r12 c,
     ctx_r13 c, ctx_r14 c, ctx_r15 c, ctx_rip c, ctx_cs c, ctx_rflags c, ctx_rsp c, ctx_ss c]"

text \<open>The instructions of \<^verbatim>\<open>process_jump\<close>: a \<^verbatim>\<open>pop\<close> takes the word under the stack pointer, \<^verbatim>\<open>iretq\<close>
  takes five. The stack pointer itself is loaded by \<^verbatim>\<open>iretq\<close>.\<close>

type_synonym stack_regs = "u64 list \<times> ProcessContext"

definition pop :: "(u64 \<Rightarrow> ProcessContext \<Rightarrow> ProcessContext) \<Rightarrow> stack_regs \<Rightarrow> stack_regs" where
  "pop set_reg = (\<lambda>(st, r). (tl st, set_reg (hd st) r))"

definition iretq :: "stack_regs \<Rightarrow> stack_regs" where
  "iretq = (\<lambda>(st, r). (drop 5 st, r\<lparr>ctx_rip := st ! 0, ctx_cs := st ! 1, ctx_rflags := st ! 2, ctx_rsp := st ! 3, ctx_ss := st ! 4\<rparr>))"


section \<open>Interrupt stubs\<close>

text \<open>What the processor pushes: the interrupted \<^verbatim>\<open>ss\<close>, \<^verbatim>\<open>rsp\<close>, \<^verbatim>\<open>rflags\<close>, \<^verbatim>\<open>cs\<close> and \<^verbatim>\<open>rip\<close>, and for some
  exceptions an error code.\<close>

definition cpu_interrupt :: "u64 option \<Rightarrow> ProcessContext \<Rightarrow> u64 list" where
  "cpu_interrupt err r =
     (case err of None \<Rightarrow> [] | Some e \<Rightarrow> [e]) @ [ctx_rip r, ctx_cs r, ctx_rflags r, ctx_rsp r, ctx_ss r]"

definition isr_error_vectors :: "nat list" where
  "isr_error_vectors = [8, 10, 11, 12, 13, 14, 17, 21, 30]"

definition isr_stub :: "nat \<Rightarrow> u64 list \<Rightarrow> u64 list" where
  "isr_stub n st = (if n \<in> set isr_error_vectors then of_nat n # st else of_nat n # 0 # st)"

text \<open>The entry part of \<^verbatim>\<open>isr_common\<close>; the flag says whether the user GS base is loaded, the word at
  \<^verbatim>\<open>rsp + 32\<close> after the first push is the interrupted code segment.\<close>

definition isr_common_entry :: "ProcessContext \<Rightarrow> bool \<Rightarrow> u64 list \<Rightarrow> bool \<times> u64 list" where
  "isr_common_entry r gs st =
     (let st = ctx_rax r # st;
          gs = (if st ! 4 AND 3 \<noteq> 0 then \<not> gs else gs);
          st = ctx_rbx r # st; st = ctx_rcx r # st; st = ctx_rdx r # st; st = ctx_rsi r # st;
          st = ctx_rdi r # st; st = ctx_rbp r # st; st = ctx_r8 r # st; st = ctx_r9 r # st;
          st = ctx_r10 r # st; st = ctx_r11 r # st; st = ctx_r12 r # st; st = ctx_r13 r # st;
          st = ctx_r14 r # st; st = ctx_r15 r # st
      in (gs, st))"

definition isr_common_exit :: "ProcessContext \<Rightarrow> bool \<Rightarrow> u64 list \<Rightarrow> bool \<times> ProcessContext" where
  "isr_common_exit r gs st =
     (let st = pop (\<lambda>v r. r\<lparr>ctx_r15 := v\<rparr>) (st, r);
          st = pop (\<lambda>v r. r\<lparr>ctx_r14 := v\<rparr>) st;
          st = pop (\<lambda>v r. r\<lparr>ctx_r13 := v\<rparr>) st;
          st = pop (\<lambda>v r. r\<lparr>ctx_r12 := v\<rparr>) st;
          st = pop (\<lambda>v r. r\<lparr>ctx_r11 := v\<rparr>) st;
          st = pop (\<lambda>v r. r\<lparr>ctx_r10 := v\<rparr>) st;
          st = pop (\<lambda>v r. r\<lparr>ctx_r9 := v\<rparr>) st;
          st = pop (\<lambda>v r. r\<lparr>ctx_r8 := v\<rparr>) st;
          st = pop (\<lambda>v r. r\<lparr>ctx_rbp := v\<rparr>) st;
          st = pop (\<lambda>v r. r\<lparr>ctx_rdi := v\<rparr>) st;
          st = pop (\<lambda>v r. r\<lparr>ctx_rsi := v\<rparr>) st;
          st = pop (\<lambda>v r. r\<lparr>ctx_rdx := v\<rparr>) st;
          st = pop (\<lambda>v r. r\<lparr>ctx_rcx := v\<rparr>) st;
          st = pop (\<lambda>v r. r\<lparr>ctx_rbx := v\<rparr>) st;
          gs = (if fst st ! 4 AND 3 \<noteq> 0 then \<not> gs else gs);
          st = pop (\<lambda>v r. r\<lparr>ctx_rax := v\<rparr>) st;
          st = (drop 2 (fst st), snd st)
      in (gs, snd (iretq st)))"

text \<open>The frame the dispatcher sees: the structure \<^verbatim>\<open>InterruptFrame\<close> over the words on the stack.\<close>

definition frame_at :: "u64 list \<Rightarrow> InterruptFrame" where
  "frame_at st =
     \<lparr>registers = \<lparr>reg_r15 = st ! 0, reg_r14 = st ! 1, reg_r13 = st ! 2, reg_r12 = st ! 3, reg_r11 = st ! 4,
        reg_r10 = st ! 5, reg_r9 = st ! 6, reg_r8 = st ! 7, reg_rbp = st ! 8, reg_rdi = st ! 9, reg_rsi = st ! 10,
        reg_rdx = st ! 11, reg_rcx = st ! 12, reg_rbx = st ! 13, reg_rax = st ! 14\<rparr>,
      int_no = st ! 15, err_code = st ! 16,
      iret_frame = \<lparr>iret_rip = st ! 17, iret_cs = st ! 18, iret_rflags = st ! 19, iret_rsp = st ! 20, iret_ss = st ! 21\<rparr>\<rparr>"

section \<open>The interrupt descriptor table\<close>

datatype IDT64GateType = IDT64_ISR_INTERRUPT | IDT64_ISR_TRAP

record IDT64Entry =
  offset1 :: u16
  segment :: u16
  ist_index :: u8
  ist_reserved :: u8
  gate_attr :: u8
  offset2 :: u16
  offset3 :: u32
  gate_reserved :: u32

definition zero_gate :: IDT64Entry where
  "zero_gate = \<lparr>offset1 = 0, segment = 0, ist_index = 0, ist_reserved = 0, gate_attr = 0, offset2 = 0,
     offset3 = 0, gate_reserved = 0\<rparr>"

text \<open>The two parts of the field \<^verbatim>\<open>ist\<close> are four bits wide.\<close>

definition idt64_set_gate :: "IDT64Entry list \<Rightarrow> u32 \<Rightarrow> u64 \<Rightarrow> IDT64GateType \<Rightarrow> u8 \<Rightarrow> IDT64Entry list kres" where
  "idt64_set_gate tab index handler type ist =
     (if unat index < length tab
      then Inr (tab[unat index := (tab ! unat index)\<lparr>offset1 := ucast (handler AND 0xFFFF), segment := 0x08,
        ist_index := ist AND 0xF, ist_reserved := 0,
        gate_attr := (if type = IDT64_ISR_INTERRUPT then 0x8E else 0x8F),
        offset2 := ucast (drop_bit 16 handler AND 0xFFFF),
        offset3 := ucast (drop_bit 32 handler AND 0xFFFFFFFF)\<rparr>])
      else Inl Fault)"

definition exception_gates :: "(nat \<times> IDT64GateType \<times> u8) list" where
  "exception_gates =
     [(0, IDT64_ISR_TRAP, 0), (1, IDT64_ISR_TRAP, 0), (2, IDT64_ISR_INTERRUPT, 1), (3, IDT64_ISR_TRAP, 0),
      (4, IDT64_ISR_TRAP, 0), (5, IDT64_ISR_TRAP, 0), (6, IDT64_ISR_TRAP, 0), (7, IDT64_ISR_TRAP, 0),
      (8, IDT64_ISR_TRAP, 2), (9, IDT64_ISR_TRAP, 0), (10, IDT64_ISR_TRAP, 0), (11, IDT64_ISR_TRAP, 0),
      (12, IDT64_ISR_TRAP, 0), (13, IDT64_ISR_TRAP, 0), (14, IDT64_ISR_TRAP, 0), (15, IDT64_ISR_INTERRUPT, 0),
      (16, IDT64_ISR_TRAP, 0), (17, IDT64_ISR_TRAP, 0), (18, IDT64_ISR_TRAP, 3), (19, IDT64_ISR_TRAP, 0),
      (20, IDT64_ISR_TRAP, 0), (21, IDT64_ISR_TRAP, 0), (22, IDT64_ISR_INTERRUPT, 0), (23, IDT64_ISR_INTERRUPT, 0),
      (24, IDT64_ISR_INTERRUPT, 0), (25, IDT64_ISR_INTERRUPT, 0), (26, IDT64_ISR_INTERRUPT, 0),
      (27, IDT64_ISR_INTERRUPT, 0), (28, IDT64_ISR_INTERRUPT, 0), (29, IDT64_ISR_INTERRUPT, 0),
      (30, IDT64_ISR_INTERRUPT, 0), (31, IDT64_ISR_INTERRUPT, 0)]"

definition irq_gates :: "(nat \<times> IDT64GateType \<times> u8) list" where
  "irq_gates = map (\<lambda>i. (i, IDT64_ISR_INTERRUPT, 0)) [32..<144]"

definition high_gates :: "(nat \<times> IDT64GateType \<times> u8) list" where
  "high_gates = map (\<lambda>i. (i, IDT64_ISR_INTERRUPT, 0)) [144..<256]"

text \<open>\<open>isr n\<close> is the address of the stub \<^verbatim>\<open>idt64_isr_n\<close>.\<close>

definition idt64_init :: "(nat \<Rightarrow> u64) \<Rightarrow> IDT64Entry list kres" where
  "idt64_init isr =
     foldM (\<lambda>(i, type, ist) tab. idt64_set_gate tab (of_nat i) (isr i) type ist)
       (exception_gates @ irq_gates @ high_gates) (replicate 256 zero_gate)"

definition idt64_limit :: "u64 \<Rightarrow> u16" where
  "idt64_limit count = ucast (count * 16 - 1)"

text \<open>The table of callbacks is indexed by the vector; a vector past it is a fault. What the callback
  and the debug print do to the ports is a parameter of the dispatcher. A callback of the kernel takes no
  argument and finds the frame in the CPU state, where the dispatcher stored it; the model hands
  it the frame.\<close>

definition pic_send_eoi :: "u64 \<Rightarrow> unit io" where
  "pic_send_eoi n =
     (if n \<ge> 40 then then_io (io_outb PIC_SLAVE_CMD_PORT PIC_EOI) (io_outb PIC_MASTER_CMD_PORT PIC_EOI)
      else if n \<ge> 32 then io_outb PIC_MASTER_CMD_PORT PIC_EOI
      else ret ())"

definition idt64_set_callback :: "u8 \<Rightarrow> 'a option \<Rightarrow> 'a option list \<Rightarrow> 'a option list kres" where
  "idt64_set_callback vector callback tab =
     (if unat vector < length tab then Inr (tab[unat vector := callback]) else Inl Fault)"

definition idt64_isr_dispatch :: "(InterruptFrame \<Rightarrow> unit io) option list \<Rightarrow> (InterruptFrame \<Rightarrow> unit io) \<Rightarrow>
    InterruptFrame \<Rightarrow> (kerr + unit) io" where
  "idt64_isr_dispatch callbacks print_frame frame =
     (let n = int_no frame in
      if unat n \<ge> length callbacks then ret (Inl Fault)
      else
        case callbacks ! unat n of
          None \<Rightarrow> then_io (print_frame frame)
            (if n < 32 then ret (Inl (KPanic ''Unhandled exception''))
             else then_io (pic_send_eoi n) (ret (Inr ())))
        | Some handler \<Rightarrow> then_io (handler frame) (then_io (pic_send_eoi n) (ret (Inr ()))))"

section \<open>The boot loader's table\<close>

record IDT32Entry =
  offset1_32 :: u16
  segment_32 :: u16
  zero_32 :: u8
  attr_32 :: u8
  offset2_32 :: u16

definition idt32_set_entry :: "u8 \<Rightarrow> IDT32Entry list \<Rightarrow> u32 \<Rightarrow> u32 \<Rightarrow> IDT32Entry list kres" where
  "idt32_set_entry attr tab index handler =
     (if unat index < length tab
      then Inr (tab[unat index := \<lparr>offset1_32 = ucast (handler AND 0xFFFF), segment_32 = 0x08, zero_32 = 0,
        attr_32 = attr, offset2_32 = ucast (drop_bit 16 handler AND 0xFFFF)\<rparr>])
      else Inl Fault)"

definition idt32_set_entry_int :: "IDT32Entry list \<Rightarrow> u32 \<Rightarrow> u32 \<Rightarrow> IDT32Entry list kres" where
  "idt32_set_entry_int tab index handler = idt32_set_entry 0x8E tab index handler"

definition idt32_set_entry_trap :: "IDT32Entry list \<Rightarrow> u32 \<Rightarrow> u32 \<Rightarrow> IDT32Entry list kres" where
  "idt32_set_entry_trap tab index handler = idt32_set_entry 0x8F tab index handler"

text \<open>A handler is its kind, \<open>True\<close> for an interrupt gate, and its address.\<close>

definition idt32_set_entries :: "IDT32Entry list \<Rightarrow> (bool \<times> u32) list \<Rightarrow> IDT32Entry list kres" where
  "idt32_set_entries tab handlers =
     foldM (\<lambda>(i, int, handler) tab.
       if int then idt32_set_entry_int tab (of_nat i) handler else idt32_set_entry_trap tab (of_nat i) handler)
       (enumerate 0 handlers) tab"

record IDT32ISRFrame =
  gs_32 :: u32
  fs_32 :: u32
  es_32 :: u32
  ds_32 :: u32
  edi_32 :: u32
  esi_32 :: u32
  ebp_32 :: u32
  esp_32 :: u32
  ebx_32 :: u32
  edx_32 :: u32
  ecx_32 :: u32
  eax_32 :: u32
  int_no_32 :: u32
  err_code_32 :: u32
  eip_32 :: u32
  cs_32 :: u32
  eflags_32 :: u32

definition idt32_isr_handler :: "(IDT32ISRFrame \<Rightarrow> unit io) option list \<Rightarrow> (IDT32ISRFrame \<Rightarrow> unit io) \<Rightarrow>
    IDT32ISRFrame \<Rightarrow> (kerr + unit) io" where
  "idt32_isr_handler dispatch_table print_frame frame =
     (let n = int_no_32 frame in
      if unat n \<ge> length dispatch_table then ret (Inl Fault)
      else
        let eoi = (if n \<ge> 40 then then_io (io_outb PIC_SLAVE_CMD_PORT 0x20) (io_outb PIC_MASTER_CMD_PORT 0x20)
                   else if n \<ge> 32 then io_outb PIC_MASTER_CMD_PORT 0x20
                   else ret ())
        in
        case dispatch_table ! unat n of
          None \<Rightarrow> then_io (print_frame frame)
            (if n < 32 then ret (Inl (KPanic ''Unhandled exception''))
             else then_io eoi (ret (Inr ())))
        | Some handler \<Rightarrow> then_io (handler frame) (then_io eoi (ret (Inr ()))))"

section \<open>Segment descriptors\<close>

definition gdt_entry :: "u32 \<Rightarrow> u32 \<Rightarrow> u8 \<Rightarrow> u8 \<Rightarrow> u64" where
  "gdt_entry base limit access flags =
     push_bit 0 (ucast limit AND 0xFFFF) OR
     push_bit 16 (ucast base AND 0xFFFF) OR
     push_bit 32 (drop_bit 16 (ucast base) AND 0xFF) OR
     push_bit 40 (ucast access) OR
     push_bit 48 (drop_bit 16 (ucast limit) AND 0xF) OR
     push_bit 52 (ucast flags) OR
     push_bit 56 (drop_bit 24 (ucast base) AND 0xFF)"

definition gdt_set_entry :: "u64 list \<Rightarrow> u16 \<Rightarrow> u32 \<Rightarrow> u32 \<Rightarrow> u8 \<Rightarrow> u8 \<Rightarrow> u64 list kres" where
  "gdt_set_entry gdt index base limit access flags =
     (if unat index < length gdt then Inr (gdt[unat index := gdt_entry base limit access flags]) else Inl Fault)"

definition gdt_set_tss_entry :: "u64 list \<Rightarrow> u16 \<Rightarrow> u64 \<Rightarrow> u8 \<Rightarrow> u8 \<Rightarrow> u32 \<Rightarrow> u64 list kres" where
  "gdt_set_tss_entry gdt index tss access flags count =
     (if unat index + 1 < length gdt
      then Inr (gdt[unat index :=
          push_bit 0 (ucast count AND 0xFFFF) OR
          push_bit 16 (tss AND 0xFFFF) OR
          push_bit 32 (drop_bit 16 tss AND 0xFF) OR
          push_bit 40 (ucast access) OR
          push_bit 48 (drop_bit 16 (ucast count) AND 0xF) OR
          push_bit 52 (ucast flags) OR
          push_bit 56 (drop_bit 24 tss AND 0xFF),
        unat index + 1 := drop_bit 32 tss AND 0xFFFFFFFF])
      else Inl Fault)"

definition gdt_limit :: "u16 \<Rightarrow> u16" where
  "gdt_limit count = ucast ((ucast count :: u64) * 8 - 1)"

definition stage2_gdt_set_entry :: "u64 list \<Rightarrow> u16 \<Rightarrow> u32 \<Rightarrow> u32 \<Rightarrow> u8 \<Rightarrow> u8 \<Rightarrow> u64 list kres" where
  "stage2_gdt_set_entry gdt index base limit access flags =
     (if unat index < length gdt
      then Inr (gdt[unat index :=
          push_bit 0 (ucast limit AND 0xFFFF) OR
          push_bit 16 (ucast base AND 0xFFFF) OR
          push_bit 32 (drop_bit 16 (ucast base) AND 0xFF) OR
          push_bit 40 (ucast access) OR
          push_bit 48 (drop_bit 16 (ucast limit) AND 0xF) OR
          push_bit 52 (ucast flags) OR
          push_bit 56 (drop_bit 24 (ucast base) AND 0xFF)])
      else Inl Fault)"

definition stage2_gdt_limit :: "u16 \<Rightarrow> u16" where
  "stage2_gdt_limit count = ucast ((ucast count :: u32) * 8 - 1)"

section \<open>What the stubs keep\<close>

definition error_code_matches :: "nat \<Rightarrow> u64 option \<Rightarrow> bool" where
  "error_code_matches n err \<longleftrightarrow> (err \<noteq> None \<longleftrightarrow> n \<in> set isr_error_vectors)"

lemma stub_words:
  assumes "error_code_matches n err"
  shows "isr_stub n (cpu_interrupt err r) =
    [of_nat n, (case err of None \<Rightarrow> 0 | Some e \<Rightarrow> e), ctx_rip r, ctx_cs r, ctx_rflags r, ctx_rsp r, ctx_ss r]"
  using assms by (auto simp: isr_stub_def cpu_interrupt_def error_code_matches_def split: option.splits)

lemma entry_words:
  "isr_common_entry r gs [n, e, ctx_rip r, ctx_cs r, ctx_rflags r, ctx_rsp r, ctx_ss r] =
    (if ctx_cs r AND 3 \<noteq> 0 then \<not> gs else gs,
     [ctx_r15 r, ctx_r14 r, ctx_r13 r, ctx_r12 r, ctx_r11 r, ctx_r10 r, ctx_r9 r, ctx_r8 r, ctx_rbp r, ctx_rdi r,
      ctx_rsi r, ctx_rdx r, ctx_rcx r, ctx_rbx r, ctx_rax r, n, e, ctx_rip r, ctx_cs r, ctx_rflags r, ctx_rsp r, ctx_ss r])"
  by (simp add: isr_common_entry_def Let_def)

text \<open>The structure the dispatcher receives holds the interrupted registers.\<close>

lemma entry_frame:
  assumes "error_code_matches n err" and "isr_common_entry r gs (isr_stub n (cpu_interrupt err r)) = (gs', st)"
  shows "int_no (frame_at st) = of_nat n \<and> err_code (frame_at st) = (case err of None \<Rightarrow> 0 | Some e \<Rightarrow> e) \<and>
    registers (frame_at st) = \<lparr>reg_r15 = ctx_r15 r, reg_r14 = ctx_r14 r, reg_r13 = ctx_r13 r, reg_r12 = ctx_r12 r,
      reg_r11 = ctx_r11 r, reg_r10 = ctx_r10 r, reg_r9 = ctx_r9 r, reg_r8 = ctx_r8 r, reg_rbp = ctx_rbp r,
      reg_rdi = ctx_rdi r, reg_rsi = ctx_rsi r, reg_rdx = ctx_rdx r, reg_rcx = ctx_rcx r, reg_rbx = ctx_rbx r,
      reg_rax = ctx_rax r\<rparr> \<and>
    iret_frame (frame_at st) = \<lparr>iret_rip = ctx_rip r, iret_cs = ctx_cs r, iret_rflags = ctx_rflags r,
      iret_rsp = ctx_rsp r, iret_ss = ctx_ss r\<rparr>"
  using assms(2) unfolding stub_words [OF assms(1)] entry_words by (auto simp: frame_at_def)

lemma pop_Cons: "pop f (x # xs, r) = (xs, f x r)"
  by (simp add: pop_def)

lemma exit_words:
  "isr_common_exit r' gs [ctx_r15 r, ctx_r14 r, ctx_r13 r, ctx_r12 r, ctx_r11 r, ctx_r10 r, ctx_r9 r, ctx_r8 r,
     ctx_rbp r, ctx_rdi r, ctx_rsi r, ctx_rdx r, ctx_rcx r, ctx_rbx r, ctx_rax r, n, e, ctx_rip r, ctx_cs r,
     ctx_rflags r, ctx_rsp r, ctx_ss r] = (if ctx_cs r AND 3 \<noteq> 0 then \<not> gs else gs, r)"
  by (simp add: isr_common_exit_def Let_def pop_Cons iretq_def)

lemma interrupt_returns:
  assumes "error_code_matches n err"
  shows "isr_common_entry r gs (isr_stub n (cpu_interrupt err r)) = (gs', st) \<Longrightarrow> isr_common_exit r' gs' st = (gs, r)"
  unfolding stub_words [OF assms] entry_words by (auto simp: exit_words)

section \<open>What the descriptors say\<close>

definition gate_handler :: "IDT64Entry \<Rightarrow> u64" where
  "gate_handler e = ucast (offset1 e) OR push_bit 16 (ucast (offset2 e)) OR push_bit 32 (ucast (offset3 e))"

lemma nbit_high: "LENGTH('a :: len) \<le> n \<Longrightarrow> \<not> bit (w :: 'a word) n"
  using bit_imp_le_length [of w n] by auto

lemma gate_handler_pieces:
  "ucast (ucast (h AND 0xFFFF) :: u16) OR push_bit 16 (ucast (ucast (drop_bit 16 h AND 0xFFFF) :: u16)) OR
   push_bit 32 (ucast (ucast (drop_bit 32 h AND 0xFFFFFFFF) :: u32)) = (h :: u64)" (is "?w = h")
proof (rule bit_word_eqI)
  fix n assume n: "n < LENGTH(64)"
  have m: "(0xFFFFFFFF :: u64) = mask 32" "(0xFFFF :: u64) = mask 16" by (simp_all add: mask_eq_exp_minus_1)
  consider "n < 16" | "16 \<le> n" "n < 32" | "32 \<le> n" by linarith
  then show "bit ?w n = bit h n"
    unfolding m using n
    by cases (simp_all add: bit_or_iff bit_push_bit_iff bit_ucast_iff bit_drop_bit_eq bit_and_iff bit_mask_iff
        possible_bit_def less_diff_conv2)
qed

definition seg_limit :: "u64 \<Rightarrow> u32" where
  "seg_limit w = ucast ((w AND mask 16) OR push_bit 16 (drop_bit 48 w AND mask 4))"

definition seg_base :: "u64 \<Rightarrow> u32" where
  "seg_base w = ucast ((drop_bit 16 w AND mask 24) OR push_bit 24 (drop_bit 56 w AND mask 8))"

definition seg_access :: "u64 \<Rightarrow> u8" where
  "seg_access w = ucast (drop_bit 40 w AND mask 8)"

definition seg_flags :: "u64 \<Rightarrow> u8" where
  "seg_flags w = ucast (drop_bit 52 w AND mask 4)"

text \<open>Fields of a descriptor, bit by bit.\<close>

lemma gdt_entry_bit:
  assumes "n < 64"
  shows "bit (gdt_entry base limit access flags) n \<longleftrightarrow>
    (if n < 16 then bit limit n
     else if n < 40 then bit base (n - 16)
     else if n < 48 then bit access (n - 40)
     else if n < 52 then bit limit (n - 32)
     else if n < 56 then bit flags (n - 52)
     else bit flags (n - 52) \<or> bit base (n - 32))"
proof -
  have m: "(0xFFFF :: u64) = mask 16" "(0xFF :: u64) = mask 8" "(0xF :: u64) = mask 4" by (simp_all add: mask_eq_exp_minus_1)
  consider "n < 16" | "16 \<le> n" "n < 32" | "32 \<le> n" "n < 40" | "40 \<le> n" "n < 48" | "48 \<le> n" "n < 52" |
    "52 \<le> n" "n < 56" | "56 \<le> n" by linarith
  then show ?thesis
    unfolding gdt_entry_def m using assms
    by cases (simp_all add: bit_or_iff bit_push_bit_iff bit_ucast_iff bit_drop_bit_eq bit_and_iff bit_mask_iff
        possible_bit_def nbit_high less_diff_conv2)
qed

lemma small_flags:
  assumes "flags < 16" and "4 \<le> n"
  shows "\<not> bit (flags :: u8) n"
proof -
  have "unat flags < 2 ^ 4" using assms(1) by (simp add: word_less_nat_alt)
  also have "\<dots> \<le> 2 ^ n" using assms(2) by (intro power_increasing) simp_all
  finally have "unat flags div 2 ^ n = 0" by simp
  then have "\<not> bit (unat flags) n" by (simp add: bit_iff_odd)
  then show ?thesis by (simp add: bit_unsigned_iff)
qed

lemma gdt_entry_decode:
  "seg_limit (gdt_entry base limit access flags) = limit AND mask 20"
  "seg_access (gdt_entry base limit access flags) = access"
  "flags < 16 \<Longrightarrow> seg_base (gdt_entry base limit access flags) = base"
  "flags < 16 \<Longrightarrow> seg_flags (gdt_entry base limit access flags) = flags"
proof -
  let ?w = "gdt_entry base limit access flags"
  show "seg_limit ?w = limit AND mask 20"
  proof (rule bit_word_eqI)
    fix n assume n: "n < LENGTH(32)"
    consider "n < 16" | "16 \<le> n" "n < 20" | "20 \<le> n" by linarith
    then show "bit (seg_limit ?w) n = bit (limit AND mask 20) n"
      using n unfolding seg_limit_def
      by cases (simp_all add: bit_or_iff bit_push_bit_iff bit_ucast_iff bit_drop_bit_eq bit_and_iff bit_mask_iff
          possible_bit_def less_diff_conv2 gdt_entry_bit)
  qed
  show "seg_access ?w = access"
    by (rule bit_word_eqI)
       (simp add: seg_access_def bit_ucast_iff bit_drop_bit_eq bit_and_iff bit_mask_iff possible_bit_def gdt_entry_bit)
  assume f: "flags < 16"
  show "seg_base ?w = base"
  proof (rule bit_word_eqI)
    fix n assume n: "n < LENGTH(32)"
    consider "n < 24" | "24 \<le> n" by linarith
    then show "bit (seg_base ?w) n = bit base n"
      using n unfolding seg_base_def
      by cases (simp_all add: bit_or_iff bit_push_bit_iff bit_ucast_iff bit_drop_bit_eq bit_and_iff bit_mask_iff
          possible_bit_def less_diff_conv2 gdt_entry_bit small_flags [OF f])
  qed
  show "seg_flags ?w = flags"
  proof (rule bit_word_eqI)
    fix n assume n: "n < LENGTH(8)"
    show "bit (seg_flags ?w) n = bit flags n"
      using n small_flags [OF f, of n] unfolding seg_flags_def
      by (cases "n < 4") (simp_all add: bit_ucast_iff bit_drop_bit_eq bit_and_iff bit_mask_iff possible_bit_def
          gdt_entry_bit)
  qed
qed

definition gate_of :: "u64 \<Rightarrow> IDT64GateType \<Rightarrow> u8 \<Rightarrow> IDT64Entry \<Rightarrow> bool" where
  "gate_of h type ist e \<longleftrightarrow> gate_handler e = h \<and> segment e = 0x08 \<and> ist_index e = ist AND 0xF \<and>
     gate_attr e = (if type = IDT64_ISR_INTERRUPT then 0x8E else 0x8F)"

lemma set_gate_spec:
  assumes "i < length tab" and "i < 2 ^ 32"
  shows "\<exists>tab'. idt64_set_gate tab (of_nat i) h type ist = Inr tab' \<and> length tab' = length tab \<and>
    gate_of h type ist (tab' ! i) \<and> (\<forall>j. j \<noteq> i \<longrightarrow> tab' ! j = tab ! j)"
  using assms by (simp add: idt64_set_gate_def unat_of_nat_small gate_of_def gate_handler_def gate_handler_pieces)

lemma set_gates_spec:
  assumes "distinct (map fst gs)" and "\<forall>g\<in>set gs. fst g < length tab" and "length tab \<le> 2 ^ 32"
  shows "\<exists>tab'. foldM (\<lambda>(i, type, ist) tab. idt64_set_gate tab (of_nat i) (isr i) type ist) gs tab = Inr tab' \<and>
    length tab' = length tab \<and> (\<forall>(i, type, ist)\<in>set gs. gate_of (isr i) type ist (tab' ! i)) \<and>
    (\<forall>j. j \<notin> fst ` set gs \<longrightarrow> tab' ! j = tab ! j)"
  using assms
proof (induction gs arbitrary: tab)
  case Nil
  then show ?case by simp
next
  case (Cons g gs)
  obtain i type ist where g: "g = (i, type, ist)" by (cases g)
  obtain t where t: "idt64_set_gate tab (of_nat i) (isr i) type ist = Inr t" "length t = length tab"
    "gate_of (isr i) type ist (t ! i)" "\<forall>j. j \<noteq> i \<longrightarrow> t ! j = tab ! j"
    using set_gate_spec [of i tab "isr i" type ist] Cons.prems g by auto
  obtain tab' where tab': "foldM (\<lambda>(i, type, ist) tab. idt64_set_gate tab (of_nat i) (isr i) type ist) gs t = Inr tab'"
    "length tab' = length t" "\<forall>(i, type, ist)\<in>set gs. gate_of (isr i) type ist (tab' ! i)"
    "\<forall>j. j \<notin> fst ` set gs \<longrightarrow> tab' ! j = t ! j"
    using Cons.IH [of t] Cons.prems t(2) by auto
  have "i \<notin> fst ` set gs" using Cons.prems g by auto
  then have "tab' ! i = t ! i" using tab'(4) by blast
  then show ?case using t tab' g by (intro exI [of _ tab']) auto
qed

definition gate_ist :: "nat \<Rightarrow> u8" where
  "gate_ist i = (if i = 2 then 1 else if i = 8 then 2 else if i = 18 then 3 else 0)"

lemma gate_list: "map fst (exception_gates @ irq_gates @ high_gates) = [0..<256]"
proof -
  have "map fst exception_gates = [0..<32]" by (simp add: exception_gates_def upt_rec)
  moreover have "map fst irq_gates = [32..<144]" "map fst high_gates = [144..<256]"
    by (simp_all add: irq_gates_def high_gates_def comp_def)
  moreover have "[0..<32] @ [32..<144] @ [144..<256] = [0..<256]"
    using upt_add_eq_append [of 0 32 224] upt_add_eq_append [of 32 144 112] by simp
  ultimately show ?thesis by (simp only: map_append)
qed

lemma gate_list_ist:
  "\<forall>(i, type, ist)\<in>set (exception_gates @ irq_gates @ high_gates). ist AND 0xF = gate_ist i"
  by (auto simp: exception_gates_def irq_gates_def high_gates_def gate_ist_def)

section \<open>Properties\<close>


definition example_context :: ProcessContext where
  "example_context = \<lparr>ctx_rax = 1, ctx_rbx = 2, ctx_rcx = 3, ctx_rdx = 4, ctx_rsi = 5, ctx_rdi = 6, ctx_rbp = 7,
     ctx_r8 = 8, ctx_r9 = 9, ctx_r10 = 10, ctx_r11 = 11, ctx_r12 = 12, ctx_r13 = 13, ctx_r14 = 14, ctx_r15 = 15,
     ctx_rip = 0x400000, ctx_cs = 0x23, ctx_rflags = 0x202, ctx_rsp = 0x7FFFFFFFA000, ctx_ss = 0x1B\<rparr>"




text \<open>A segment descriptor written by \<^verbatim>\<open>gdt_set_entry\<close> decodes to the base, the limit modulo 1 MiB, the access
  byte and the flags it was made from, if the flags fit their four bits.\<close>
theorem gdt_set_entry_decode:
  assumes "unat index < length gdt" and "flags < 16"
  shows "\<exists>gdt'. gdt_set_entry gdt index base limit access flags = Inr gdt' \<and>
    seg_base (gdt' ! unat index) = base \<and> seg_limit (gdt' ! unat index) = limit AND mask 20 \<and>
    seg_access (gdt' ! unat index) = access \<and> seg_flags (gdt' ! unat index) = flags \<and>
    (\<forall>i. i \<noteq> unat index \<longrightarrow> gdt' ! i = gdt ! i)"
  using assms by (simp add: gdt_set_entry_def gdt_entry_decode)

theorem gdt_set_entry_decode_witness:
  "\<exists>gdt'. gdt_set_entry (replicate 7 0) 4 0 0xFFFFFFFF 0xFA 0xA = Inr gdt' \<and> seg_access (gdt' ! 4) = 0xFA \<and>
    seg_flags (gdt' ! 4) = 0xA \<and> gdt' ! 3 = 0"
  using gdt_set_entry_decode [of 4 "replicate 7 0" "0xA" 0 "0xFFFFFFFF" "0xFA"] by auto

end
