(* ===== verification/Process.thy ===== *)
theory Process
  imports SlabHeap Interrupts
begin

text \<open>
  Processes (include/kernel/process.h, kernel/kernel/process.c), the round-robin scheduler
  (kernel/kernel/scheduler.c), the reaper (kernel/kernel/reaper.c) and the system calls
  (kernel/kernel/syscall.c, kernel/kernel/syscall_stub.asm).

  \<open>processes\<close> holds the \<^verbatim>\<open>Process\<close> structures under their addresses; the two process tables
  are lists of 32 addresses, 0 for an empty slot. The fields of \<^verbatim>\<open>CpuState\<close> the code uses are
  part of the state, as are the registers of the processor after a \<^verbatim>\<open>process_jump\<close>
  (\<open>cpu_regs\<close>), whether the user GS base is loaded (\<open>gs_user\<close>), the interrupt flag and the
  writes to the registers of the local APIC.
\<close>

unbundle bit_operations_syntax

section \<open>Data\<close>

datatype ProcessState = PROCESS_READY | PROCESS_RUNNING | PROCESS_DEAD

record Process =
  proc_pml4 :: u64
  proc_pml4_phys :: u64
  proc_pid :: u32
  proc_entry :: u64
  proc_stack_top :: u64
  proc_kernel_stack_top :: u64
  proc_stack_size :: u64
  proc_kernel_stack_size :: u64
  proc_brk_start :: u64
  proc_brk :: u64
  proc_exit_code :: "32 word"
  proc_context :: ProcessContext
  proc_state :: ProcessState

record kstate = slab_state +
  processes :: "u64 \<Rightarrow> Process option"
  process_list :: "u64 list"
  process_list_reap :: "u64 list"
  reaper_cursor :: u64
  current_process :: u64
  scheduler_next :: u64
  idle_process :: u64
  cpu_kernel_stack_top :: u64
  user_stack_rsp :: u64
  interrupt_frame :: InterruptFrame
  lapic_timer_speed :: u32
  tss_rsp0 :: u64
  cpu_regs :: ProcessContext
  gs_user :: bool
  interrupts_on :: bool
  lapic_writes :: lapic_log
  serial_default :: "u16 option"
  io_log :: io_hist

definition PROCESS_DEFAULT_STACK_SIZE :: u64 where
  "PROCESS_DEFAULT_STACK_SIZE = 0x200000"

definition PROCESS_DEFAULT_KERNEL_STACK_SIZE :: u64 where
  "PROCESS_DEFAULT_KERNEL_STACK_SIZE = 0x4000"

definition PROCESS_VIRT_TOP :: u64 where
  "PROCESS_VIRT_TOP = 0x00007FFFFFFFF000"

definition PROCESS_VIRT_STACK_TOP :: u64 where
  "PROCESS_VIRT_STACK_TOP = PROCESS_VIRT_TOP - PROCESS_DEFAULT_KERNEL_STACK_SIZE - 0x1000"

definition PROCESS_KERNEL_VIRT_BASE :: u64 where
  "PROCESS_KERNEL_VIRT_BASE = 0xFFFFFF7FC0000000"

definition PROCESS_VIRT_KERNEL_STACK_TOP :: u64 where
  "PROCESS_VIRT_KERNEL_STACK_TOP = PROCESS_KERNEL_VIRT_BASE + 0x40000000"

definition VMM_FLAGS_USER_DATA :: u64 where
  "VMM_FLAGS_USER_DATA = 0x8000000000000007"

abbreviation SCHEDULER_MAX_PROCESSES :: u64 where
  "SCHEDULER_MAX_PROCESSES \<equiv> 32"

definition read_process :: "u64 \<Rightarrow> 'a kstate_scheme \<Rightarrow> Process kres" where
  "read_process p s = checked (processes s p)"

definition update_process :: "u64 \<Rightarrow> (Process \<Rightarrow> Process) \<Rightarrow> 'a kstate_scheme \<Rightarrow> 'a kstate_scheme kres" where
  "update_process p f s = andthen (read_process p s) (\<lambda>q. Inr (s\<lparr>processes := (processes s)(p \<mapsto> f q)\<rparr>))"

section \<open>Creating and destroying processes\<close>

definition alloc_map :: "u64 \<Rightarrow> u64 \<Rightarrow> u64 \<Rightarrow> 'a vmm_scheme \<Rightarrow> 'a vmm_scheme kres" where
  "alloc_map flags tab virt s = andthen (pmm_alloc s) (\<lambda>(phys, s). vmm_map tab phys virt flags s)"

definition copy_kernel_half :: "u64 \<Rightarrow> u64 \<Rightarrow> 'a vmm_scheme \<Rightarrow> 'a vmm_scheme" where
  "copy_kernel_half tab kernel_tab s =
     fold (\<lambda>i s. poke tab (of_nat i) (peek s kernel_tab (of_nat i)) s) [256..<512] s"

definition process_create :: "u64 \<Rightarrow> u32 \<Rightarrow> u64 \<Rightarrow> u64 \<Rightarrow> u64 \<Rightarrow> u64 \<Rightarrow> u64 \<Rightarrow> u64 \<Rightarrow> u64 \<Rightarrow> u64 \<Rightarrow>
    u64 \<Rightarrow> u64 \<Rightarrow> u64 \<Rightarrow> 'a kstate_scheme \<Rightarrow> 'a kstate_scheme kres" where
  "process_create process pid' entry' cs' ss' rflags' stack_top' stack_size' kstack_top kstack_size
     pml4' pml4_phys' kernel_pml4' s =
     andthen (update_process process (\<lambda>p. p\<lparr>proc_pml4 := pml4', proc_pml4_phys := pml4_phys', proc_pid := pid'\<rparr>) s) (\<lambda>s.
     let s = copy_kernel_half pml4' kernel_pml4' s in
     andthen (if stack_top' \<noteq> 0 \<and> stack_size' \<noteq> 0
              then for_pages (alloc_map VMM_FLAGS_USER_DATA pml4') (stack_top' - stack_size') stack_top' s
              else Inr s) (\<lambda>s.
     andthen (for_pages (alloc_map VMM_FLAGS_KERNEL_DATA pml4') (kstack_top - kstack_size) kstack_top s) (\<lambda>s.
     update_process process (\<lambda>p.
       let p = p\<lparr>proc_context := (proc_context p)\<lparr>ctx_cs := cs', ctx_ss := ss', ctx_rip := entry', ctx_rflags := rflags'\<rparr>\<rparr>;
           p = (if stack_top' \<noteq> 0 \<and> stack_size' \<noteq> 0
                then p\<lparr>proc_stack_top := stack_top', proc_stack_size := stack_size',
                       proc_context := (proc_context p)\<lparr>ctx_rsp := stack_top'\<rparr>\<rparr>
                else p\<lparr>proc_stack_top := kstack_top, proc_stack_size := kstack_size,
                       proc_context := (proc_context p)\<lparr>ctx_rsp := kstack_top\<rparr>\<rparr>)
       in p\<lparr>proc_entry := entry', proc_kernel_stack_top := kstack_top, proc_kernel_stack_size := kstack_size,
            proc_state := PROCESS_READY\<rparr>) s)))"

definition process_destroy :: "u64 \<Rightarrow> 'a kstate_scheme \<Rightarrow> 'a kstate_scheme kres" where
  "process_destroy process s =
     andthen (read_process process s) (\<lambda>p.
     let kernel_stack_start = proc_kernel_stack_top p - proc_kernel_stack_size p;
         kernel_stack_end = proc_kernel_stack_top p
     in
     andthen (for_pages (\<lambda>a. vmm_free (proc_pml4 p) a) kernel_stack_start kernel_stack_end s) (\<lambda>s.
     andthen (vmm_destroy (proc_pml4 p) s) (\<lambda>s.
     pmm_free (proc_pml4_phys p) s)))"

section \<open>Switching the context\<close>

definition process_save_state :: "Process \<Rightarrow> InterruptFrame \<Rightarrow> Process" where
  "process_save_state p frame =
     (let r = registers frame; i = iret_frame frame in
      p\<lparr>proc_context := (proc_context p)\<lparr>ctx_rax := reg_rax r, ctx_rbx := reg_rbx r, ctx_rcx := reg_rcx r, ctx_rdx := reg_rdx r,
         ctx_rsi := reg_rsi r, ctx_rdi := reg_rdi r, ctx_rbp := reg_rbp r, ctx_r8 := reg_r8 r, ctx_r9 := reg_r9 r,
         ctx_r10 := reg_r10 r, ctx_r11 := reg_r11 r, ctx_r12 := reg_r12 r, ctx_r13 := reg_r13 r, ctx_r14 := reg_r14 r,
         ctx_r15 := reg_r15 r, ctx_ss := iret_ss i, ctx_rsp := iret_rsp i, ctx_rflags := iret_rflags i, ctx_cs := iret_cs i,
         ctx_rip := iret_rip i\<rparr>\<rparr>)"

definition restore_context :: "stack_regs \<Rightarrow> stack_regs" where
  "restore_context st =
     (let st = pop (\<lambda>v r. r\<lparr>ctx_rax := v\<rparr>) st;
          st = pop (\<lambda>v r. r\<lparr>ctx_rbx := v\<rparr>) st;
          st = pop (\<lambda>v r. r\<lparr>ctx_rcx := v\<rparr>) st;
          st = pop (\<lambda>v r. r\<lparr>ctx_rdx := v\<rparr>) st;
          st = pop (\<lambda>v r. r\<lparr>ctx_rsi := v\<rparr>) st;
          st = pop (\<lambda>v r. r\<lparr>ctx_rdi := v\<rparr>) st;
          st = pop (\<lambda>v r. r\<lparr>ctx_rbp := v\<rparr>) st;
          st = pop (\<lambda>v r. r\<lparr>ctx_r8 := v\<rparr>) st;
          st = pop (\<lambda>v r. r\<lparr>ctx_r9 := v\<rparr>) st;
          st = pop (\<lambda>v r. r\<lparr>ctx_r10 := v\<rparr>) st;
          st = pop (\<lambda>v r. r\<lparr>ctx_r11 := v\<rparr>) st;
          st = pop (\<lambda>v r. r\<lparr>ctx_r12 := v\<rparr>) st;
          st = pop (\<lambda>v r. r\<lparr>ctx_r13 := v\<rparr>) st;
          st = pop (\<lambda>v r. r\<lparr>ctx_r14 := v\<rparr>) st;
          st = pop (\<lambda>v r. r\<lparr>ctx_r15 := v\<rparr>) st
      in iretq st)"

definition process_jump :: "Process \<Rightarrow> 'a kstate_scheme \<Rightarrow> 'a kstate_scheme" where
  "process_jump p s =
     (let s = s\<lparr>tss_rsp0 := proc_kernel_stack_top p, cr3 := proc_pml4_phys p\<rparr>;
          s = (if ctx_cs (proc_context p) AND 0x03 \<noteq> 0 then s\<lparr>gs_user := \<not> gs_user s\<rparr> else s)
      in s\<lparr>cpu_regs := snd (restore_context (context_words (proc_context p), cpu_regs s))\<rparr>)"

section \<open>The process tables\<close>

fun first_free :: "u64 list \<Rightarrow> nat option" where
  "first_free [] = None"
| "first_free (x # xs) = (if x = 0 then Some 0 else map_option Suc (first_free xs))"

definition add_to_table :: "u64 list \<Rightarrow> u64 \<Rightarrow> (bool \<times> u64 list)" where
  "add_to_table tab process = (case first_free tab of
       Some i \<Rightarrow> (True, tab[i := process])
     | None \<Rightarrow> (False, tab))"

definition scheduler_add_process :: "u64 \<Rightarrow> 'a kstate_scheme \<Rightarrow> bool \<times> 'a kstate_scheme" where
  "scheduler_add_process process s =
     (let (r, tab) = add_to_table (process_list s) process in (r, s\<lparr>process_list := tab\<rparr>))"

definition reaper_add_process :: "u64 \<Rightarrow> 'a kstate_scheme \<Rightarrow> bool \<times> 'a kstate_scheme" where
  "reaper_add_process process s =
     (let (r, tab) = add_to_table (process_list_reap s) process in (r, s\<lparr>process_list_reap := tab\<rparr>))"

section \<open>The scheduler\<close>

text \<open>The loop of \<^verbatim>\<open>scheduler_loop\<close>: \<open>n\<close> is the number of rounds left. The result is the process to
  continue, 0 when none was found.\<close>

fun scheduler_pick :: "nat \<Rightarrow> 'a kstate_scheme \<Rightarrow> (u64 \<times> 'a kstate_scheme) kres" where
  "scheduler_pick 0 s = Inr (0, s)"
| "scheduler_pick (Suc n) s =
     (let s = (if scheduler_next s \<ge> SCHEDULER_MAX_PROCESSES then s\<lparr>scheduler_next := 0\<rparr> else s);
          i = unat (scheduler_next s)
      in
      if i \<ge> length (process_list s) then Inl Fault
      else
        let proc = process_list s ! i in
        if proc \<noteq> 0
        then andthen (read_process proc s) (\<lambda>p.
          if proc_state p = PROCESS_DEAD
          then
            let (added, s) = reaper_add_process proc s;
                s = (if added then s\<lparr>process_list := (process_list s)[i := 0]\<rparr> else s)
            in scheduler_pick n (s\<lparr>scheduler_next := scheduler_next s + 1\<rparr>)
          else Inr (proc, s))
        else scheduler_pick n (s\<lparr>scheduler_next := scheduler_next s + 1\<rparr>))"

definition scheduler_loop :: "'a kstate_scheme \<Rightarrow> 'a kstate_scheme kres" where
  "scheduler_loop s =
     (let frame = interrupt_frame s;
          s = s\<lparr>lapic_writes := lapic_eoi (lapic_writes s)\<rparr>
      in
      andthen (scheduler_pick (unat SCHEDULER_MAX_PROCESSES) s) (\<lambda>(found, s).
      let s = s\<lparr>scheduler_next := scheduler_next s + 1\<rparr>;
          target = (if found = 0 then idle_process s else found)
      in
      andthen (if current_process s \<noteq> 0
               then andthen (read_process (current_process s) s) (\<lambda>c.
                 if proc_state c \<noteq> PROCESS_DEAD
                 then update_process (current_process s)
                   (\<lambda>c. (process_save_state c frame)\<lparr>proc_state := PROCESS_READY\<rparr>) s
                 else Inr s)
               else Inr s) (\<lambda>s.
      andthen (update_process target (\<lambda>p. p\<lparr>proc_state := PROCESS_RUNNING\<rparr>) s) (\<lambda>s.
      andthen (read_process target s) (\<lambda>p.
      let s = s\<lparr>current_process := target, cpu_kernel_stack_top := proc_kernel_stack_top p\<rparr>
      in Inr (process_jump p s))))))"

text \<open>\<^verbatim>\<open>scheduler_yield\<close> restarts the timer and raises the interrupt whose handler is \<^verbatim>\<open>scheduler_loop\<close>;
  the processor pushes the frame of the caller, which the interrupt stub stores.\<close>

definition scheduler_yield :: "InterruptFrame \<Rightarrow> 'a kstate_scheme \<Rightarrow> 'a kstate_scheme kres" where
  "scheduler_yield frame s =
     scheduler_loop (s\<lparr>lapic_writes := lapic_timer_set_counter (lapic_timer_speed s) (lapic_writes s),
       interrupt_frame := frame\<rparr>)"

section \<open>The reaper\<close>

text \<open>One round of the loop of \<^verbatim>\<open>reaper_run\<close>, up to the call of \<^verbatim>\<open>scheduler_yield\<close> or \<^verbatim>\<open>kernel_halt\<close>; the result
  says which of the two follows.\<close>

definition reaper_step :: "'a kstate_scheme \<Rightarrow> (bool \<times> 'a kstate_scheme) kres" where
  "reaper_step s =
     (let s = (if reaper_cursor s \<ge> SCHEDULER_MAX_PROCESSES then s\<lparr>reaper_cursor := 0\<rparr> else s);
          s = s\<lparr>interrupts_on := False\<rparr>;
          i = unat (reaper_cursor s)
      in
      if i \<ge> length (process_list_reap s) then Inl Fault
      else
        let process = process_list_reap s ! i;
            s = s\<lparr>process_list_reap := (process_list_reap s)[i := 0]\<rparr>;
            s = s\<lparr>interrupts_on := True\<rparr>;
            s = s\<lparr>reaper_cursor := reaper_cursor s + 1\<rparr>
        in
        if process \<noteq> 0
        then andthen (process_destroy process s) (\<lambda>s.
             andthen (kfree process s) (\<lambda>s.
             Inr (True, s\<lparr>processes := (processes s)(process := None)\<rparr>)))
        else Inr (False, s))"

section \<open>System calls\<close>

text \<open>The string a user pointer points to is read from \<open>user_string\<close>; the serial device is a parameter. A
  system call returns a value to its caller, \<open>Some v\<close>, or has switched to another process, \<open>None\<close>.\<close>

definition SYSCALL_OK :: u64 where "SYSCALL_OK = 0"
definition SYSCALL_ERR :: u64 where "SYSCALL_ERR = -1"

definition syscall_serial_puts :: "io_device \<Rightarrow> (u64 \<Rightarrow> u8 list) \<Rightarrow> u64 \<Rightarrow> 'a kstate_scheme \<Rightarrow>
    (u64 option \<times> 'a kstate_scheme) kres" where
  "syscall_serial_puts dev user_string arg s =
     (if arg = 0 then Inr (Some SYSCALL_ERR, s)
      else case serial_default s of
        Some port \<Rightarrow> (case serial_puts port (user_string arg) dev (io_log s) of
            Some (_, h) \<Rightarrow> Inr (Some SYSCALL_OK, s\<lparr>io_log := h\<rparr>)
          | None \<Rightarrow> Inl Diverge)
      | None \<Rightarrow> Inr (Some SYSCALL_ERR, s))"

definition syscall_exit :: "InterruptFrame \<Rightarrow> u64 \<Rightarrow> 'a kstate_scheme \<Rightarrow> (u64 option \<times> 'a kstate_scheme) kres" where
  "syscall_exit frame arg s =
     andthen (update_process (current_process s)
       (\<lambda>p. p\<lparr>proc_state := PROCESS_DEAD, proc_exit_code := ucast arg\<rparr>) s) (\<lambda>s.
     andthen (scheduler_yield frame s) (\<lambda>s. Inr (None, s)))"

definition syscall_yield :: "InterruptFrame \<Rightarrow> u64 \<Rightarrow> 'a kstate_scheme \<Rightarrow> (u64 option \<times> 'a kstate_scheme) kres" where
  "syscall_yield frame arg s = andthen (scheduler_yield frame s) (\<lambda>s. Inr (None, s))"

definition syscall_sbrk :: "u64 \<Rightarrow> 'a kstate_scheme \<Rightarrow> (u64 option \<times> 'a kstate_scheme) kres" where
  "syscall_sbrk arg s =
     andthen (read_process (current_process s) s) (\<lambda>p.
     let old_brk = proc_brk p in
     if arg <s 0
     then
       if old_brk + arg < proc_brk_start p then Inr (Some 0, s)
       else
         let old_page = ALIGN_UP old_brk VMM_DEFAULT_PAGE_SIZE div VMM_DEFAULT_PAGE_SIZE;
             new_page = ALIGN_UP (old_brk + arg) VMM_DEFAULT_PAGE_SIZE div VMM_DEFAULT_PAGE_SIZE
         in
         andthen (foldM (\<lambda>page. vmm_free (proc_pml4 p) (of_nat page * VMM_DEFAULT_PAGE_SIZE))
           [unat new_page..<unat old_page] s) (\<lambda>s.
         andthen (update_process (current_process s) (\<lambda>p. p\<lparr>proc_brk := proc_brk p + arg\<rparr>) s) (\<lambda>s.
         Inr (Some old_brk, s)))
     else
       let start = ALIGN_UP old_brk VMM_DEFAULT_PAGE_SIZE;
           end' = ALIGN_UP (old_brk + arg) VMM_DEFAULT_PAGE_SIZE;
           required_pages = end' div VMM_DEFAULT_PAGE_SIZE - start div VMM_DEFAULT_PAGE_SIZE
       in
       andthen (foldM (\<lambda>i. alloc_map VMM_FLAGS_USER_DATA (proc_pml4 p) (start + of_nat i * VMM_DEFAULT_PAGE_SIZE))
         [0..<unat required_pages] s) (\<lambda>s.
       andthen (update_process (current_process s) (\<lambda>p. p\<lparr>proc_brk := proc_brk p + arg\<rparr>) s) (\<lambda>s.
       Inr (Some old_brk, s))))"

text \<open>\<^verbatim>\<open>syscall_stub\<close>: the number is in \<^verbatim>\<open>rax\<close>, the argument in \<^verbatim>\<open>rdi\<close>.\<close>

definition syscall_stub :: "io_device \<Rightarrow> (u64 \<Rightarrow> u8 list) \<Rightarrow> InterruptFrame \<Rightarrow> u64 \<Rightarrow> u64 \<Rightarrow> u64 \<Rightarrow> 'a kstate_scheme \<Rightarrow>
    (u64 option \<times> 'a kstate_scheme) kres" where
  "syscall_stub dev user_string frame rax rdi user_rsp s =
     (let s = s\<lparr>gs_user := \<not> gs_user s, user_stack_rsp := user_rsp\<rparr> in
      andthen
        (if rax \<ge> 4 then Inr (Some (-1), s)
         else if rax = 0 then syscall_exit frame rdi s
         else if rax = 1 then syscall_sbrk rdi s
         else if rax = 2 then syscall_yield frame rdi s
         else syscall_serial_puts dev user_string rdi s) (\<lambda>(r, s).
      case r of
        Some v \<Rightarrow> Inr (Some v, s\<lparr>gs_user := \<not> gs_user s\<rparr>)
      | None \<Rightarrow> Inr (None, s)))"

end
