(* ===== verification/Scheduler.thy ===== *)
theory Scheduler
  imports Process "HOL-Library.Multiset"
begin

text \<open>
  Correctness of the scheduler and of the context switch: the process tables as tables of
  slots, the choice of the next process (round robin, never a dead process, no process lost),
  fairness over a run of the scheduler, and the registers of a process that is preempted and
  resumed.
\<close>

section \<open>Tables of slots\<close>

lemma first_free_Some: "first_free xs = Some i \<Longrightarrow> i < length xs \<and> xs ! i = 0"
  by (induction xs arbitrary: i) (auto split: if_splits)

lemma first_free_None: "first_free xs = None \<longleftrightarrow> 0 \<notin> set xs"
  by (induction xs) auto

text \<open>A table of slots: adding a pointer fills an empty slot, or fails because there is none.\<close>

locale slot_table =
  fixes add :: "u64 \<Rightarrow> 's \<Rightarrow> bool \<times> 's"
    and slots :: "'s \<Rightarrow> u64 list"
  assumes add_fills: "add p s = (True, s') \<Longrightarrow> \<exists>i<length (slots s). slots s ! i = 0 \<and> slots s' = (slots s)[i := p]"
    and add_fails: "add p s = (False, s') \<Longrightarrow> s' = s \<and> 0 \<notin> set (slots s)"
begin

definition entries :: "'s \<Rightarrow> u64 multiset" where
  "entries s = filter_mset (\<lambda>p. p \<noteq> 0) (mset (slots s))"

lemma entries_add:
  assumes "add p s = (True, s')" and "p \<noteq> 0"
  shows "entries s' = add_mset p (entries s)" and "length (slots s') = length (slots s)"
proof -
  obtain i where i: "i < length (slots s)" "slots s ! i = 0" "slots s' = (slots s)[i := p]"
    using add_fills [OF assms(1)] by blast
  then show "entries s' = add_mset p (entries s)" "length (slots s') = length (slots s)"
    using assms(2) by (simp_all add: entries_def mset_update)
qed

lemma add_succeeds: "0 \<in> set (slots s) \<Longrightarrow> \<exists>s'. add p s = (True, s')"
  using add_fails by (cases "add p s") (metis (full_types))

lemma add_keeps: "add p s = (r, s') \<Longrightarrow> x \<in># entries s \<Longrightarrow> x \<in># entries s'"
proof (cases r)
  case True
  assume "add p s = (r, s')" "x \<in># entries s"
  moreover from this True obtain i where i: "i < length (slots s)" "slots s ! i = 0" "slots s' = (slots s)[i := p]"
    using add_fills [of p s s'] by auto
  ultimately show ?thesis by (auto simp: entries_def mset_update)
next
  case False
  assume "add p s = (r, s')" "x \<in># entries s"
  then show ?thesis using add_fails False by fastforce
qed

end

lemma add_to_table_cases:
  "add_to_table tab p = (True, tab') \<Longrightarrow> \<exists>i<length tab. tab ! i = 0 \<and> tab' = tab[i := p]"
  "add_to_table tab p = (False, tab') \<Longrightarrow> tab' = tab \<and> 0 \<notin> set tab"
  using first_free_Some [of tab] first_free_None [of tab]
  by (auto simp: add_to_table_def split: option.splits)

interpretation run_table: slot_table scheduler_add_process process_list
  by unfold_locales
     (auto simp: scheduler_add_process_def Let_def split: prod.splits dest!: add_to_table_cases)

interpretation reap_table: slot_table reaper_add_process process_list_reap
  by unfold_locales
     (auto simp: reaper_add_process_def Let_def split: prod.splits dest!: add_to_table_cases)

section \<open>Choosing a process\<close>

definition runnable :: "'a kstate_scheme \<Rightarrow> u64 \<Rightarrow> bool" where
  "runnable s p \<longleftrightarrow> p \<noteq> 0 \<and> (\<exists>q. processes s p = Some q \<and> proc_state q \<noteq> PROCESS_DEAD)"

definition sched_wf :: "'a kstate_scheme \<Rightarrow> bool" where
  "sched_wf s \<longleftrightarrow> length (process_list s) = 32 \<and> length (process_list_reap s) = 32 \<and>
     (\<forall>p\<in>set (process_list s). p \<noteq> 0 \<longrightarrow> processes s p \<noteq> None) \<and>
     processes s (idle_process s) \<noteq> None \<and>
     (current_process s \<noteq> 0 \<longrightarrow> processes s (current_process s) \<noteq> None)"

definition cursor :: "'a kstate_scheme \<Rightarrow> nat" where
  "cursor s = (if scheduler_next s \<ge> 32 then 0 else unat (scheduler_next s))"

definition held :: "'a kstate_scheme \<Rightarrow> u64 multiset" where
  "held s = run_table.entries s + reap_table.entries s"

definition tables_only :: "'a kstate_scheme \<Rightarrow> 'a kstate_scheme \<Rightarrow> bool" where
  "tables_only s s' \<longleftrightarrow> (\<exists>pl rl nx. s' = s\<lparr>process_list := pl, process_list_reap := rl, scheduler_next := nx\<rparr>)"

lemma tables_onlyI:
  "s' = s\<lparr>process_list := pl, process_list_reap := rl, scheduler_next := nx\<rparr> \<Longrightarrow> tables_only s s'"
  unfolding tables_only_def by blast

lemma tables_only_refl: "tables_only s s"
  by (rule tables_onlyI [where pl = "process_list s" and rl = "process_list_reap s" and nx = "scheduler_next s"]) simp

lemma tables_only_trans:
  assumes "tables_only s t" and "tables_only t u"
  shows "tables_only s u"
proof -
  obtain pl rl nx where t: "t = s\<lparr>process_list := pl, process_list_reap := rl, scheduler_next := nx\<rparr>"
    using assms(1) unfolding tables_only_def by blast
  obtain pl' rl' nx' where "u = t\<lparr>process_list := pl', process_list_reap := rl', scheduler_next := nx'\<rparr>"
    using assms(2) unfolding tables_only_def by blast
  then show ?thesis unfolding t by (intro tables_onlyI [where pl = pl' and rl = rl' and nx = nx']) simp
qed

lemma tables_only_same:
  assumes "tables_only s s'"
  shows "processes s' = processes s" "idle_process s' = idle_process s" "current_process s' = current_process s"
    "runnable s' = runnable s"
  using assms by (auto simp: tables_only_def runnable_def fun_eq_iff)

lemma cursor_lt: "cursor s < 32"
  by (auto simp: cursor_def word_le_nat_alt)

lemma cursor_step:
  assumes "c < 32" and "scheduler_next s = of_nat c + 1"
  shows "cursor s = (c + 1) mod 32"
proof -
  have "unat (of_nat c :: u64) = c" using assms(1) by (intro unat_of_nat_small) simp
  then have "unat (of_nat c + 1 :: u64) = c + 1" using assms(1) by (simp add: unat_add_small)
  then show ?thesis using assms by (auto simp: cursor_def word_le_nat_alt mod_if)
qed

text \<open>One round that does not stop: the slot was empty or held a dead process.\<close>

lemma pick_skip:
  assumes len: "length (process_list s) = 32" and rlen: "length (process_list_reap s) = 32"
    and known: "\<forall>p\<in>set (process_list s). p \<noteq> 0 \<longrightarrow> processes s p \<noteq> None"
    and nr: "\<not> runnable s (process_list s ! cursor s)"
  shows "\<exists>t. scheduler_pick (Suc n) s = scheduler_pick n t \<and> tables_only s t \<and> held t = held s \<and>
    length (process_list t) = 32 \<and> length (process_list_reap t) = 32 \<and> cursor t = (cursor s + 1) mod 32 \<and>
    scheduler_next t = of_nat (cursor s) + 1 \<and>
    (\<forall>x. runnable s (process_list s ! x) \<longrightarrow> process_list t ! x = process_list s ! x) \<and>
    (\<forall>x. runnable t (process_list t ! x) \<longrightarrow> runnable s (process_list s ! x)) \<and>
    (\<forall>p\<in>set (process_list t). p \<noteq> 0 \<longrightarrow> processes t p \<noteq> None)"
proof -
  let ?k = "cursor s"
  define s0 where "s0 = (if scheduler_next s \<ge> 32 then s\<lparr>scheduler_next := 0\<rparr> else s)"
  have nx: "scheduler_next s0 = of_nat ?k" by (simp add: s0_def cursor_def)
  have k: "?k < 32" by (rule cursor_lt)
  have uk: "unat (of_nat ?k :: u64) = ?k" using k by (intro unat_of_nat_small) simp
  have c: "cursor (u\<lparr>scheduler_next := of_nat ?k + 1\<rparr>) = (?k + 1) mod 32" for u :: "'a kstate_scheme"
    by (rule cursor_step [OF k]) simp
  have f0: "process_list s0 = process_list s" "processes s0 = processes s" "process_list_reap s0 = process_list_reap s"
    by (simp_all add: s0_def)
  have s0n: "s0\<lparr>scheduler_next := x\<rparr> = s\<lparr>scheduler_next := x\<rparr>" for x by (simp add: s0_def)
  let ?p = "process_list s ! ?k"
  show ?thesis
  proof (cases "?p = 0")
    case True
    let ?t = "s0\<lparr>scheduler_next := of_nat ?k + 1\<rparr>"
    have "scheduler_pick (Suc n) s = scheduler_pick n ?t"
      using True k len by (simp add: Let_def s0_def [symmetric] nx uk f0)
    moreover have "tables_only s ?t"
      by (rule tables_onlyI [where pl = "process_list s" and rl = "process_list_reap s" and nx = "of_nat ?k + 1"]) (simp add: s0n)
    moreover have "held ?t = held s"
      by (simp add: held_def run_table.entries_def reap_table.entries_def f0)
    ultimately show ?thesis
      using c len rlen known by (intro exI [of _ ?t]) (simp add: f0 runnable_def)
  next
    case False
    then obtain q where q: "processes s ?p = Some q" "proc_state q = PROCESS_DEAD"
      using nr known len k by (fastforce simp: runnable_def)
    obtain r s1 where a: "reaper_add_process ?p s0 = (r, s1)" by (cases "reaper_add_process ?p s0")
    then obtain rl where s1: "s1 = s0\<lparr>process_list_reap := rl\<rparr>"
      by (auto simp: reaper_add_process_def Let_def split: prod.splits)
    define s2 where "s2 = (if r then s1\<lparr>process_list := (process_list s1)[?k := 0]\<rparr> else s1)"
    let ?t = "s2\<lparr>scheduler_next := of_nat ?k + 1\<rparr>"
    have run: "scheduler_pick (Suc n) s = scheduler_pick n ?t"
      using False q k len a
      by (simp add: Let_def s0_def [symmetric] nx uk f0 read_process_def s2_def [symmetric])
         (simp add: s2_def s1 nx)
    have tt: "tables_only s ?t"
      by (rule tables_onlyI [where pl = "if r then (process_list s)[?k := 0] else process_list s" and rl = rl and nx = "of_nat ?k + 1"])
         (simp add: s2_def s1 s0_def)
    have hd: "held ?t = held s"
    proof (cases r)
      case True
      have "reap_table.entries s1 = add_mset ?p (reap_table.entries s0)"
        using reap_table.entries_add(1) [of ?p s0 s1] a True False by simp
      moreover have "run_table.entries s0 = add_mset ?p (run_table.entries (s1\<lparr>process_list := (process_list s)[?k := 0]\<rparr>))"
      proof -
        have "mset (process_list s) = add_mset ?p (mset (process_list s) - {#?p#})"
          using k len by (simp add: nth_mem)
        then show ?thesis
          using k len False by (simp add: run_table.entries_def f0 mset_update)
      qed
      ultimately show ?thesis
        using True by (simp add: held_def s2_def s1 f0 run_table.entries_def reap_table.entries_def)
    next
      case False
      then have "s1 = s0" using reap_table.add_fails [of ?p s0 s1] a by simp
      then show ?thesis
        using False by (simp add: held_def s2_def f0 run_table.entries_def reap_table.entries_def)
    qed
    have rl: "length rl = 32"
    proof (cases r)
      case True
      then show ?thesis using reap_table.entries_add(2) [of ?p s0 s1] a False s1 rlen f0 by simp
    next
      case F: False
      then have "process_list_reap s1 = process_list_reap s0" using reap_table.add_fails [of ?p s0 s1] a by simp
      moreover have "process_list_reap s1 = rl" by (simp add: s1)
      ultimately show ?thesis using rlen f0 by simp
    qed
    have pl: "process_list ?t = (if r then (process_list s)[?k := 0] else process_list s)"
      by (simp add: s2_def s1 f0)
    have nrk: "\<not> runnable s ?p" by (rule nr)
    have zero: "\<not> runnable u 0" for u :: "'a kstate_scheme" by (simp add: runnable_def)
    have keep: "process_list ?t ! x = process_list s ! x" if "runnable s (process_list s ! x)" for x
      using that nrk by (cases "x = ?k") (auto simp: pl)
    have bck: "runnable s (process_list s ! x)" if "runnable ?t (process_list ?t ! x)" for x
      using that zero k len tables_only_same(4) [OF tt] by (cases "x = ?k") (auto simp: pl split: if_splits)
    have kn: "\<forall>p\<in>set (process_list ?t). p \<noteq> 0 \<longrightarrow> processes ?t p \<noteq> None"
      using known tables_only_same(1) [OF tt] set_update_subset_insert [of "process_list s" ?k 0] unfolding pl
      by (auto split: if_splits)
    have lens: "length (process_list_reap ?t) = 32" "length (process_list ?t) = 32"
      using len rl by (simp_all add: pl) (simp add: s2_def s1)
    have nxt: "scheduler_next ?t = of_nat ?k + 1" by simp
    show ?thesis
      using run tt hd c [of s2] keep bck kn lens nxt by (intro exI [of _ ?t] conjI allI impI; assumption?) blast+
  qed
qed

definition slots_ok :: "'a kstate_scheme \<Rightarrow> bool" where
  "slots_ok s \<longleftrightarrow> length (process_list s) = 32 \<and> length (process_list_reap s) = 32 \<and>
     (\<forall>p\<in>set (process_list s). p \<noteq> 0 \<longrightarrow> processes s p \<noteq> None)"

definition slot_runnable :: "'a kstate_scheme \<Rightarrow> nat \<Rightarrow> bool" where
  "slot_runnable s i \<longleftrightarrow> runnable s (process_list s ! i)"

lemma sched_wf_slots: "sched_wf s \<Longrightarrow> slots_ok s"
  by (simp add: sched_wf_def slots_ok_def)

text \<open>The search: the first runnable slot from the cursor on, going round; dead processes met on
  the way go to the reaper as long as it has room, and no process is lost.\<close>

lemma scheduler_pick_spec:
  assumes "slots_ok s"
  shows "\<exists>found s'. scheduler_pick n s = Inr (found, s') \<and> tables_only s s' \<and> held s' = held s \<and> slots_ok s' \<and>
    (\<forall>x. slot_runnable s x \<longrightarrow> process_list s' ! x = process_list s ! x) \<and>
    (if found = 0 then (\<forall>j<n. \<not> slot_runnable s ((cursor s + j) mod 32))
     else (\<exists>j<n. slot_runnable s ((cursor s + j) mod 32) \<and> found = process_list s ! ((cursor s + j) mod 32) \<and>
       scheduler_next s' = of_nat ((cursor s + j) mod 32) \<and>
       (\<forall>i<j. \<not> slot_runnable s ((cursor s + i) mod 32))))"
  using assms
proof (induction n arbitrary: s)
  case 0
  then show ?case by (simp add: tables_only_refl)
next
  case (Suc n)
  let ?k = "cursor s"
  note ok = Suc.prems [unfolded slots_ok_def]
  have k: "?k < 32" by (rule cursor_lt)
  show ?case
  proof (cases "slot_runnable s ?k")
    case True
    let ?p = "process_list s ! ?k"
    define s0 where "s0 = (if scheduler_next s \<ge> 32 then s\<lparr>scheduler_next := 0\<rparr> else s)"
    obtain q where q: "?p \<noteq> 0" "processes s ?p = Some q" "proc_state q \<noteq> PROCESS_DEAD"
      using True by (auto simp: slot_runnable_def runnable_def)
    have f: "process_list s0 = process_list s" "processes s0 = processes s" "process_list_reap s0 = process_list_reap s"
      "scheduler_next s0 = of_nat ?k"
      by (simp_all add: cursor_def s0_def)
    have uk: "unat (of_nat ?k :: u64) = ?k" using k by (intro unat_of_nat_small) simp
    have run: "scheduler_pick (Suc n) s = Inr (?p, s0)"
      using q ok k by (simp add: Let_def s0_def [symmetric] f uk read_process_def)
    have t: "tables_only s s0"
      by (rule tables_onlyI [where pl = "process_list s" and rl = "process_list_reap s" and nx = "of_nat ?k"])
         (simp add: cursor_def s0_def)
    have "held s0 = held s" by (simp add: held_def run_table.entries_def reap_table.entries_def f)
    moreover have "slots_ok s0" using Suc.prems by (simp add: slots_ok_def f)
    ultimately show ?thesis
      using run t q(1) True k f by (intro exI [of _ ?p] exI [of _ s0]) (auto intro!: exI [of _ 0])
  next
    case False
    then obtain t where t: "scheduler_pick (Suc n) s = scheduler_pick n t" "tables_only s t" "held t = held s"
      "length (process_list t) = 32" "length (process_list_reap t) = 32" "cursor t = (?k + 1) mod 32"
      "\<forall>x. runnable s (process_list s ! x) \<longrightarrow> process_list t ! x = process_list s ! x"
      "\<forall>x. runnable t (process_list t ! x) \<longrightarrow> runnable s (process_list s ! x)"
      "\<forall>p\<in>set (process_list t). p \<noteq> 0 \<longrightarrow> processes t p \<noteq> None"
      using pick_skip [of s n] ok unfolding slot_runnable_def by blast
    have st: "slot_runnable t x \<longleftrightarrow> slot_runnable s x" for x
      using t(7,8) tables_only_same(4) [OF t(2)] unfolding slot_runnable_def by metis
    have idx: "(cursor t + j) mod 32 = (?k + Suc j) mod 32" for j
      unfolding t(6) by (simp add: mod_add_left_eq)
    obtain found s' where IH: "scheduler_pick n t = Inr (found, s')" "tables_only t s'" "held s' = held t" "slots_ok s'"
      "\<forall>x. slot_runnable t x \<longrightarrow> process_list s' ! x = process_list t ! x"
      "if found = 0 then (\<forall>j<n. \<not> slot_runnable t ((cursor t + j) mod 32))
       else (\<exists>j<n. slot_runnable t ((cursor t + j) mod 32) \<and> found = process_list t ! ((cursor t + j) mod 32) \<and>
         scheduler_next s' = of_nat ((cursor t + j) mod 32) \<and> (\<forall>i<j. \<not> slot_runnable t ((cursor t + i) mod 32)))"
      using Suc.IH [of t] t(4,5,9) unfolding slots_ok_def by blast
    have pl: "\<forall>x. slot_runnable s x \<longrightarrow> process_list s' ! x = process_list s ! x"
      using IH(5) st t(7) unfolding slot_runnable_def by metis
    have first: "\<not> slot_runnable s ((?k + 0) mod 32)" using False k by simp
    have res: "if found = 0 then (\<forall>j<Suc n. \<not> slot_runnable s ((?k + j) mod 32))
     else (\<exists>j<Suc n. slot_runnable s ((?k + j) mod 32) \<and> found = process_list s ! ((?k + j) mod 32) \<and>
       scheduler_next s' = of_nat ((?k + j) mod 32) \<and> (\<forall>i<j. \<not> slot_runnable s ((?k + i) mod 32)))"
    proof (cases "found = 0")
      case True
      then have "\<forall>j<n. \<not> slot_runnable s ((?k + Suc j) mod 32)" using IH(6) by (simp add: st idx)
      then show ?thesis using True first by (auto simp: less_Suc_eq_0_disj)
    next
      case F: False
      then obtain j where j: "j < n" "slot_runnable s ((?k + Suc j) mod 32)" "found = process_list t ! ((?k + Suc j) mod 32)"
        "scheduler_next s' = of_nat ((?k + Suc j) mod 32)" "\<forall>i<j. \<not> slot_runnable s ((?k + Suc i) mod 32)"
        using IH(6) by (auto simp: st idx)
      have "found = process_list s ! ((?k + Suc j) mod 32)" using j(2,3) t(7) unfolding slot_runnable_def by metis
      moreover have "\<forall>i<Suc j. \<not> slot_runnable s ((?k + i) mod 32)" using j(5) first by (auto simp: less_Suc_eq_0_disj)
      ultimately show ?thesis using F j by (auto intro!: exI [of _ "Suc j"])
    qed
    show ?thesis
      using t(1,3) IH(1,3,4) tables_only_trans [OF t(2) IH(2)] pl res by (intro exI [of _ found] exI [of _ s']) simp
  qed
qed

section \<open>The whole interrupt handler\<close>

definition saved :: "'a kstate_scheme \<Rightarrow> u64 \<Rightarrow> Process option" where
  "saved s = (if runnable s (current_process s)
     then (processes s)(current_process s \<mapsto>
       (process_save_state (the (processes s (current_process s))) (interrupt_frame s))\<lparr>proc_state := PROCESS_READY\<rparr>)
     else processes s)"

lemma restore_words: "restore_context (context_words c, r) = ([], c)"
  by (simp add: restore_context_def context_words_def pop_def iretq_def Let_def)

lemma process_jump_effect:
  "process_jump p s = s\<lparr>tss_rsp0 := proc_kernel_stack_top p, cr3 := proc_pml4_phys p,
     gs_user := (if ctx_cs (proc_context p) AND 3 \<noteq> 0 then \<not> gs_user s else gs_user s), cpu_regs := proc_context p\<rparr>"
  by (simp add: process_jump_def Let_def restore_words)

text \<open>The processes after the handler: the context of the preempted process is saved unless it is
  dead, and the chosen process is running.\<close>

lemma scheduler_loop_run:
  assumes wf: "sched_wf s"
  obtains t p s' where
    "scheduler_loop s = Inr s'" "current_process s' = t" "saved s t = Some p"
    "processes s' = (saved s)(t \<mapsto> p\<lparr>proc_state := PROCESS_RUNNING\<rparr>)"
    "held s' = held s" "slots_ok (s'\<lparr>processes := processes s\<rparr>)" "idle_process s' = idle_process s"
    "\<forall>x. slot_runnable s x \<longrightarrow> process_list s' ! x = process_list s ! x"
    "cpu_regs s' = proc_context p" "cr3 s' = proc_pml4_phys p" "tss_rsp0 s' = proc_kernel_stack_top p"
    "cpu_kernel_stack_top s' = proc_kernel_stack_top p"
    "(t = idle_process s \<and> (\<forall>x<32. \<not> slot_runnable s x)) \<or>
     (\<exists>j<32. slot_runnable s ((cursor s + j) mod 32) \<and> t = process_list s ! ((cursor s + j) mod 32) \<and>
        cursor s' = (cursor s + j + 1) mod 32 \<and> (\<forall>i<j. \<not> slot_runnable s ((cursor s + i) mod 32)))"
proof -
  let ?s0 = "s\<lparr>lapic_writes := lapic_eoi (lapic_writes s)\<rparr>"
  have ok0: "slots_ok ?s0" using sched_wf_slots [OF wf] by (simp add: slots_ok_def)
  have r0: "slot_runnable ?s0 = slot_runnable s" by (simp add: slot_runnable_def runnable_def fun_eq_iff)
  have c0: "cursor ?s0 = cursor s" by (simp add: cursor_def)
  have l0: "process_list ?s0 = process_list s" by simp
  obtain found s1 where pick: "scheduler_pick 32 ?s0 = Inr (found, s1)" "tables_only ?s0 s1" "held s1 = held ?s0" "slots_ok s1"
    "\<forall>x. slot_runnable s x \<longrightarrow> process_list s1 ! x = process_list s ! x"
    "if found = 0 then (\<forall>j<32. \<not> slot_runnable s ((cursor s + j) mod 32))
     else (\<exists>j<32. slot_runnable s ((cursor s + j) mod 32) \<and> found = process_list s ! ((cursor s + j) mod 32) \<and>
       scheduler_next s1 = of_nat ((cursor s + j) mod 32) \<and> (\<forall>i<j. \<not> slot_runnable s ((cursor s + i) mod 32)))"
    using scheduler_pick_spec [OF ok0, of 32] unfolding r0 c0 l0 by blast
  obtain pl rl nx where s1: "s1 = ?s0\<lparr>process_list := pl, process_list_reap := rl, scheduler_next := nx\<rparr>"
    using pick(2) unfolding tables_only_def by blast
  define t where "t = (if found = 0 then idle_process s else found)"
  have known: "processes s t \<noteq> None"
  proof (cases "found = 0")
    case True
    then show ?thesis using wf by (simp add: t_def sched_wf_def)
  next
    case False
    then obtain j where "slot_runnable s ((cursor s + j) mod 32)" "found = process_list s ! ((cursor s + j) mod 32)"
      using pick(6) by auto
    then show ?thesis using False by (auto simp: t_def slot_runnable_def runnable_def)
  qed
  have "saved s t \<noteq> None" using known by (auto simp: saved_def)
  then obtain p where p: "saved s t = Some p" by blast
  let ?p = "p\<lparr>proc_state := PROCESS_RUNNING\<rparr>"
  let ?s3 = "s1\<lparr>scheduler_next := nx + 1, processes := (saved s)(t \<mapsto> ?p),
    current_process := t, cpu_kernel_stack_top := proc_kernel_stack_top p\<rparr>"
  have loop: "scheduler_loop s = Inr (process_jump ?p ?s3)"
  proof (cases "runnable s (current_process s)")
    case True
    then obtain c where c: "current_process s \<noteq> 0" "processes s (current_process s) = Some c" "proc_state c \<noteq> PROCESS_DEAD"
      by (auto simp: runnable_def)
    let ?c = "(process_save_state c (interrupt_frame s))\<lparr>proc_state := PROCESS_READY\<rparr>"
    have sv: "saved s = (processes s)(current_process s \<mapsto> ?c)" using True c by (simp add: saved_def)
    show ?thesis using c p pick(1) unfolding sv
      by (simp add: scheduler_loop_def Let_def s1 t_def [symmetric] read_process_def update_process_def cong: if_cong)
  next
    case False
    then have sv: "saved s = processes s" by (simp add: saved_def)
    have "current_process s = 0 \<or> (\<exists>c. processes s (current_process s) = Some c \<and> proc_state c = PROCESS_DEAD)"
      using False wf by (auto simp: runnable_def sched_wf_def)
    then show ?thesis using p pick(1) unfolding sv
      by (auto simp: scheduler_loop_def Let_def s1 t_def [symmetric] read_process_def update_process_def cong: if_cong)
  qed
  let ?s' = "process_jump ?p ?s3"
  obtain g where s': "?s' = ?s3\<lparr>tss_rsp0 := proc_kernel_stack_top p, cr3 := proc_pml4_phys p, gs_user := g,
      cpu_regs := proc_context p\<rparr>" by (simp add: process_jump_effect)
  have idle: "\<forall>x<32. \<not> slot_runnable s x" if "found = 0"
  proof (intro allI impI)
    fix x :: nat assume x: "x < 32"
    have "(cursor s + (x + 32 - cursor s) mod 32) mod 32 = x"
      using x cursor_lt [of s] by (simp add: mod_add_right_eq)
    moreover have "(x + 32 - cursor s) mod 32 < 32" by simp
    ultimately show "\<not> slot_runnable s x" using pick(6) that by (metis (full_types))
  qed
  have next': "cursor ?s' = (cursor s + j + 1) mod 32" if "nx = of_nat ((cursor s + j) mod 32)" for j
  proof -
    have "scheduler_next ?s' = of_nat ((cursor s + j) mod 32) + 1" unfolding s' by (simp add: that)
    then have "cursor ?s' = ((cursor s + j) mod 32 + 1) mod 32" by (intro cursor_step) simp_all
    then show ?thesis by (simp add: mod_Suc_eq)
  qed
  show thesis
  proof (rule that [of ?s' t p])
    show "held ?s' = held s"
      using pick(3) unfolding s' by (simp add: held_def run_table.entries_def reap_table.entries_def s1)
    show "slots_ok (?s'\<lparr>processes := processes s\<rparr>)" using pick(4) unfolding s' by (simp add: slots_ok_def s1)
    show "\<forall>x. slot_runnable s x \<longrightarrow> process_list ?s' ! x = process_list s ! x"
      using pick(5) unfolding s' by (simp add: s1)
    show "(t = idle_process s \<and> (\<forall>x<32. \<not> slot_runnable s x)) \<or>
     (\<exists>j<32. slot_runnable s ((cursor s + j) mod 32) \<and> t = process_list s ! ((cursor s + j) mod 32) \<and>
        cursor ?s' = (cursor s + j + 1) mod 32 \<and> (\<forall>i<j. \<not> slot_runnable s ((cursor s + i) mod 32)))"
    proof (cases "found = 0")
      case True
      then show ?thesis using idle by (simp add: t_def)
    next
      case False
      then obtain j where j: "j < 32" "slot_runnable s ((cursor s + j) mod 32)" "found = process_list s ! ((cursor s + j) mod 32)"
        "nx = of_nat ((cursor s + j) mod 32)" "\<forall>i<j. \<not> slot_runnable s ((cursor s + i) mod 32)"
        using pick(6) by (auto simp: s1)
      show ?thesis using False j next' [OF j(4)] unfolding t_def by auto
    qed
  qed (use loop p in \<open>simp_all add: process_jump_effect s1\<close>)
qed

lemma saved_known: "processes s q \<noteq> None \<Longrightarrow> saved s q \<noteq> None"
  by (simp add: saved_def)

lemma saved_dead:
  "processes s q = Some p \<Longrightarrow> proc_state p = PROCESS_DEAD \<Longrightarrow> saved s q = Some p"
  by (auto simp: saved_def runnable_def)

lemma saved_runnable:
  assumes "runnable s q"
  shows "\<exists>p. saved s q = Some p \<and> proc_state p \<noteq> PROCESS_DEAD"
  using assms by (auto simp: saved_def runnable_def)

lemma scheduler_loop_wf:
  assumes wf: "sched_wf s" and loop: "scheduler_loop s = Inr s'"
  shows "sched_wf s'" and "runnable s q \<Longrightarrow> runnable s' q"
    and "slot_runnable s x \<Longrightarrow> process_list s' ! x = process_list s ! x"
    and "held s' = held s"
proof -
  obtain t p where r: "current_process s' = t" "saved s t = Some p"
    "processes s' = (saved s)(t \<mapsto> p\<lparr>proc_state := PROCESS_RUNNING\<rparr>)" "held s' = held s"
    "slots_ok (s'\<lparr>processes := processes s\<rparr>)" "idle_process s' = idle_process s"
    "\<forall>x. slot_runnable s x \<longrightarrow> process_list s' ! x = process_list s ! x"
    by (rule scheduler_loop_run [OF wf]) (use loop in auto)
  have kn: "processes s' q \<noteq> None" if "processes s q \<noteq> None" for q
    using saved_known [OF that] by (simp add: r(3))
  then show "sched_wf s'"
    using wf r(5) by (auto simp: sched_wf_def slots_ok_def r(1,3,6) dest!: saved_known simp del: not_None_eq)
  show "runnable s q \<Longrightarrow> runnable s' q"
    using saved_runnable [of s q] by (auto simp: r(3) runnable_def)
  show "slot_runnable s x \<Longrightarrow> process_list s' ! x = process_list s ! x" using r(7) by blast
  show "held s' = held s" by (rule r(4))
qed

section \<open>Fairness\<close>

text \<open>How many slots the search is from slot \<open>x\<close>.\<close>

definition distance :: "'a kstate_scheme \<Rightarrow> nat \<Rightarrow> nat" where
  "distance s x = (x + 32 - cursor s) mod 32"

lemma distance_cursor: "x < 32 \<Longrightarrow> (cursor s + distance s x) mod 32 = x"
  using cursor_lt [of s] by (simp add: distance_def mod_add_right_eq)

lemma distance_lt: "distance s x < 32"
  by (simp add: distance_def)

lemma mod32_diff:
  fixes x k :: nat
  assumes "x < 32" and "k < 32"
  shows "(x + 32 - k) mod 32 = (if k \<le> x then x - k else x + 32 - k)"
proof (cases "k \<le> x")
  case True
  then have e: "x + 32 - k = (x - k) + 32" by simp
  show ?thesis unfolding e mod_add_self2 using True assms by simp
qed (use assms in simp)

lemma mod32_sum:
  fixes a :: nat
  assumes "a < 64"
  shows "a mod 32 = (if a < 32 then a else a - 32)"
proof (cases "a < 32")
  case False
  then have "a = (a - 32) + 32" by simp
  then have "a mod 32 = (a - 32) mod 32" by (metis mod_add_self2)
  then show ?thesis using False assms by simp
qed simp

lemma distance_step:
  fixes j x k :: nat
  assumes "j < (x + 32 - k) mod 32" and "x < 32" and "k < 32"
  shows "(x + 32 - (k + j + 1) mod 32) mod 32 = (x + 32 - k) mod 32 - (j + 1)"
proof -
  have d: "j < (if k \<le> x then x - k else x + 32 - k)" using assms(1) unfolding mod32_diff [OF assms(2,3)] .
  then have "k + j + 1 < 64" using assms(2,3) by (simp split: if_splits)
  note c = mod32_sum [OF this]
  have l: "(k + j + 1) mod 32 < 32" by simp
  show ?thesis
    unfolding mod32_diff [OF assms(2) l] mod32_diff [OF assms(2,3)] unfolding c
    using d assms(2,3) by (auto split: if_splits)
qed

lemma scheduler_progress:
  assumes wf: "sched_wf s" and x: "x < 32" and sr: "slot_runnable s x" and loop: "scheduler_loop s = Inr s'"
  shows "current_process s' = process_list s ! x \<or> distance s' x < distance s x"
proof -
  let ?k = "cursor s" and ?d = "distance s x"
  obtain j where j: "j < 32" "current_process s' = process_list s ! ((?k + j) mod 32)"
    "cursor s' = (?k + j + 1) mod 32" "\<forall>i<j. \<not> slot_runnable s ((?k + i) mod 32)"
    by (rule scheduler_loop_run [OF wf]) (use loop x sr in auto)
  have "j \<le> ?d" using j(4) sr distance_cursor [OF x, of s] by (metis not_le)
  then consider "j = ?d" | "j < ?d" by linarith
  then show ?thesis
  proof cases
    case 1
    then show ?thesis using j(2) distance_cursor [OF x, of s] by simp
  next
    case 2
    have "distance s' x = ?d - (j + 1)"
      using distance_step [OF 2 [unfolded distance_def] x cursor_lt] unfolding distance_def j(3) .
    then show ?thesis using 2 by simp
  qed
qed

lemma scheduler_picks_next:
  assumes "sched_wf s" and "slot_runnable s (cursor s)" and "scheduler_loop s = Inr s'"
  shows "current_process s' = process_list s ! cursor s"
  using scheduler_progress [OF assms(1) cursor_lt assms(2,3)] by (simp add: distance_def)

lemma distance_cong: "scheduler_next s = scheduler_next s' \<Longrightarrow> distance s x = distance s' x"
  by (simp add: distance_def cursor_def)

section \<open>Properties\<close>

text \<open>C4: The handler of the timer interrupt always returns to a process. It is one from the process table that is
  not dead, or the idle process when there is none; it is marked running, and its page table, its kernel
  stack (in the task state segment and for system calls) and its saved registers are loaded. No
  process is dropped from the tables, and a dead one (other than the idle process) is left as it is.\<close>
theorem scheduler_loop_correct:
  assumes "sched_wf s"
  shows "\<exists>s' p. scheduler_loop s = Inr s' \<and> sched_wf s' \<and> held s' = held s \<and>
    processes s' (current_process s') = Some p \<and> proc_state p = PROCESS_RUNNING \<and>
    cpu_regs s' = proc_context p \<and> cr3 s' = proc_pml4_phys p \<and>
    tss_rsp0 s' = proc_kernel_stack_top p \<and> cpu_kernel_stack_top s' = proc_kernel_stack_top p \<and>
    (if \<exists>x<32. slot_runnable s x
     then runnable s (current_process s') \<and> current_process s' \<in># held s
     else current_process s' = idle_process s) \<and>
    (\<forall>q d. q \<noteq> idle_process s \<longrightarrow> processes s q = Some d \<longrightarrow> proc_state d = PROCESS_DEAD \<longrightarrow> processes s' q = Some d)"
proof -
  obtain t p s' where r: "scheduler_loop s = Inr s'" "current_process s' = t" "saved s t = Some p"
    "processes s' = (saved s)(t \<mapsto> p\<lparr>proc_state := PROCESS_RUNNING\<rparr>)"
    "cpu_regs s' = proc_context p" "cr3 s' = proc_pml4_phys p" "tss_rsp0 s' = proc_kernel_stack_top p"
    "cpu_kernel_stack_top s' = proc_kernel_stack_top p"
    "(t = idle_process s \<and> (\<forall>x<32. \<not> slot_runnable s x)) \<or>
     (\<exists>j<32. slot_runnable s ((cursor s + j) mod 32) \<and> t = process_list s ! ((cursor s + j) mod 32) \<and>
        cursor s' = (cursor s + j + 1) mod 32 \<and> (\<forall>i<j. \<not> slot_runnable s ((cursor s + i) mod 32)))"
    by (rule scheduler_loop_run [OF assms]) blast
  have "(t = idle_process s \<and> (\<forall>x<32. \<not> slot_runnable s x)) \<or> (\<exists>x<32. slot_runnable s x \<and> t = process_list s ! x)"
    using r(9) by fastforce
  then have pick: "if \<exists>x<32. slot_runnable s x then runnable s t \<and> t \<in># held s else t = idle_process s"
    using assms by (auto simp: slot_runnable_def runnable_def held_def run_table.entries_def sched_wf_def)
  have dead: "processes s' q = Some d" if "q \<noteq> idle_process s" "processes s q = Some d" "proc_state d = PROCESS_DEAD" for q d
  proof -
    have "\<not> runnable s q" using that by (simp add: runnable_def)
    then have "q \<noteq> t" using pick that(1) by (auto split: if_splits)
    then show ?thesis using saved_dead [OF that(2,3)] by (simp add: r(4))
  qed
  show ?thesis
  proof (rule exI [of _ s'], rule exI [of _ "p\<lparr>proc_state := PROCESS_RUNNING\<rparr>"], intro conjI)
    show "sched_wf s'" by (rule scheduler_loop_wf(1) [OF assms r(1)])
    show "held s' = held s" by (rule scheduler_loop_wf(4) [OF assms r(1)])
    show "if \<exists>x<32. slot_runnable s x then runnable s (current_process s') \<and> current_process s' \<in># held s
      else current_process s' = idle_process s" using pick unfolding r(2) .
    show "\<forall>q d. q \<noteq> idle_process s \<longrightarrow> processes s q = Some d \<longrightarrow> proc_state d = PROCESS_DEAD \<longrightarrow> processes s' q = Some d"
      using dead by blast
  qed (simp_all add: r(1-8))
qed

definition example_process :: "u64 \<Rightarrow> ProcessState \<Rightarrow> Process" where
  "example_process cr st = \<lparr>proc_pml4 = cr, proc_pml4_phys = cr, proc_pid = 1, proc_entry = 0x400000, proc_stack_top = 0x7FFFFFFFA000,
     proc_kernel_stack_top = 0xFFFFFF8000000000, proc_stack_size = 0x200000, proc_kernel_stack_size = 0x4000,
     proc_brk_start = 0x500000, proc_brk = 0x500000, proc_exit_code = 0, proc_context = example_context, proc_state = st\<rparr>"

definition example_entry :: "bool \<times> u64 list" where
  "example_entry = isr_common_entry example_context True (isr_stub 32 (cpu_interrupt None example_context))"

definition sched_example :: kstate where
  "sched_example = slab_state.extend slab_example
     (kstate.fields [0x1000 \<mapsto> example_process 0x10000 PROCESS_RUNNING, 0x2000 \<mapsto> example_process 0x20000 PROCESS_READY,
        0x3000 \<mapsto> example_process 0x30000 PROCESS_READY, 0x4000 \<mapsto> example_process 0x40000 PROCESS_DEAD]
      ((replicate 32 0)[0 := 0x1000, 1 := 0x4000, 5 := 0x2000]) (replicate 32 0) 0 0x1000 5 0x3000
      0 0 (frame_at (snd example_entry)) 1000 0 example_context False True [] None [])"

lemma sched_example_fields:
  "process_list sched_example = (replicate 32 0)[0 := 0x1000, 1 := 0x4000, 5 := 0x2000]"
  "process_list_reap sched_example = replicate 32 0"
  "processes sched_example = [0x1000 \<mapsto> example_process 0x10000 PROCESS_RUNNING, 0x2000 \<mapsto> example_process 0x20000 PROCESS_READY,
        0x3000 \<mapsto> example_process 0x30000 PROCESS_READY, 0x4000 \<mapsto> example_process 0x40000 PROCESS_DEAD]"
  "idle_process sched_example = 0x3000" "current_process sched_example = 0x1000"
  "scheduler_next sched_example = 5" "interrupt_frame sched_example = frame_at (snd example_entry)"
  by (simp_all add: sched_example_def slab_state.defs kstate.defs)

lemma sched_example_wf: "sched_wf sched_example"
proof -
  have "set (process_list sched_example) \<subseteq> {0, 0x1000, 0x2000, 0x4000}"
    unfolding sched_example_fields by (simp add: numeral_eq_Suc)
  then show ?thesis unfolding sched_wf_def by (auto simp: sched_example_fields)
qed

lemma sched_example_slot: "slot_runnable sched_example 5"
  by (simp add: slot_runnable_def runnable_def sched_example_fields example_process_def)

theorem scheduler_loop_correct_witness:
  "sched_wf sched_example \<and> slot_runnable sched_example 5 \<and>
    (\<exists>s'. scheduler_loop sched_example = Inr s' \<and> held s' = held sched_example \<and> runnable sched_example (current_process s'))"
proof -
  have "\<exists>x<32. slot_runnable sched_example x" using sched_example_slot by (intro exI [of _ 5]) simp
  then show ?thesis using scheduler_loop_correct [OF sched_example_wf] sched_example_wf sched_example_slot by auto
qed

text \<open>C16: Round robin is fair. In a run of the system (\<open>f k\<close> is the state in which the timer fires the \<open>k\<close>-th time,
  \<open>g k\<close> the one the handler leaves, and only the handler moves the scheduler's cursor), a process that sits in a slot of the
  table and is not dead is given the processor by one of the first 32 interrupts.\<close>
theorem scheduler_fair:
  assumes "\<forall>k. sched_wf (f k) \<and> process_list (f k) ! x = p \<and> runnable (f k) p \<and>
      scheduler_loop (f k) = Inr (g k) \<and> scheduler_next (f (Suc k)) = scheduler_next (g k)"
    and "x < 32"
  shows "\<exists>k<32. current_process (g k) = p"
proof (rule ccontr)
  assume n: "\<not> ?thesis"
  have step: "distance (f (Suc k)) x < distance (f k) x" if "k < 32" for k
  proof -
    have "slot_runnable (f k) x" using assms(1) by (simp add: slot_runnable_def)
    then have "current_process (g k) = p \<or> distance (g k) x < distance (f k) x"
      using scheduler_progress [of "f k" x "g k"] assms by simp
    moreover have "distance (f (Suc k)) x = distance (g k) x" using assms(1) by (intro distance_cong) blast
    ultimately show ?thesis using n that by auto
  qed
  have "distance (f k) x + k \<le> distance (f 0) x" if "k \<le> 32" for k
    using that
  proof (induction k)
    case (Suc k)
    then show ?case using step [of k] by simp
  qed simp
  from this [of 32] show False using distance_lt [of "f 0" x] by simp
qed

fun example_run :: "nat \<Rightarrow> kstate" where
  "example_run 0 = sched_example"
| "example_run (Suc k) = projr (scheduler_loop (example_run k))"

lemma example_run_ok: "sched_wf (example_run k) \<and> process_list (example_run k) ! 5 = 0x2000 \<and> runnable (example_run k) 0x2000"
proof (induction k)
  case 0
  show ?case using sched_example_wf
    by (simp add: sched_example_fields runnable_def example_process_def)
next
  case (Suc k)
  obtain s' where r: "scheduler_loop (example_run k) = Inr s'"
    by (rule scheduler_loop_run [of "example_run k"]) (use Suc in auto)
  note w = scheduler_loop_wf [OF Suc.IH [THEN conjunct1] r]
  have "slot_runnable (example_run k) 5" using Suc.IH by (simp add: slot_runnable_def)
  then show ?case using Suc.IH w(1) w(2) [of "0x2000"] w(3) [of 5] r by simp
qed

theorem scheduler_fair_witness:
  "\<exists>k<32. current_process (example_run (Suc k)) = 0x2000"
proof -
  have "scheduler_loop (example_run k) = Inr (example_run (Suc k))" for k
    by (rule scheduler_loop_run [of "example_run k"]) (use example_run_ok [of k] in auto)
  then show ?thesis
    using scheduler_fair [where f = example_run and g = "\<lambda>k. example_run (Suc k)" and x = 5 and p = "0x2000"]
      example_run_ok by simp
qed

text \<open>C17: A preempted process continues where it was. If the processor, with registers \<open>r\<close>, is interrupted through
  vector \<open>n\<close> while process \<open>c\<close> runs, and later, after the process was switched away from and its structure was left
  alone, the handler chooses it again, then all registers are \<open>r\<close> again.\<close>
theorem preempt_resume:
  assumes "error_code_matches n err" and "isr_common_entry r gs (isr_stub n (cpu_interrupt err r)) = (gs', st)"
    and "sched_wf s" and "interrupt_frame s = frame_at st" and "runnable s (current_process s)"
    and "scheduler_loop s = Inr s'" and "current_process s' \<noteq> current_process s"
    and "sched_wf u" and "processes u (current_process s) = processes s' (current_process s)"
    and "current_process u \<noteq> current_process s"
    and "scheduler_loop u = Inr u'" and "current_process u' = current_process s"
  shows "cpu_regs u' = r"
proof -
  let ?c = "current_process s"
  obtain q where q: "processes s ?c = Some q" using assms(5) by (auto simp: runnable_def)
  let ?q = "(process_save_state q (frame_at st))\<lparr>proc_state := PROCESS_READY\<rparr>"
  have "processes s' ?c = saved s ?c"
    by (rule scheduler_loop_run [OF assms(3)]) (use assms(6,7) in auto)
  then have "processes u ?c = Some ?q" using q assms(4,5,9) by (simp add: saved_def)
  then have u: "saved u ?c = Some ?q" using assms(10) by (simp add: saved_def)
  have "cpu_regs u' = proc_context ?q"
    by (rule scheduler_loop_run [OF assms(8)]) (use assms(11,12) u in auto)
  then show ?thesis using entry_frame [OF assms(1,2)] by (simp add: process_save_state_def Let_def)
qed

theorem preempt_resume_witness:
  "\<exists>s' u'. scheduler_loop sched_example = Inr s' \<and> current_process s' = 0x2000 \<and>
     scheduler_loop (s'\<lparr>scheduler_next := 0\<rparr>) = Inr u' \<and> current_process u' = 0x1000 \<and> cpu_regs u' = example_context"
proof -
  let ?s = sched_example
  obtain gs' st where e: "isr_common_entry example_context True (isr_stub 32 (cpu_interrupt None example_context)) = (gs', st)"
    by (cases "isr_common_entry example_context True (isr_stub 32 (cpu_interrupt None example_context))")
  have m: "error_code_matches 32 None" by (simp add: error_code_matches_def isr_error_vectors_def)
  have f: "interrupt_frame ?s = frame_at st" by (simp add: sched_example_fields example_entry_def e)
  have ra: "runnable ?s 0x1000" "slot_runnable ?s 0" "cursor ?s = 5"
    by (simp_all add: runnable_def slot_runnable_def sched_example_fields example_process_def cursor_def)
  obtain s' where s': "scheduler_loop ?s = Inr s'" by (rule scheduler_loop_run [OF sched_example_wf])
  have c: "current_process s' = 0x2000"
    using scheduler_picks_next [OF sched_example_wf _ s'] sched_example_slot unfolding ra(3) by (simp add: sched_example_fields)
  note w = scheduler_loop_wf [OF sched_example_wf s']
  let ?u = "s'\<lparr>scheduler_next := 0\<rparr>"
  have wu: "sched_wf ?u" using w(1) by (simp add: sched_wf_def)
  have u0: "process_list ?u ! 0 = 0x1000" "runnable ?u 0x1000" "cursor ?u = 0"
    using w(3) [OF ra(2)] w(2) [OF ra(1)] by (simp_all add: sched_example_fields runnable_def cursor_def)
  obtain u' where u': "scheduler_loop ?u = Inr u'" by (rule scheduler_loop_run [OF wu])
  have cu: "current_process u' = 0x1000"
    using scheduler_picks_next [OF wu _ u'] u0 unfolding u0(3) by (simp add: slot_runnable_def)
  have "cpu_regs u' = example_context"
    by (rule preempt_resume [OF m e sched_example_wf f _ s' _ wu _ _ u'])
       (use ra c cu in \<open>simp_all add: sched_example_fields\<close>)
  then show ?thesis using s' c u' cu by blast
qed

end
