(* ===== verification/ProcessSpec.thy ===== *)
theory ProcessSpec
  imports Scheduler
begin

text \<open>
  Address spaces of processes: mapping a range of fresh pages, creating a process (the kernel
  half shared with the kernel, a user stack and a kernel stack) and moving the break of a
  process with the system call \<^verbatim>\<open>sbrk\<close>.
\<close>

unbundle bit_operations_syntax

section \<open>Mapping fresh pages\<close>

lemma alloc_map_step:
  assumes wf: "as_wf s root" and un: "walk_entry s root v = None" and free: "4 \<le> card (free_frames s)"
    and al: "is_aligned v 4096" and P: "bit flags 0"
  obtains f s' where "alloc_map flags (phys_to_virt root) v s = Inr s'" "as_wf s' root"
    "managed_pages s' = managed_pages s" "card (free_frames s) \<le> 4 + card (free_frames s')"
    "f \<in> managed_pages s" "\<not> page_used s f" "page_used s' f"
    "\<forall>q\<in>managed_pages s. page_used s q \<longrightarrow> page_used s' q"
    "\<forall>va. walk_entry s' root va = (if page_of va = page_of v then Some (0, f OR flags) else walk_entry s root va)"
    "\<exists>bm m. s' = s\<lparr>pmm_bitmap := bm, phys_mem := m\<rparr>"
proof -
  have "free_frames s \<noteq> {}" using free by auto
  then obtain f s1 where a: "pmm_alloc s = Inr (f, s1)"
    using pmm_alloc_total [OF as_wf_pmm [OF wf]] by blast
  note s1 = as_wf_alloc [OF wf a]
  have w1: "hw_walk (phys_mem s1) root (vidx v) = None" using un s1(2) by (simp add: walk_entry_def)
  then have sp: "small_path (phys_mem s1) root v" by (simp add: small_path_def)
  have "3 \<le> card (free_frames s1)" using s1(8) free by simp
  then obtain s2 where s2: "vmm_map (phys_to_virt root) f v flags s1 = Inr s2"
    using vmm_map_total [OF s1(1) sp] s1(7) al unmapped_entry_word [OF s1(1) w1] by blast
  note e = vmm_map_effect [OF s1(1) sp P s2]
  obtain bm where o1: "s1 = s\<lparr>pmm_bitmap := bm\<rparr>" using pmm_alloc_only [OF a] by blast
  obtain bm' mm where o2: "s2 = s1\<lparr>pmm_bitmap := bm', phys_mem := mm\<rparr>" using vmm_map_only [OF s2] by blast
  show thesis
  proof (rule that [of s2 f])
    show "alloc_map flags (phys_to_virt root) v s = Inr s2" by (simp add: alloc_map_def a s2)
    show "as_wf s2 root" using e by simp
    show "managed_pages s2 = managed_pages s" using e s1(4) by simp
    show "card (free_frames s) \<le> 4 + card (free_frames s2)" using e s1(8) by linarith
    show "f \<in> managed_pages s" "\<not> page_used s f" by (rule s1(5), rule s1(6))
    show "page_used s2 f" using e s1(4,5,9) unfolding tables_grow_def by auto
    show "\<forall>q\<in>managed_pages s. page_used s q \<longrightarrow> page_used s2 q" using e s1(4,9) unfolding tables_grow_def by auto
    show "\<forall>va. walk_entry s2 root va = (if page_of va = page_of v then Some (0, f OR flags) else walk_entry s root va)"
      using e s1(2) by (simp add: walk_entry_def)
    show "\<exists>bm m. s2 = s\<lparr>pmm_bitmap := bm, phys_mem := m\<rparr>"
      by (rule exI [of _ bm'], rule exI [of _ mm]) (simp add: o1 o2)
  qed
qed

text \<open>What a run over a list of pages does: \<open>F\<close> gives the frame of each of the pages.\<close>

definition fresh_pages :: "'a vmm_scheme \<Rightarrow> 'a vmm_scheme \<Rightarrow> u64 \<Rightarrow> u64 \<Rightarrow> nat set \<Rightarrow> (nat \<Rightarrow> u64) \<Rightarrow> bool" where
  "fresh_pages s s' root flags P F \<longleftrightarrow> inj_on F P \<and> (\<forall>k\<in>P. F k \<in> managed_pages s \<and> \<not> page_used s (F k) \<and> page_used s' (F k)) \<and>
     managed_pages s' = managed_pages s \<and> (\<forall>q\<in>managed_pages s. page_used s q \<longrightarrow> page_used s' q) \<and>
     (\<forall>va. walk_entry s' root va = (if page_of va \<in> P then Some (0, F (page_of va) OR flags) else walk_entry s root va)) \<and>
     (\<exists>bm m. s' = s\<lparr>pmm_bitmap := bm, phys_mem := m\<rparr>)"

lemma fresh_pages_empty: "fresh_pages s s root flags {} F"
proof -
  have "s = s\<lparr>pmm_bitmap := pmm_bitmap s, phys_mem := phys_mem s\<rparr>" by simp
  then have "\<exists>bm m. s = s\<lparr>pmm_bitmap := bm, phys_mem := m\<rparr>" by blast
  then show ?thesis by (simp add: fresh_pages_def)
qed

lemma alloc_map_list:
  assumes "as_wf s root" and "distinct (map page_of vs)" and "\<forall>v\<in>set vs. is_aligned v 4096 \<and> walk_entry s root v = None"
    and "4 * length vs \<le> card (free_frames s)" and "bit flags 0"
  shows "\<exists>s' F. foldM (alloc_map flags (phys_to_virt root)) vs s = Inr s' \<and> as_wf s' root \<and>
    card (free_frames s) \<le> 4 * length vs + card (free_frames s') \<and> fresh_pages s s' root flags (page_of ` set vs) F"
  using assms
proof (induction vs arbitrary: s)
  case Nil
  then show ?case using fresh_pages_empty [of s root flags undefined] by auto
next
  case (Cons v vs)
  have v: "walk_entry s root v = None" "4 \<le> card (free_frames s)" "is_aligned v 4096" using Cons.prems by simp_all
  obtain f s1 where s1: "alloc_map flags (phys_to_virt root) v s = Inr s1" "as_wf s1 root"
    "managed_pages s1 = managed_pages s" "card (free_frames s) \<le> 4 + card (free_frames s1)"
    "f \<in> managed_pages s" "\<not> page_used s f" "page_used s1 f"
    "\<forall>q\<in>managed_pages s. page_used s q \<longrightarrow> page_used s1 q"
    "\<forall>va. walk_entry s1 root va = (if page_of va = page_of v then Some (0, f OR flags) else walk_entry s root va)"
    "\<exists>bm m. s1 = s\<lparr>pmm_bitmap := bm, phys_mem := m\<rparr>"
    by (rule alloc_map_step [OF Cons.prems(1) v Cons.prems(5)])
  have "\<forall>w\<in>set vs. is_aligned w 4096 \<and> walk_entry s1 root w = None"
    using Cons.prems(2,3) s1(9) by (auto simp: image_iff)
  moreover have "4 * length vs \<le> card (free_frames s1)" using Cons.prems(4) s1(4) by simp
  ultimately obtain s' F where s': "foldM (alloc_map flags (phys_to_virt root)) vs s1 = Inr s'" "as_wf s' root"
    "card (free_frames s1) \<le> 4 * length vs + card (free_frames s')" "fresh_pages s1 s' root flags (page_of ` set vs) F"
    using Cons.IH [OF s1(2) _ _ _ Cons.prems(5)] Cons.prems(2) by auto
  note fr = s'(4) [unfolded fresh_pages_def]
  let ?F = "F(page_of v := f)"
  have nv: "page_of v \<notin> page_of ` set vs" using Cons.prems(2) by auto
  have ne: "F k \<noteq> f" if "k \<in> page_of ` set vs" for k using fr that s1(7) by blast
  have "inj_on ?F (page_of ` set (v # vs))"
    using fr nv ne by (auto simp: inj_on_def)
  moreover have "\<forall>k\<in>page_of ` set (v # vs). ?F k \<in> managed_pages s \<and> \<not> page_used s (?F k) \<and> page_used s' (?F k)"
    using fr s1(3,5,6,7,8) nv by (simp add: ball_conj_distrib) blast
  moreover have "\<forall>va. walk_entry s' root va = (if page_of va \<in> page_of ` set (v # vs) then Some (0, ?F (page_of va) OR flags)
      else walk_entry s root va)"
    using fr s1(9) nv by simp
  moreover have "\<exists>bm m. s' = s\<lparr>pmm_bitmap := bm, phys_mem := m\<rparr>"
  proof -
    obtain b1 m1 b2 m2 where "s1 = s\<lparr>pmm_bitmap := b1, phys_mem := m1\<rparr>" "s' = s1\<lparr>pmm_bitmap := b2, phys_mem := m2\<rparr>"
      using s1(10) fr by blast
    then have "s' = s\<lparr>pmm_bitmap := b2, phys_mem := m2\<rparr>" by simp
    then show ?thesis by blast
  qed
  ultimately have "fresh_pages s s' root flags (page_of ` set (v # vs)) ?F"
    using fr s1(3,8) unfolding fresh_pages_def by blast
  moreover have "card (free_frames s) \<le> 4 * length (v # vs) + card (free_frames s')" using s1(4) s'(3) by simp
  ultimately show ?case using s1(1) s'(1,2) by auto
qed

section \<open>Moving the break\<close>

lemma foldM_map: "foldM f (map g xs) = foldM (\<lambda>x. f (g x)) xs"
proof (induction xs)
  case (Cons x xs)
  show ?case by (rule ext) (simp add: Cons.IH)
qed (simp add: fun_eq_iff)

text \<open>The pages between two addresses of the lower half.\<close>

definition pages_between :: "u64 \<Rightarrow> u64 \<Rightarrow> nat set" where
  "pages_between a b = {k. unat a \<le> k * 4096 \<and> k * 4096 < unat b}"

lemma pages_between_aligned:
  assumes "unat a + 4096 \<le> 2 ^ 48" and "unat b + 4096 \<le> 2 ^ 48"
  shows "pages_between a b = {unat (ALIGN_UP a 4096) div 4096..<unat (ALIGN_UP b 4096) div 4096}"
proof -
  have "(unat a + 4095) div 4096 \<le> k \<longleftrightarrow> unat a \<le> k * 4096" for k by linarith
  moreover have "k < (unat b + 4095) div 4096 \<longleftrightarrow> k * 4096 < unat b" for k by linarith
  ultimately show ?thesis using assms by (auto simp: pages_between_def unat_ALIGN_UP_page)
qed

lemma page_of_page:
  assumes "k < 2 ^ 36"
  shows "page_of (of_nat (k * 4096)) = k" and "is_aligned (of_nat (k * 4096)) 4096"
proof -
  have u: "unat (of_nat (k * 4096) :: u64) = k * 4096" using assms by (intro unat_of_nat_small) simp
  show "page_of (of_nat (k * 4096)) = k" using assms unfolding page_of_def u by simp
  show "is_aligned (of_nat (k * 4096)) 4096" unfolding is_aligned_page u by simp
qed

text \<open>The loops of \<^verbatim>\<open>sbrk\<close> run over the pages between the old and the new break.\<close>

lemma sbrk_grow_pages:
  assumes a: "unat a + 4096 \<le> 2 ^ 48" and b: "unat b + 4096 \<le> 2 ^ 48" and le: "unat a \<le> unat b"
  shows "map (\<lambda>i. ALIGN_UP a 4096 + of_nat i * 4096)
      [0..<unat (ALIGN_UP b 4096 div 4096 - ALIGN_UP a 4096 div 4096)] =
    map (\<lambda>k. of_nat (k * 4096)) [unat (ALIGN_UP a 4096) div 4096..<unat (ALIGN_UP b 4096) div 4096]"
proof -
  let ?m = "(unat a + 4095) div 4096" and ?n = "(unat b + 4095) div 4096"
  have u: "unat (ALIGN_UP a 4096) = ?m * 4096" "unat (ALIGN_UP b 4096) = ?n * 4096"
    using a b by (simp_all add: unat_ALIGN_UP_page)
  have mn: "?m \<le> ?n" using le by (intro div_le_mono) simp
  have d: "unat (ALIGN_UP a 4096 div 4096) = ?m" "unat (ALIGN_UP b 4096 div 4096) = ?n"
    using u by (simp_all add: unat_div)
  have "ALIGN_UP a 4096 div 4096 \<le> ALIGN_UP b 4096 div 4096" using mn by (simp add: word_le_nat_alt d)
  then have n: "unat (ALIGN_UP b 4096 div 4096 - ALIGN_UP a 4096 div 4096) = ?n - ?m" by (simp add: unat_sub d)
  have "ALIGN_UP a 4096 = of_nat (?m * 4096)" unfolding u(1) [symmetric] by simp
  then have "ALIGN_UP a 4096 + of_nat i * 4096 = of_nat ((?m + i) * 4096)" for i by (simp add: algebra_simps)
  moreover have "[?m..<?n] = map (\<lambda>i. ?m + i) [0..<?n - ?m]" using mn map_add_upt [of ?m "?n - ?m"] by (simp add: add.commute)
  ultimately show ?thesis unfolding n u by simp
qed

lemma sbrk_grow:
  assumes p: "processes s (current_process s) = Some p" and tab: "proc_pml4 p = phys_to_virt root" and wf: "as_wf s root"
    and pos: "0 \<le>s arg" and top: "unat (proc_brk p) + unat arg \<le> 2 ^ 47"
    and un: "\<forall>k\<in>pages_between (proc_brk p) (proc_brk p + arg). walk_entry s root (of_nat (k * 4096)) = None"
    and free: "4 * card (pages_between (proc_brk p) (proc_brk p + arg)) \<le> card (free_frames s)"
  shows "\<exists>s1 F. syscall_sbrk arg s = Inr (Some (proc_brk p),
      s1\<lparr>processes := (processes s)(current_process s \<mapsto> p\<lparr>proc_brk := proc_brk p + arg\<rparr>)\<rparr>) \<and> as_wf s1 root \<and>
    fresh_pages s s1 root VMM_FLAGS_USER_DATA (pages_between (proc_brk p) (proc_brk p + arg)) F"
proof -
  let ?a = "proc_brk p" and ?b = "proc_brk p + arg"
  have ub: "unat ?b = unat ?a + unat arg" using top by (subst unat_add_small) simp_all
  have a: "unat ?a + 4096 \<le> 2 ^ 48" "unat ?b + 4096 \<le> 2 ^ 48" using top ub by simp_all
  define K where "K = [unat (ALIGN_UP ?a 4096) div 4096..<unat (ALIGN_UP ?b 4096) div 4096]"
  have K: "set K = pages_between ?a ?b" by (simp add: K_def pages_between_aligned [OF a])
  have lt: "k < 2 ^ 36" if "k \<in> set K" for k
    using that a(2) unfolding K pages_between_def by simp
  have pg: "map page_of (map (\<lambda>k. of_nat (k * 4096)) K) = K"
    using page_of_page(1) lt by (simp add: map_idI)
  have "length K = card (pages_between ?a ?b)" unfolding K [symmetric] by (simp add: K_def)
  then have "4 * length (map (\<lambda>k. of_nat (k * 4096) :: u64) K) \<le> card (free_frames s)" using free by simp
  moreover have "\<forall>v\<in>set (map (\<lambda>k. of_nat (k * 4096)) K). is_aligned v 4096 \<and> walk_entry s root v = None"
    using un page_of_page(2) lt unfolding K [symmetric] by auto
  moreover have "bit VMM_FLAGS_USER_DATA 0" by (simp add: VMM_FLAGS_USER_DATA_def bit_0_eq)
  ultimately obtain s1 F where r: "foldM (alloc_map VMM_FLAGS_USER_DATA (phys_to_virt root)) (map (\<lambda>k. of_nat (k * 4096)) K) s = Inr s1"
    "as_wf s1 root" "fresh_pages s s1 root VMM_FLAGS_USER_DATA (page_of ` set (map (\<lambda>k. of_nat (k * 4096)) K)) F"
    using alloc_map_list [OF wf, of "map (\<lambda>k. of_nat (k * 4096)) K" VMM_FLAGS_USER_DATA] unfolding pg by (auto simp: K_def)
  have P: "page_of ` set (map (\<lambda>k. of_nat (k * 4096)) K) = pages_between ?a ?b"
    unfolding K [symmetric] using arg_cong [OF pg, of set] by (simp only: set_map)
  note fr = r(3) [unfolded P]
  obtain bm m where s1: "s1 = s\<lparr>pmm_bitmap := bm, phys_mem := m\<rparr>" using fr unfolding fresh_pages_def by blast
  have "foldM (\<lambda>i. alloc_map VMM_FLAGS_USER_DATA (proc_pml4 p) (ALIGN_UP ?a 4096 + of_nat i * 4096))
      [0..<unat (ALIGN_UP ?b 4096 div 4096 - ALIGN_UP ?a 4096 div 4096)] s = Inr s1"
    using r(1) unfolding K_def tab sbrk_grow_pages [OF a, unfolded ub, OF le_add1, symmetric] foldM_map .
  then have "syscall_sbrk arg s = Inr (Some ?a, s1\<lparr>processes := (processes s)(current_process s \<mapsto> p\<lparr>proc_brk := ?b\<rparr>)\<rparr>)"
    using p pos by (simp add: syscall_sbrk_def read_process_def update_process_def Let_def s1 word_sless_alt word_sle_eq)
  then show ?thesis using r(2) fr by blast
qed

lemma high_word_negative:
  assumes "2 ^ 63 \<le> unat (w :: u64)"
  shows "w <s 0"
proof -
  have "bit w 63"
  proof (rule ccontr)
    assume n: "\<not> bit w 63"
    have "take_bit 63 w = w"
    proof (rule bit_word_eqI)
      fix k assume "k < LENGTH(64)"
      then show "bit (take_bit 63 w) k \<longleftrightarrow> bit w k" using n by (cases "k = 63") (auto simp: bit_take_bit_iff)
    qed
    then have "unat w = take_bit 63 (unat w)" by (metis unsigned_take_bit_eq)
    then have "unat w < 2 ^ 63" by (metis take_bit_nat_less_exp)
    then show False using assms by simp
  qed
  then show ?thesis using bit_last_iff [of w] by (simp add: word_sless_alt)
qed

lemma unat_neg:
  assumes "0 < d" and "d \<le> (2 :: nat) ^ 63"
  shows "unat (- of_nat d :: u64) = 2 ^ 64 - d"
proof -
  have z: "(of_nat (2 ^ 64) :: u64) = 0" by simp
  have "(of_nat (2 ^ 64 - d) :: u64) = of_nat (2 ^ 64) - of_nat d" using assms by (intro of_nat_diff) simp
  then have "(- of_nat d :: u64) = of_nat (2 ^ 64 - d)" unfolding z by simp
  then show ?thesis using assms by (simp only:) (intro unat_of_nat_small, simp)
qed

text \<open>C19: The check of a negative request does not hold back a request larger than the break itself: the subtraction
  wraps around, the result is above the start of the heap, and \<^verbatim>\<open>sbrk\<close> accepts it; the break moves up to the top of the address space and no page is released.\<close>
theorem sbrk_underflow_accepted:
  assumes p: "processes s (current_process s) = Some p" and st: "proc_brk_start p \<le> proc_brk p"
    and brk: "unat (proc_brk p) < 2 ^ 47" and k: "unat (proc_brk p) + 4096 \<le> k" "k \<le> 2 ^ 63"
  shows "syscall_sbrk (- of_nat k) s = Inr (Some (proc_brk p),
      s\<lparr>processes := (processes s)(current_process s \<mapsto> p\<lparr>proc_brk := proc_brk p - of_nat k\<rparr>)\<rparr>) \<and>
    proc_brk p < proc_brk p - of_nat k"
proof -
  let ?b = "proc_brk p" and ?n = "proc_brk p - of_nat k :: u64"
  define d where "d = k - unat ?b"
  have d: "4096 \<le> d" "d \<le> 2 ^ 63" using k by (simp_all add: d_def)
  have "(of_nat d :: u64) = of_nat k - of_nat (unat ?b)" unfolding d_def using k by (intro of_nat_diff) simp
  then have n: "?n = - of_nat d" by simp
  have un: "unat ?n = 2 ^ 64 - d" unfolding n using d by (intro unat_neg) simp_all
  have "2 ^ 63 \<le> unat (- of_nat k :: u64)" using unat_neg [of k] k by simp
  then have neg: "(- of_nat k :: u64) <s 0" by (rule high_word_negative)
  have lt: "?b < ?n" unfolding word_less_nat_alt un using brk d by simp
  have "unat (ALIGN_UP ?n 4096) = (2 ^ 64 - d + 4095) div 4096 * 4096"
    using unat_ALIGN_UP_page [of ?n] d unfolding un by simp
  then have "unat (ALIGN_UP ?n 4096 div 4096) = (2 ^ 64 - d + 4095) div 4096" by (simp add: unat_div)
  moreover have "(2 ^ 64 - 2 ^ 63 :: nat) div 4096 \<le> (2 ^ 64 - d + 4095) div 4096" using d by (intro div_le_mono) simp
  moreover have "unat (ALIGN_UP ?b 4096 div 4096) = (unat ?b + 4095) div 4096"
    using brk by (simp add: unat_ALIGN_UP_page unat_div)
  moreover have "(unat ?b + 4095) div 4096 \<le> (2 ^ 47 + 4095) div 4096" using brk by (intro div_le_mono) simp
  ultimately have "unat (ALIGN_UP ?b 4096 div 4096) \<le> unat (ALIGN_UP ?n 4096 div 4096)" by simp
  then have e: "[unat (ALIGN_UP ?n 4096 div 4096)..<unat (ALIGN_UP ?b 4096 div 4096)] = []" by simp
  have "\<not> ?n < proc_brk_start p" using st lt by simp
  then show ?thesis using p neg lt e by (simp add: syscall_sbrk_def read_process_def update_process_def Let_def del: upt_conv_Nil upt_eq_Nil_conv)
qed

section \<open>Creating a process\<close>

lemma copy_kernel_half_mem:
  assumes al: "is_aligned r 4096" "is_aligned k 4096" and ne: "r \<noteq> k"
  shows "copy_kernel_half (phys_to_virt r) (phys_to_virt k) s = s\<lparr>phys_mem := phys_mem (copy_kernel_half (phys_to_virt r) (phys_to_virt k) s)\<rparr> \<and>
    (\<forall>t i. is_aligned t 4096 \<longrightarrow> i < 512 \<longrightarrow> phys_mem (copy_kernel_half (phys_to_virt r) (phys_to_virt k) s) (slot t i) =
      (if t = r \<and> 256 \<le> i then phys_mem s (slot k i) else phys_mem s (slot t i)))"
proof -
  define st where "st n = fold (\<lambda>i s. poke (phys_to_virt r) (of_nat i) (peek s (phys_to_virt k) (of_nat i)) s) [256..<n] s" for n
  have "st n = s\<lparr>phys_mem := phys_mem (st n)\<rparr> \<and>
    (\<forall>t i. is_aligned t 4096 \<longrightarrow> i < 512 \<longrightarrow> phys_mem (st n) (slot t i) =
      (if t = r \<and> 256 \<le> i \<and> i < n then phys_mem s (slot k i) else phys_mem s (slot t i)))" if "256 \<le> n" "n \<le> 512" for n
    using that
  proof (induction n rule: dec_induct)
    case base
    then show ?case by (auto simp: st_def)
  next
    case (step n)
    have u: "unat (of_nat n :: u16) = n" using step.prems by (intro unat_of_nat_small) simp
    have e: "st (Suc n) = (st n)\<lparr>phys_mem := (phys_mem (st n))(slot r n := phys_mem (st n) (slot k n))\<rparr>"
      using step.hyps by (simp add: st_def poke_slot peek_slot u)
    note IH = step.IH [OF Suc_leD [OF step.prems]]
    have kn: "phys_mem (st n) (slot k n) = phys_mem s (slot k n)" using IH al ne step.prems by simp
    have "st (Suc n) = s\<lparr>phys_mem := phys_mem (st (Suc n))\<rparr>"
      unfolding e by (subst IH [THEN conjunct1]) simp
    moreover have "phys_mem (st (Suc n)) (slot t i) = (if t = r \<and> 256 \<le> i \<and> i < Suc n then phys_mem s (slot k i) else phys_mem s (slot t i))"
      if "is_aligned t 4096" "i < 512" for t i
      using that IH step.hyps step.prems slot_eq_iff [OF that(1) al(1) that(2), of n] unfolding e kn by auto
    ultimately show ?case by blast
  qed
  from this [of 512] have "st 512 = s\<lparr>phys_mem := phys_mem (st 512)\<rparr> \<and>
    (\<forall>t i. is_aligned t 4096 \<longrightarrow> i < 512 \<longrightarrow> phys_mem (st 512) (slot t i) =
      (if t = r \<and> 256 \<le> i then phys_mem s (slot k i) else phys_mem s (slot t i)))" by auto
  moreover have "copy_kernel_half (phys_to_virt r) (phys_to_virt k) s = st 512"
    by (simp only: st_def copy_kernel_half_def)
  ultimately show ?thesis by simp
qed

lemma no_tableD:
  "no_table s k [r] \<Longrightarrow> table_path is \<Longrightarrow> table_at (phys_mem s) k is = Some t \<Longrightarrow> t \<noteq> r"
  by (auto simp: no_table_def)

text \<open>A new table that shares the kernel half is a well-formed address space of its own.\<close>

lemma share_tables:
  assumes wf: "as_wf s k" and nt: "no_table s k [r]" and r: "is_aligned r 4096"
    and zero: "\<forall>i<512. phys_mem s (slot r i) = 0"
    and m': "\<forall>t i. is_aligned t 4096 \<longrightarrow> i < 512 \<longrightarrow> m' (slot t i) =
      (if t = r \<and> 256 \<le> i then phys_mem s (slot k i) else phys_mem s (slot t i))"
  shows "table_path (i # is) \<Longrightarrow> table_at m' r (i # is) = (if 256 \<le> i then table_at (phys_mem s) k (i # is) else None)"
proof (induction "is" rule: rev_induct)
  case Nil
  then have "i < 512" by (simp add: table_path_def)
  then have "m' (slot r i) = (if 256 \<le> i then phys_mem s (slot k i) else 0)" using m' zero r by simp
  then show ?case by (simp add: points_to_table_def table_at.simps(2))
next
  case (snoc j js)
  have p: "table_path (i # js)" "j < 512" using snoc.prems by (simp_all add: table_path_def)
  note IH = snoc.IH [OF p(1)]
  have e: "m' (slot t j) = phys_mem s (slot t j)" if "table_at (phys_mem s) k (i # js) = Some t" for t
  proof -
    have "t \<noteq> r" by (rule no_tableD [OF nt p(1) that])
    then show ?thesis using m' as_wf_aligned [OF wf p(1) that] p(2) by simp
  qed
  show ?case
    unfolding append_Cons [symmetric] table_at_snoc IH
    by (cases "table_at (phys_mem s) k (i # js)") (auto simp: e)
qed

lemma share_kernel_half:
  assumes wf: "as_wf s k" and nt: "no_table s k [r]" and r: "r \<in> managed_pages s" "page_used s r"
    and zero: "\<forall>i<512. phys_mem s (slot r i) = 0"
    and s': "s' = copy_kernel_half (phys_to_virt r) (phys_to_virt k) s"
  shows "as_wf s' r" and "\<exists>m. s' = s\<lparr>phys_mem := m\<rparr>"
    and "walk_entry s' r va = (if i4 va < 256 then None else walk_entry s k va)"
proof -
  have al: "is_aligned r 4096" "is_aligned k 4096"
    using managed_aligned [OF as_wf_pmm [OF wf]] r(1) as_wf_aligned [OF wf table_path_Nil] by auto
  have ne: "r \<noteq> k" using no_tableD [OF nt table_path_Nil, of k] by auto
  let ?m = "phys_mem s" and ?m' = "phys_mem s'"
  note c = copy_kernel_half_mem [OF al ne, of s, folded s']
  show "\<exists>m. s' = s\<lparr>phys_mem := m\<rparr>" using c by blast
  have m': "\<forall>t i. is_aligned t 4096 \<longrightarrow> i < 512 \<longrightarrow> ?m' (slot t i) = (if t = r \<and> 256 \<le> i then ?m (slot k i) else ?m (slot t i))"
    using c by blast
  note sh = share_tables [OF wf nt al(1) zero m']
  have tab: "t = r \<and> is = [] \<or> is \<noteq> [] \<and> 256 \<le> hd is \<and> t \<noteq> r \<and> table_at ?m k is = Some t"
    if "table_path is" "table_at ?m' r is = Some t" for "is" t
  proof (cases "is")
    case (Cons i js)
    then have "256 \<le> i" "table_at ?m k is = Some t" using sh [of i js] that by (auto split: if_splits)
    then show ?thesis using Cons no_tableD [OF nt that(1)] by simp
  qed (use that in simp)
  have bm: "pmm_bitmap s' = pmm_bitmap s" "pmm_bitmap_size s' = pmm_bitmap_size s"
    by (subst c [THEN conjunct1], simp)+
  have pm: "pmm_wf s'" "managed_pages s' = managed_pages s" "page_used s' = page_used s"
    using pmm_cong [of s' s] as_wf_pmm [OF wf] by (simp_all add: bm)
  have zr: "?m' (slot r i) = (if 256 \<le> i then ?m (slot k i) else 0)" if "i < 512" for i
    using m' zero al(1) that by simp
  show "as_wf s' r"
    unfolding as_wf_def
  proof (intro conjI allI impI)
    show "pmm_wf s'" by (rule pm(1))
  next
    fix "is" t assume "table_path is" "table_at ?m' r is = Some t"
    from tab [OF this] show "t \<in> managed_pages s'" "page_used s' t"
      using r as_wf_table [OF wf \<open>table_path is\<close>] unfolding pm by auto
  next
    fix "is" js t assume a: "table_path is" "table_path js" "table_at ?m' r is = Some t" "table_at ?m' r js = Some t"
    show "is = js" using tab [OF a(1,3)] tab [OF a(2,4)] as_wf_inj [OF wf a(1,2)] by auto
  next
    fix "is" t i assume a: "table_path is" "i < 512" "table_at ?m' r is = Some t" "?m' (slot t i) \<noteq> 0"
    consider "t = r" | "t \<noteq> r" "table_at ?m k is = Some t" using tab [OF a(1,3)] by blast
    then show "bit (?m' (slot t i)) 0"
    proof cases
      case 1
      then show ?thesis using zr [OF a(2)] a(4) as_wf_present [OF wf table_path_Nil a(2)] by (auto split: if_splits)
    next
      case 2
      then have "?m' (slot t i) = ?m (slot t i)" using m' as_wf_aligned [OF wf a(1) 2(2)] a(2) by simp
      then show ?thesis using as_wf_present [OF wf a(1,2) 2(2)] a(4) by simp
    qed
  next
    fix i :: nat assume "i < 512"
    then show "\<not> bit (?m' (slot r i)) 7" using zr wf unfolding as_wf_def by auto
  qed
  let ?i = "i4 va" and ?p = "[i3 va, i2 va, i1 va]"
  have v: "vidx va = ?i # ?p" by (simp add: vidx_def)
  have "hw_walk ?m' t ?p = hw_walk ?m t ?p" if t: "table_at ?m k [?i] = Some t" for t
  proof (rule hw_walk_cong)
    fix "is" l js u assume sp: "?p = is @ l # js" and u: "table_at ?m t is = Some u"
    have "page_path ((?i # is) @ l # js)" using page_path_vidx [of va] by (simp add: v sp)
    then have p: "table_path (?i # is)" "l < 512" using page_path_split by blast+
    have "table_at ?m k ([?i] @ is) = Some u" unfolding table_at_append t using u by simp
    then have u': "table_at ?m k (?i # is) = Some u" by simp
    show "?m' (slot u l) = ?m (slot u l)"
      using m' as_wf_aligned [OF wf p(1) u'] no_tableD [OF nt p(1) u'] p(2) by simp
  qed
  then show "walk_entry s' r va = (if i4 va < 256 then None else walk_entry s k va)"
    unfolding walk_entry_def v using zr [of ?i]
    by (auto simp: Let_def points_to_table_def table_at.simps(2) hw_walk.simps(3))
qed

definition kernel_stack_pages :: "u64 list" where
  "kernel_stack_pages = [0xFFFFFF7FFFFFC000, 0xFFFFFF7FFFFFD000, 0xFFFFFF7FFFFFE000, 0xFFFFFF7FFFFFF000]"

lemma kernel_stack_range:
  "page_range (PROCESS_VIRT_KERNEL_STACK_TOP - PROCESS_DEFAULT_KERNEL_STACK_SIZE) PROCESS_VIRT_KERNEL_STACK_TOP = kernel_stack_pages"
  "page_loop_ends (PROCESS_VIRT_KERNEL_STACK_TOP - PROCESS_DEFAULT_KERNEL_STACK_SIZE) PROCESS_VIRT_KERNEL_STACK_TOP"
proof -
  have c: "PROCESS_VIRT_KERNEL_STACK_TOP = 0xFFFFFF8000000000"
    "PROCESS_VIRT_KERNEL_STACK_TOP - PROCESS_DEFAULT_KERNEL_STACK_SIZE = 0xFFFFFF7FFFFFC000"
    by (simp_all add: PROCESS_VIRT_KERNEL_STACK_TOP_def PROCESS_KERNEL_VIRT_BASE_def PROCESS_DEFAULT_KERNEL_STACK_SIZE_def)
  have u: "unat (0xFFFFFF8000000000 :: u64) = 0xFFFFFF8000000000" "unat (0xFFFFFF7FFFFFC000 :: u64) = 0xFFFFFF7FFFFFC000"
    by simp_all
  have l: "(0xFFFFFF8000000000 - 0xFFFFFF7FFFFFC000 + 4095 :: nat) div 4096 = 4" by simp
  have up: "[0..<4] = [0, 1, 2, 3 :: nat]" by (simp add: upt_rec)
  show "page_range (PROCESS_VIRT_KERNEL_STACK_TOP - PROCESS_DEFAULT_KERNEL_STACK_SIZE) PROCESS_VIRT_KERNEL_STACK_TOP = kernel_stack_pages"
    unfolding page_range_def unfolding c(2) unfolding c(1) u l up kernel_stack_pages_def by simp
  show "page_loop_ends (PROCESS_VIRT_KERNEL_STACK_TOP - PROCESS_DEFAULT_KERNEL_STACK_SIZE) PROCESS_VIRT_KERNEL_STACK_TOP"
    unfolding page_loop_ends_def unfolding c(2) unfolding c(1) u by simp
qed

lemma kernel_stack_page_of:
  "map page_of kernel_stack_pages = [0xFF7FFFFFC, 0xFF7FFFFFD, 0xFF7FFFFFE, 0xFF7FFFFFF]"
  "v \<in> set kernel_stack_pages \<Longrightarrow> is_aligned v 4096 \<and> i4 v = 510"
  by (simp add: kernel_stack_pages_def page_of_def)
     (auto simp: kernel_stack_pages_def is_aligned_page unat_idx)

text \<open>The process structure of a kernel thread.\<close>

definition thread_process :: "Process \<Rightarrow> u64 \<Rightarrow> u32 \<Rightarrow> u64 \<Rightarrow> u64 \<Rightarrow> u64 \<Rightarrow> u64 \<Rightarrow> Process" where
  "thread_process p r pid' entry' cs' ss' rflags' =
     p\<lparr>proc_pml4 := phys_to_virt r, proc_pml4_phys := r, proc_pid := pid',
       proc_stack_top := PROCESS_VIRT_KERNEL_STACK_TOP, proc_stack_size := PROCESS_DEFAULT_KERNEL_STACK_SIZE,
       proc_context := (proc_context p)\<lparr>ctx_cs := cs', ctx_ss := ss', ctx_rip := entry', ctx_rflags := rflags',
         ctx_rsp := PROCESS_VIRT_KERNEL_STACK_TOP\<rparr>,
       proc_entry := entry', proc_kernel_stack_top := PROCESS_VIRT_KERNEL_STACK_TOP,
       proc_kernel_stack_size := PROCESS_DEFAULT_KERNEL_STACK_SIZE, proc_state := PROCESS_READY\<rparr>"

text \<open>C6: \<^verbatim>\<open>process_create\<close> for a kernel thread, on a zeroed page table: it always succeeds, the new address space is well
  formed, shares every translation of the kernel half and has nothing in the lower half, and its four kernel stack
  pages are mapped to fresh, distinct frames; the process structure is ready to run at the entry point.\<close>
theorem process_create_correct:
  assumes wf: "as_wf s k" and nt: "no_table s k [r]" and r: "r \<in> managed_pages s" "page_used s r"
    and zero: "\<forall>i<512. phys_mem s (slot r i) = 0" and free: "16 \<le> card (free_frames s)"
    and slot: "phys_mem s (slot k 510) = 0" and p: "processes s a = Some p"
  shows "\<exists>s' F. process_create a pid' entry' cs' ss' rflags' 0 0 PROCESS_VIRT_KERNEL_STACK_TOP
      PROCESS_DEFAULT_KERNEL_STACK_SIZE (phys_to_virt r) r (phys_to_virt k) s = Inr s' \<and> as_wf s' r \<and>
    processes s' = (processes s)(a \<mapsto> thread_process p r pid' entry' cs' ss' rflags') \<and>
    inj_on F (page_of ` set kernel_stack_pages) \<and>
    (\<forall>n\<in>page_of ` set kernel_stack_pages. F n \<in> managed_pages s \<and> \<not> page_used s (F n)) \<and>
    (\<forall>va. walk_entry s' r va =
      (if page_of va \<in> page_of ` set kernel_stack_pages then Some (0, F (page_of va) OR VMM_FLAGS_KERNEL_DATA)
       else if i4 va < 256 then None else walk_entry s k va))"
proof -
  let ?q = "p\<lparr>proc_pml4 := phys_to_virt r, proc_pml4_phys := r, proc_pid := pid'\<rparr>"
  define s0 where "s0 = s\<lparr>processes := (processes s)(a \<mapsto> ?q)\<rparr>"
  have c0: "as_wf s0 k = as_wf s k" "walk_entry s0 k = walk_entry s k" "no_table s0 k = no_table s k"
    "managed_pages s0 = managed_pages s" "page_used s0 = page_used s" "free_frames s0 = free_frames s" "phys_mem s0 = phys_mem s"
    using as_wf_cong [of s0 s k] pmm_cong [of s0 s] by (simp_all add: s0_def)
  define s1 where "s1 = copy_kernel_half (phys_to_virt r) (phys_to_virt k) s0"
  note sh = share_kernel_half [where s = s0 and s' = s1 and k = k and r = r, unfolded c0, OF wf nt r zero s1_def]
  obtain m1 where m1: "s1 = s0\<lparr>phys_mem := m1\<rparr>" using sh(2) by blast
  have c1: "managed_pages s1 = managed_pages s" "page_used s1 = page_used s" "free_frames s1 = free_frames s"
    using pmm_cong [of s1 s0] c0 by (simp_all add: m1)
  have un: "walk_entry s1 r v = None" if "v \<in> set kernel_stack_pages" for v
  proof -
    have i: "i4 v = 510" using kernel_stack_page_of(2) [OF that] by simp
    have "walk_entry s k v = None" unfolding walk_entry_def vidx_def i using slot by (intro hw_walk_zero)
    then show ?thesis using sh(3) [of v] by simp
  qed
  have "distinct (map page_of kernel_stack_pages)" unfolding kernel_stack_page_of(1) by simp
  moreover have "4 * length kernel_stack_pages \<le> card (free_frames s1)" using free c1 by (simp add: kernel_stack_pages_def)
  moreover have "bit VMM_FLAGS_KERNEL_DATA 0" by (simp add: VMM_FLAGS_KERNEL_DATA_def bit_0_eq)
  ultimately obtain s2 F where r2: "foldM (alloc_map VMM_FLAGS_KERNEL_DATA (phys_to_virt r)) kernel_stack_pages s1 = Inr s2"
    "as_wf s2 r" "fresh_pages s1 s2 r VMM_FLAGS_KERNEL_DATA (page_of ` set kernel_stack_pages) F"
    using alloc_map_list [OF sh(1)] kernel_stack_page_of(2) un by blast
  obtain bm m2 where m2: "s2 = s1\<lparr>pmm_bitmap := bm, phys_mem := m2\<rparr>" using r2(3) unfolding fresh_pages_def by blast
  let ?s' = "s2\<lparr>processes := (processes s)(a \<mapsto> thread_process p r pid' entry' cs' ss' rflags')\<rparr>"
  have pr: "processes s2 = (processes s)(a \<mapsto> ?q)" by (simp add: m2 m1 s0_def)
  have "process_create a pid' entry' cs' ss' rflags' 0 0 PROCESS_VIRT_KERNEL_STACK_TOP
      PROCESS_DEFAULT_KERNEL_STACK_SIZE (phys_to_virt r) r (phys_to_virt k) s = Inr ?s'"
    using p by (simp add: process_create_def update_process_def read_process_def for_pages_def kernel_stack_range
        s0_def [symmetric] s1_def [symmetric] r2(1) pr thread_process_def Let_def)
  moreover have "as_wf ?s' r = as_wf s2 r" "walk_entry ?s' r = walk_entry s2 r"
    using as_wf_cong [of ?s' s2 r] by simp_all
  ultimately show ?thesis
    using r2(2,3) sh(3) unfolding fresh_pages_def c1 by (intro exI [of _ ?s'] exI [of _ F]) simp
qed

section \<open>An example\<close>

text \<open>A machine with 64 frames, the first two in use: the kernel's table and the table of a new process.\<close>

definition space_example :: kstate where
  "space_example = sched_example\<lparr>pmm_bitmap := 3 # replicate 7 0, pmm_bitmap_size := 8, phys_mem := (\<lambda>_. 0),
     processes := [0x1000 \<mapsto> (example_process 0 PROCESS_RUNNING)\<lparr>proc_pml4 := phys_to_virt 0\<rparr>]\<rparr>"

lemma space_example_fields:
  "phys_mem space_example = (\<lambda>_. 0)" "current_process space_example = 0x1000"
  "processes space_example = [0x1000 \<mapsto> (example_process 0 PROCESS_RUNNING)\<lparr>proc_pml4 := phys_to_virt 0\<rparr>]"
  by (simp_all add: space_example_def sched_example_fields)

lemma space_example_pmm:
  "pmm_wf space_example" "free_frames space_example = {2..<64}" "card (free_frames space_example) = 62"
  "0 \<in> managed_pages space_example" "0x1000 \<in> managed_pages space_example"
  "page_used space_example 0" "page_used space_example 0x1000"
proof -
  have b: "pmm_bitmap space_example = 3 # replicate 7 0" "pmm_bitmap_size space_example = 8"
    by (simp_all add: space_example_def)
  show "pmm_wf space_example" by (simp add: pmm_wf_def pmm_pages_def b find_span_def)
  have "frame_used space_example k \<longleftrightarrow> k < 2" if "k < 64" for k
  proof (cases "k < 8")
    case True
    then have "k \<in> {0, 1, 2, 3, 4, 5, 6, 7}" by auto
    then show ?thesis by (auto simp: frame_used_def b bm_get_def)
  next
    case False
    then obtain j where j: "k div 8 = Suc j" by (cases "k div 8") auto
    moreover have "j < 7" using that j by simp
    ultimately show ?thesis using False by (simp add: frame_used_def b bm_get_def)
  qed
  then show f: "free_frames space_example = {2..<64}" by (auto simp: free_frames_def pmm_pages_def b)
  show "card (free_frames space_example) = 62" unfolding f by simp
  have mp: "frame_addr k \<in> managed_pages space_example" if "k < 64" for k
    using that by (auto simp: managed_pages_def pmm_pages_def b)
  show "0 \<in> managed_pages space_example" "0x1000 \<in> managed_pages space_example"
    using mp [of 0] mp [of 1] by (simp_all add: frame_addr_def)
  show "page_used space_example 0" "page_used space_example 0x1000"
    by (simp_all add: page_used_def frame_used_def b bm_get_def)
qed

lemma space_example_wf: "as_wf space_example 0" "walk_entry space_example 0 va = None" "no_table space_example 0 [0x1000]"
proof -
  show wf: "as_wf space_example 0" and "walk_entry space_example 0 va = None"
    using as_wf_empty [of space_example 0] space_example_pmm by (simp_all add: space_example_fields walk_entry_def)
  show "no_table space_example 0 [0x1000]"
    unfolding no_table_def space_example_fields
  proof (intro allI impI)
    fix "is" t assume "table_at (\<lambda>_. 0) 0 is = Some t"
    then show "t \<notin> set [0x1000 :: u64]" by (cases "is") (auto simp: table_at.simps points_to_table_def)
  qed
qed

section \<open>Properties\<close>

theorem process_create_correct_witness:
  "\<exists>s'. process_create 0x1000 1 0xFFFFFFFF80001000 0x08 0x10 0x200 0 0 PROCESS_VIRT_KERNEL_STACK_TOP
      PROCESS_DEFAULT_KERNEL_STACK_SIZE (phys_to_virt 0x1000) 0x1000 (phys_to_virt 0) space_example = Inr s' \<and> as_wf s' 0x1000"
proof -
  have f: "16 \<le> card (free_frames space_example)" by (simp add: space_example_pmm)
  have z: "\<forall>i<512. phys_mem space_example (slot 0x1000 i) = 0" "phys_mem space_example (slot 0 510) = 0"
    by (simp_all add: space_example_fields)
  have p: "processes space_example 0x1000 = Some ((example_process 0 PROCESS_RUNNING)\<lparr>proc_pml4 := phys_to_virt 0\<rparr>)"
    by (simp add: space_example_fields)
  show ?thesis
    using process_create_correct [OF space_example_wf(1,3) space_example_pmm(5,7) z(1) f z(2) p] by blast
qed

text \<open>C18: Growing the break: for a request that is not negative and stays in the lower half, \<^verbatim>\<open>sbrk\<close> returns the old
  break, moves it by the request, and maps every page that starts between the old and the new break to a
  fresh, distinct frame, writable by the process; every other translation is unchanged.\<close>
theorem sbrk_grow_correct:
  assumes "processes s (current_process s) = Some p" and "proc_pml4 p = phys_to_virt root" and "as_wf s root"
    and "0 \<le>s arg" and "unat (proc_brk p) + unat arg \<le> 2 ^ 47"
    and "\<forall>k\<in>pages_between (proc_brk p) (proc_brk p + arg). walk_entry s root (of_nat (k * 4096)) = None"
    and "4 * card (pages_between (proc_brk p) (proc_brk p + arg)) \<le> card (free_frames s)"
  shows "\<exists>s' F. syscall_sbrk arg s = Inr (Some (proc_brk p), s') \<and> as_wf s' root \<and>
    processes s' = (processes s)(current_process s \<mapsto> p\<lparr>proc_brk := proc_brk p + arg\<rparr>) \<and>
    inj_on F (pages_between (proc_brk p) (proc_brk p + arg)) \<and>
    (\<forall>k\<in>pages_between (proc_brk p) (proc_brk p + arg). F k \<in> managed_pages s \<and> \<not> page_used s (F k)) \<and>
    (\<forall>va. walk_entry s' root va = (if page_of va \<in> pages_between (proc_brk p) (proc_brk p + arg)
       then Some (0, F (page_of va) OR VMM_FLAGS_USER_DATA) else walk_entry s root va))"
proof -
  obtain s1 F where r: "syscall_sbrk arg s = Inr (Some (proc_brk p),
      s1\<lparr>processes := (processes s)(current_process s \<mapsto> p\<lparr>proc_brk := proc_brk p + arg\<rparr>)\<rparr>)" "as_wf s1 root"
    "fresh_pages s s1 root VMM_FLAGS_USER_DATA (pages_between (proc_brk p) (proc_brk p + arg)) F"
    using sbrk_grow [OF assms] by blast
  let ?s' = "s1\<lparr>processes := (processes s)(current_process s \<mapsto> p\<lparr>proc_brk := proc_brk p + arg\<rparr>)\<rparr>"
  have "as_wf ?s' root = as_wf s1 root" "walk_entry ?s' root = walk_entry s1 root"
    using as_wf_cong [of ?s' s1 root] by simp_all
  then show ?thesis using r unfolding fresh_pages_def by (intro exI [of _ ?s'] exI [of _ F]) simp
qed

theorem sbrk_grow_correct_witness:
  "\<exists>s'. syscall_sbrk 0x1800 space_example = Inr (Some 0x500000, s') \<and> as_wf s' 0 \<and>
     walk_entry s' 0 0x501234 \<noteq> None \<and> walk_entry s' 0 0x502000 = None"
proof -
  let ?p = "(example_process 0 PROCESS_RUNNING)\<lparr>proc_pml4 := phys_to_virt 0\<rparr>"
  have f: "proc_brk ?p = 0x500000" "proc_pml4 ?p = phys_to_virt 0" by (simp_all add: example_process_def)
  have P: "pages_between 0x500000 (0x500000 + 0x1800) = {0x500, 0x501}" by (auto simp: pages_between_def)
  have c: "processes space_example (current_process space_example) = Some ?p" by (simp add: space_example_fields)
  have pos: "(0 :: u64) \<le>s 0x1800" by (simp add: word_sle_eq)
  show ?thesis
    using sbrk_grow_correct [OF c f(2) space_example_wf(1) pos] unfolding f(1) P
    by (auto simp: space_example_wf(2) space_example_pmm(3) page_of_def)
qed

theorem sbrk_underflow_accepted_witness:
  "\<exists>s'. syscall_sbrk (- of_nat 0x600000) space_example = Inr (Some 0x500000, s')"
proof -
  let ?p = "(example_process 0 PROCESS_RUNNING)\<lparr>proc_pml4 := phys_to_virt 0\<rparr>"
  have f: "proc_brk ?p = 0x500000" "proc_brk_start ?p = 0x500000" by (simp_all add: example_process_def)
  have c: "processes space_example (current_process space_example) = Some ?p" by (simp add: space_example_fields)
  show ?thesis using sbrk_underflow_accepted [OF c, of "0x600000"] unfolding f by auto
qed

end
