(* ===== verification/Crc32.thy ===== *)
theory Crc32
  imports Prelude
begin

text \<open>
  The checksum of the file system: kernel/common/crc32.c, its copy for the boot loader in
  boot/stage2/stage2_crc32.c and the copy of the image tool in tools/bsfs/bsfs-populate.c.

  The code works on whole bytes; the reference definition feeds the message bit by bit into
  a shift register. Both agree, the incremental and the one-shot form agree, and a change of a
  single byte of a message is always detected.
\<close>

unbundle bit_operations_syntax

section \<open>The code\<close>

text \<open>One round of the inner loop; \<open>- (crc & 1)\<close> is a mask of 32 equal bits.\<close>

definition crc32_step :: "u32 \<Rightarrow> u32" where
  "crc32_step crc = drop_bit 1 crc XOR (0xEDB88320 AND - (crc AND 1))"

definition crc32_byte :: "u32 \<Rightarrow> u8 \<Rightarrow> u32" where
  "crc32_byte crc d = (crc32_step ^^ 8) (crc XOR ucast d)"

definition crc32_update :: "u32 \<Rightarrow> u8 list \<Rightarrow> u32" where
  "crc32_update crc data = foldl crc32_byte crc data"

definition crc32 :: "u8 list \<Rightarrow> u32" where
  "crc32 data = NOT (foldl (\<lambda>crc d. (crc32_step ^^ 8) (crc XOR ucast d)) 0xFFFFFFFF data)"

definition crc32_finalize :: "u32 \<Rightarrow> u32" where
  "crc32_finalize crc = NOT crc"

definition stage2_crc32_update :: "u32 \<Rightarrow> u8 list \<Rightarrow> u32" where
  "stage2_crc32_update crc data =
     foldl (\<lambda>crc d. ((\<lambda>crc. drop_bit 1 crc XOR (0xEDB88320 AND - (crc AND 1))) ^^ 8) (crc XOR ucast d)) crc data"

definition stage2_crc32 :: "u8 list \<Rightarrow> u32" where
  "stage2_crc32 data = NOT (foldl (\<lambda>crc d. ((\<lambda>crc. drop_bit 1 crc XOR (0xEDB88320 AND - (crc AND 1))) ^^ 8)
     (crc XOR ucast d)) 0xFFFFFFFF data)"

text \<open>The image tool: the one-shot function has another constant than the incremental one.\<close>

definition populate_crc32 :: "u8 list \<Rightarrow> u32" where
  "populate_crc32 data = NOT (foldl (\<lambda>crc d. ((\<lambda>crc. drop_bit 1 crc XOR (0xEBD88320 AND - (crc AND 1))) ^^ 8)
     (crc XOR ucast d)) 0xFFFFFFFF data)"

definition populate_crc32_update :: "u32 \<Rightarrow> u8 list \<Rightarrow> u32" where
  "populate_crc32_update crc data =
     foldl (\<lambda>crc d. ((\<lambda>crc. drop_bit 1 crc XOR (0xEDB88320 AND - (crc AND 1))) ^^ 8) (crc XOR ucast d)) crc data"

definition populate_crc32_finalize :: "u32 \<Rightarrow> u32" where
  "populate_crc32_finalize crc = NOT crc"

section \<open>The bit-serial register\<close>

definition crc_poly :: u32 where
  "crc_poly = 0xEDB88320"

definition shift_bit :: "u32 \<Rightarrow> bool \<Rightarrow> u32" where
  "shift_bit crc b = drop_bit 1 crc XOR (if bit crc 0 \<noteq> b then crc_poly else 0)"

definition message_bits :: "u8 list \<Rightarrow> bool list" where
  "message_bits data = concat (map (\<lambda>d. map (bit d) [0..<8]) data)"

definition crc32_reference :: "u8 list \<Rightarrow> u32" where
  "crc32_reference data = NOT (foldl shift_bit (NOT 0) (message_bits data))"

lemma crc32_step_alt: "crc32_step crc = shift_bit crc False"
proof (cases "bit crc 0")
  case True
  then have "odd crc" by (simp add: bit_0)
  then have "crc AND 1 = 1" unfolding and_one_eq by (simp only: odd_iff_mod_2_eq_one)
  then show ?thesis using True by (simp add: crc32_step_def shift_bit_def crc_poly_def)
next
  case False
  then have "even crc" by (simp add: bit_0)
  then have "crc AND 1 = 0" unfolding and_one_eq by (simp only: even_iff_mod_2_eq_zero)
  then show ?thesis using False by (simp add: crc32_step_def shift_bit_def)
qed

lemma step_xor: "crc32_step (c XOR w) = shift_bit c (bit w 0) XOR drop_bit 1 w"
  by (simp add: crc32_step_alt shift_bit_def bit_xor_iff drop_bit_xor ac_simps)

lemma steps_xor: "(crc32_step ^^ n) (c XOR w) = foldl shift_bit c (map (bit w) [0..<n]) XOR drop_bit n w"
proof (induction n)
  case (Suc n)
  have b: "bit (drop_bit n w) 0 = bit w n" by (simp add: bit_drop_bit_eq)
  show ?case by (simp add: Suc step_xor b)
qed simp

lemma crc32_byte_bits: "crc32_byte crc d = foldl shift_bit crc (map (bit d) [0..<8])"
proof -
  let ?w = "ucast d :: u32"
  have d: "drop_bit 8 ?w = 0" by (rule bit_word_eqI) (auto simp: bit_drop_bit_eq bit_ucast_iff dest: bit_imp_le_length)
  have m: "map (bit ?w) [0..<8] = map (bit d) [0..<8]" by (rule map_cong) (simp_all add: bit_ucast_iff)
  show ?thesis unfolding crc32_byte_def steps_xor d m by simp
qed

lemma crc32_update_bits: "crc32_update crc data = foldl shift_bit crc (message_bits data)"
  by (induction data arbitrary: crc) (simp_all add: crc32_update_def message_bits_def crc32_byte_bits foldl_append del: upt.simps)

section \<open>The copies\<close>

lemma crc32_copies:
  "stage2_crc32_update = crc32_update" "stage2_crc32 = crc32" "populate_crc32_update = crc32_update"
  "populate_crc32_finalize = crc32_finalize"
  by (simp_all add: fun_eq_iff stage2_crc32_update_def crc32_update_def crc32_byte_def [abs_def] crc32_step_def [abs_def]
      stage2_crc32_def crc32_def populate_crc32_update_def populate_crc32_finalize_def crc32_finalize_def)

lemma crc32_oneshot: "crc32 data = crc32_finalize (crc32_update 0xFFFFFFFF data)"
  by (simp add: crc32_def crc32_finalize_def crc32_update_def crc32_byte_def [abs_def])

lemma crc32_update_append: "crc32_update crc (xs @ ys) = crc32_update (crc32_update crc xs) ys"
  by (simp add: crc32_update_def)

lemma crc32_update_concat: "foldl crc32_update crc chunks = crc32_update crc (concat chunks)"
proof (induction chunks arbitrary: crc)
  case Nil
  show ?case by (simp add: crc32_update_def)
qed (simp add: crc32_update_append)

section \<open>Detection of errors\<close>

lemma xor_cancel: "a XOR b = a XOR c \<Longrightarrow> b = (c :: u32)"
proof -
  assume "a XOR b = a XOR c"
  then have "a XOR (a XOR b) = a XOR (a XOR c)" by simp
  then show ?thesis by (simp flip: xor.assoc)
qed

text \<open>The top bit of the shifted register tells which bit fell out, so a round can be undone.\<close>

lemma shift_bit_top: "bit (shift_bit c b) 31 \<longleftrightarrow> bit c 0 \<noteq> b"
proof -
  have "bit crc_poly 31" by (simp add: crc_poly_def bit_numeral_rec)
  moreover have "\<not> bit c 32" using bit_imp_le_length [of c 32] by auto
  ultimately show ?thesis by (simp add: shift_bit_def bit_xor_iff bit_drop_bit_eq)
qed

lemma shift_bit_inj:
  assumes "shift_bit c b = shift_bit c' b"
  shows "c = c'"
proof -
  have z: "bit c 0 = bit c' 0" using shift_bit_top [of c b] shift_bit_top [of c' b] assms by auto
  let ?x = "if bit c 0 \<noteq> b then crc_poly else 0"
  have "?x XOR drop_bit 1 c = ?x XOR drop_bit 1 c'"
    using assms unfolding shift_bit_def z [symmetric] by (subst (1 2) xor.commute)
  then have "drop_bit 1 c = drop_bit 1 c'" by (rule xor_cancel)
  then have "bit c (Suc n) = bit c' (Suc n)" for n using bit_drop_bit_eq [of 1 c] bit_drop_bit_eq [of 1 c'] by (simp add: fun_eq_iff)
  then show ?thesis using z by (intro bit_word_eqI) (metis old.nat.exhaust)
qed

lemma shift_bits_inj: "foldl shift_bit c bs = foldl shift_bit c' bs \<Longrightarrow> c = c'"
  by (induction bs arbitrary: c c') (auto dest: shift_bit_inj)

lemma crc32_update_inj: "crc32_update c data = crc32_update c' data \<Longrightarrow> c = c'"
  unfolding crc32_update_bits by (rule shift_bits_inj)

lemma step_inj: "(crc32_step ^^ n) c = (crc32_step ^^ n) c' \<Longrightarrow> c = c'"
proof (induction n)
  case (Suc n)
  then show ?case using shift_bit_inj unfolding crc32_step_alt by auto
qed simp

lemma crc32_byte_inj: "crc32_byte c d = crc32_byte c d' \<Longrightarrow> d = d'"
proof -
  assume "crc32_byte c d = crc32_byte c d'"
  then have "c XOR ucast d = (c XOR ucast d' :: u32)" unfolding crc32_byte_def by (rule step_inj)
  then have e: "(ucast d :: u32) = ucast d'" by (rule xor_cancel)
  have "bit d n = bit d' n" if "n < 8" for n
    using arg_cong [OF e, of "\<lambda>w. bit w n"] that by (simp add: bit_ucast_iff)
  then show "d = d'" by (intro bit_word_eqI) simp
qed

section \<open>Properties\<close>


text \<open>C24: A file in which one byte was changed never has the checksum of the original.\<close>
theorem crc32_detects_byte:
  assumes "d \<noteq> d'"
  shows "crc32 (xs @ d # ys) \<noteq> crc32 (xs @ d' # ys)"
proof
  assume "crc32 (xs @ d # ys) = crc32 (xs @ d' # ys)"
  then have "crc32_update 0xFFFFFFFF (xs @ d # ys) = crc32_update 0xFFFFFFFF (xs @ d' # ys)"
    unfolding crc32_oneshot crc32_finalize_def by (metis bit.double_compl)
  then have "crc32_update (crc32_byte (crc32_update 0xFFFFFFFF xs) d) ys =
      crc32_update (crc32_byte (crc32_update 0xFFFFFFFF xs) d') ys"
    by (simp add: crc32_update_def)
  then show False using crc32_update_inj crc32_byte_inj assms by blast
qed

theorem crc32_detects_byte_witness: "crc32 ([0x41] @ 0x42 # [0x43]) \<noteq> crc32 ([0x41] @ 0x62 # [0x43])"
  by (rule crc32_detects_byte) simp

end
