(* ===== verification/Strings.thy ===== *)
theory Strings
  imports Prelude
begin

text \<open>
  Memory and string functions: kernel/common/string.c, boot/stage2/stage2_string.c and
  userspace/libc/string.c.

  Memory is a function from addresses to bytes; addresses wrap around at the width of the
  machine (64 bits in the kernel and in user space, 32 bits in the boot loader). A function
  that walks a string to its terminator is a partial function: \<open>None\<close> is a walk
  that never ends.
\<close>

section \<open>Copying and filling\<close>

text \<open>The string instructions: \<^verbatim>\<open>rep movsb\<close> and \<^verbatim>\<open>rep stosb\<close> advance (or, with the direction flag set, lower) the
  pointers byte by byte. The result holds the destination pointer after the last byte.\<close>

fun rep_movsb :: "nat \<Rightarrow> 'a::len word \<Rightarrow> 'a word \<Rightarrow> ('a word \<Rightarrow> u8) \<Rightarrow> 'a word \<times> ('a word \<Rightarrow> u8)" where
  "rep_movsb 0 dst src m = (dst, m)"
| "rep_movsb (Suc n) dst src m = rep_movsb n (dst + 1) (src + 1) (m(dst := m src))"

fun rep_movsb_down :: "nat \<Rightarrow> 'a::len word \<Rightarrow> 'a word \<Rightarrow> ('a word \<Rightarrow> u8) \<Rightarrow> 'a word \<times> ('a word \<Rightarrow> u8)" where
  "rep_movsb_down 0 dst src m = (dst, m)"
| "rep_movsb_down (Suc n) dst src m = rep_movsb_down n (dst - 1) (src - 1) (m(dst := m src))"

fun rep_stosb :: "nat \<Rightarrow> 'a::len word \<Rightarrow> u8 \<Rightarrow> ('a word \<Rightarrow> u8) \<Rightarrow> 'a word \<times> ('a word \<Rightarrow> u8)" where
  "rep_stosb 0 dst d m = (dst, m)"
| "rep_stosb (Suc n) dst d m = rep_stosb n (dst + 1) d (m(dst := d))"

text \<open>\<^verbatim>\<open>dst\<close> is an in-out operand of the instruction, so the kernel's functions return its advanced value.\<close>

definition memcpy :: "u64 \<Rightarrow> u64 \<Rightarrow> u64 \<Rightarrow> (u64 \<Rightarrow> u8) \<Rightarrow> u64 \<times> (u64 \<Rightarrow> u8)" where
  "memcpy dst src count m = rep_movsb (unat count) dst src m"

definition memset :: "u64 \<Rightarrow> u8 \<Rightarrow> u64 \<Rightarrow> (u64 \<Rightarrow> u8) \<Rightarrow> u64 \<times> (u64 \<Rightarrow> u8)" where
  "memset dst data count m = rep_stosb (unat count) dst data m"

definition libc_memcpy :: "u64 \<Rightarrow> u64 \<Rightarrow> u64 \<Rightarrow> (u64 \<Rightarrow> u8) \<Rightarrow> u64 \<times> (u64 \<Rightarrow> u8)" where
  "libc_memcpy dst src count m = rep_movsb (unat count) dst src m"

definition libc_memset :: "u64 \<Rightarrow> u8 \<Rightarrow> u64 \<Rightarrow> (u64 \<Rightarrow> u8) \<Rightarrow> u64 \<times> (u64 \<Rightarrow> u8)" where
  "libc_memset dst data count m = rep_stosb (unat count) dst data m"

definition libc_memmove :: "u64 \<Rightarrow> u64 \<Rightarrow> u64 \<Rightarrow> (u64 \<Rightarrow> u8) \<Rightarrow> u64 \<times> (u64 \<Rightarrow> u8)" where
  "libc_memmove dst src count m =
     (if dst < src then rep_movsb (unat count) dst src m
      else
        let last_dst = dst + count - 1;
            last_src = src + count - 1;
            (_, m) = rep_movsb_down (unat count) last_dst last_src m
        in (dst, m))"

text \<open>The boot loader copies in C, with 32-bit pointers.\<close>

fun copy_loop :: "nat \<Rightarrow> u32 \<Rightarrow> u32 \<Rightarrow> (u32 \<Rightarrow> u8) \<Rightarrow> u32 \<times> (u32 \<Rightarrow> u8)" where
  "copy_loop 0 d s m = (d, m)"
| "copy_loop (Suc n) d s m = copy_loop n (d + 1) (s + 1) (m(d := m s))"

definition stage2_memcpy :: "u32 \<Rightarrow> u32 \<Rightarrow> u32 \<Rightarrow> (u32 \<Rightarrow> u8) \<Rightarrow> u32 \<times> (u32 \<Rightarrow> u8)" where
  "stage2_memcpy dst src count m = (let (_, m) = copy_loop (unat count) dst src m in (dst, m))"

fun fill_loop :: "nat \<Rightarrow> u32 \<Rightarrow> u8 \<Rightarrow> (u32 \<Rightarrow> u8) \<Rightarrow> u32 \<times> (u32 \<Rightarrow> u8)" where
  "fill_loop 0 d x m = (d, m)"
| "fill_loop (Suc n) d x m = fill_loop n (d + 1) x (m(d := x))"

definition stage2_memset :: "u32 \<Rightarrow> u8 \<Rightarrow> u32 \<Rightarrow> (u32 \<Rightarrow> u8) \<Rightarrow> u32 \<times> (u32 \<Rightarrow> u8)" where
  "stage2_memset dst data count m = fill_loop (unat count) dst data m"

section \<open>Strings\<close>

partial_function (option) scan_zero :: "('a::len word \<Rightarrow> u8) \<Rightarrow> 'a word \<Rightarrow> 'a word \<Rightarrow> 'a word option" where
  "scan_zero m str len = (if m (str + len) \<noteq> 0 then scan_zero m str (len + 1) else Some len)"

definition strlen :: "(u64 \<Rightarrow> u8) \<Rightarrow> u64 \<Rightarrow> u64 option" where
  "strlen m str = scan_zero m str 0"

definition libc_strlen :: "(u64 \<Rightarrow> u8) \<Rightarrow> u64 \<Rightarrow> u64 option" where
  "libc_strlen m str = scan_zero m str 0"

definition stage2_strlen :: "(u32 \<Rightarrow> u8) \<Rightarrow> u32 \<Rightarrow> u32 option" where
  "stage2_strlen m str = scan_zero m str 0"

partial_function (option) compare_loop :: "('a::len word \<Rightarrow> u8) \<Rightarrow> 'a word \<Rightarrow> 'a word \<Rightarrow> int option" where
  "compare_loop m lhs rhs =
     (if m lhs \<noteq> 0 \<and> m lhs = m rhs then compare_loop m (lhs + 1) (rhs + 1)
      else Some (uint (m lhs) - uint (m rhs)))"

definition strcmp :: "(u64 \<Rightarrow> u8) \<Rightarrow> u64 \<Rightarrow> u64 \<Rightarrow> int option" where
  "strcmp m lhs rhs = compare_loop m lhs rhs"

definition libc_strcmp :: "(u64 \<Rightarrow> u8) \<Rightarrow> u64 \<Rightarrow> u64 \<Rightarrow> int option" where
  "libc_strcmp m lhs rhs = compare_loop m lhs rhs"

definition stage2_strcmp :: "(u32 \<Rightarrow> u8) \<Rightarrow> u32 \<Rightarrow> u32 \<Rightarrow> int option" where
  "stage2_strcmp m lhs rhs = compare_loop m lhs rhs"

function swap_ends :: "u64 \<Rightarrow> u64 \<Rightarrow> (u64 \<Rightarrow> u8) \<Rightarrow> (u64 \<Rightarrow> u8)" where
  "swap_ends start end' m =
     (if end' > start then swap_ends (start + 1) (end' - 1) (m(end' := m start, start := m end')) else m)"
  by pat_completeness auto

termination swap_ends
proof (relation "measure (\<lambda>(start, end', m). unat end' - unat start)")
  fix start end' :: u64 and m :: "u64 \<Rightarrow> u8"
  assume lt: "end' > start"
  then have "unat (start + 1) = unat start + 1" by unat_arith
  moreover have "unat (end' - 1) = unat end' - 1" using lt by unat_arith
  ultimately show "((start + 1, end' - 1, m(end' := m start, start := m end')), start, end', m)
      \<in> measure (\<lambda>(start, end', m). unat end' - unat start)"
    using lt by (simp add: word_less_nat_alt)
qed simp

definition strrev :: "u64 \<Rightarrow> (u64 \<Rightarrow> u8) \<Rightarrow> (u64 \<Rightarrow> u8) option" where
  "strrev str m =
     (if str = 0 \<or> m str = 0 then Some m
      else case strlen m str of
        None \<Rightarrow> None
      | Some len \<Rightarrow> Some (swap_ends str (str + len - 1) m))"

definition libc_strcpy :: "u64 \<Rightarrow> u64 \<Rightarrow> (u64 \<Rightarrow> u8) \<Rightarrow> (u64 \<times> (u64 \<Rightarrow> u8)) option" where
  "libc_strcpy dst src m =
     (case libc_strlen m src of
        None \<Rightarrow> None
      | Some n \<Rightarrow> let (_, m) = libc_memcpy dst src (n + 1) m in Some (dst, m))"

definition libc_strncpy :: "u64 \<Rightarrow> u64 \<Rightarrow> u64 \<Rightarrow> (u64 \<Rightarrow> u8) \<Rightarrow> (u64 \<times> (u64 \<Rightarrow> u8)) option" where
  "libc_strncpy dst src count m =
     (case libc_strlen m src of
        None \<Rightarrow> None
      | Some len \<Rightarrow>
          let copy_len = (if len < count then len else count);
              pad_len = (if copy_len = count then 0 else count - len);
              (_, m) = libc_memcpy dst src copy_len m;
              (_, m) = libc_memset (dst + copy_len) 0 pad_len m
          in Some (dst, m))"

fun find_char :: "nat \<Rightarrow> u64 \<Rightarrow> u8 \<Rightarrow> (u64 \<Rightarrow> u8) \<Rightarrow> u64" where
  "find_char 0 ptr chr m = 0"
| "find_char (Suc n) ptr chr m = (if m ptr = chr then ptr else find_char n (ptr + 1) chr m)"

definition libc_strchr :: "u64 \<Rightarrow> u8 \<Rightarrow> (u64 \<Rightarrow> u8) \<Rightarrow> u64 option" where
  "libc_strchr str chr m = (case libc_strlen m str of None \<Rightarrow> None | Some n \<Rightarrow> Some (find_char (unat n) str chr m))"

fun find_last_char :: "nat \<Rightarrow> u64 \<Rightarrow> u8 \<Rightarrow> u64 \<Rightarrow> (u64 \<Rightarrow> u8) \<Rightarrow> u64" where
  "find_last_char 0 ptr chr found m = found"
| "find_last_char (Suc n) ptr chr found m = find_last_char n (ptr + 1) chr (if m ptr = chr then ptr else found) m"

definition libc_strrchr :: "u64 \<Rightarrow> u8 \<Rightarrow> (u64 \<Rightarrow> u8) \<Rightarrow> u64 option" where
  "libc_strrchr str chr m =
     (case libc_strlen m str of None \<Rightarrow> None | Some n \<Rightarrow> Some (find_last_char (unat n) str chr 0 m))"

section \<open>What they compute\<close>

lemma rep_movsb_end: "fst (rep_movsb n dst src m) = dst + of_nat n"
  by (induction n arbitrary: dst src m) (simp_all add: algebra_simps)

lemma rep_stosb_end: "fst (rep_stosb n dst d m) = dst + of_nat n"
  by (induction n arbitrary: dst m) (simp_all add: algebra_simps)

text \<open>A copy that never overwrites a byte it has still to read copies the whole region.\<close>

lemma rep_movsb_copies:
  fixes dst src :: "'a::len word"
  assumes "n \<le> 2 ^ LENGTH('a)"
    and "\<And>i j. i < j \<Longrightarrow> j < n \<Longrightarrow> dst + of_nat i \<noteq> src + of_nat j"
  shows "snd (rep_movsb n dst src m) a = (if unat (a - dst) < n then m (src + (a - dst)) else m a)"
  using assms
proof (induction n arbitrary: dst src m)
  case (Suc n)
  have later: "(dst + 1) + of_nat i \<noteq> (src + 1) + of_nat j" if "i < j" "j < n" for i j
    using Suc.prems(2) [of "Suc i" "Suc j"] that by (simp add: algebra_simps)
  have step: "snd (rep_movsb (Suc n) dst src m) a =
     (if unat (a - dst - 1) < n then (m(dst := m src)) (src + (a - dst)) else (m(dst := m src)) a)"
    using Suc.IH [of "dst + 1" "src + 1" "m(dst := m src)"] Suc.prems(1) later by (simp del: fun_upd_apply add: algebra_simps)
  show ?case
  proof (cases "a = dst")
    case True
    have "unat (- 1 :: 'a word) = 2 ^ LENGTH('a) - 1" by (rule unat_minus_1)
    then show ?thesis using step True Suc.prems(1) by simp
  next
    case False
    then have k: "unat (a - dst) = Suc (unat (a - dst - 1))" by (intro unat_minus_one_less) simp
    have "src + (a - dst) \<noteq> dst" if "unat (a - dst - 1) < n"
      using Suc.prems(2) [of 0 "unat (a - dst)"] that k by auto
    then show ?thesis using step False k by auto
  qed
qed simp

lemma rep_movsb_down_copies:
  fixes dst src :: "'a::len word"
  assumes "n \<le> 2 ^ LENGTH('a)"
    and "\<And>i j. i < j \<Longrightarrow> j < n \<Longrightarrow> dst - of_nat i \<noteq> src - of_nat j"
  shows "snd (rep_movsb_down n dst src m) a = (if unat (dst - a) < n then m (src - (dst - a)) else m a)"
  using assms
proof (induction n arbitrary: dst src m)
  case (Suc n)
  have later: "(dst - 1) - of_nat i \<noteq> (src - 1) - of_nat j" if "i < j" "j < n" for i j
    using Suc.prems(2) [of "Suc i" "Suc j"] that by (simp add: algebra_simps)
  have step: "snd (rep_movsb_down (Suc n) dst src m) a =
     (if unat (dst - a - 1) < n then (m(dst := m src)) (src - (dst - a)) else (m(dst := m src)) a)"
    using Suc.IH [of "dst - 1" "src - 1" "m(dst := m src)"] Suc.prems(1) later by (simp del: fun_upd_apply add: algebra_simps)
  show ?case
  proof (cases "a = dst")
    case True
    have "unat (- 1 :: 'a word) = 2 ^ LENGTH('a) - 1" by (rule unat_minus_1)
    then show ?thesis using step True Suc.prems(1) by simp
  next
    case False
    then have k: "unat (dst - a) = Suc (unat (dst - a - 1))" by (intro unat_minus_one_less) simp
    have "src - (dst - a) \<noteq> dst" if "unat (dst - a - 1) < n"
      using Suc.prems(2) [of 0 "unat (dst - a)"] that k by auto
    then show ?thesis using step False k by auto
  qed
qed simp

lemma rep_stosb_fills:
  fixes dst :: "'a::len word"
  assumes "n \<le> 2 ^ LENGTH('a)"
  shows "snd (rep_stosb n dst d m) a = (if unat (a - dst) < n then d else m a)"
  using assms
proof (induction n arbitrary: dst m)
  case (Suc n)
  have step: "snd (rep_stosb (Suc n) dst d m) a = (if unat (a - dst - 1) < n then d else (m(dst := d)) a)"
    using Suc.IH [of "dst + 1" "m(dst := d)"] Suc.prems by (simp del: fun_upd_apply add: algebra_simps)
  show ?case
  proof (cases "a = dst")
    case False
    then have "unat (a - dst) = Suc (unat (a - dst - 1))" by (intro unat_minus_one_less) simp
    then show ?thesis using step False by simp
  qed (use step in simp)
qed simp

lemma copy_loop_is_movsb: "copy_loop n d s m = rep_movsb n d s m"
  by (induction n arbitrary: d s m) simp_all

lemma fill_loop_is_stosb: "fill_loop n d x m = rep_stosb n d x m"
  by (induction n arbitrary: d m) simp_all

lemma of_nat_shift_neq:
  fixes p q :: "'a::len word"
  assumes "p \<le> q" "i < j" "unat q + j < 2 ^ LENGTH('a)"
  shows "p + of_nat i \<noteq> q + of_nat j"
proof
  assume eq: "p + of_nat i = q + of_nat j"
  have "unat (p + of_nat i) = unat p + i" "unat (q + of_nat j) = unat q + j"
    using assms by (simp_all add: unat_small word_le_nat_alt)
  then show False using eq assms by (simp add: word_le_nat_alt)
qed

lemma reversed_offset:
  fixes count x :: "'a::len word"
  assumes "count \<noteq> 0"
  shows "unat (count - 1 - x) < unat count \<longleftrightarrow> unat x < unat count"
proof (cases "unat x < unat count")
  case True
  then have "unat (count - 1 - x) = unat (count - 1) - unat x"
    using unat_minus_one_less [OF assms] by (intro unat_sub) (simp add: word_le_nat_alt)
  then show ?thesis using True unat_minus_one_less [OF assms] by simp
next
  case False
  let ?y = "x - (count - 1)"
  have "unat ?y = unat x - unat (count - 1)"
    using False unat_minus_one_less [OF assms] by (intro unat_sub) (simp add: word_le_nat_alt)
  then have y: "unat ?y = unat x - unat count + 1" using False unat_minus_one_less [OF assms] by simp
  then have "?y \<noteq> 0" by (metis Suc_eq_plus1 nat.distinct(1) unat_0)
  then have "unat (- ?y) = 2 ^ LENGTH('a) - unat ?y" by (rule unat_uminus)
  then have "unat count \<le> unat (- ?y)" using y False unat_lt2p [of x] by linarith
  then show ?thesis using False by simp
qed

text \<open>C25: memmove copies the whole source region to the destination, as it was before the call,
  whether or not and however the two regions overlap, and changes no other byte.\<close>

theorem libc_memmove_correct:
  assumes "unat dst + unat count \<le> 2 ^ 64" "unat src + unat count \<le> 2 ^ 64"
  shows "snd (libc_memmove dst src count m) =
     (\<lambda>a. if unat (a - dst) < unat count then m (src + (a - dst)) else m a)"
proof (cases "dst < src")
  case True
  have "dst + of_nat i \<noteq> src + of_nat j" if "i < j" "j < unat count" for i j
    using True that assms by (intro of_nat_shift_neq) simp_all
  then show ?thesis
    using True rep_movsb_copies [of "unat count" dst src m] unat_lt2p [of count]
    by (simp add: libc_memmove_def fun_eq_iff)
next
  case False
  show ?thesis
  proof (cases "count = 0")
    case zero: False
    have "dst + count - 1 - of_nat i \<noteq> src + count - 1 - of_nat j" if "i < j" "j < unat count" for i j
    proof -
      have eq: "dst + count - 1 - of_nat i = dst + of_nat (unat count - 1 - i)"
        "src + count - 1 - of_nat j = src + of_nat (unat count - 1 - j)"
        using that by (simp_all add: of_nat_diff)
      have "src + of_nat (unat count - 1 - j) \<noteq> dst + of_nat (unat count - 1 - i)"
        using False that assms by (intro of_nat_shift_neq) auto
      then show ?thesis unfolding eq by simp
    qed
    note copies = rep_movsb_down_copies [OF less_imp_le [OF unat_lt2p [of count]] this, where m = m]
    have "dst + count - 1 - a = count - 1 - (a - dst)"
      "src + count - 1 - (dst + count - 1 - a) = src + (a - dst)" for a
      by (simp_all add: algebra_simps)
    then have "snd (rep_movsb_down (unat count) (dst + count - 1) (src + count - 1) m) a =
       (if unat (count - 1 - (a - dst)) < unat count then m (src + (a - dst)) else m a)" for a
      by (simp only: copies)
    then show ?thesis
      using False reversed_offset [OF zero] by (simp add: libc_memmove_def fun_eq_iff split_beta)
  qed (use False in \<open>simp add: libc_memmove_def\<close>)
qed

theorem libc_memmove_correct_witness:
  "snd (libc_memmove 102 100 4 (\<lambda>a. ucast a)) 105 = (103 :: u8)"
  by (subst libc_memmove_correct) (simp_all)

section \<open>Strings in memory\<close>

text \<open>\<open>cstr m p bs\<close>: the terminated string at \<open>p\<close> has the characters \<open>bs\<close>.\<close>

primrec cstr :: "('a::len word \<Rightarrow> u8) \<Rightarrow> 'a word \<Rightarrow> u8 list \<Rightarrow> bool" where
  "cstr m p [] \<longleftrightarrow> m p = 0"
| "cstr m p (b # bs) \<longleftrightarrow> m p = b \<and> b \<noteq> 0 \<and> cstr m (p + 1) bs"

lemma cstr_nth: "cstr m p bs \<longleftrightarrow>
   (\<forall>i<length bs. m (p + of_nat i) = bs ! i \<and> bs ! i \<noteq> 0) \<and> m (p + of_nat (length bs)) = 0"
  by (induction bs arbitrary: p) (auto simp: nth_Cons All_less_Suc2 algebra_simps)

lemma scan_zero_cstr: "cstr m (str + len) bs \<Longrightarrow> scan_zero m str len = Some (len + of_nat (length bs))"
proof (induction bs arbitrary: len)
  case Nil
  then show ?case by (subst scan_zero.simps) simp
next
  case (Cons b bs)
  then show ?case by (subst scan_zero.simps) (simp add: algebra_simps)
qed

lemma strlen_cstr:
  "cstr m p bs \<Longrightarrow> strlen m p = Some (of_nat (length bs))"
  "cstr m p bs \<Longrightarrow> libc_strlen m p = Some (of_nat (length bs))"
  "cstr m2 q bs \<Longrightarrow> stage2_strlen m2 q = Some (of_nat (length bs))"
  using scan_zero_cstr [of m p 0 bs] scan_zero_cstr [of m2 q 0 bs]
  by (simp_all add: strlen_def libc_strlen_def stage2_strlen_def)

lemma byte_order:
  fixes a b :: u8
  shows "uint a < uint b \<longleftrightarrow> a < b" "uint a = uint b \<longleftrightarrow> a = b" "uint a = 0 \<longleftrightarrow> a = 0"
    "0 < uint a \<longleftrightarrow> a \<noteq> 0"
proof -
  show "uint a = 0 \<longleftrightarrow> a = 0" by (rule uint_0_iff)
  then show "0 < uint a \<longleftrightarrow> a \<noteq> 0" using uint_ge_0 [of a] by linarith
qed (simp_all only: word_less_def word_uint_eq_iff)

lemma compare_loop_cstr:
  assumes "cstr m p xs" "cstr m q ys"
  shows "\<exists>r. compare_loop m p q = Some r \<and> (r = 0 \<longleftrightarrow> xs = ys) \<and> (r < 0 \<longleftrightarrow> (xs, ys) \<in> lexord {(a, b). a < b})"
  using assms
proof (induction xs arbitrary: p q ys)
  case Nil
  then show ?case
    by (subst compare_loop.simps) (cases ys; auto simp: byte_order)
next
  case (Cons x xs)
  show ?case
  proof (cases "\<exists>zs. ys = x # zs")
    case True
    then obtain zs where ys: "ys = x # zs" by blast
    then show ?thesis using Cons.IH [of "p + 1" "q + 1" zs] Cons.prems
      by (subst compare_loop.simps) simp
  next
    case False
    then show ?thesis using Cons.prems
      by (subst compare_loop.simps) (cases ys; auto simp: byte_order)
  qed
qed

text \<open>on two terminated strings strcmp ends, and its result is zero exactly when the strings are
  equal and negative exactly when the first comes before the second in dictionary order.\<close>

theorem strcmp_correct:
  assumes "cstr m p xs" "cstr m q ys"
  shows "\<exists>r. strcmp m p q = Some r \<and> (r = 0 \<longleftrightarrow> xs = ys) \<and> (r < 0 \<longleftrightarrow> (xs, ys) \<in> lexord {(a, b). a < b})"
  unfolding strcmp_def by (rule compare_loop_cstr [OF assms])

theorem strcmp_correct_witness:
  "\<exists>r. strcmp (\<lambda>a. if a = 1 then 65 else if a = 4 then 66 else 0) 1 4 = Some r \<and> r < 0"
  using strcmp_correct [of "\<lambda>a. if a = 1 then 65 else if a = 4 then 66 else 0" 1 "[65]" 4 "[66]"] by auto

lemma other_strcmp:
  "libc_strcmp m p q = strcmp m p q"
  by (simp add: libc_strcmp_def strcmp_def)

section \<open>Reversing\<close>

declare swap_ends.simps [simp del]

lemma swap_ends_apply: "swap_ends s e m a = (if s \<le> a \<and> a \<le> e then m (s + e - a) else m a)"
proof (induction s e m rule: swap_ends.induct)
  case (1 s e m)
  show ?case
  proof (cases "s < e")
    case True
    have inner: "s + 1 \<le> a \<and> a \<le> e - 1 \<longleftrightarrow> s \<le> a \<and> a \<le> e \<and> a \<noteq> s \<and> a \<noteq> e"
    proof -
      have "unat (s + 1) = unat s + 1" using True unat_lt2p [of e] by (simp add: unat_add_small word_less_nat_alt)
      moreover have "unat e = Suc (unat (e - 1))" using True by (intro unat_minus_one_less) auto
      ultimately show ?thesis using True by (auto simp: word_le_nat_alt word_less_nat_alt word_unat_eq_iff)
    qed
    have "s + 1 + (e - 1) - a = s + e - a" by simp
    moreover have "swap_ends s e m = swap_ends (s + 1) (e - 1) (m(e := m s, s := m e))"
      using True by (subst swap_ends.simps) (simp del: fun_upd_apply)
    ultimately have "swap_ends s e m a = (if s + 1 \<le> a \<and> a \<le> e - 1 then (m(e := m s, s := m e)) (s + e - a)
       else (m(e := m s, s := m e)) a)"
      using 1 [OF True] by (simp only: fun_upd_def)
    moreover have "s + e - a = s \<longleftrightarrow> a = e" "s + e - a = e \<longleftrightarrow> a = s"
      by (auto simp: algebra_simps)
    ultimately show ?thesis using True inner by (auto simp: less_imp_le)
  next
    case False
    then have "s = a \<and> e = a" if "s \<le> a" "a \<le> e" using that by auto
    then show ?thesis using False by (subst swap_ends.simps) auto
  qed
qed

text \<open>strrev reverses the characters of a terminated string in place and changes nothing else.\<close>

theorem strrev_correct:
  assumes str: "cstr m str bs" and p: "str \<noteq> 0" and room: "unat str + length bs < 2 ^ 64"
  shows "\<exists>m'. strrev str m = Some m' \<and> cstr m' str (rev bs)
     \<and> (\<forall>a. length bs \<le> unat (a - str) \<longrightarrow> m' a = m a)"
proof (cases bs)
  case Nil
  then show ?thesis using str p by (simp add: strrev_def)
next
  case (Cons b cs)
  let ?n = "length bs"
  let ?e = "str + of_nat ?n - 1"
  have n: "0 < ?n" "m str \<noteq> 0" using str Cons by auto
  have eq: "strrev str m = Some (swap_ends str ?e m)"
    using n(2) p strlen_cstr(1) [OF str] by (simp add: strrev_def)
  have e: "?e = str + of_nat (?n - 1)" using n(1) by (cases ?n) simp_all
  have idx: "unat (str + of_nat i) = unat str + i" if "i \<le> ?n" for i
    using that room by (simp add: unat_small)
  have inside: "swap_ends str ?e m (str + of_nat i) = m (str + of_nat (?n - 1 - i))" if "i < ?n" for i
  proof -
    have "str \<le> str + of_nat i" "str + of_nat i \<le> ?e"
      unfolding e using that idx [of i] idx [of "?n - 1"] by (simp_all add: word_le_nat_alt)
    moreover have "str + ?e - (str + of_nat i) = str + of_nat (?n - 1 - i)"
      unfolding e using that by (simp add: of_nat_diff)
    ultimately show ?thesis by (simp only: swap_ends_apply if_True simp_thms)
  qed
  have outside: "swap_ends str ?e m a = m a" if far: "?n \<le> unat (a - str)" for a
  proof -
    have "\<not> a \<le> ?e" if "str \<le> a"
    proof -
      have "?n \<le> unat a - unat str" using far that by (simp add: unat_sub)
      moreover have "unat ?e = unat str + (?n - 1)" unfolding e by (rule idx) simp
      ultimately show ?thesis using n(1) unfolding word_le_nat_alt by linarith
    qed
    then show ?thesis by (auto simp: swap_ends_apply)
  qed
  have "unat (of_nat ?n :: u64) = ?n" using room by (simp add: unat_of_nat_small)
  then have "swap_ends str ?e m (str + of_nat ?n) = 0" using outside [of "str + of_nat ?n"] str by (simp add: cstr_nth)
  moreover have "m (str + of_nat k) = bs ! k \<and> bs ! k \<noteq> 0" if "k < ?n" for k
    using str that by (simp add: cstr_nth)
  then have "swap_ends str ?e m (str + of_nat i) = rev bs ! i \<and> rev bs ! i \<noteq> 0" if "i < ?n" for i
    using that by (simp only: inside rev_nth) simp
  ultimately have "cstr (swap_ends str ?e m) str (rev bs)" by (simp add: cstr_nth)
  then show ?thesis using eq outside by blast
qed

theorem strrev_correct_witness:
  "\<exists>m'. strrev 1 (\<lambda>a. if a = 1 then 65 else if a = 2 then 66 else 0) = Some m' \<and> cstr m' 1 [66, 65]"
  using strrev_correct [of "\<lambda>a. if a = 1 then 65 else if a = 2 then 66 else 0" 1 "[65, 66]"] by auto

end
