(* ===== verification/Arena.thy ===== *)
theory Arena
  imports Prelude
begin

text \<open>
  The arena allocators: kernel/common/arena.c (64-bit \<^verbatim>\<open>size_t\<close>) and its copy in the boot
  loader, boot/stage2/stage2_memory.c (32-bit). The state is the offset of the first free byte,
  a 32-bit number in both; an allocation returns the offset of the block in the buffer, and
  \<open>None\<close> stands for the null pointer.
\<close>

definition ARENA_SIZE :: "'a::len word" where
  "ARENA_SIZE = 16 * 1024"

definition arena_align_up :: "u64 \<Rightarrow> u64 \<Rightarrow> u64" where
  "arena_align_up val align = (val + align - 1) AND NOT (align - 1)"

definition arena_alloc :: "u64 \<Rightarrow> u64 \<Rightarrow> u32 \<Rightarrow> u64 option \<times> u32" where
  "arena_alloc sz align arena_offset =
     (let aligned = arena_align_up (ucast arena_offset) align in
      if aligned + sz > ARENA_SIZE then (None, arena_offset)
      else (Some aligned, ucast (aligned + sz)))"

definition arena_reset :: "u32 \<Rightarrow> u32" where
  "arena_reset arena_offset = 0"

definition stage2_arena_align_up :: "u32 \<Rightarrow> u32 \<Rightarrow> u32" where
  "stage2_arena_align_up val align = (val + align - 1) AND NOT (align - 1)"

definition stage2_arena_alloc :: "u32 \<Rightarrow> u32 \<Rightarrow> u32 \<Rightarrow> u32 option \<times> u32" where
  "stage2_arena_alloc sz align arena_offset =
     (let aligned = stage2_arena_align_up arena_offset align in
      if aligned + sz > ARENA_SIZE then (None, arena_offset)
      else (Some aligned, aligned + sz))"

definition stage2_arena_reset :: "u32 \<Rightarrow> u32" where
  "stage2_arena_reset arena_offset = 0"

text \<open>A run of allocations: the blocks (offset and size) handed out, in order.\<close>

fun arena_run :: "(u64 \<times> u64) list \<Rightarrow> u32 \<Rightarrow> (nat \<times> nat) list" where
  "arena_run [] off = []"
| "arena_run ((sz, align) # reqs) off =
     (case arena_alloc sz align off of
        (None, off) \<Rightarrow> arena_run reqs off
      | (Some p, off) \<Rightarrow> (unat p, unat sz) # arena_run reqs off)"

lemma unat_pow2: "k < LENGTH('a) \<Longrightarrow> unat (2 ^ k :: 'a::len word) = 2 ^ k"
  using unat_of_nat_small [of "2 ^ k", where 'a = 'a] by simp

section \<open>Aligned, inside the buffer, disjoint\<close>

lemma unat_arena_align_up:
  assumes "k < 64" "unat val + 2 ^ k < 2 ^ 64"
  shows "unat (arena_align_up val (2 ^ k)) = (unat val + 2 ^ k - 1) div 2 ^ k * 2 ^ k"
proof -
  have k: "unat (2 ^ k :: u64) = 2 ^ k" using assms(1) by (simp add: unat_pow2)
  have sum: "unat (val + 2 ^ k) = unat val + 2 ^ k" using assms k by (simp add: unat_add_small)
  moreover have "1 \<le> (2::nat) ^ k" by simp
  ultimately have "1 \<le> val + 2 ^ k" unfolding word_le_nat_alt unat_1 by linarith
  then have "unat (val + 2 ^ k - 1) = unat val + 2 ^ k - 1" using sum by (simp add: unat_sub)
  then show ?thesis
    using unat_and_not_mask [of "val + 2 ^ k - 1" k] by (simp add: arena_align_up_def mask_eq_exp_minus_1)
qed

lemma align_up_bounds:
  fixes v a :: nat
  assumes "0 < a"
  shows "v \<le> (v + a - 1) div a * a" "(v + a - 1) div a * a < v + a"
proof -
  have "(v + a - 1) div a * a + (v + a - 1) mod a = v + a - 1" by simp
  moreover have "(v + a - 1) mod a < a" using assms by simp
  ultimately show "v \<le> (v + a - 1) div a * a" "(v + a - 1) div a * a < v + a" using assms by linarith+
qed

text \<open>A request the callers make: a power of two for the alignment, and a size that does not wrap around.\<close>

definition arena_request :: "u64 \<times> u64 \<Rightarrow> bool" where
  "arena_request r \<longleftrightarrow> unat (fst r) < 2 ^ 63 \<and> (\<exists>k<32. snd r = 2 ^ k)"

lemma arena_alloc_cases:
  assumes req: "arena_request (sz, align)" and off: "unat off \<le> 16384"
    and res: "arena_alloc sz align off = (r, off')"
  shows "unat off' \<le> 16384 \<and> unat off \<le> unat off' \<and>
     (case r of None \<Rightarrow> off' = off
      | Some p \<Rightarrow> unat off \<le> unat p \<and> unat p + unat sz = unat off' \<and> unat p mod unat align = 0)"
proof -
  obtain k where k: "k < 32" "align = 2 ^ k" and sz: "unat sz < 2 ^ 63"
    using req by (auto simp: arena_request_def)
  let ?p = "arena_align_up (ucast off) align"
  have kb: "(2::nat) ^ k \<le> 2 ^ 31" using k by (intro power_increasing) simp_all
  have v: "unat (ucast off :: u64) = unat off" using unat_lt2p [of off] by (simp add: unsigned_ucast_eq take_bit_nat_eq_self)
  have p: "unat ?p = (unat off + 2 ^ k - 1) div 2 ^ k * 2 ^ k"
    unfolding k(2) v [symmetric] using off kb k(1) by (intro unat_arena_align_up) (simp_all add: v)
  have ge: "unat off \<le> unat ?p" "unat ?p < unat off + 2 ^ k"
    unfolding p by (rule align_up_bounds; simp)+
  have sum: "unat (?p + sz) = unat ?p + unat sz"
    using ge(2) kb off sz by (intro unat_add_small) simp
  have "unat align = 2 ^ k" using k by (simp add: unat_pow2)
  then have al: "unat ?p mod unat align = 0" unfolding p by simp
  show ?thesis
  proof (cases "?p + sz > ARENA_SIZE")
    case True
    then show ?thesis using res off by (auto simp: arena_alloc_def Let_def)
  next
    case False
    then have fits: "unat ?p + unat sz \<le> 16384" using sum by (simp add: ARENA_SIZE_def word_less_nat_alt)
    then have "unat (ucast (?p + sz) :: u32) = unat ?p + unat sz"
      using sum by (simp add: unsigned_ucast_eq take_bit_nat_eq_self)
    then show ?thesis using res False fits ge al by (auto simp: arena_alloc_def Let_def)
  qed
qed

lemma arena_run_sorted:
  assumes "list_all arena_request reqs" "unat off \<le> 16384"
  shows "sorted_wrt (\<lambda>(p, n) (q, m). p + n \<le> q) (arena_run reqs off) \<and>
     list_all (\<lambda>(p, n). unat off \<le> p \<and> p + n \<le> 16384) (arena_run reqs off)"
  using assms
proof (induction reqs off rule: arena_run.induct)
  case (2 sz align reqs off)
  obtain r off' where res: "arena_alloc sz align off = (r, off')" by fastforce
  note step = arena_alloc_cases [OF _ _ res]
  show ?case
  proof (cases r)
    case None
    then show ?thesis using 2 res step by simp
  next
    case (Some p)
    have ih: "sorted_wrt (\<lambda>(p, n) (q, m). p + n \<le> q) (arena_run reqs off')"
      "list_all (\<lambda>(p, n). unat off' \<le> p \<and> p + n \<le> 16384) (arena_run reqs off')"
      using 2 res Some step by simp_all
    have p: "unat off' \<le> 16384" "unat off \<le> unat p" "unat p + unat sz = unat off'"
      using step 2 Some by simp_all
    then show ?thesis using ih res Some
      by (auto simp: list_all_iff)
  qed
qed simp

text \<open>C26: the blocks that a run of allocations hands out lie inside the buffer of the arena, each
  one after the blocks handed out before it, so no two of them overlap.\<close>

theorem arena_run_disjoint:
  assumes "list_all arena_request reqs"
  shows "sorted_wrt (\<lambda>(p, n) (q, m). p + n \<le> q) (arena_run reqs (arena_reset off)) \<and>
     list_all (\<lambda>(p, n). p + n \<le> unat (ARENA_SIZE :: u64)) (arena_run reqs (arena_reset off))"
  using arena_run_sorted [OF assms, of 0] by (simp add: arena_reset_def ARENA_SIZE_def list_all_iff case_prod_beta)

lemma example_requests: "list_all arena_request [(100, 8), (20, 16)]"
  unfolding arena_request_def list_all_iff
  by (auto intro: exI [of _ 3] exI [of _ 4])

theorem arena_run_disjoint_witness:
  "sorted_wrt (\<lambda>(p, n) (q, m). p + n \<le> q) (arena_run [(100, 8), (20, 16)] (arena_reset 7))
   \<and> arena_run [(100, 8), (20, 16)] 0 = [(0, 100), (112, 20)]"
  using arena_run_disjoint [OF example_requests, of 7]
  by (simp add: arena_alloc_def arena_align_up_def ARENA_SIZE_def Let_def)

text \<open>The sum is not guarded against wrap-around: an enormous request is granted.\<close>

lemma arena_alloc_wraps: "arena_alloc (- 8) 8 64 = (Some 64, 56)"
  by (simp add: arena_alloc_def arena_align_up_def ARENA_SIZE_def Let_def)


end
