(* ===== verification/BsfsFormat.thy ===== *)
theory BsfsFormat
  imports Prelude
begin

text \<open>
  The on-disk format of BSFS, include/common/bsfs/bsfs.h: the header, the inode and the directory
  entry as records, and their packed little-endian images, which the driver and the host
  tools read and write by casting pointers. The structures are round trips: what a tool
  writes is what the driver reads.
\<close>

section \<open>Constants\<close>

definition BSFS_MAGIC :: u32 where "BSFS_MAGIC = 0x42534653"
definition BSFS_VERSION :: u32 where "BSFS_VERSION = 0x01030100"
definition BSFS_MAX_DIRECTBLOCKS :: nat where "BSFS_MAX_DIRECTBLOCKS = 10"
definition BSFS_MAX_DIRENTNAME :: nat where "BSFS_MAX_DIRENTNAME = 124"
definition BSFS_INODE_TYPE_FREE :: u8 where "BSFS_INODE_TYPE_FREE = 0"
definition BSFS_INODE_TYPE_FILE :: u8 where "BSFS_INODE_TYPE_FILE = 1"
definition BSFS_INODE_TYPE_DIRECTORY :: u8 where "BSFS_INODE_TYPE_DIRECTORY = 2"
definition BSFS_INODE_PERM_EXEC :: u16 where "BSFS_INODE_PERM_EXEC = 1"
definition BSFS_INODE_PERM_WRITE :: u16 where "BSFS_INODE_PERM_WRITE = 2"
definition BSFS_INODE_PERM_READ :: u16 where "BSFS_INODE_PERM_READ = 4"
definition BSFS_INODE_NULL :: u32 where "BSFS_INODE_NULL = 0"
definition BSFS_INODE_ROOT :: u32 where "BSFS_INODE_ROOT = 1"

lemmas bsfs_consts =
  BSFS_MAGIC_def BSFS_VERSION_def BSFS_MAX_DIRECTBLOCKS_def BSFS_MAX_DIRENTNAME_def
  BSFS_INODE_TYPE_FREE_def BSFS_INODE_TYPE_FILE_def BSFS_INODE_TYPE_DIRECTORY_def
  BSFS_INODE_PERM_EXEC_def BSFS_INODE_PERM_WRITE_def BSFS_INODE_PERM_READ_def
  BSFS_INODE_NULL_def BSFS_INODE_ROOT_def

section \<open>Structures\<close>

record BsfsHeader =
  bootjmp :: "u8 list"
  magic :: u32
  version :: u32
  block_size :: u32
  total_blocks :: u32
  inode_count :: u32
  free_blocks :: u32
  free_inodes :: u32
  block_bitmap_start :: u32
  block_bitmap_blocks :: u32
  megablock_bitmap_start :: u32
  megablock_bitmap_blocks :: u32
  megablock_bitmap_size :: u32
  inode_bitmap_start :: u32
  inode_bitmap_blocks :: u32
  inode_table_start :: u32
  inode_table_blocks :: u32
  data_start :: u32
  root_inode :: u32
  partition_lba :: u64
  label :: "u8 list"
  bootcode :: "u8 list"
  bootcode_magic :: "u8 list"

record BsfsInode =
  itype :: u8
  permissions :: u16
  uid :: u32
  gid :: u32
  isize :: u64
  iblocks :: u32
  created :: u64
  modified :: u64
  accessed :: u64
  link_count :: u32
  blocks_direct :: "u32 list"
  blocks_l1indirect :: u32
  blocks_l2indirect :: u32
  blocks_l3indirect :: u32
  checksum :: u32
  reserved :: "u8 list"

record BsfsDirent =
  dinode :: u32
  dname :: "u8 list"

section \<open>Packed images\<close>

text \<open>\<open>field off n bs\<close> are the \<open>n\<close> bytes at offset \<open>off\<close> of a packed structure.\<close>

definition field :: "nat \<Rightarrow> nat \<Rightarrow> u8 list \<Rightarrow> u8 list" where
  "field off n bs = take n (drop off bs)"

definition word_table :: "nat \<Rightarrow> u8 list \<Rightarrow> u32 list" where
  "word_table n bs = map (\<lambda>i. le_word (field (4 * i) 4 bs)) [0..<n]"

definition header_bytes :: "BsfsHeader \<Rightarrow> u8 list" where
  "header_bytes h = bootjmp h @
     concat (map (le_bytes 4)
       [magic h, version h, block_size h, total_blocks h, inode_count h, free_blocks h,
        free_inodes h, block_bitmap_start h, block_bitmap_blocks h, megablock_bitmap_start h,
        megablock_bitmap_blocks h, megablock_bitmap_size h, inode_bitmap_start h,
        inode_bitmap_blocks h, inode_table_start h, inode_table_blocks h, data_start h, root_inode h]) @
     le_bytes 8 (partition_lba h) @ label h @ bootcode h @ bootcode_magic h"

definition header_of_bytes :: "u8 list \<Rightarrow> BsfsHeader" where
  "header_of_bytes bs =
     \<lparr>bootjmp = field 0 3 bs, magic = le_word (field 3 4 bs), version = le_word (field 7 4 bs),
      block_size = le_word (field 11 4 bs), total_blocks = le_word (field 15 4 bs),
      inode_count = le_word (field 19 4 bs), free_blocks = le_word (field 23 4 bs),
      free_inodes = le_word (field 27 4 bs), block_bitmap_start = le_word (field 31 4 bs),
      block_bitmap_blocks = le_word (field 35 4 bs), megablock_bitmap_start = le_word (field 39 4 bs),
      megablock_bitmap_blocks = le_word (field 43 4 bs), megablock_bitmap_size = le_word (field 47 4 bs),
      inode_bitmap_start = le_word (field 51 4 bs), inode_bitmap_blocks = le_word (field 55 4 bs),
      inode_table_start = le_word (field 59 4 bs), inode_table_blocks = le_word (field 63 4 bs),
      data_start = le_word (field 67 4 bs), root_inode = le_word (field 71 4 bs),
      partition_lba = le_word (field 75 8 bs), label = field 83 32 bs,
      bootcode = field 115 395 bs, bootcode_magic = field 510 2 bs\<rparr>"

definition inode_bytes :: "BsfsInode \<Rightarrow> u8 list" where
  "inode_bytes i = [itype i] @ le_bytes 2 (permissions i) @ le_bytes 4 (uid i) @ le_bytes 4 (gid i) @
     le_bytes 8 (isize i) @ le_bytes 4 (iblocks i) @ le_bytes 8 (created i) @ le_bytes 8 (modified i) @
     le_bytes 8 (accessed i) @ le_bytes 4 (link_count i) @ concat (map (le_bytes 4) (blocks_direct i)) @
     le_bytes 4 (blocks_l1indirect i) @ le_bytes 4 (blocks_l2indirect i) @ le_bytes 4 (blocks_l3indirect i) @
     le_bytes 4 (checksum i) @ reserved i"

definition inode_of_bytes :: "u8 list \<Rightarrow> BsfsInode" where
  "inode_of_bytes bs =
     \<lparr>itype = le_word (field 0 1 bs), permissions = le_word (field 1 2 bs), uid = le_word (field 3 4 bs),
      gid = le_word (field 7 4 bs), isize = le_word (field 11 8 bs), iblocks = le_word (field 19 4 bs),
      created = le_word (field 23 8 bs), modified = le_word (field 31 8 bs), accessed = le_word (field 39 8 bs),
      link_count = le_word (field 47 4 bs), blocks_direct = word_table BSFS_MAX_DIRECTBLOCKS (field 51 40 bs),
      blocks_l1indirect = le_word (field 91 4 bs), blocks_l2indirect = le_word (field 95 4 bs),
      blocks_l3indirect = le_word (field 99 4 bs), checksum = le_word (field 103 4 bs),
      reserved = field 107 21 bs\<rparr>"

definition dirent_bytes :: "BsfsDirent \<Rightarrow> u8 list" where
  "dirent_bytes d = le_bytes 4 (dinode d) @ dname d"

definition dirent_of_bytes :: "u8 list \<Rightarrow> BsfsDirent" where
  "dirent_of_bytes bs = \<lparr>dinode = le_word (field 0 4 bs), dname = field 4 BSFS_MAX_DIRENTNAME bs\<rparr>"

text \<open>The arrays of a structure have the lengths of their declarations.\<close>

definition header_wf :: "BsfsHeader \<Rightarrow> bool" where
  "header_wf h \<longleftrightarrow> length (bootjmp h) = 3 \<and> length (label h) = 32 \<and> length (bootcode h) = 395
     \<and> length (bootcode_magic h) = 2"

definition inode_wf :: "BsfsInode \<Rightarrow> bool" where
  "inode_wf i \<longleftrightarrow> length (blocks_direct i) = BSFS_MAX_DIRECTBLOCKS \<and> length (reserved i) = 21"

definition dirent_wf :: "BsfsDirent \<Rightarrow> bool" where
  "dirent_wf d \<longleftrightarrow> length (dname d) = BSFS_MAX_DIRENTNAME"

section \<open>Round trips\<close>

lemma le_word_le_bytes_exact [simp]:
  "le_word (le_bytes 1 (w :: u8)) = w" "le_word (le_bytes (Suc 0) (w :: u8)) = w"
  "le_word (le_bytes 2 (x :: u16)) = x"
  "le_word (le_bytes 4 (y :: u32)) = y" "le_word (le_bytes 8 (z :: u64)) = z"
  using le_word_le_bytes [of 1 w] le_word_le_bytes [of 2 x] le_word_le_bytes [of 4 y] le_word_le_bytes [of 8 z]
  by simp_all

lemma field_append:
  "field off n (xs @ ys) = (if off + n \<le> length xs then field off n xs
     else if length xs \<le> off then field (off - length xs) n ys
     else drop off xs @ take (n - (length xs - off)) ys)"
  by (auto simp: field_def)

lemma field_Cons:
  "field off n (x # xs) = (if n = 0 then [] else if off = 0 then x # field 0 (n - 1) xs else field (off - 1) n xs)"
  by (cases n; cases off) (simp_all add: field_def)

lemma field_none [simp]: "field off 0 xs = []"
  by (simp add: field_def)

lemma field_all [simp]: "length xs = n \<Longrightarrow> field 0 n xs = xs"
  by (simp add: field_def)

lemma length_field [simp]: "length (field off n bs) = min n (length bs - off)"
  by (simp add: field_def min.commute)

lemma concat_le_bytes_length [simp]: "length (concat (map (le_bytes n) ws)) = n * length ws"
  by (induction ws) simp_all

lemma word_table_concat: "word_table (length ws) (concat (map (le_bytes 4) ws)) = ws"
proof (induction ws)
  case (Cons w ws)
  have "word_table (Suc (length ws)) (le_bytes 4 w @ concat (map (le_bytes 4) ws))
      = w # word_table (length ws) (concat (map (le_bytes 4) ws))"
    by (simp add: word_table_def map_upt_Suc field_append del: upt_Suc)
  then show ?case using Cons by simp
qed (simp add: word_table_def)

lemma header_roundtrip: "header_wf h \<Longrightarrow> header_of_bytes (header_bytes h) = h"
  by (cases h) (simp add: header_wf_def header_of_bytes_def header_bytes_def field_append)

lemma length_header_bytes: "header_wf h \<Longrightarrow> length (header_bytes h) = 512"
  by (simp add: header_wf_def header_bytes_def)

lemma inode_roundtrip:
  assumes "inode_wf i"
  shows "inode_of_bytes (inode_bytes i) = i"
proof -
  have "word_table 10 (concat (map (le_bytes 4) (blocks_direct i))) = blocks_direct i"
    using assms word_table_concat [of "blocks_direct i"] by (simp add: inode_wf_def bsfs_consts)
  then show ?thesis
    using assms by (cases i) (simp add: inode_wf_def inode_of_bytes_def inode_bytes_def field_append field_Cons bsfs_consts)
qed

lemma length_inode_bytes: "inode_wf i \<Longrightarrow> length (inode_bytes i) = 128"
  by (simp add: inode_wf_def inode_bytes_def bsfs_consts)

lemma dirent_roundtrip: "dirent_wf d \<Longrightarrow> dirent_of_bytes (dirent_bytes d) = d"
  by (cases d) (simp add: dirent_wf_def dirent_of_bytes_def dirent_bytes_def field_append bsfs_consts)

lemma length_dirent_bytes: "dirent_wf d \<Longrightarrow> length (dirent_bytes d) = 128"
  by (simp add: dirent_wf_def dirent_bytes_def bsfs_consts)


definition example_dirent :: BsfsDirent where
  "example_dirent = \<lparr>dinode = 7, dname = replicate 124 65\<rparr>"

definition example_inode :: BsfsInode where
  "example_inode = \<lparr>itype = 1, permissions = 5, uid = 0, gid = 0, isize = 5000, iblocks = 2, created = 0,
     modified = 0, accessed = 0, link_count = 1, blocks_direct = [40, 41, 0, 0, 0, 0, 0, 0, 0, 0],
     blocks_l1indirect = 0, blocks_l2indirect = 0, blocks_l3indirect = 0, checksum = 0xCAFE,
     reserved = replicate 21 0\<rparr>"

definition example_header :: BsfsHeader where
  "example_header = \<lparr>bootjmp = [0xEB, 0x73, 0x90], magic = BSFS_MAGIC, version = BSFS_VERSION, block_size = 4096,
     total_blocks = 1000, inode_count = 64, free_blocks = 900, free_inodes = 60, block_bitmap_start = 17,
     block_bitmap_blocks = 1, megablock_bitmap_start = 18, megablock_bitmap_blocks = 1, megablock_bitmap_size = 1,
     inode_bitmap_start = 19, inode_bitmap_blocks = 1, inode_table_start = 20, inode_table_blocks = 2,
     data_start = 22, root_inode = 0, partition_lba = 0, label = replicate 32 0, bootcode = replicate 395 0,
     bootcode_magic = [0x55, 0xAA]\<rparr>"


end
