(* ===== verification/Bsfs.thy ===== *)
theory Bsfs
  imports BsfsFormat Crc32
begin

text \<open>
  The BSFS driver: kernel/common/bsfs/bsfs.c and its copy in the boot loader,
  boot/stage2/stage2_bsfs.c.

  The disk is the parameter \<open>disk_read\<close> of the context: a call returns the status byte and
  the bytes it stored in the caller's buffer; status zero is a failure, after which
  the buffer may have been overwritten in part. Buffers are byte lists of the
  size they were allocated with, and a store past the end is a \<open>Fault\<close>. The scratch buffer carries
  nothing from one call to the next, so only its size is kept. Paths and names are
  the characters of a C string, without the terminator. The result of an operation
  is its return value and the new state of the file.
\<close>

section \<open>Error codes and structures\<close>

definition BSFS_FOPEN_FILE_NOTFOUND :: int where "BSFS_FOPEN_FILE_NOTFOUND = - 1"
definition BSFS_FOPEN_NOT_A_FILE :: int where "BSFS_FOPEN_NOT_A_FILE = - 2"
definition BSFS_DISK_READ_ERROR :: int where "BSFS_DISK_READ_ERROR = - 3"
definition BSFS_FREAD_FILE_TOO_BIG :: int where "BSFS_FREAD_FILE_TOO_BIG = - 4"
definition BSFS_FOPEN_BUF_TOO_SMALL :: int where "BSFS_FOPEN_BUF_TOO_SMALL = - 5"
definition BSFS_FOPEN_BUF_UNALIGNED :: int where "BSFS_FOPEN_BUF_UNALIGNED = - 6"
definition BSFS_FREAD_DISK_READ_ERROR :: int where "BSFS_FREAD_DISK_READ_ERROR = - 7"
definition BSFS_FREAD_SIZE_TOO_BIG :: int where "BSFS_FREAD_SIZE_TOO_BIG = - 8"
definition BSFS_FREAD_BUF_TOO_SMALL :: int where "BSFS_FREAD_BUF_TOO_SMALL = - 9"
definition BSFS_CHECKSUM_FAILED :: int where "BSFS_CHECKSUM_FAILED = - 10"
definition BSFS_FSEEKO_SET :: int where "BSFS_FSEEKO_SET = - 1"
definition BSFS_FSEEKO_CUR :: int where "BSFS_FSEEKO_CUR = 0"
definition BSFS_FSEEKO_END :: int where "BSFS_FSEEKO_END = 1"
definition DISK_READ_MAX_BLOCKS :: u32 where "DISK_READ_MAX_BLOCKS = 8"
definition UINT32_MAX :: u32 where "UINT32_MAX = - 1"

lemmas bsfs_codes =
  BSFS_FOPEN_FILE_NOTFOUND_def BSFS_FOPEN_NOT_A_FILE_def BSFS_DISK_READ_ERROR_def BSFS_FREAD_FILE_TOO_BIG_def
  BSFS_FOPEN_BUF_TOO_SMALL_def BSFS_FOPEN_BUF_UNALIGNED_def BSFS_FREAD_DISK_READ_ERROR_def
  BSFS_FREAD_SIZE_TOO_BIG_def BSFS_FREAD_BUF_TOO_SMALL_def BSFS_CHECKSUM_FAILED_def
  BSFS_FSEEKO_SET_def BSFS_FSEEKO_CUR_def BSFS_FSEEKO_END_def DISK_READ_MAX_BLOCKS_def UINT32_MAX_def

text \<open>\<open>'n\<close> is the type of \<^verbatim>\<open>size_t\<close>: 64 bits in the kernel, 32 in the boot loader. A null inode
  pointer is \<open>None\<close>.\<close>

record 'n BsfsContext =
  header :: BsfsHeader
  disk_read :: "u32 \<Rightarrow> 'n \<Rightarrow> u8 \<times> u8 list"
  phys_sector_size :: u32
  scratch_buf_size :: u32

record BsfsFile =
  inode :: "BsfsInode option"
  buf :: "u8 list"
  bufsize :: u32
  position :: u64
  cached_block :: u32
  l1_table :: "u8 list"
  cached_l1 :: u32
  l2_table :: "u8 list"
  cached_l2 :: u32
  l3_table :: "u8 list"
  cached_l3 :: u32
  eof :: bool

text \<open>The characters of a C string in an array, and a store of bytes into an array.\<close>

definition c_string :: "u8 list \<Rightarrow> u8 list" where
  "c_string cs = takeWhile (\<lambda>c. c \<noteq> 0) cs"

definition store_at :: "nat \<Rightarrow> u8 list \<Rightarrow> u8 list \<Rightarrow> u8 list option" where
  "store_at off bs arr =
     (if off + length bs \<le> length arr then Some (take off arr @ bs @ drop (off + length bs) arr) else None)"

section \<open>Inodes and paths\<close>

definition bsfs_read_inode :: "u64 BsfsContext \<Rightarrow> u32 \<Rightarrow> (int + BsfsInode) kres" where
  "bsfs_read_inode ctx inode_idx =
     (let inode_offset = inode_table_start (header ctx) * block_size (header ctx) + 128 * inode_idx in
      if phys_sector_size ctx = 0 then Inl Fault
      else
        let inode_sector_lba = inode_offset div phys_sector_size ctx;
            (ok, data) = disk_read ctx inode_sector_lba 1
        in if length data > unat (scratch_buf_size ctx) then Inl Fault
           else if ok = 0 then Inr (Inl BSFS_DISK_READ_ERROR)
           else Inr (Inr (inode_of_bytes
             (field (128 * unat (inode_offset mod phys_sector_size ctx div 128)) 128 data))))"

text \<open>One component of the path: the characters up to the next slash, and what follows them.\<close>

fun path_name :: "u8 list \<Rightarrow> u8 list \<Rightarrow> (u8 list \<times> u8 list) option" where
  "path_name [] name_tmp = Some (name_tmp, [])"
| "path_name (ch # rest) name_tmp =
     (if ch = 0x2F then Some (name_tmp, ch # rest)
      else if length name_tmp \<ge> BSFS_MAX_DIRENTNAME - 1 then None
      else path_name rest (name_tmp @ [ch]))"

definition dirents :: "nat \<Rightarrow> u8 list \<Rightarrow> BsfsDirent list" where
  "dirents n data = map (\<lambda>d. dirent_of_bytes (field (128 * d) 128 data)) [0..<n]"

text \<open>\<open>None\<close> is the return of \<^verbatim>\<open>UINT32_MAX\<close>: the name is not there, or the disk failed.\<close>

fun dir_lookup :: "u64 BsfsContext \<Rightarrow> u8 list \<Rightarrow> u32 list \<Rightarrow> u32 option kres" where
  "dir_lookup ctx name_tmp [] = Inr None"
| "dir_lookup ctx name_tmp (dirent_block_idx # blocks) =
     (if dirent_block_idx = 0 then dir_lookup ctx name_tmp blocks
      else if phys_sector_size ctx = 0 then Inl Fault
      else
        let dirent_block_offset = dirent_block_idx * block_size (header ctx);
            dirent_sector_lba = dirent_block_offset div phys_sector_size ctx;
            (ok, data) = disk_read ctx dirent_sector_lba
               (ucast (block_size (header ctx) div phys_sector_size ctx))
        in if length data > unat (scratch_buf_size ctx) then Inl Fault
           else if ok = 0 then Inr None
           else case find (\<lambda>dirent. c_string (dname dirent) = name_tmp)
                       (dirents (unat (block_size (header ctx)) div 128) data) of
              Some dirent \<Rightarrow> Inr (Some (dinode dirent))
            | None \<Rightarrow> dir_lookup ctx name_tmp blocks)"

lemma path_name_shorter: "path_name cs acc = Some (n, rest) \<Longrightarrow> length rest \<le> length cs"
  by (induction cs acc rule: path_name.induct) (auto split: if_splits)

function resolve_names :: "u64 BsfsContext \<Rightarrow> u8 list \<Rightarrow> u32 \<Rightarrow> u32 kres" where
  "resolve_names ctx rest current_inode_idx =
     (if rest = [] then Inr current_inode_idx
      else case path_name rest [] of
        None \<Rightarrow> Inr UINT32_MAX
      | Some (name_tmp, rest') \<Rightarrow>
          andthen (bsfs_read_inode ctx current_inode_idx) (\<lambda>r. case r of
            Inl e \<Rightarrow> Inr UINT32_MAX
          | Inr dir \<Rightarrow> andthen (dir_lookup ctx name_tmp (blocks_direct dir)) (\<lambda>found. case found of
              None \<Rightarrow> Inr UINT32_MAX
            | Some idx \<Rightarrow> resolve_names ctx (drop 1 rest') idx)))"
  by pat_completeness auto

termination resolve_names
proof (relation "measure (\<lambda>(ctx, rest, idx). length rest)")
  fix ctx :: "u64 BsfsContext" and rest rest' name_tmp and idx idx' :: u32 and p
  assume "rest \<noteq> []" and "path_name rest [] = Some p" and "(name_tmp, rest') = p"
  then have "length rest' \<le> length rest" "0 < length rest" using path_name_shorter by auto
  then show "((ctx, drop 1 rest', idx'), ctx, rest, idx) \<in> measure (\<lambda>(ctx, rest, idx). length rest)"
    by (simp only: in_measure case_prod_conv length_drop)
qed simp

definition bsfs_resolve_path :: "u64 BsfsContext \<Rightarrow> u8 list \<Rightarrow> u32 kres" where
  "bsfs_resolve_path ctx path =
     (if length path = 0 then Inr UINT32_MAX
      else if path ! 0 \<noteq> 0x2F then Inr UINT32_MAX
      else resolve_names ctx (drop 1 path) (root_inode (header ctx)))"

section \<open>Files\<close>

definition bsfs_fopen :: "u64 BsfsContext \<Rightarrow> u8 list \<Rightarrow> BsfsFile \<Rightarrow> (int \<times> BsfsFile) kres" where
  "bsfs_fopen ctx path file_out =
     andthen (bsfs_resolve_path ctx path) (\<lambda>inode_idx.
       if inode_idx = UINT32_MAX then Inr (BSFS_FOPEN_NOT_A_FILE, file_out)
       else andthen (bsfs_read_inode ctx inode_idx) (\<lambda>r. case r of
         Inl e \<Rightarrow> Inr (BSFS_DISK_READ_ERROR, file_out)
       | Inr ino \<Rightarrow>
           if inode file_out = None then Inl Fault
           else
             let file_out = file_out\<lparr>inode := Some ino\<rparr> in
             if itype ino \<noteq> BSFS_INODE_TYPE_FILE then Inr (BSFS_FOPEN_NOT_A_FILE, file_out)
             else if bufsize file_out < block_size (header ctx) then Inr (BSFS_FOPEN_BUF_TOO_SMALL, file_out)
             else if block_size (header ctx) = 0 then Inl Fault
             else if bufsize file_out mod block_size (header ctx) \<noteq> 0 then Inr (BSFS_FOPEN_BUF_UNALIGNED, file_out)
             else Inr (0, file_out\<lparr>position := 0, eof := False, cached_block := UINT32_MAX, cached_l1 := UINT32_MAX,
                          cached_l2 := UINT32_MAX, cached_l3 := UINT32_MAX\<rparr>)))"

text \<open>Reading block \<open>i\<close> of the file into the buffer at \<open>bufptr\<close>; the first result is the error code
  the function returns early with, if any.\<close>

definition fread_store :: "u64 BsfsContext \<Rightarrow> u32 \<Rightarrow> u32 \<Rightarrow> nat \<Rightarrow> BsfsFile \<Rightarrow> (int option \<times> BsfsFile) kres" where
  "fread_store ctx lba i bufptr file =
     (let (ok, data) = disk_read ctx lba (ucast (block_size (header ctx) div phys_sector_size ctx)) in
      andthen (checked (store_at bufptr data (buf file))) (\<lambda>buf'.
        if ok = 0 then Inr (Some BSFS_FREAD_DISK_READ_ERROR, file\<lparr>buf := buf'\<rparr>)
        else Inr (None, file\<lparr>buf := buf', cached_block := i\<rparr>)))"

definition fread_l1_table :: "u64 BsfsContext \<Rightarrow> BsfsInode \<Rightarrow> BsfsFile \<Rightarrow> (int option \<times> BsfsFile) kres" where
  "fread_l1_table ctx ino file =
     (if cached_l1 file = UINT32_MAX then
        let lba = blocks_l1indirect ino * block_size (header ctx) div phys_sector_size ctx;
            (ok, data) = disk_read ctx lba (ucast (block_size (header ctx) div phys_sector_size ctx))
        in andthen (checked (store_at 0 data (l1_table file))) (\<lambda>table.
             if ok = 0 then Inr (Some BSFS_FREAD_DISK_READ_ERROR, file\<lparr>l1_table := table\<rparr>)
             else Inr (None, file\<lparr>l1_table := table, cached_l1 := blocks_l1indirect ino\<rparr>))
      else Inr (None, file))"

definition table_entry :: "u8 list \<Rightarrow> nat \<Rightarrow> u32 option" where
  "table_entry table k = (if 4 * k + 4 \<le> length table then Some (le_word (field (4 * k) 4 table)) else None)"

definition fread_block :: "u64 BsfsContext \<Rightarrow> BsfsInode \<Rightarrow> u32 \<Rightarrow> nat \<Rightarrow> BsfsFile \<Rightarrow> (int option \<times> BsfsFile) kres" where
  "fread_block ctx ino i bufptr file =
     (let bs = block_size (header ctx);
          l1_capacity = bs div 4;
          l1_indirect_start = 10;
          l2_indirect_start = l1_indirect_start + l1_capacity
      in if i < l1_indirect_start then
           let lba = blocks_direct ino ! unat i * bs div phys_sector_size ctx in
           fread_store ctx lba i bufptr file
         else if i < l2_indirect_start then
           andthen (fread_l1_table ctx ino file) (\<lambda>(err, file). case err of
             Some e \<Rightarrow> Inr (Some e, file)
           | None \<Rightarrow> andthen (checked (table_entry (l1_table file) (unat (i - l1_indirect_start)))) (\<lambda>block.
               let lba = block * bs div phys_sector_size ctx in
               fread_store ctx lba i bufptr file))
         else Inr (Some BSFS_FREAD_FILE_TOO_BIG, file))"

fun fread_loop :: "u64 BsfsContext \<Rightarrow> BsfsInode \<Rightarrow> u32 list \<Rightarrow> nat \<Rightarrow> BsfsFile \<Rightarrow> (int option \<times> BsfsFile) kres" where
  "fread_loop ctx ino [] bufptr file = Inr (None, file)"
| "fread_loop ctx ino (i # is) bufptr file =
     (if i = cached_block file
      then fread_loop ctx ino is (bufptr + unat (block_size (header ctx))) file
      else andthen (fread_block ctx ino i bufptr file) (\<lambda>(err, file). case err of
        Some e \<Rightarrow> Inr (Some e, file)
      | None \<Rightarrow> fread_loop ctx ino is (bufptr + unat (block_size (header ctx))) file))"

definition bsfs_fread :: "u64 BsfsContext \<Rightarrow> u32 \<Rightarrow> u32 \<Rightarrow> BsfsFile \<Rightarrow> (int \<times> u8 list \<times> BsfsFile) kres" where
  "bsfs_fread ctx sz count file = (case inode file of
     None \<Rightarrow> Inl Fault
   | Some ino \<Rightarrow>
       let bs = block_size (header ctx);
           start_offset = (ucast (position file) :: u32);
           end_offset = start_offset + sz * count;
           end_offset = (if ucast end_offset > isize ino then ucast (isize ino) else end_offset);
           end_offset = (if end_offset - start_offset > bufsize file then start_offset + bufsize file else end_offset);
           total_bytes_to_read = end_offset - start_offset
       in if total_bytes_to_read > DISK_READ_MAX_BLOCKS * phys_sector_size ctx
          then Inr (BSFS_FREAD_SIZE_TOO_BIG, [], file)
          else if phys_sector_size ctx = 0 \<or> bs = 0 then Inl Fault
          else
            let start_block = start_offset div bs;
                end_block = (end_offset + bs - 1) div bs
            in andthen (fread_loop ctx ino (map of_nat [unat start_block..<unat end_block]) 0 file)
                (\<lambda>(err, file). case err of
                   Some e \<Rightarrow> Inr (e, [], file)
                 | None \<Rightarrow>
                     let offset_in_buf = unat (start_offset mod bs);
                         n = unat total_bytes_to_read
                     in if offset_in_buf + n > length (buf file) then Inl Fault
                        else Inr (uint total_bytes_to_read, take n (drop offset_in_buf (buf file)),
                          file\<lparr>position := ucast end_offset, eof := isize ino \<le> ucast end_offset\<rparr>)))"

definition bsfs_fseeko :: "u64 \<Rightarrow> int \<Rightarrow> BsfsFile \<Rightarrow> (int \<times> BsfsFile) kres" where
  "bsfs_fseeko offset whence file = (case inode file of
     None \<Rightarrow> Inl Fault
   | Some ino \<Rightarrow>
       let file =
         (if whence = BSFS_FSEEKO_CUR then file\<lparr>position := position file + offset\<rparr>
          else if whence = BSFS_FSEEKO_SET then file\<lparr>position := offset\<rparr>
          else if whence = BSFS_FSEEKO_END then file\<lparr>position := isize ino - offset\<rparr>
          else file)
       in Inr (0, if position file \<ge> isize ino then file\<lparr>position := isize ino, eof := True\<rparr>
                  else file\<lparr>eof := False\<rparr>))"

definition bsfs_fclose :: "BsfsFile \<Rightarrow> int \<times> BsfsFile" where
  "bsfs_fclose file = (0, file\<lparr>inode := None, position := - 1\<rparr>)"

definition bsfs_strerror :: "int \<Rightarrow> string" where
  "bsfs_strerror err =
     (if err = BSFS_FOPEN_FILE_NOTFOUND then ''file not found''
      else if err = BSFS_FOPEN_NOT_A_FILE then ''inode not a file''
      else if err = BSFS_DISK_READ_ERROR then ''disk read error''
      else if err = BSFS_FREAD_FILE_TOO_BIG then ''file too big''
      else if err = BSFS_FOPEN_BUF_TOO_SMALL then ''buffer too small''
      else if err = BSFS_FOPEN_BUF_UNALIGNED then ''unaligned buffer''
      else if err = BSFS_FREAD_DISK_READ_ERROR then ''disk read error''
      else if err = BSFS_FREAD_SIZE_TOO_BIG then ''file too big''
      else if err = BSFS_FREAD_BUF_TOO_SMALL then ''buffer too small''
      else if err = BSFS_CHECKSUM_FAILED then ''checksum failed''
      else ''unknown error'')"

text \<open>Reading a whole file may go on for ever, when a read returns no bytes before the end of the file.\<close>

partial_function (option) checksum_loop ::
  "u64 BsfsContext \<Rightarrow> u32 \<Rightarrow> u32 \<Rightarrow> BsfsFile \<Rightarrow> (int \<times> u32 \<times> BsfsFile) kres option" where
  "checksum_loop ctx n crc file =
     (if eof file then Some (Inr (0, crc, file))
      else case bsfs_fread ctx 1 n file of
        Inl e \<Rightarrow> Some (Inl e)
      | Inr (read, out, file) \<Rightarrow>
          if read < 0 then Some (Inr (read, crc, file))
          else checksum_loop ctx n (crc32_update crc out) file)"

definition bsfs_verify_checksum :: "u64 BsfsContext \<Rightarrow> BsfsFile \<Rightarrow> u64 \<Rightarrow> (int \<times> BsfsFile) kres option" where
  "bsfs_verify_checksum ctx file n =
     (case checksum_loop ctx (ucast n) 0xFFFFFFFF file of
        None \<Rightarrow> None
      | Some (Inl e) \<Rightarrow> Some (Inl e)
      | Some (Inr (read, crc, file)) \<Rightarrow>
          if read < 0 then Some (Inr (read, file))
          else case inode file of
            None \<Rightarrow> Some (Inl Fault)
          | Some ino \<Rightarrow>
              if crc32_finalize crc \<noteq> checksum ino then Some (Inr (BSFS_CHECKSUM_FAILED, file))
              else Some (Inr (1, file)))"

end
