(* ===== verification/BsfsSpec.thy ===== *)
theory BsfsSpec
  imports Bsfs
begin

text \<open>
  Correctness of the BSFS driver. \<open>file_stores\<close> says which blocks the disk holds for an inode. A
  read returns the bytes of the file at the position; a sequence of reads and seeks behaves as
  on an abstract file, a byte list with a position, as long as no read crosses a
  block boundary; the checksum of a whole file is computed and compared; and a
  read that crosses a boundary leaves a cache entry in the wrong place of the buffer.
\<close>

section \<open>A file on the disk\<close>

definition bsz :: "'n BsfsContext \<Rightarrow> nat" where
  "bsz ctx = unat (block_size (header ctx))"

definition nblocks :: "'n BsfsContext \<Rightarrow> BsfsInode \<Rightarrow> nat" where
  "nblocks ctx ino = (unat (isize ino) + bsz ctx - 1) div bsz ctx"

definition sectors :: "u64 BsfsContext \<Rightarrow> u64" where
  "sectors ctx = ucast (block_size (header ctx) div phys_sector_size ctx)"

definition block_number :: "BsfsInode \<Rightarrow> u8 list \<Rightarrow> nat \<Rightarrow> u32" where
  "block_number ino table i =
     (if i < 10 then blocks_direct ino ! i else le_word (field (4 * (i - 10)) 4 table))"

definition block_lba :: "'n BsfsContext \<Rightarrow> u32 \<Rightarrow> u32" where
  "block_lba ctx b = b * block_size (header ctx) div phys_sector_size ctx"

text \<open>Blocks no larger than the disk transfers at once, and a file that fits the direct and the first
  indirect blocks.\<close>

definition geometry :: "'n BsfsContext \<Rightarrow> BsfsInode \<Rightarrow> bool" where
  "geometry ctx ino \<longleftrightarrow> 0 < bsz ctx \<and> 0 < unat (phys_sector_size ctx)
     \<and> bsz ctx \<le> 8 * unat (phys_sector_size ctx) \<and> unat (phys_sector_size ctx) < 2 ^ 28
     \<and> unat (isize ino) < 2 ^ 31 \<and> nblocks ctx ino \<le> 10 + bsz ctx div 4"

definition file_stores :: "u64 BsfsContext \<Rightarrow> BsfsInode \<Rightarrow> u8 list \<Rightarrow> (nat \<Rightarrow> u8 list) \<Rightarrow> bool" where
  "file_stores ctx ino table blk \<longleftrightarrow> geometry ctx ino
     \<and> (\<exists>ok. ok \<noteq> 0 \<and> disk_read ctx (block_lba ctx (blocks_l1indirect ino)) (sectors ctx) = (ok, table))
     \<and> length table = bsz ctx
     \<and> (\<forall>i<nblocks ctx ino. (\<exists>ok. ok \<noteq> 0 \<and>
           disk_read ctx (block_lba ctx (block_number ino table i)) (sectors ctx) = (ok, blk i))
         \<and> length (blk i) = bsz ctx)"

definition file_data :: "'n BsfsContext \<Rightarrow> BsfsInode \<Rightarrow> (nat \<Rightarrow> u8 list) \<Rightarrow> u8 list" where
  "file_data ctx ino blk = take (unat (isize ino)) (concat (map blk [0..<nblocks ctx ino]))"

text \<open>What an open file keeps: the first indirect table, once read, and the buffer.\<close>

definition l1_ok :: "u64 BsfsContext \<Rightarrow> u8 list \<Rightarrow> BsfsFile \<Rightarrow> bool" where
  "l1_ok ctx table file \<longleftrightarrow> bsz ctx \<le> length (l1_table file) \<and>
     (cached_l1 file = UINT32_MAX \<or> take (bsz ctx) (l1_table file) = table)"

lemma nblocks_iff:
  assumes "0 < bsz ctx"
  shows "i < nblocks ctx ino \<longleftrightarrow> i * bsz ctx < unat (isize ino)"
proof -
  have "i < nblocks ctx ino \<longleftrightarrow> Suc i * bsz ctx \<le> unat (isize ino) + bsz ctx - 1"
    using assms by (simp add: nblocks_def Suc_le_eq [symmetric] less_eq_div_iff_mult_less_eq)
  then show ?thesis using assms by auto
qed

lemma nblocks_small:
  assumes "geometry ctx ino"
  shows "nblocks ctx ino < 2 ^ 32"
proof -
  have "bsz ctx \<le> 8 * unat (phys_sector_size ctx)" "unat (phys_sector_size ctx) < 2 ^ 28"
    "nblocks ctx ino \<le> 10 + bsz ctx div 4" using assms by (simp_all add: geometry_def)
  moreover have "bsz ctx div 4 \<le> bsz ctx" by simp
  ultimately show ?thesis by simp
qed

lemma concat_blocks_length:
  "(\<And>i. i \<in> set is \<Longrightarrow> length (blk i) = b) \<Longrightarrow> length (concat (map blk is)) = length is * b"
  by (induction "is") auto

lemma file_data_length:
  assumes "file_stores ctx ino table blk"
  shows "length (file_data ctx ino blk) = unat (isize ino)"
proof -
  have b: "0 < bsz ctx" using assms by (simp add: file_stores_def geometry_def)
  have "length (concat (map blk [0..<nblocks ctx ino])) = length [0..<nblocks ctx ino] * bsz ctx"
    using assms by (intro concat_blocks_length) (simp add: file_stores_def)
  moreover have "unat (isize ino) \<le> nblocks ctx ino * bsz ctx"
    using nblocks_iff [OF b, of "nblocks ctx ino" ino] by simp
  ultimately show ?thesis by (simp add: file_data_def)
qed

section \<open>Reading one block\<close>

lemma store_at_Some:
  "off + length bs \<le> length arr \<Longrightarrow> store_at off bs arr = Some (take off arr @ bs @ drop (off + length bs) arr)"
  by (simp add: store_at_def)

lemma fread_l1_table_ok:
  assumes "file_stores ctx ino table blk" "l1_ok ctx table file"
  shows "\<exists>t c. fread_l1_table ctx ino file = Inr (None, file\<lparr>l1_table := t, cached_l1 := c\<rparr>)
     \<and> take (bsz ctx) t = table \<and> bsz ctx \<le> length t"
proof (cases "cached_l1 file = UINT32_MAX")
  case True
  obtain ok where ok: "ok \<noteq> 0"
    "disk_read ctx (block_lba ctx (blocks_l1indirect ino)) (sectors ctx) = (ok, table)"
    and len: "length table = bsz ctx"
    using assms(1) by (auto simp: file_stores_def)
  have st: "store_at 0 table (l1_table file) = Some (table @ drop (bsz ctx) (l1_table file))"
    using assms(2) len by (simp add: store_at_Some l1_ok_def)
  then show ?thesis
    using True ok len assms(2)
    by (intro exI [of _ "table @ drop (bsz ctx) (l1_table file)"] exI [of _ "blocks_l1indirect ino"])
      (simp add: fread_l1_table_def block_lba_def sectors_def Let_def l1_ok_def)
next
  case False
  have "file = file\<lparr>l1_table := l1_table file, cached_l1 := cached_l1 file\<rparr>" by simp
  then show ?thesis using False assms(2)
    by (intro exI [of _ "l1_table file"] exI [of _ "cached_l1 file"]) (auto simp: fread_l1_table_def l1_ok_def)
qed

lemma table_entry_take:
  assumes "take n t = table" "n \<le> length t" "4 * k + 4 \<le> n"
  shows "table_entry t k = Some (le_word (field (4 * k) 4 table))"
proof -
  have "field (4 * k) 4 table = field (4 * k) 4 t"
    unfolding assms(1) [symmetric] using assms(3) by (simp add: field_def drop_take min_def)
  then show ?thesis using assms by (simp add: table_entry_def)
qed

lemma fread_store_ok:
  assumes "disk_read ctx lba (sectors ctx) = (ok, bs)" "ok \<noteq> 0" "p + length bs \<le> length (buf file)"
  shows "fread_store ctx lba i p file =
     Inr (None, file\<lparr>buf := take p (buf file) @ bs @ drop (p + length bs) (buf file), cached_block := i\<rparr>)"
  using assms by (simp add: fread_store_def sectors_def store_at_Some)

text \<open>A block that is in the file is read, through the indirect table when it has to be.\<close>

lemma fread_block_ok:
  assumes fs: "file_stores ctx ino table blk" and l1: "l1_ok ctx table file"
    and i: "i < nblocks ctx ino" and room: "p + bsz ctx \<le> length (buf file)"
  shows "\<exists>t c. fread_block ctx ino (of_nat i) p file =
     Inr (None, file\<lparr>l1_table := t, cached_l1 := c,
        buf := take p (buf file) @ blk i @ drop (p + bsz ctx) (buf file), cached_block := of_nat i\<rparr>)
     \<and> l1_ok ctx table (file\<lparr>l1_table := t, cached_l1 := c\<rparr>)"
proof -
  have geo: "geometry ctx ino" and lt: "length table = bsz ctx" and lb: "length (blk i) = bsz ctx"
    using fs i by (auto simp: file_stores_def)
  obtain ok where ok: "ok \<noteq> 0"
    "disk_read ctx (block_lba ctx (block_number ino table i)) (sectors ctx) = (ok, blk i)"
    using fs i by (auto simp: file_stores_def)
  have small: "i < 10 + bsz ctx div 4" using geo i by (simp add: geometry_def)
  have b32: "bsz ctx < 2 ^ 32" using unat_lt2p [of "block_size (header ctx)"] by (simp add: bsz_def)
  have ui: "unat (of_nat i :: u32) = i" using small b32 by (intro unat_of_nat_small) simp
  have cap: "unat (10 + block_size (header ctx) div 4) = 10 + bsz ctx div 4"
    using b32 by (subst unat_add_small) (simp_all add: unat_div bsz_def)
  show ?thesis
  proof (cases "i < 10")
    case True
    have "fread_block ctx ino (of_nat i) p file
        = fread_store ctx (block_lba ctx (block_number ino table i)) (of_nat i) p file"
      using True ui by (simp add: fread_block_def word_less_nat_alt block_lba_def block_number_def Let_def)
    then show ?thesis
      using fread_store_ok [OF ok(2) ok(1)] room lb l1
      by (intro exI [of _ "l1_table file"] exI [of _ "cached_l1 file"]) (simp add: l1_ok_def)
  next
    case False
    obtain t c where t: "fread_l1_table ctx ino file = Inr (None, file\<lparr>l1_table := t, cached_l1 := c\<rparr>)"
      "take (bsz ctx) t = table" "bsz ctx \<le> length t"
      using fread_l1_table_ok [OF fs l1] by blast
    let ?f = "file\<lparr>l1_table := t, cached_l1 := c\<rparr>"
    have idx: "unat (of_nat i - 10 :: u32) = i - 10"
      using False ui by (subst unat_sub) (simp_all add: word_le_nat_alt)
    have entry: "table_entry t (i - 10) = Some (block_number ino table i)"
      using table_entry_take [OF t(2,3), of "i - 10"] False small by (simp add: block_number_def)
    have "fread_block ctx ino (of_nat i) p file
        = fread_store ctx (block_lba ctx (block_number ino table i)) (of_nat i) p ?f"
      using False ui cap small t(1) entry idx
      by (simp add: fread_block_def word_less_nat_alt block_lba_def Let_def)
    then show ?thesis
      using fread_store_ok [OF ok(2) ok(1), of p ?f] room lb t(2,3)
      by (intro exI [of _ t] exI [of _ c]) (simp add: l1_ok_def)
  qed
qed

section \<open>Reading\<close>

text \<open>\<open>slot\<close> is where the driver expects the cached block in the buffer.\<close>

definition cached_at :: "'n BsfsContext \<Rightarrow> (nat \<Rightarrow> u8 list) \<Rightarrow> nat \<Rightarrow> nat \<Rightarrow> BsfsFile \<Rightarrow> bool" where
  "cached_at ctx blk slot c file \<longleftrightarrow> take (bsz ctx) (drop (slot * bsz ctx) (buf file)) = blk c"

lemma take_next_chunk: "take (Suc k * n) xs = take (k * n) xs @ take n (drop (k * n) xs)"
  using take_add [of "k * n" n xs] by (simp add: add.commute)

text \<open>After the loop over the blocks from \<open>s\<close> to \<open>e\<close> the buffer starts with these blocks.\<close>

lemma fread_loop_ok:
  assumes fs: "file_stores ctx ino table blk" and e: "e \<le> nblocks ctx ino" and small: "e < 2 ^ 32"
  shows "\<lbrakk>s + k \<le> e; l1_ok ctx table fl; (e - s) * bsz ctx \<le> length (buf fl);
      take (k * bsz ctx) (buf fl) = concat (map blk [s..<s + k]);
      \<And>c. \<lbrakk>s + k \<le> c; c < e; cached_block fl = of_nat c\<rbrakk> \<Longrightarrow> cached_at ctx blk (c - s) c fl\<rbrakk>
    \<Longrightarrow> \<exists>t c b cb. fread_loop ctx ino (map of_nat [s + k..<e]) (k * bsz ctx) fl =
        Inr (None, fl\<lparr>l1_table := t, cached_l1 := c, buf := b, cached_block := cb\<rparr>)
      \<and> l1_ok ctx table (fl\<lparr>l1_table := t, cached_l1 := c\<rparr>)
      \<and> length b = length (buf fl) \<and> take ((e - s) * bsz ctx) b = concat (map blk [s..<e])
      \<and> cb = (if s + k < e then of_nat (e - 1) else cached_block fl) \<and> (s + k < e \<or> b = buf fl)"
proof (induction "e - (s + k)" arbitrary: k fl)
  case 0
  then have eq: "s + k = e" by simp
  have "fl = fl\<lparr>l1_table := l1_table fl, cached_l1 := cached_l1 fl, buf := buf fl,
      cached_block := cached_block fl\<rparr>" by simp
  then show ?case using 0 eq
    by (intro exI [of _ "l1_table fl"] exI [of _ "cached_l1 fl"] exI [of _ "buf fl"] exI [of _ "cached_block fl"]) auto
next
  case (Suc n)
  let ?i = "s + k" and ?b = "bsz ctx"
  have i: "?i < e" using Suc.hyps(2) by simp
  then have ls: "map of_nat [?i..<e] = (of_nat ?i :: u32) # map of_nat [s + Suc k..<e]"
    by (simp add: upt_conv_Cons)
  have n: "n = e - (s + Suc k)" using Suc.hyps(2) by simp
  have kk: "s + Suc k \<le> e" using i by simp
  have p: "k * ?b + unat (block_size (header ctx)) = Suc k * ?b" by (simp add: bsz_def)
  have inj: "of_nat c = (of_nat d :: u32) \<longleftrightarrow> c = d" if "c < e" "d < e" for c d
  proof -
    have "unat (of_nat c :: u32) = c" "unat (of_nat d :: u32) = d"
      using that small by (intro unat_of_nat_small; simp)+
    then show ?thesis by metis
  qed
  have up: "[s..<s + Suc k] = [s..<s + k] @ [s + k]" by simp
  show ?case
  proof (cases "of_nat ?i = cached_block fl")
    case True
    have chunk: "take (Suc k * ?b) (buf fl) = concat (map blk [s..<s + Suc k])"
      unfolding take_next_chunk up using Suc.prems(4) Suc.prems(5) [of ?i] i True
      by (simp add: cached_at_def)
    have "cached_at ctx blk (c - s) c fl" if "s + Suc k \<le> c" "c < e" "cached_block fl = of_nat c" for c
      using that True inj [of ?i c] i by simp
    from Suc.hyps(1) [OF n kk Suc.prems(2,3) chunk this]
    obtain t' c' b' cb' where
      rest: "fread_loop ctx ino (map of_nat [s + Suc k..<e]) (Suc k * ?b) fl =
        Inr (None, fl\<lparr>l1_table := t', cached_l1 := c', buf := b', cached_block := cb'\<rparr>)"
      and post: "l1_ok ctx table (fl\<lparr>l1_table := t', cached_l1 := c'\<rparr>)" "length b' = length (buf fl)"
        "take ((e - s) * ?b) b' = concat (map blk [s..<e])"
        "cb' = (if s + Suc k < e then of_nat (e - 1) else cached_block fl)"
      by blast
    have "fread_loop ctx ino (map of_nat [?i..<e]) (k * ?b) fl =
        Inr (None, fl\<lparr>l1_table := t', cached_l1 := c', buf := b', cached_block := cb'\<rparr>)"
      unfolding ls using True rest by (simp only: fread_loop.simps if_True p refl)
    moreover have "cb' = of_nat (e - 1)"
    proof (cases "s + Suc k < e")
      case False
      then have "e - 1 = ?i" using kk by simp
      then show ?thesis using False post(4) True by simp
    qed (use post(4) in simp)
    ultimately show ?thesis using post i by (metis (no_types))
  next
    case False
    have room: "k * ?b + ?b \<le> length (buf fl)"
    proof -
      have "Suc k * ?b \<le> (e - s) * ?b" using kk by (intro mult_le_mono1) simp
      then show ?thesis using Suc.prems(3) by simp
    qed
    have "?i < nblocks ctx ino" using i e by simp
    from fread_block_ok [OF fs Suc.prems(2) this room]
    obtain t c where blk: "fread_block ctx ino (of_nat ?i) (k * ?b) fl =
        Inr (None, fl\<lparr>l1_table := t, cached_l1 := c,
           buf := take (k * ?b) (buf fl) @ blk ?i @ drop (k * ?b + ?b) (buf fl), cached_block := of_nat ?i\<rparr>)"
      and l1: "l1_ok ctx table (fl\<lparr>l1_table := t, cached_l1 := c\<rparr>)" by blast
    define g where "g = fl\<lparr>l1_table := t, cached_l1 := c,
       buf := take (k * ?b) (buf fl) @ blk ?i @ drop (k * ?b + ?b) (buf fl), cached_block := of_nat ?i\<rparr>"
    have lb: "length (blk ?i) = ?b" using fs i e by (simp add: file_stores_def)
    have l1g: "l1_ok ctx table g" using l1 by (simp add: l1_ok_def g_def)
    have len: "length (buf g) = length (buf fl)" using room lb by (simp add: g_def)
    then have len': "(e - s) * ?b \<le> length (buf g)" using Suc.prems(3) by simp
    have kb: "length (take (k * ?b) (buf fl)) = k * ?b" using room by simp
    have chunk: "take (Suc k * ?b) (buf g) = concat (map blk [s..<s + Suc k])"
      unfolding take_next_chunk up using Suc.prems(4) kb lb by (simp add: g_def)
    have cb: "cached_block g = of_nat ?i" by (simp add: g_def)
    have "cached_at ctx blk (c - s) c g" if "s + Suc k \<le> c" "c < e" "cached_block g = of_nat c" for c
      using that inj [of ?i c] i cb by simp
    from Suc.hyps(1) [OF n kk l1g len' chunk this]
    obtain t' c' b' cb' where
      rest: "fread_loop ctx ino (map of_nat [s + Suc k..<e]) (Suc k * ?b) g =
        Inr (None, g\<lparr>l1_table := t', cached_l1 := c', buf := b', cached_block := cb'\<rparr>)"
      and post: "l1_ok ctx table (g\<lparr>l1_table := t', cached_l1 := c'\<rparr>)" "length b' = length (buf g)"
        "take ((e - s) * ?b) b' = concat (map blk [s..<e])"
        "cb' = (if s + Suc k < e then of_nat (e - 1) else cached_block g)"
      by blast
    have g': "g\<lparr>l1_table := t', cached_l1 := c', buf := b', cached_block := cb'\<rparr>
        = fl\<lparr>l1_table := t', cached_l1 := c', buf := b', cached_block := cb'\<rparr>" by (simp add: g_def)
    have "fread_loop ctx ino (map of_nat [?i..<e]) (k * ?b) fl =
        Inr (None, fl\<lparr>l1_table := t', cached_l1 := c', buf := b', cached_block := cb'\<rparr>)"
      unfolding ls using False rest blk [folded g_def]
      by (simp only: fread_loop.simps if_False p andthen_simps case_prod_conv option.case g')
    moreover have "cb' = of_nat (e - 1)"
    proof (cases "s + Suc k < e")
      case False
      then have "e - 1 = ?i" using kk by simp
      then show ?thesis using False post(4) cb by simp
    qed (use post(4) in simp)
    moreover have "l1_ok ctx table (fl\<lparr>l1_table := t', cached_l1 := c'\<rparr>)" using post(1) by (simp add: l1_ok_def)
    ultimately show ?thesis using post(2,3) i len by (metis (no_types))
  qed
qed

text \<open>The offsets of a read, in natural numbers: \<open>read_len\<close> bytes from \<open>pos\<close>.\<close>

definition read_len :: "BsfsInode \<Rightarrow> BsfsFile \<Rightarrow> nat \<Rightarrow> nat \<Rightarrow> nat" where
  "read_len ino fl pos req = min (min req (unat (isize ino) - pos)) (unat (bufsize fl))"

definition end_offset_of :: "u32 \<Rightarrow> u32 \<Rightarrow> u64 \<Rightarrow> u32 \<Rightarrow> u32" where
  "end_offset_of start_offset req size32 bufsz =
     (let end_offset = start_offset + req;
          end_offset = (if ucast end_offset > size32 then ucast size32 else end_offset)
      in if end_offset - start_offset > bufsz then start_offset + bufsz else end_offset)"

lemma unat_ucast_up: "unat (ucast (w :: u32) :: u64) = unat w"
  using unat_lt2p [of w] by (simp add: unsigned_ucast_eq take_bit_nat_eq_self)

lemma unat_ucast_down: "unat (w :: u64) < 2 ^ 32 \<Longrightarrow> unat (ucast w :: u32) = unat w"
  by (simp add: unsigned_ucast_eq take_bit_nat_eq_self)

lemma end_offset_of_ok:
  assumes "unat st \<le> unat size'" "unat size' < 2 ^ 31" "unat req < 2 ^ 31"
  shows "unat (end_offset_of st req size' bufsz) = unat st + min (min (unat req) (unat size' - unat st)) (unat bufsz)"
proof -
  have e1: "unat (st + req) = unat st + unat req" using assms by (intro unat_add_small) simp
  define e where "e = (if ucast (st + req) > size' then ucast size' else st + req)"
  have e: "unat e = min (unat st + unat req) (unat size')"
    using e1 assms by (auto simp: e_def word_less_nat_alt unat_ucast_up unat_ucast_down)
  have d: "unat (e - st) = unat e - unat st"
    using e assms by (intro unat_sub) (simp add: word_le_nat_alt)
  have eq: "end_offset_of st req size' bufsz = (if e - st > bufsz then st + bufsz else e)"
    by (simp add: end_offset_of_def e_def Let_def)
  show ?thesis
  proof (cases "e - st > bufsz")
    case True
    then have "unat bufsz < unat e - unat st" using d by (simp add: word_less_nat_alt)
    moreover from this have "unat (st + bufsz) = unat st + unat bufsz"
      using e assms by (intro unat_add_small) simp
    ultimately show ?thesis using True eq e assms by simp
  next
    case False
    then have "unat e - unat st \<le> unat bufsz" using d by (simp add: word_less_nat_alt not_less)
    then show ?thesis using False eq e assms by simp
  qed
qed

lemma unat_div_ceil:
  fixes x b :: u32
  assumes "0 < unat b" "unat x + unat b < 2 ^ 32"
  shows "unat ((x + b - 1) div b) = (unat x + unat b - 1) div unat b"
proof -
  have s: "unat (x + b) = unat x + unat b" using assms by (intro unat_add_small) simp
  then have "1 \<le> x + b" using assms unfolding word_le_nat_alt unat_1 by linarith
  then have "unat (x + b - 1) = unat x + unat b - 1" using s by (simp add: unat_sub)
  then show ?thesis by (simp add: unat_div)
qed

lemma ceil_le_iff: "0 < b \<Longrightarrow> i < (x + b - 1) div b \<longleftrightarrow> i * b < (x :: nat)"
proof -
  assume b: "0 < b"
  have "i < (x + b - 1) div b \<longleftrightarrow> Suc i * b \<le> x + b - 1"
    using b by (simp add: Suc_le_eq [symmetric] less_eq_div_iff_mult_less_eq)
  then show ?thesis using b by auto
qed

lemma drop_concat_blocks:
  assumes "\<And>i. i < s \<Longrightarrow> length (blk i) = b" "s \<le> e"
  shows "drop (s * b) (concat (map blk [0..<e])) = concat (map blk [s..<e])"
proof -
  have "[0..<e] = [0..<s] @ [s..<e]" using assms(2) by (metis le_add_diff_inverse upt_add_eq_append zero_le)
  moreover have "length (concat (map blk [0..<s])) = length [0..<s] * b"
    using assms(1) by (intro concat_blocks_length) simp
  ultimately show ?thesis by simp
qed

text \<open>The bytes in the buffer after the loop are the bytes of the file.\<close>

lemma buffer_slice:
  assumes fs: "file_stores ctx ino table blk" and b: "b = bsz ctx"
    and pos: "pos + n \<le> unat (isize ino)" and s: "s = pos div b" and e: "e = (pos + n + b - 1) div b"
    and bf: "take ((e - s) * b) bufr = concat (map blk [s..<e])"
  shows "take n (drop (pos mod b) bufr) = take n (drop pos (file_data ctx ino blk))
     \<and> (e - s) * b \<ge> pos mod b + n \<and> e \<le> nblocks ctx ino"
proof -
  have b0: "0 < b" using fs b by (simp add: file_stores_def geometry_def)
  let ?N = "nblocks ctx ino"
  have eN: "e \<le> ?N"
  proof (rule ccontr)
    assume "\<not> e \<le> ?N"
    then have "?N * b < pos + n" using ceil_le_iff [OF b0, of ?N "pos + n"] e by simp
    then show False using nblocks_iff [of ctx ?N ino] b b0 pos by simp
  qed
  have "\<not> e < e" by simp
  then have eb: "pos + n \<le> e * b" using ceil_le_iff [OF b0, of e "pos + n"] e by simp
  have sp: "s * b + pos mod b = pos" by (simp add: s)
  have se: "s \<le> e"
  proof (rule ccontr)
    assume "\<not> s \<le> e"
    then have "e * b < pos" using sp mult_le_mono1 [of "Suc e" s b] b0 by simp
    then show False using eb by simp
  qed
  have fit: "pos mod b + n \<le> (e - s) * b"
    using eb sp se by (simp add: diff_mult_distrib)
  have lb: "length (blk i) = b" if "i < ?N" for i using fs that b by (simp add: file_stores_def)
  have "drop pos (concat (map blk [0..<?N])) = drop (pos mod b) (concat (map blk [s..<?N]))"
  proof -
    have "drop (s * b) (concat (map blk [0..<?N])) = concat (map blk [s..<?N])"
      using se eN lb by (intro drop_concat_blocks) auto
    then show ?thesis by (metis add.commute drop_drop sp)
  qed
  moreover have "concat (map blk [s..<?N]) = concat (map blk [s..<e]) @ concat (map blk [e..<?N])"
    using se eN by (metis concat_append le_add_diff_inverse map_append upt_add_eq_append)
  moreover have "length (concat (map blk [s..<e])) = length [s..<e] * b"
    using lb eN by (intro concat_blocks_length) simp
  ultimately have "take n (drop pos (concat (map blk [0..<?N]))) = take n (drop (pos mod b) (concat (map blk [s..<e])))"
    using fit by simp
  also have "\<dots> = take n (drop (pos mod b) bufr)"
  proof -
    have "n \<le> (e - s) * b - pos mod b" using fit by linarith
    then show ?thesis unfolding bf [symmetric] by (simp only: drop_take take_take min_absorb1)
  qed
  finally have "take n (drop (pos mod b) bufr) = take n (drop pos (concat (map blk [0..<?N])))" by simp
  also have "\<dots> = take n (drop pos (file_data ctx ino blk))"
    unfolding file_data_def using pos by (simp add: drop_take min_def)
  finally show ?thesis using fit eN by simp
qed

text \<open>What a read returns, once the loop over its blocks has filled the buffer.\<close>

lemma bsfs_fread_eval:
  assumes geo: "geometry ctx ino" and ino: "inode fl = Some ino"
    and pos: "unat (position fl) = pos" "pos \<le> unat (isize ino)"
    and req: "unat sz * unat count < 2 ^ 31" and n: "n = read_len ino fl pos (unat sz * unat count)"
    and cap: "n \<le> 8 * unat (phys_sector_size ctx)"
    and s: "s = pos div bsz ctx" and e: "e = (pos + n + bsz ctx - 1) div bsz ctx"
    and loop: "fread_loop ctx ino (map of_nat [s..<e]) 0 fl = Inr (None, fl')"
    and fit: "pos mod bsz ctx + n \<le> length (buf fl')"
  shows "bsfs_fread ctx sz count fl = Inr (int n, take n (drop (pos mod bsz ctx) (buf fl')),
     fl'\<lparr>position := of_nat (pos + n), eof := unat (isize ino) \<le> pos + n\<rparr>)"
proof -
  let ?bs = "block_size (header ctx)" and ?st = "ucast (position fl) :: u32"
  have b0: "0 < bsz ctx" and ph: "0 < unat (phys_sector_size ctx)" "unat (phys_sector_size ctx) < 2 ^ 28"
    and size: "unat (isize ino) < 2 ^ 31" and b8: "bsz ctx \<le> 8 * unat (phys_sector_size ctx)"
    using geo by (auto simp: geometry_def)
  have st: "unat ?st = pos" using pos size by (simp add: unat_ucast_down)
  have rq: "unat (sz * count) = unat sz * unat count" using req by (intro unat_mult_small) simp
  define ed where "ed = end_offset_of ?st (sz * count) (isize ino) (bufsize fl)"
  have ed: "unat ed = pos + n"
    using end_offset_of_ok [of ?st "isize ino" "sz * count" "bufsize fl"] st pos size req rq n
    by (simp add: ed_def read_len_def)
  have nle: "pos + n \<le> unat (isize ino)" using n pos by (simp add: read_len_def)
  have tot: "unat (ed - ?st) = n" using ed st by (subst unat_sub) (simp_all add: word_le_nat_alt)
  have mx: "unat (8 * phys_sector_size ctx) = 8 * unat (phys_sector_size ctx)"
    using ph by (subst unat_mult_small) simp_all
  have nbig: "\<not> ed - ?st > DISK_READ_MAX_BLOCKS * phys_sector_size ctx"
    using tot cap mx by (simp add: word_less_nat_alt DISK_READ_MAX_BLOCKS_def)
  have nz: "phys_sector_size ctx \<noteq> 0" "?bs \<noteq> 0" using ph b0 by (auto simp: bsz_def)
  have sb: "unat (?st div ?bs) = s" using st s by (simp add: unat_div bsz_def)
  have eb: "unat ((ed + ?bs - 1) div ?bs) = e"
    using unat_div_ceil [of ?bs ed] ed b0 b8 ph nle size e by (simp add: bsz_def)
  have off: "unat (?st mod ?bs) = pos mod bsz ctx" using st by (simp add: unat_mod bsz_def)
  have ucpos: "(ucast ed :: u64) = of_nat (pos + n)"
    using ed nle size by (subst word_eq_of_nat_iff) (simp_all add: unat_ucast_up)
  have eof': "isize ino \<le> ucast ed \<longleftrightarrow> unat (isize ino) \<le> pos + n"
    by (simp add: word_le_nat_alt unat_ucast_up ed)
  have ui: "uint (ed - ?st) = int n" by (simp only: uint_nat tot)
  show ?thesis
    unfolding bsfs_fread_def Let_def ino option.case ed_def [unfolded end_offset_of_def Let_def, symmetric]
    using nbig nz sb eb loop off tot fit ucpos eof' ui by simp
qed

text \<open>A read that fits the buffer returns the bytes of the file at the position.\<close>

lemma bsfs_fread_ok:
  assumes fs: "file_stores ctx ino table blk" and ino: "inode fl = Some ino" and l1: "l1_ok ctx table fl"
    and pos: "unat (position fl) = pos" "pos \<le> unat (isize ino)"
    and req: "unat sz * unat count < 2 ^ 31" and n: "n = read_len ino fl pos (unat sz * unat count)"
    and cap: "n \<le> 8 * unat (phys_sector_size ctx)"
    and s: "s = pos div bsz ctx" and e: "e = (pos + n + bsz ctx - 1) div bsz ctx"
    and room: "(e - s) * bsz ctx \<le> length (buf fl)"
    and cache: "\<And>c. \<lbrakk>s \<le> c; c < e; cached_block fl = of_nat c\<rbrakk> \<Longrightarrow> cached_at ctx blk (c - s) c fl"
  shows "\<exists>t c b cb. bsfs_fread ctx sz count fl =
       Inr (int n, take n (drop pos (file_data ctx ino blk)),
         fl\<lparr>l1_table := t, cached_l1 := c, buf := b, cached_block := cb,
            position := of_nat (pos + n), eof := unat (isize ino) \<le> pos + n\<rparr>)
     \<and> l1_ok ctx table (fl\<lparr>l1_table := t, cached_l1 := c\<rparr>)
     \<and> length b = length (buf fl) \<and> take ((e - s) * bsz ctx) b = concat (map blk [s..<e])
     \<and> cb = (if s < e then of_nat (e - 1) else cached_block fl) \<and> (s < e \<or> b = buf fl)"
proof -
  have geo: "geometry ctx ino" using fs by (simp add: file_stores_def)
  have b0: "0 < bsz ctx" using geo by (simp add: geometry_def)
  have nle: "pos + n \<le> unat (isize ino)" using n pos by (simp add: read_len_def)
  have eN: "e \<le> nblocks ctx ino"
    using nle b0 unfolding e nblocks_def by (intro div_le_mono) simp
  then have e32: "e < 2 ^ 32" using nblocks_small [OF geo] by simp
  have se: "s \<le> e" unfolding s e by (intro div_le_mono) (use b0 in simp)
  obtain t c b cb where
    loop: "fread_loop ctx ino (map of_nat [s..<e]) 0 fl =
        Inr (None, fl\<lparr>l1_table := t, cached_l1 := c, buf := b, cached_block := cb\<rparr>)"
    and post: "l1_ok ctx table (fl\<lparr>l1_table := t, cached_l1 := c\<rparr>)" "length b = length (buf fl)"
      "take ((e - s) * bsz ctx) b = concat (map blk [s..<e])"
      "cb = (if s < e then of_nat (e - 1) else cached_block fl)" "s < e \<or> b = buf fl"
    using fread_loop_ok [OF fs eN e32, of s 0 fl] se l1 room cache by auto
  from buffer_slice [OF fs refl nle s e post(3)]
  have slice: "take n (drop (pos mod bsz ctx) b) = take n (drop pos (file_data ctx ino blk))"
    and fit: "pos mod bsz ctx + n \<le> length b" using post(2) room by auto
  have "bsfs_fread ctx sz count fl =
       Inr (int n, take n (drop pos (file_data ctx ino blk)),
         fl\<lparr>l1_table := t, cached_l1 := c, buf := b, cached_block := cb,
            position := of_nat (pos + n), eof := unat (isize ino) \<le> pos + n\<rparr>)"
    using bsfs_fread_eval [OF geo ino pos req n cap s e loop] fit slice by simp
  then show ?thesis using post by blast
qed

section \<open>The file as a byte list with a position\<close>

datatype file_op = Read u32 u32 | Seek u64 int

fun run_ops :: "u64 BsfsContext \<Rightarrow> file_op list \<Rightarrow> BsfsFile \<Rightarrow> (int \<times> u8 list) list kres" where
  "run_ops ctx [] fl = Inr []"
| "run_ops ctx (Read sz count # ops) fl =
     andthen (bsfs_fread ctx sz count fl) (\<lambda>(r, out, fl).
       andthen (run_ops ctx ops fl) (\<lambda>outs. Inr ((r, out) # outs)))"
| "run_ops ctx (Seek offset whence # ops) fl =
     andthen (bsfs_fseeko offset whence fl) (\<lambda>(r, fl).
       andthen (run_ops ctx ops fl) (\<lambda>outs. Inr ((r, []) # outs)))"

text \<open>The specification. An offset from the current position may be negative, in two's complement.\<close>

definition seek_spec :: "nat \<Rightarrow> u64 \<Rightarrow> int \<Rightarrow> nat \<Rightarrow> nat" where
  "seek_spec size' offset whence pos =
     min size'
       (if whence = BSFS_FSEEKO_CUR then (pos + unat offset) mod 2 ^ 64
        else if whence = BSFS_FSEEKO_SET then unat offset
        else if whence = BSFS_FSEEKO_END then (if unat offset \<le> size' then size' - unat offset else size')
        else pos)"

fun spec_ops :: "u8 list \<Rightarrow> file_op list \<Rightarrow> nat \<Rightarrow> (int \<times> u8 list) list" where
  "spec_ops data [] pos = []"
| "spec_ops data (Read sz count # ops) pos =
     (let out = take (unat sz * unat count) (drop pos data)
      in (int (length out), out) # spec_ops data ops (pos + length out))"
| "spec_ops data (Seek offset whence # ops) pos =
     (0, []) # spec_ops data ops (seek_spec (length data) offset whence pos)"

text \<open>No read crosses the end of a block.\<close>

fun within_blocks :: "nat \<Rightarrow> nat \<Rightarrow> file_op list \<Rightarrow> nat \<Rightarrow> bool" where
  "within_blocks b size' [] pos \<longleftrightarrow> True"
| "within_blocks b size' (Read sz count # ops) pos \<longleftrightarrow>
     (let n = unat sz * unat count in
      n < 2 ^ 31 \<and> pos mod b + min n (size' - pos) \<le> b \<and> within_blocks b size' ops (pos + min n (size' - pos)))"
| "within_blocks b size' (Seek offset whence # ops) pos \<longleftrightarrow>
     within_blocks b size' ops (seek_spec size' offset whence pos)"

definition file_rel ::
  "u64 BsfsContext \<Rightarrow> BsfsInode \<Rightarrow> u8 list \<Rightarrow> (nat \<Rightarrow> u8 list) \<Rightarrow> BsfsFile \<Rightarrow> nat \<Rightarrow> bool" where
  "file_rel ctx ino table blk fl pos \<longleftrightarrow> inode fl = Some ino \<and> unat (position fl) = pos \<and> pos \<le> unat (isize ino)
     \<and> l1_ok ctx table fl \<and> bufsize fl = block_size (header ctx) \<and> bsz ctx \<le> length (buf fl)
     \<and> (\<forall>c<nblocks ctx ino. cached_block fl = of_nat c \<longrightarrow> take (bsz ctx) (buf fl) = blk c)"

lemma bsfs_fread_refines:
  assumes fs: "file_stores ctx ino table blk" and rel: "file_rel ctx ino table blk fl pos"
    and req: "unat sz * unat count < 2 ^ 31" and n: "n = min (unat sz * unat count) (unat (isize ino) - pos)"
    and inb: "pos mod bsz ctx + n \<le> bsz ctx"
  shows "\<exists>fl'. bsfs_fread ctx sz count fl = Inr (int n, take n (drop pos (file_data ctx ino blk)), fl')
     \<and> file_rel ctx ino table blk fl' (pos + n) \<and> eof fl' = (unat (isize ino) \<le> pos + n)"
proof -
  let ?b = "bsz ctx"
  define s e where "s = pos div ?b" and "e = (pos + n + ?b - 1) div ?b"
  have geo: "geometry ctx ino" using fs by (simp add: file_stores_def)
  have b0: "0 < ?b" using geo by (simp add: geometry_def)
  have len: "read_len ino fl pos (unat sz * unat count) = n"
    using rel inb n by (simp add: read_len_def file_rel_def bsz_def)
  have cap: "n \<le> 8 * unat (phys_sector_size ctx)" using geo inb by (simp add: geometry_def)
  have sp: "s * ?b + pos mod ?b = pos" by (simp add: s_def)
  have e1: "e \<le> Suc s"
  proof (rule ccontr)
    assume "\<not> e \<le> Suc s"
    then have "Suc s * ?b < pos + n" using ceil_le_iff [OF b0, of "Suc s" "pos + n"] e_def by simp
    then show False using sp inb by simp
  qed
  have se: "s \<le> e" unfolding s_def e_def by (intro div_le_mono) (use b0 in simp)
  have size: "pos + n \<le> unat (isize ino)" 
  proof -
    have "pos \<le> unat (isize ino)" using rel by (simp add: file_rel_def)
    then show ?thesis unfolding n by linarith
  qed
  have eN: "e \<le> nblocks ctx ino"
    using size b0 unfolding e_def nblocks_def by (intro div_le_mono) simp
  have room: "(e - s) * ?b \<le> length (buf fl)"
  proof -
    have "(e - s) * ?b \<le> 1 * ?b" using e1 by (intro mult_le_mono1) simp
    moreover have "?b \<le> length (buf fl)" using rel by (simp add: file_rel_def)
    ultimately show ?thesis by linarith
  qed
  have cache: "cached_at ctx blk (c - s) c fl" if "s \<le> c" "c < e" "cached_block fl = of_nat c" for c
  proof -
    have "c = s" using that e1 by simp
    then show ?thesis using that rel eN by (simp add: cached_at_def file_rel_def)
  qed
  obtain t c b cb where
    rd: "bsfs_fread ctx sz count fl =
       Inr (int n, take n (drop pos (file_data ctx ino blk)),
         fl\<lparr>l1_table := t, cached_l1 := c, buf := b, cached_block := cb,
            position := of_nat (pos + n), eof := unat (isize ino) \<le> pos + n\<rparr>)"
    and post: "l1_ok ctx table (fl\<lparr>l1_table := t, cached_l1 := c\<rparr>)" "length b = length (buf fl)"
      "take ((e - s) * ?b) b = concat (map blk [s..<e])"
      "cb = (if s < e then of_nat (e - 1) else cached_block fl)" "s < e \<or> b = buf fl"
    using bsfs_fread_ok [OF fs _ _ _ _ req len [symmetric] cap s_def e_def room cache] rel
    unfolding file_rel_def by blast
  have cached: "take ?b b = blk k" if "k < nblocks ctx ino" "cb = of_nat k" for k
  proof (cases "s < e")
    case True
    then have es: "e = Suc s" using e1 by simp
    have "nblocks ctx ino < 2 ^ 32" using nblocks_small [OF geo] .
    then have "unat (of_nat k :: u32) = k" "unat (of_nat s :: u32) = s"
      using that(1) eN es by (intro unat_of_nat_small; simp)+
    then have "k = s" using that(2) post(4) True es by (metis diff_Suc_1)
    then show ?thesis using post(3) es by simp
  next
    case False
    then show ?thesis using that post(4,5) rel by (simp add: file_rel_def)
  qed
  have "unat (of_nat (pos + n) :: u64) = pos + n" using size unat_lt2p [of "isize ino"] by (intro unat_of_nat_small) simp
  then show ?thesis using rd post cached rel size by (auto simp: file_rel_def l1_ok_def)
qed

lemma bsfs_fseeko_refines:
  assumes rel: "file_rel ctx ino table blk fl pos"
  shows "\<exists>fl'. bsfs_fseeko offset whence fl = Inr (0, fl')
     \<and> file_rel ctx ino table blk fl' (seek_spec (unat (isize ino)) offset whence pos)
     \<and> eof fl' = (unat (isize ino) \<le> seek_spec (unat (isize ino)) offset whence pos)"
proof -
  define target where "target =
     (if whence = BSFS_FSEEKO_CUR then position fl + offset
      else if whence = BSFS_FSEEKO_SET then offset
      else if whence = BSFS_FSEEKO_END then isize ino - offset else position fl)"
  have pos: "unat (position fl) = pos" "pos \<le> unat (isize ino)" and ino: "inode fl = Some ino"
    using rel by (auto simp: file_rel_def)
  have back_up: "unat (isize ino) \<le> unat (isize ino - offset)" if "\<not> offset \<le> isize ino"
    using that by unat_arith
  have sp: "seek_spec (unat (isize ino)) offset whence pos = min (unat (isize ino)) (unat target)"
    using pos back_up
    by (auto simp: seek_spec_def target_def unat_word_ariths unat_sub word_le_nat_alt min_def)
  define fl' where "fl' = (if isize ino \<le> target then fl\<lparr>position := isize ino, eof := True\<rparr>
     else fl\<lparr>position := target, eof := False\<rparr>)"
  have run: "bsfs_fseeko offset whence fl = Inr (0, fl')"
    using ino by (simp add: bsfs_fseeko_def Let_def fl'_def target_def)
  have "file_rel ctx ino table blk fl' (min (unat (isize ino)) (unat target))
     \<and> eof fl' = (unat (isize ino) \<le> min (unat (isize ino)) (unat target))"
    using rel by (auto simp: fl'_def file_rel_def l1_ok_def word_le_nat_alt)
  then show ?thesis using run sp by auto
qed

text \<open>Every sequence of reads and seeks follows the specification.\<close>

lemma run_ops_refines:
  assumes "file_stores ctx ino table blk" "file_rel ctx ino table blk fl pos"
    "within_blocks (bsz ctx) (unat (isize ino)) ops pos"
  shows "run_ops ctx ops fl = Inr (spec_ops (file_data ctx ino blk) ops pos)"
  using assms(2,3)
proof (induction ops arbitrary: fl pos)
  case (Cons op ops)
  have len: "length (file_data ctx ino blk) = unat (isize ino)" by (rule file_data_length [OF assms(1)])
  show ?case
  proof (cases op)
    case (Read sz count)
    let ?n = "min (unat sz * unat count) (unat (isize ino) - pos)"
    have wb: "unat sz * unat count < 2 ^ 31" "pos mod bsz ctx + ?n \<le> bsz ctx"
      "within_blocks (bsz ctx) (unat (isize ino)) ops (pos + ?n)"
      using Cons.prems(2) Read by (simp_all add: Let_def)
    obtain fl' where rd: "bsfs_fread ctx sz count fl = Inr (int ?n, take ?n (drop pos (file_data ctx ino blk)), fl')"
      and rel: "file_rel ctx ino table blk fl' (pos + ?n)"
      using bsfs_fread_refines [OF assms(1) Cons.prems(1) wb(1) refl wb(2)] by blast
    have out: "take ?n (drop pos (file_data ctx ino blk)) = take (unat sz * unat count) (drop pos (file_data ctx ino blk))"
      by (simp add: min_def len)
    show ?thesis using Read rd [unfolded out] Cons.IH [OF rel wb(3)] by (simp add: Let_def len min.commute)
  next
    case (Seek offset whence)
    obtain fl' where sk: "bsfs_fseeko offset whence fl = Inr (0, fl')"
      and rel: "file_rel ctx ino table blk fl' (seek_spec (unat (isize ino)) offset whence pos)"
      using bsfs_fseeko_refines [OF Cons.prems(1)] by blast
    show ?thesis using Seek sk Cons.IH [OF rel] Cons.prems(2) by (simp add: len)
  qed
qed simp

text \<open>A small file: one sector per block, every byte of it 7.\<close>

definition small_header :: BsfsHeader where
  "small_header = example_header\<lparr>block_size := 512\<rparr>"

definition small_context :: "u64 BsfsContext" where
  "small_context = \<lparr>header = small_header, disk_read = (\<lambda>lba n. (1, replicate 512 7)),
     phys_sector_size = 512, scratch_buf_size = 4096\<rparr>"

definition small_inode :: BsfsInode where
  "small_inode = example_inode\<lparr>isize := 5, iblocks := 1\<rparr>"

definition small_file :: BsfsFile where
  "small_file = \<lparr>inode = Some small_inode, buf = replicate 512 0, bufsize = 512, position = 0, cached_block = UINT32_MAX,
     l1_table = replicate 512 0, cached_l1 = UINT32_MAX, l2_table = [], cached_l2 = UINT32_MAX,
     l3_table = [], cached_l3 = UINT32_MAX, eof = False\<rparr>"

lemma small_bsz: "bsz small_context = 512"
  by (simp add: bsz_def small_context_def small_header_def)

lemma small_nblocks: "nblocks small_context small_inode = 1"
  by (simp add: nblocks_def small_bsz small_inode_def)

lemma small_stores: "file_stores small_context small_inode (replicate 512 7) (\<lambda>i. replicate 512 7)"
proof -
  have "geometry small_context small_inode"
    unfolding geometry_def small_bsz small_nblocks by (simp add: small_context_def small_inode_def)
  moreover have "disk_read small_context lba n = (1, replicate 512 7)" for lba n by (simp add: small_context_def)
  ultimately show ?thesis by (simp add: file_stores_def small_bsz)
qed

lemma small_rel: "file_rel small_context small_inode (replicate 512 7) (\<lambda>i. replicate 512 7) small_file 0"
proof -
  have "bufsize small_file = block_size (header small_context)"
    by (simp add: small_file_def small_context_def small_header_def)
  then show ?thesis
    unfolding file_rel_def l1_ok_def small_bsz small_nblocks
    by (simp add: small_file_def UINT32_MAX_def)
qed

lemma small_data: "file_data small_context small_inode (\<lambda>i. replicate 512 7) = [7, 7, 7, 7, 7]"
proof -
  have "unat (isize small_inode) = 5" by (simp add: small_inode_def)
  then have "file_data small_context small_inode (\<lambda>i. replicate 512 7) = replicate 5 7"
    by (simp add: file_data_def small_nblocks)
  then show ?thesis by (simp add: eval_nat_numeral)
qed

lemma cached_MAX: "c < nblocks ctx ino \<Longrightarrow> geometry ctx ino \<Longrightarrow> (UINT32_MAX :: u32) \<noteq> of_nat c"
proof
  assume c: "c < nblocks ctx ino" and geo: "geometry ctx ino" and eq: "UINT32_MAX = (of_nat c :: u32)"
  have "bsz ctx \<le> 8 * unat (phys_sector_size ctx)" "unat (phys_sector_size ctx) < 2 ^ 28"
    "nblocks ctx ino \<le> 10 + bsz ctx div 4" using geo by (simp_all add: geometry_def)
  moreover have "bsz ctx div 4 \<le> bsz ctx" by simp
  ultimately have small: "c < 2 ^ 32 - 1" using c by simp
  then have "unat (of_nat c :: u32) = c" by (intro unat_of_nat_small) simp
  moreover have "unat UINT32_MAX = 2 ^ 32 - 1" by (simp add: UINT32_MAX_def unat_minus_1)
  ultimately show False using eq small by simp
qed

lemma bsfs_fopen_rel:
  assumes op: "bsfs_fopen ctx path fl0 = Inr (0, fl)" and ino: "inode fl = Some ino"
    and geo: "geometry ctx ino" and bufs: "bufsize fl0 = block_size (header ctx)" "bsz ctx \<le> length (buf fl0)"
      "bsz ctx \<le> length (l1_table fl0)"
  shows "file_rel ctx ino table blk fl 0 \<and> \<not> eof fl"
proof -
  have fl: "fl = fl0\<lparr>inode := Some ino, position := 0, eof := False, cached_block := UINT32_MAX,
      cached_l1 := UINT32_MAX, cached_l2 := UINT32_MAX, cached_l3 := UINT32_MAX\<rparr>"
  proof -
    obtain idx r where idx: "bsfs_resolve_path ctx path = Inr idx" "idx \<noteq> UINT32_MAX"
      and r: "bsfs_read_inode ctx idx = Inr r"
      using op by (auto simp: bsfs_fopen_def andthen_eq_Inr_iff bsfs_codes split: if_splits)
    then obtain ino' where "r = Inr ino'"
      using op by (cases r) (auto simp: bsfs_fopen_def bsfs_codes)
    then show ?thesis using op ino idx r
      by (auto simp: bsfs_fopen_def Let_def bsfs_codes split: if_splits)
  qed
  have "UINT32_MAX \<noteq> of_nat c" if "c < nblocks ctx ino" for c
    using cached_MAX [OF that geo] .
  then show ?thesis using bufs by (simp add: fl file_rel_def l1_ok_def)
qed

text \<open>C3: reads and seeks on a file that has been opened behave as on a list of bytes with a position, from the
  beginning of the file: while no read crosses the end of a block, every read returns exactly the
  bytes of the file at the position, up to the end of the file, and no call fails.\<close>

theorem bsfs_file_refines:
  assumes "bsfs_fopen ctx path fl0 = Inr (0, fl)" "inode fl = Some ino" "file_stores ctx ino table blk"
    "bufsize fl0 = block_size (header ctx)" "bsz ctx \<le> length (buf fl0)" "bsz ctx \<le> length (l1_table fl0)"
    "within_blocks (bsz ctx) (unat (isize ino)) ops 0"
  shows "run_ops ctx ops fl = Inr (spec_ops (file_data ctx ino blk) ops 0)"
proof -
  have "geometry ctx ino" using assms(3) by (simp add: file_stores_def)
  then have "file_rel ctx ino table blk fl 0" using bsfs_fopen_rel [OF assms(1,2)] assms(4-6) by blast
  then show ?thesis using run_ops_refines [OF assms(3)] assms(7) by blast
qed

text \<open>A disk whose directory block and inode table hold the file: every sector starts with a directory entry
  for inode 1 named \<open>a\<close>, and the second inode of every sector is the file.\<close>

definition open_entry :: BsfsDirent where
  "open_entry = \<lparr>dinode = 1, dname = 0x61 # replicate 123 0\<rparr>"

definition open_inode :: BsfsInode where
  "open_inode = small_inode\<lparr>blocks_direct := replicate 10 5\<rparr>"

definition open_sector :: "u8 list" where
  "open_sector = dirent_bytes open_entry @ inode_bytes open_inode @ replicate 256 0"

definition open_context :: "u64 BsfsContext" where
  "open_context = small_context\<lparr>header := small_header\<lparr>root_inode := 1\<rparr>, disk_read := (\<lambda>lba n. (1, open_sector))\<rparr>"

lemma open_wf: "dirent_wf open_entry" "inode_wf open_inode"
  by (simp_all add: dirent_wf_def inode_wf_def open_entry_def open_inode_def small_inode_def example_inode_def bsfs_consts)

lemma open_sector_fields:
  "length open_sector = 512" "field 0 128 open_sector = dirent_bytes open_entry"
  "field 128 128 open_sector = inode_bytes open_inode"
  using length_dirent_bytes [OF open_wf(1)] length_inode_bytes [OF open_wf(2)]
  by (simp_all add: open_sector_def field_append)

lemma open_context_simps:
  "bsz open_context = 512" "block_size (header open_context) = 512" "phys_sector_size open_context = 512"
  "scratch_buf_size open_context = 4096" "root_inode (header open_context) = 1"
  "inode_table_start (header open_context) = 20" "disk_read open_context lba n = (1, open_sector)"
  by (simp_all add: bsz_def open_context_def small_context_def small_header_def example_header_def)

lemma open_read_inode: "bsfs_read_inode open_context 1 = Inr (Inr open_inode)"
  by (simp add: bsfs_read_inode_def open_context_simps open_sector_fields inode_roundtrip open_wf)

lemma open_resolve: "bsfs_resolve_path open_context [0x2F, 0x61] = Inr 1"
proof -
  have "c_string (dname open_entry) = [0x61]" by (simp add: c_string_def open_entry_def)
  moreover have "dirents 4 open_sector = open_entry # map (\<lambda>d. dirent_of_bytes (field (128 * d) 128 open_sector)) [1..<4]"
    by (simp add: dirents_def upt_rec [of 0] open_sector_fields dirent_roundtrip open_wf)
  moreover have "blocks_direct open_inode = replicate 10 5" by (simp add: open_inode_def)
  then have "blocks_direct open_inode = 5 # replicate 9 5" by (simp add: eval_nat_numeral)
  ultimately have "dir_lookup open_context [0x61] (blocks_direct open_inode) = Inr (Some 1)"
    by (simp add: open_context_simps open_sector_fields) (simp add: open_entry_def)
  moreover have "resolve_names open_context [] 1 = Inr 1" by (subst resolve_names.simps) simp
  ultimately have "resolve_names open_context [0x61] 1 = Inr 1"
    by (subst resolve_names.simps) (simp add: open_read_inode bsfs_consts)
  then show ?thesis by (simp add: bsfs_resolve_path_def open_context_simps)
qed

lemma open_file: "bsfs_fopen open_context [0x2F, 0x61] small_file = Inr (0, small_file\<lparr>inode := Some open_inode\<rparr>)"
  unfolding bsfs_fopen_def open_resolve andthen_simps open_read_inode
  by (simp add: open_context_simps open_read_inode Let_def)
    (simp add: small_file_def open_inode_def small_inode_def example_inode_def bsfs_consts bsfs_codes Let_def)

lemma open_stores: "file_stores open_context open_inode open_sector (\<lambda>i. open_sector)"
proof -
  have "nblocks open_context open_inode = 1"
    by (simp add: nblocks_def open_context_simps open_inode_def small_inode_def)
  moreover have "geometry open_context open_inode"
    unfolding geometry_def calculation open_context_simps by (simp add: open_inode_def small_inode_def)
  ultimately show ?thesis by (simp add: file_stores_def open_context_simps open_sector_fields)
qed

theorem bsfs_file_refines_witness:
  "run_ops open_context [Read 1 3, Seek 1 (- 1), Read 1 9] (small_file\<lparr>inode := Some open_inode\<rparr>) =
     Inr [(3, [1, 0, 0]), (0, []), (4, [0, 0, 0, 0x61])]"
proof -
  have "nblocks open_context open_inode = 1" "unat (isize open_inode) = 5"
    by (simp_all add: nblocks_def open_context_simps open_inode_def small_inode_def)
  then have "file_data open_context open_inode (\<lambda>i. open_sector) = take 5 open_sector"
    by (simp add: file_data_def)
  moreover have "take 5 open_sector = [1, 0, 0, 0, 0x61]"
    by (simp add: open_sector_def dirent_bytes_def open_entry_def eval_nat_numeral)
  ultimately have "file_data open_context open_inode (\<lambda>i. open_sector) = [1, 0, 0, 0, 0x61]" by simp
  then show ?thesis
    using bsfs_file_refines [OF open_file _ open_stores, of "[Read 1 3, Seek 1 (- 1), Read 1 9]"]
    by (simp add: open_context_simps small_file_def open_inode_def small_inode_def Let_def seek_spec_def bsfs_codes)
qed

section \<open>Checksums\<close>

lemma checksum_loop_ok:
  assumes fs: "file_stores ctx ino table blk" and n: "unat n = bsz ctx"
  shows "\<lbrakk>file_rel ctx ino table blk fl pos; \<not> eof fl; pos mod bsz ctx = 0\<rbrakk> \<Longrightarrow>
     \<exists>fl'. checksum_loop ctx n crc fl = Some (Inr (0, crc32_update crc (drop pos (file_data ctx ino blk)), fl'))
       \<and> inode fl' = Some ino"
proof (induction "unat (isize ino) - pos" arbitrary: fl pos crc rule: less_induct)
  case less
  let ?b = "bsz ctx" and ?size = "unat (isize ino)" and ?data = "file_data ctx ino blk"
  let ?m = "min ?b (?size - pos)"
  have geo: "geometry ctx ino" using fs by (simp add: file_stores_def)
  have b: "0 < ?b" "?b < 2 ^ 31" using geo by (auto simp: geometry_def)
  have len: "length ?data = ?size" by (rule file_data_length [OF fs])
  have pos: "pos \<le> ?size" using less.prems(1) by (simp add: file_rel_def)
  obtain fl1 where rd: "bsfs_fread ctx 1 n fl = Inr (int ?m, take ?m (drop pos ?data), fl1)"
    and rel: "file_rel ctx ino table blk fl1 (pos + ?m)" and ef: "eof fl1 = (?size \<le> pos + ?m)"
    using bsfs_fread_refines [OF fs less.prems(1), of 1 n ?m] n b(2) less.prems(3) by auto
  have step: "checksum_loop ctx n crc fl = checksum_loop ctx n (crc32_update crc (take ?m (drop pos ?data))) fl1"
    using less.prems(2) rd by (subst checksum_loop.simps) simp
  show ?case
  proof (cases "?size \<le> pos + ?m")
    case True
    then have "take ?m (drop pos ?data) = drop pos ?data" using len by simp
    moreover have "eof fl1" using ef True by blast
    then have "checksum_loop ctx n c fl1 = Some (Inr (0, c, fl1))" for c
      by (subst checksum_loop.simps) simp
    ultimately show ?thesis using step rel by (simp add: file_rel_def)
  next
    case False
    then have m: "?m = ?b" by linarith
    have lt: "?size - (pos + ?m) < ?size - pos" using False b m by simp
    have al: "(pos + ?m) mod ?b = 0" using less.prems(3) m by simp
    have "\<not> eof fl1" using ef False by simp
    from less.hyps [OF lt rel this al, of "crc32_update crc (take ?m (drop pos ?data))"]
    obtain fl' where
      "checksum_loop ctx n (crc32_update crc (take ?m (drop pos ?data))) fl1 =
         Some (Inr (0, crc32_update (crc32_update crc (take ?m (drop pos ?data))) (drop (pos + ?m) ?data), fl'))"
      "inode fl' = Some ino"
      by blast
    moreover have "crc32_update (crc32_update crc (take ?m (drop pos ?data))) (drop (pos + ?m) ?data)
        = crc32_update crc (drop pos ?data)"
    proof -
      have "drop (pos + ?m) ?data = drop ?m (drop pos ?data)" by (simp only: drop_drop add.commute)
      then show ?thesis by (simp only: crc32_update_append [symmetric] append_take_drop_id)
    qed
    ultimately show ?thesis using step by auto
  qed
qed

text \<open>C28: checking a file from its beginning, one block at a time, ends; the result is 1 when the CRC-32 of
  the bytes of the file is the checksum in the inode, and the checksum error otherwise.\<close>

theorem bsfs_verify_checksum_correct:
  assumes "file_stores ctx ino table blk" "file_rel ctx ino table blk fl 0" "\<not> eof fl" "unat n = bsz ctx"
  shows "\<exists>fl'. bsfs_verify_checksum ctx fl n = Some (Inr
     (if crc32 (file_data ctx ino blk) = checksum ino then 1 else BSFS_CHECKSUM_FAILED, fl'))"
proof -
  have n: "unat (ucast n :: u32) = bsz ctx"
    using assms(4) unat_lt2p [of "block_size (header ctx)"] by (simp add: unat_ucast_down bsz_def)
  obtain fl' where
    "checksum_loop ctx (ucast n) 0xFFFFFFFF fl = Some (Inr (0, crc32_update 0xFFFFFFFF (file_data ctx ino blk), fl'))"
    "inode fl' = Some ino"
    using checksum_loop_ok [OF assms(1) n assms(2,3), of "0xFFFFFFFF"] by auto
  then show ?thesis by (auto simp: bsfs_verify_checksum_def crc32_oneshot)
qed

theorem bsfs_verify_checksum_correct_witness:
  "\<exists>fl'. bsfs_verify_checksum small_context small_file 512 = Some (Inr
     (if crc32 [7, 7, 7, 7, 7] = 0xCAFE then 1 else BSFS_CHECKSUM_FAILED, fl'))"
proof -
  have "\<not> eof small_file" "checksum small_inode = 0xCAFE"
    by (simp_all add: small_file_def small_inode_def example_inode_def)
  then show ?thesis
    using bsfs_verify_checksum_correct [OF small_stores small_rel, of 512] by (simp add: small_data small_bsz)
qed

section \<open>A read across a block boundary\<close>

text \<open>C29: after a read that ends in the middle of the next block, that block is cached in the second half of the
  buffer, but the following read looks for it at the start of the buffer. Reading a
  file from an unaligned offset in block-sized pieces, as the boot loader
  does with a segment of the kernel, returns bytes of the first block twice: the second piece
  starts with the end of block 0, not of block 1.\<close>

theorem bsfs_fread_stale_block:
  assumes fs: "file_stores ctx ino table blk" and ino: "inode fl = Some ino" and l1: "l1_ok ctx table fl"
    and fresh: "cached_block fl = UINT32_MAX" and bufsz: "bufsize fl = block_size (header ctx)"
    and room: "length (buf fl) = 2 * bsz ctx" and pos: "unat (position fl) = pos" "0 < pos" "pos < bsz ctx"
    and size: "pos + 2 * bsz ctx \<le> unat (isize ino)"
  shows "\<exists>fl1 fl2. bsfs_fread ctx 1 (block_size (header ctx)) fl =
       Inr (int (bsz ctx), drop pos (blk 0) @ take pos (blk 1), fl1) \<and>
     bsfs_fread ctx 1 (block_size (header ctx)) fl1 =
       Inr (int (bsz ctx), drop pos (blk 0) @ take pos (blk 2), fl2) \<and>
     take (bsz ctx) (drop (pos + bsz ctx) (file_data ctx ino blk)) = drop pos (blk 1) @ take pos (blk 2)"
proof -
  let ?b = "bsz ctx" and ?data = "file_data ctx ino blk"
  have geo: "geometry ctx ino" using fs by (simp add: file_stores_def)
  have b8: "?b \<le> 8 * unat (phys_sector_size ctx)" and b0: "0 < ?b" using geo by (simp_all add: geometry_def)
  have b31: "?b < 2 ^ 31" using geo by (auto simp: geometry_def)
  have N: "2 < nblocks ctx ino" using nblocks_iff [OF b0, of 2 ino] size pos by simp
  have lb: "length (blk i) = ?b" if "i \<le> 2" for i using fs that N by (simp add: file_stores_def)
  have req: "unat (1 :: u32) * unat (block_size (header ctx)) = ?b" by (simp add: bsz_def)
  have e0: "(pos + ?b + ?b - 1) div ?b = 2" "(pos + ?b + ?b + ?b - 1) div ?b = 3"
    using pos by (auto intro!: div_nat_eqI)
  have d1: "(pos + ?b) div ?b = 1" "(pos + ?b) mod ?b = pos" using pos by (auto intro: div_nat_eqI)
  have up: "[0..<2] = [0, 1 :: nat]" "[1..<3] = [1, 2 :: nat]" by (simp_all add: upt_rec)
  have len1: "read_len ino fl pos ?b = ?b" using bufsz size by (simp add: read_len_def bsz_def)
  have cache: "cached_at ctx blk (c - 0) c fl" if "0 \<le> c" "c < 2" "cached_block fl = of_nat c" for c
    using cached_MAX [of c ctx ino] that N geo fresh by simp
  obtain t c b1 cb where
    rd1: "bsfs_fread ctx 1 (block_size (header ctx)) fl = Inr (int ?b, take ?b (drop pos ?data),
         fl\<lparr>l1_table := t, cached_l1 := c, buf := b1, cached_block := cb,
            position := of_nat (pos + ?b), eof := unat (isize ino) \<le> pos + ?b\<rparr>)"
    and p1: "l1_ok ctx table (fl\<lparr>l1_table := t, cached_l1 := c\<rparr>)" "length b1 = length (buf fl)"
      "take ((2 - 0) * ?b) b1 = concat (map blk [0..<2])"
      "cb = (if (0::nat) < 2 then of_nat (2 - 1) else cached_block fl)"
  proof -
    have a: "pos \<le> unat (isize ino)" "unat (1 :: u32) * unat (block_size (header ctx)) < 2 ^ 31"
      "?b = read_len ino fl pos (unat (1 :: u32) * unat (block_size (header ctx)))"
      "0 = pos div ?b" "2 = (pos + ?b + ?b - 1) div ?b" "(2 - 0) * ?b \<le> length (buf fl)"
      using size req len1 b31 e0(1) room pos by simp_all
    from bsfs_fread_ok [OF fs ino l1 pos(1) a(1,2,3) b8 a(4,5,6) cache]
    show ?thesis using that by blast
  qed
  have b1: "b1 = blk 0 @ blk 1" using p1(2,3) room up(1) by simp
  have out1: "take ?b (drop pos ?data) = drop pos (blk 0) @ take pos (blk 1)"
    using buffer_slice [OF fs refl, of pos ?b 0 2 b1] p1(3) e0(1) pos size lb [of 0] lb [of 1] by (simp add: b1)
  define fl1 where "fl1 = fl\<lparr>l1_table := t, cached_l1 := c, buf := b1, cached_block := cb,
            position := of_nat (pos + ?b), eof := unat (isize ino) \<le> pos + ?b\<rparr>"
  have l11: "l1_ok ctx table fl1" using p1(1) by (simp add: l1_ok_def fl1_def)
  have f1: "inode fl1 = Some ino" "cached_block fl1 = 1" "buf fl1 = blk 0 @ blk 1"
    using ino p1(4) b1 by (simp_all add: fl1_def)
  have pos1: "unat (position fl1) = pos + ?b"
  proof -
    have "unat (of_nat (pos + ?b) :: u64) = pos + ?b" using pos(3) b31 by (intro unat_of_nat_small) simp
    then show ?thesis by (simp add: fl1_def)
  qed
  have len2: "read_len ino fl1 (pos + ?b) ?b = ?b" using bufsz size by (simp add: read_len_def bsz_def fl1_def)
  have fits: "?b + ?b \<le> length (buf fl1)" using f1(3) lb [of 0] lb [of 1] by simp
  obtain t2 c2 where
    "fread_block ctx ino (of_nat 2) ?b fl1 = Inr (None, fl1\<lparr>l1_table := t2, cached_l1 := c2,
       buf := take ?b (buf fl1) @ blk 2 @ drop (?b + ?b) (buf fl1), cached_block := of_nat 2\<rparr>)"
    using fread_block_ok [OF fs l11 N fits] by blast
  then have loop: "fread_loop ctx ino (map of_nat [1..<3]) 0 fl1 = Inr (None, fl1\<lparr>l1_table := t2, cached_l1 := c2,
       buf := blk 0 @ blk 2, cached_block := 2\<rparr>)"
    using f1 lb [of 0] lb [of 1] unfolding up(2) by (simp add: bsz_def)
  have rd2: "bsfs_fread ctx 1 (block_size (header ctx)) fl1 = Inr (int ?b, take ?b (drop pos (blk 0 @ blk 2)),
     fl1\<lparr>l1_table := t2, cached_l1 := c2, buf := blk 0 @ blk 2, cached_block := 2,
       position := of_nat (pos + ?b + ?b), eof := unat (isize ino) \<le> pos + ?b + ?b\<rparr>)"
  proof -
    have a: "pos + ?b \<le> unat (isize ino)" "unat (1 :: u32) * unat (block_size (header ctx)) < 2 ^ 31"
      "?b = read_len ino fl1 (pos + ?b) (unat (1 :: u32) * unat (block_size (header ctx)))"
      "1 = (pos + ?b) div ?b" "3 = (pos + ?b + ?b + ?b - 1) div ?b"
      using size req len2 b31 e0(2) d1 by simp_all
    from bsfs_fread_eval [OF geo f1(1) pos1 a(1,2,3) b8 a(4,5) loop]
    show ?thesis using d1 lb [of 0] lb [of 2] pos by (simp add: add.assoc)
  qed
  have out2: "take ?b (drop pos (blk 0 @ blk 2)) = drop pos (blk 0) @ take pos (blk 2)"
    using lb [of 0] lb [of 2] pos by simp
  have "take ?b (drop (pos + ?b) ?data) = drop pos (blk 1) @ take pos (blk 2)"
    using buffer_slice [OF fs refl, of "pos + ?b" ?b 1 3 "blk 1 @ blk 2"] up(2) e0(2) d1 pos size lb [of 1] lb [of 2]
    by simp
  with rd1 [folded fl1_def, unfolded out1] rd2 [unfolded out2] show ?thesis by blast
qed

definition stale_context :: "u64 BsfsContext" where
  "stale_context = small_context\<lparr>disk_read := (\<lambda>lba n. (1, replicate 512 (ucast lba)))\<rparr>"

definition stale_inode :: BsfsInode where
  "stale_inode = example_inode\<lparr>isize := 1536, iblocks := 3, blocks_direct := [40, 41, 42, 0, 0, 0, 0, 0, 0, 0]\<rparr>"

definition stale_file :: BsfsFile where
  "stale_file = small_file\<lparr>inode := Some stale_inode, buf := replicate 1024 0, position := 12\<rparr>"

lemma stale_bsz: "bsz stale_context = 512" "block_size (header stale_context) = 512" "phys_sector_size stale_context = 512"
  by (simp_all add: bsz_def stale_context_def small_context_def small_header_def)

lemma stale_nblocks: "nblocks stale_context stale_inode = 3"
  by (simp add: nblocks_def stale_bsz stale_inode_def)

lemma stale_stores: "file_stores stale_context stale_inode (replicate 512 0) (\<lambda>i. replicate 512 (40 + of_nat i))"
proof -
  have rd: "disk_read stale_context lba n = (1, replicate 512 (ucast lba))" for lba n by (simp add: stale_context_def)
  have lba: "block_lba stale_context b = b" if "unat b < 100" for b
  proof -
    have "unat (b * 512) = unat b * 512" using that by (subst unat_mult_small) simp_all
    then have "unat (b * 512 div 512) = unat b" by (simp add: unat_div)
    then have "b * 512 div 512 = b" by (simp only: word_unat_eq_iff)
    then show ?thesis by (simp only: block_lba_def stale_bsz)
  qed
  have "geometry stale_context stale_inode"
    unfolding geometry_def stale_bsz stale_nblocks by (simp add: stale_inode_def)
  moreover have "disk_read stale_context (block_lba stale_context (blocks_l1indirect stale_inode)) n = (1, replicate 512 0)" for n
    by (subst lba) (simp_all add: stale_inode_def example_inode_def rd)
  moreover have "disk_read stale_context (block_lba stale_context (block_number stale_inode t i)) n
      = (1, replicate 512 (40 + of_nat i))" if "i < 3" for i n t
  proof -
    have "i = 0 \<or> i = 1 \<or> i = 2" using that by auto
    then show ?thesis by (elim disjE) (simp_all add: block_number_def stale_inode_def lba rd)
  qed
  ultimately show ?thesis by (simp add: file_stores_def stale_bsz stale_nblocks)
qed

theorem bsfs_fread_stale_block_witness:
  "\<exists>fl1 fl2. bsfs_fread stale_context 1 512 stale_file = Inr (512, replicate 500 40 @ replicate 12 41, fl1) \<and>
     bsfs_fread stale_context 1 512 fl1 = Inr (512, replicate 500 40 @ replicate 12 42, fl2)"
proof -
  have f: "inode stale_file = Some stale_inode" "l1_ok stale_context (replicate 512 0) stale_file"
    "cached_block stale_file = UINT32_MAX" "bufsize stale_file = block_size (header stale_context)"
    "length (buf stale_file) = 2 * bsz stale_context" "unat (position stale_file) = 12"
    "12 + 2 * bsz stale_context \<le> unat (isize stale_inode)"
    by (simp_all add: stale_file_def small_file_def l1_ok_def stale_bsz stale_inode_def)
  from bsfs_fread_stale_block [OF stale_stores f(1-6) _ _ f(7)] show ?thesis
    by (simp add: stale_bsz) blast
qed

section \<open>Paths\<close>

text \<open>The path of a list of names, and the walk through the directories with these names.\<close>

definition path_of :: "u8 list list \<Rightarrow> u8 list" where
  "path_of names = concat (map (\<lambda>n. 0x2F # n) names)"

definition valid_name :: "u8 list \<Rightarrow> bool" where
  "valid_name n \<longleftrightarrow> n \<noteq> [] \<and> 0x2F \<notin> set n \<and> length n < BSFS_MAX_DIRENTNAME"

fun walk_names :: "u64 BsfsContext \<Rightarrow> u8 list list \<Rightarrow> u32 \<Rightarrow> u32 kres" where
  "walk_names ctx [] idx = Inr idx"
| "walk_names ctx (n # ns) idx =
     andthen (bsfs_read_inode ctx idx) (\<lambda>r. case r of
       Inl e \<Rightarrow> Inr UINT32_MAX
     | Inr dir \<Rightarrow> andthen (dir_lookup ctx n (blocks_direct dir)) (\<lambda>found. case found of
         None \<Rightarrow> Inr UINT32_MAX
       | Some idx' \<Rightarrow> walk_names ctx ns idx'))"

lemma path_name_prefix:
  assumes "0x2F \<notin> set n" "length acc + length n < BSFS_MAX_DIRENTNAME" "rest = [] \<or> hd rest = 0x2F"
  shows "path_name (n @ rest) acc = Some (acc @ n, rest)"
  using assms
proof (induction n arbitrary: acc)
  case Nil
  then show ?case by (cases rest) simp_all
qed (auto simp: bsfs_consts)

lemma path_of_shape: "path_of names = [] \<or> hd (path_of names) = 0x2F"
  by (cases names) (simp_all add: path_of_def)

declare resolve_names.simps [simp del]

lemma resolve_names_path:
  "\<lbrakk>valid_name n; list_all valid_name ns\<rbrakk> \<Longrightarrow>
     resolve_names ctx (n @ path_of ns) idx = walk_names ctx (n # ns) idx"
proof (induction ns arbitrary: n idx)
  case Nil
  have "path_name (n @ []) [] = Some ([] @ n, [])"
    using Nil by (intro path_name_prefix) (simp_all add: valid_name_def)
  moreover have "resolve_names ctx [] = walk_names ctx []"
    by (rule ext, subst resolve_names.simps) simp
  ultimately show ?case using Nil
    by (subst resolve_names.simps) (simp add: path_of_def valid_name_def)
next
  case (Cons m ns)
  have "path_name (n @ path_of (m # ns)) [] = Some ([] @ n, path_of (m # ns))"
    using Cons.prems path_of_shape by (intro path_name_prefix) (simp_all add: valid_name_def)
  moreover have "drop 1 (path_of (m # ns)) = m @ path_of ns" by (simp add: path_of_def)
  moreover have "resolve_names ctx (m @ path_of ns) = walk_names ctx (m # ns)"
    by (rule ext, rule Cons.IH) (use Cons.prems in simp_all)
  ultimately show ?case using Cons.prems(1)
    by (subst resolve_names.simps) (simp add: valid_name_def del: walk_names.simps(2), simp)
qed



end
