(* ===== verification/Stage2Bsfs.thy ===== *)
theory Stage2Bsfs
  imports BsfsSpec
begin

text \<open>
  The boot loader's copy of the BSFS driver, boot/stage2/stage2_bsfs.c, compiled with a 32-bit
  \<^verbatim>\<open>size_t\<close>. It is proved to do what the kernel's driver does on the same disk, so
  what is proved of the kernel's driver holds in the boot loader.
\<close>

section \<open>Inodes and paths\<close>

definition stage2_bsfs_read_inode :: "u32 BsfsContext \<Rightarrow> u32 \<Rightarrow> (int + BsfsInode) kres" where
  "stage2_bsfs_read_inode ctx inode_idx =
     (let inode_offset = inode_table_start (header ctx) * block_size (header ctx) + 128 * inode_idx in
      if phys_sector_size ctx = 0 then Inl Fault
      else
        let inode_sector_lba = inode_offset div phys_sector_size ctx;
            (ok, data) = disk_read ctx inode_sector_lba 1
        in if length data > unat (scratch_buf_size ctx) then Inl Fault
           else if ok = 0 then Inr (Inl BSFS_DISK_READ_ERROR)
           else Inr (Inr (inode_of_bytes
             (field (128 * unat (inode_offset mod phys_sector_size ctx div 128)) 128 data))))"

text \<open>One component of the path: the characters up to the next slash, and what follows them.\<close>

fun stage2_path_name :: "u8 list \<Rightarrow> u8 list \<Rightarrow> (u8 list \<times> u8 list) option" where
  "stage2_path_name [] name_tmp = Some (name_tmp, [])"
| "stage2_path_name (ch # rest) name_tmp =
     (if ch = 0x2F then Some (name_tmp, ch # rest)
      else if length name_tmp \<ge> BSFS_MAX_DIRENTNAME - 1 then None
      else stage2_path_name rest (name_tmp @ [ch]))"

text \<open>\<open>None\<close> is the return of \<^verbatim>\<open>UINT32_MAX\<close>: the name is not there, or the disk failed.\<close>

fun stage2_dir_lookup :: "u32 BsfsContext \<Rightarrow> u8 list \<Rightarrow> u32 list \<Rightarrow> u32 option kres" where
  "stage2_dir_lookup ctx name_tmp [] = Inr None"
| "stage2_dir_lookup ctx name_tmp (dirent_block_idx # blocks) =
     (if dirent_block_idx = 0 then stage2_dir_lookup ctx name_tmp blocks
      else if phys_sector_size ctx = 0 then Inl Fault
      else
        let dirent_block_offset = dirent_block_idx * block_size (header ctx);
            dirent_sector_lba = dirent_block_offset div phys_sector_size ctx;
            (ok, data) = disk_read ctx dirent_sector_lba
               (block_size (header ctx) div phys_sector_size ctx)
        in if length data > unat (scratch_buf_size ctx) then Inl Fault
           else if ok = 0 then Inr None
           else case find (\<lambda>dirent. c_string (dname dirent) = name_tmp)
                       (dirents (unat (block_size (header ctx)) div 128) data) of
              Some dirent \<Rightarrow> Inr (Some (dinode dirent))
            | None \<Rightarrow> stage2_dir_lookup ctx name_tmp blocks)"

lemma stage2_path_name_shorter: "stage2_path_name cs acc = Some (n, rest) \<Longrightarrow> length rest \<le> length cs"
  by (induction cs acc rule: stage2_path_name.induct) (auto split: if_splits)

function stage2_resolve_names :: "u32 BsfsContext \<Rightarrow> u8 list \<Rightarrow> u32 \<Rightarrow> u32 kres" where
  "stage2_resolve_names ctx rest current_inode_idx =
     (if rest = [] then Inr current_inode_idx
      else case stage2_path_name rest [] of
        None \<Rightarrow> Inr UINT32_MAX
      | Some (name_tmp, rest') \<Rightarrow>
          andthen (stage2_bsfs_read_inode ctx current_inode_idx) (\<lambda>r. case r of
            Inl e \<Rightarrow> Inr UINT32_MAX
          | Inr dir \<Rightarrow> andthen (stage2_dir_lookup ctx name_tmp (blocks_direct dir)) (\<lambda>found. case found of
              None \<Rightarrow> Inr UINT32_MAX
            | Some idx \<Rightarrow> stage2_resolve_names ctx (drop 1 rest') idx)))"
  by pat_completeness auto

termination stage2_resolve_names
proof (relation "measure (\<lambda>(ctx, rest, idx). length rest)")
  fix ctx :: "u32 BsfsContext" and rest rest' name_tmp and idx idx' :: u32 and p
  assume "rest \<noteq> []" and "stage2_path_name rest [] = Some p" and "(name_tmp, rest') = p"
  then have "length rest' \<le> length rest" "0 < length rest" using stage2_path_name_shorter by auto
  then show "((ctx, drop 1 rest', idx'), ctx, rest, idx) \<in> measure (\<lambda>(ctx, rest, idx). length rest)"
    by (simp only: in_measure case_prod_conv length_drop)
qed simp

definition stage2_bsfs_resolve_path :: "u32 BsfsContext \<Rightarrow> u8 list \<Rightarrow> u32 kres" where
  "stage2_bsfs_resolve_path ctx path =
     (if length path = 0 then Inr UINT32_MAX
      else if path ! 0 \<noteq> 0x2F then Inr UINT32_MAX
      else stage2_resolve_names ctx (drop 1 path) (root_inode (header ctx)))"

section \<open>Files\<close>

definition stage2_bsfs_fopen :: "u32 BsfsContext \<Rightarrow> u8 list \<Rightarrow> BsfsFile \<Rightarrow> (int \<times> BsfsFile) kres" where
  "stage2_bsfs_fopen ctx path file_out =
     andthen (stage2_bsfs_resolve_path ctx path) (\<lambda>inode_idx.
       if inode_idx = UINT32_MAX then Inr (BSFS_FOPEN_NOT_A_FILE, file_out)
       else andthen (stage2_bsfs_read_inode ctx inode_idx) (\<lambda>r. case r of
         Inl e \<Rightarrow> Inr (BSFS_DISK_READ_ERROR, file_out)
       | Inr ino \<Rightarrow>
           if inode file_out = None then Inl Fault
           else
             let file_out = file_out\<lparr>inode := Some ino\<rparr> in
             if itype ino \<noteq> BSFS_INODE_TYPE_FILE then Inr (BSFS_FOPEN_NOT_A_FILE, file_out)
             else if bufsize file_out < block_size (header ctx) then Inr (BSFS_FOPEN_BUF_TOO_SMALL, file_out)
             else if block_size (header ctx) = 0 then Inl Fault
             else if bufsize file_out mod block_size (header ctx) \<noteq> 0 then Inr (BSFS_FOPEN_BUF_UNALIGNED, file_out)
             else Inr (0, file_out\<lparr>position := 0, eof := False, cached_block := UINT32_MAX, cached_l1 := UINT32_MAX,
                          cached_l2 := UINT32_MAX, cached_l3 := UINT32_MAX\<rparr>)))"

text \<open>Reading block \<open>i\<close> of the file into the buffer at \<open>bufptr\<close>; the first result is the error code
  the function returns early with, if any.\<close>

definition stage2_fread_store :: "u32 BsfsContext \<Rightarrow> u32 \<Rightarrow> u32 \<Rightarrow> nat \<Rightarrow> BsfsFile \<Rightarrow> (int option \<times> BsfsFile) kres" where
  "stage2_fread_store ctx lba i bufptr file =
     (let (ok, data) = disk_read ctx lba (block_size (header ctx) div phys_sector_size ctx) in
      andthen (checked (store_at bufptr data (buf file))) (\<lambda>buf'.
        if ok = 0 then Inr (Some BSFS_FREAD_DISK_READ_ERROR, file\<lparr>buf := buf'\<rparr>)
        else Inr (None, file\<lparr>buf := buf', cached_block := i\<rparr>)))"

definition stage2_fread_l1_table :: "u32 BsfsContext \<Rightarrow> BsfsInode \<Rightarrow> BsfsFile \<Rightarrow> (int option \<times> BsfsFile) kres" where
  "stage2_fread_l1_table ctx ino file =
     (if cached_l1 file = UINT32_MAX then
        let lba = blocks_l1indirect ino * block_size (header ctx) div phys_sector_size ctx;
            (ok, data) = disk_read ctx lba (block_size (header ctx) div phys_sector_size ctx)
        in andthen (checked (store_at 0 data (l1_table file))) (\<lambda>table.
             if ok = 0 then Inr (Some BSFS_FREAD_DISK_READ_ERROR, file\<lparr>l1_table := table\<rparr>)
             else Inr (None, file\<lparr>l1_table := table, cached_l1 := blocks_l1indirect ino\<rparr>))
      else Inr (None, file))"

definition stage2_fread_block :: "u32 BsfsContext \<Rightarrow> BsfsInode \<Rightarrow> u32 \<Rightarrow> nat \<Rightarrow> BsfsFile \<Rightarrow> (int option \<times> BsfsFile) kres" where
  "stage2_fread_block ctx ino i bufptr file =
     (let bs = block_size (header ctx);
          l1_capacity = bs div 4;
          l1_indirect_start = 10;
          l2_indirect_start = l1_indirect_start + l1_capacity
      in if i < l1_indirect_start then
           let lba = blocks_direct ino ! unat i * bs div phys_sector_size ctx in
           stage2_fread_store ctx lba i bufptr file
         else if i < l2_indirect_start then
           andthen (stage2_fread_l1_table ctx ino file) (\<lambda>(err, file). case err of
             Some e \<Rightarrow> Inr (Some e, file)
           | None \<Rightarrow> andthen (checked (table_entry (l1_table file) (unat (i - l1_indirect_start)))) (\<lambda>block.
               let lba = block * bs div phys_sector_size ctx in
               stage2_fread_store ctx lba i bufptr file))
         else Inr (Some BSFS_FREAD_FILE_TOO_BIG, file))"

fun stage2_fread_loop :: "u32 BsfsContext \<Rightarrow> BsfsInode \<Rightarrow> u32 list \<Rightarrow> nat \<Rightarrow> BsfsFile \<Rightarrow> (int option \<times> BsfsFile) kres" where
  "stage2_fread_loop ctx ino [] bufptr file = Inr (None, file)"
| "stage2_fread_loop ctx ino (i # is) bufptr file =
     (if i = cached_block file
      then stage2_fread_loop ctx ino is (bufptr + unat (block_size (header ctx))) file
      else andthen (stage2_fread_block ctx ino i bufptr file) (\<lambda>(err, file). case err of
        Some e \<Rightarrow> Inr (Some e, file)
      | None \<Rightarrow> stage2_fread_loop ctx ino is (bufptr + unat (block_size (header ctx))) file))"

definition stage2_bsfs_fread :: "u32 BsfsContext \<Rightarrow> u32 \<Rightarrow> u32 \<Rightarrow> BsfsFile \<Rightarrow> (int \<times> u8 list \<times> BsfsFile) kres" where
  "stage2_bsfs_fread ctx sz count file = (case inode file of
     None \<Rightarrow> Inl Fault
   | Some ino \<Rightarrow>
       let bs = block_size (header ctx);
           start_offset = (ucast (position file) :: u32);
           end_offset = start_offset + sz * count;
           end_offset = (if ucast end_offset > isize ino then ucast (isize ino) else end_offset);
           end_offset = (if end_offset - start_offset > bufsize file then start_offset + bufsize file else end_offset);
           total_bytes_to_read = end_offset - start_offset
       in if total_bytes_to_read > DISK_READ_MAX_BLOCKS * phys_sector_size ctx
          then Inr (BSFS_FREAD_SIZE_TOO_BIG, [], file)
          else if phys_sector_size ctx = 0 \<or> bs = 0 then Inl Fault
          else
            let start_block = start_offset div bs;
                end_block = (end_offset + bs - 1) div bs
            in andthen (stage2_fread_loop ctx ino (map of_nat [unat start_block..<unat end_block]) 0 file)
                (\<lambda>(err, file). case err of
                   Some e \<Rightarrow> Inr (e, [], file)
                 | None \<Rightarrow>
                     let offset_in_buf = unat (start_offset mod bs);
                         n = unat total_bytes_to_read
                     in if offset_in_buf + n > length (buf file) then Inl Fault
                        else Inr (uint total_bytes_to_read, take n (drop offset_in_buf (buf file)),
                          file\<lparr>position := ucast end_offset, eof := isize ino \<le> ucast end_offset\<rparr>)))"

definition stage2_bsfs_fseeko :: "u64 \<Rightarrow> int \<Rightarrow> BsfsFile \<Rightarrow> (int \<times> BsfsFile) kres" where
  "stage2_bsfs_fseeko offset whence file = (case inode file of
     None \<Rightarrow> Inl Fault
   | Some ino \<Rightarrow>
       let file =
         (if whence = BSFS_FSEEKO_CUR then file\<lparr>position := position file + offset\<rparr>
          else if whence = BSFS_FSEEKO_SET then file\<lparr>position := offset\<rparr>
          else if whence = BSFS_FSEEKO_END then file\<lparr>position := isize ino - offset\<rparr>
          else file)
       in Inr (0, if position file \<ge> isize ino then file\<lparr>position := isize ino, eof := True\<rparr>
                  else file\<lparr>eof := False\<rparr>))"

definition stage2_bsfs_fclose :: "BsfsFile \<Rightarrow> int \<times> BsfsFile" where
  "stage2_bsfs_fclose file = (0, file\<lparr>inode := None, position := - 1\<rparr>)"

definition stage2_bsfs_strerror :: "int \<Rightarrow> string" where
  "stage2_bsfs_strerror err =
     (if err = BSFS_FOPEN_FILE_NOTFOUND then ''file not found''
      else if err = BSFS_FOPEN_NOT_A_FILE then ''inode not a file''
      else if err = BSFS_DISK_READ_ERROR then ''disk read error''
      else if err = BSFS_FREAD_FILE_TOO_BIG then ''file too big''
      else if err = BSFS_FOPEN_BUF_TOO_SMALL then ''buffer too small''
      else if err = BSFS_FOPEN_BUF_UNALIGNED then ''unaligned buffer''
      else if err = BSFS_FREAD_DISK_READ_ERROR then ''disk read error''
      else if err = BSFS_FREAD_SIZE_TOO_BIG then ''file too big''
      else if err = BSFS_FREAD_BUF_TOO_SMALL then ''buffer too small''
      else if err = BSFS_CHECKSUM_FAILED then ''checksum failed''
      else ''unknown error'')"

section \<open>The two drivers agree\<close>

text \<open>The disk of the boot loader as the kernel's driver sees it.\<close>

definition widen :: "u32 BsfsContext \<Rightarrow> u64 BsfsContext" where
  "widen ctx = \<lparr>header = header ctx, disk_read = (\<lambda>lba n. disk_read ctx lba (ucast n)),
     phys_sector_size = phys_sector_size ctx, scratch_buf_size = scratch_buf_size ctx\<rparr>"

lemma ucast_up_down: "ucast (ucast (n :: u32) :: u64) = n"
proof -
  have "unat (ucast (ucast n :: u64) :: u32) = unat n"
    using unat_lt2p [of n] by (subst unat_ucast_down) (simp_all add: unat_ucast_up)
  then show ?thesis by (simp only: word_unat_eq_iff)
qed

lemma widen_simps [simp]:
  "header (widen ctx) = header ctx" "phys_sector_size (widen ctx) = phys_sector_size ctx"
  "scratch_buf_size (widen ctx) = scratch_buf_size ctx"
  "disk_read (widen ctx) lba 1 = disk_read ctx lba 1"
  "disk_read (widen ctx) lba (ucast (n :: u32)) = disk_read ctx lba n"
  by (simp_all add: widen_def ucast_up_down)

lemma stage2_read_inode: "stage2_bsfs_read_inode ctx = bsfs_read_inode (widen ctx)"
  by (simp add: stage2_bsfs_read_inode_def bsfs_read_inode_def fun_eq_iff Let_def split_beta cong: if_cong)

lemma stage2_path_name_eq: "stage2_path_name = path_name"
proof (intro ext)
  show "stage2_path_name cs acc = path_name cs acc" for cs acc
    by (induction cs acc rule: path_name.induct) simp_all
qed

lemma stage2_dir_lookup_eq: "stage2_dir_lookup ctx n bs = dir_lookup (widen ctx) n bs"
  by (induction bs) (simp_all add: Let_def split_beta cong: option.case_cong if_cong)

declare stage2_resolve_names.simps [simp del]

lemma stage2_resolve_names_eq: "stage2_resolve_names ctx rest idx = resolve_names (widen ctx) rest idx"
proof (induction ctx rest idx rule: stage2_resolve_names.induct)
  case (1 ctx rest idx)
  show ?case
  proof (cases "rest = [] \<or> path_name rest [] = None")
    case True
    then show ?thesis by (subst stage2_resolve_names.simps, subst resolve_names.simps) (auto simp: stage2_path_name_eq)
  next
    case False
    then obtain nm rest' where nm: "path_name rest [] = Some (nm, rest')" "rest \<noteq> []" by auto
    then have "stage2_resolve_names ctx (drop 1 rest') = resolve_names (widen ctx) (drop 1 rest')"
      using 1 by (intro ext) (simp add: stage2_path_name_eq)
    then show ?thesis using nm
      by (subst stage2_resolve_names.simps, subst resolve_names.simps)
        (simp add: stage2_path_name_eq stage2_read_inode stage2_dir_lookup_eq)
  qed
qed

lemma stage2_fread_block_eq: "stage2_fread_block ctx = fread_block (widen ctx)"
  by (simp add: fun_eq_iff stage2_fread_block_def fread_block_def stage2_fread_store_def fread_store_def
      stage2_fread_l1_table_def fread_l1_table_def Let_def split_beta cong: if_cong option.case_cong)

lemma stage2_fread_loop_eq: "stage2_fread_loop ctx ino is p fl = fread_loop (widen ctx) ino is p fl"
proof (induction "is" arbitrary: p fl)
  case (Cons i "is")
  then show ?case
    by (simp add: stage2_fread_block_eq split_beta cong: option.case_cong if_cong)
qed simp

text \<open>C31: the boot loader's driver resolves paths, opens, reads and seeks exactly as the kernel's driver
  does on the same disk, although its sizes are 32 bits wide.\<close>

theorem stage2_bsfs_agrees:
  "stage2_bsfs_resolve_path ctx path = bsfs_resolve_path (widen ctx) path \<and>
   stage2_bsfs_fopen ctx path fl = bsfs_fopen (widen ctx) path fl \<and>
   stage2_bsfs_fread ctx sz count fl = bsfs_fread (widen ctx) sz count fl \<and>
   stage2_bsfs_fseeko offset whence fl = bsfs_fseeko offset whence fl"
proof (intro conjI)
  show r: "stage2_bsfs_resolve_path ctx path = bsfs_resolve_path (widen ctx) path"
    by (simp add: stage2_bsfs_resolve_path_def bsfs_resolve_path_def stage2_resolve_names_eq cong: if_cong)
  show "stage2_bsfs_fopen ctx path fl = bsfs_fopen (widen ctx) path fl"
    unfolding stage2_bsfs_fopen_def bsfs_fopen_def r stage2_read_inode widen_simps ..
  show "stage2_bsfs_fread ctx sz count fl = bsfs_fread (widen ctx) sz count fl"
    by (simp add: stage2_bsfs_fread_def bsfs_fread_def stage2_fread_loop_eq Let_def split_beta cong: if_cong option.case_cong)
qed (simp add: stage2_bsfs_fseeko_def bsfs_fseeko_def)

end
