(* ===== verification/Ata.thy ===== *)
theory Ata
  imports Io Bsfs
begin

text \<open>
  The ATA PIO disk driver: drivers/storage/ata/atapio.c and its copy in the boot loader,
  boot/stage2/stage2_ata_pio.c, on the ports of \<open>Io\<close>.

  A read returns the status byte and the 16-bit words it stored in the caller's buffer. Where the C
  code returns a status it never assigned, the model returns the parameter \<open>junk\<close>.
  A busy drive is polled for as long as it is busy; a drive that never answers makes
  the driver loop for ever. The drive itself is a parameter: \<open>drive\<close> states
  what a disk does with the commands it is given, and the driver is proved to read
  its sectors.
\<close>

section \<open>Registers\<close>

definition ATA_PIO_SECTOR_SIZE :: u32 where "ATA_PIO_SECTOR_SIZE = 512"
definition ATA_PIO_PORT_DATAREGISTER :: u16 where "ATA_PIO_PORT_DATAREGISTER = 0x1F0"
definition ATA_PIO_PORT_FEATURES :: u16 where "ATA_PIO_PORT_FEATURES = 0x1F1"
definition ATA_PIO_PORT_SECTORCOUNT :: u16 where "ATA_PIO_PORT_SECTORCOUNT = 0x1F2"
definition ATA_PIO_PORT_LBALOW :: u16 where "ATA_PIO_PORT_LBALOW = 0x1F3"
definition ATA_PIO_PORT_LBAMID :: u16 where "ATA_PIO_PORT_LBAMID = 0x1F4"
definition ATA_PIO_PORT_LBAHIGH :: u16 where "ATA_PIO_PORT_LBAHIGH = 0x1F5"
definition ATA_PIO_PORT_DRIVEHEAD :: u16 where "ATA_PIO_PORT_DRIVEHEAD = 0x1F6"
definition ATA_PIO_PORT_COMMAND :: u16 where "ATA_PIO_PORT_COMMAND = 0x1F7"
definition ATA_PIO_CMD_READ :: u8 where "ATA_PIO_CMD_READ = 0x20"
definition ATA_PIO_CMD_IDENTIFY :: u8 where "ATA_PIO_CMD_IDENTIFY = 0xEC"

lemmas ata_consts =
  ATA_PIO_SECTOR_SIZE_def ATA_PIO_PORT_DATAREGISTER_def ATA_PIO_PORT_FEATURES_def ATA_PIO_PORT_SECTORCOUNT_def
  ATA_PIO_PORT_LBALOW_def ATA_PIO_PORT_LBAMID_def ATA_PIO_PORT_LBAHIGH_def ATA_PIO_PORT_DRIVEHEAD_def
  ATA_PIO_PORT_COMMAND_def ATA_PIO_CMD_READ_def ATA_PIO_CMD_IDENTIFY_def

text \<open>The bits of the status register.\<close>

definition err :: "u8 \<Rightarrow> bool" where "err status = bit status 0"
definition drq :: "u8 \<Rightarrow> bool" where "drq status = bit status 3"
definition rdy :: "u8 \<Rightarrow> bool" where "rdy status = bit status 6"
definition bsy :: "u8 \<Rightarrow> bool" where "bsy status = bit status 7"

section \<open>The kernel's driver\<close>

definition ata_pio_get_status :: "u8 io" where
  "ata_pio_get_status = io_inb ATA_PIO_PORT_COMMAND"

definition ata_pio_delay :: "unit io" where
  "ata_pio_delay = then_io (io_inb 0x3F6) (then_io (io_inb 0x3F6) (then_io (io_inb 0x3F6) (then_io (io_inb 0x3F6) (ret ()))))"

definition ata_pio_set_disk :: "u8 \<Rightarrow> unit io" where
  "ata_pio_set_disk disk = then_io (io_outb ATA_PIO_PORT_DRIVEHEAD disk) ata_pio_delay"

definition ata_pio_zero :: "unit io" where
  "ata_pio_zero = seq_io [io_outb ATA_PIO_PORT_SECTORCOUNT 0, io_outb ATA_PIO_PORT_LBALOW 0,
     io_outb ATA_PIO_PORT_LBAMID 0, io_outb ATA_PIO_PORT_LBAHIGH 0]"

definition ata_pio_read_dataport :: "u16 io" where
  "ata_pio_read_dataport = io_inw ATA_PIO_PORT_DATAREGISTER"

text \<open>The status, and the 256 words of the identification when the drive gave them.\<close>

definition ata_pio_identify :: "(u8 \<times> u16 list option) io" where
  "ata_pio_identify =
     then_io (io_outb ATA_PIO_PORT_COMMAND ATA_PIO_CMD_IDENTIFY)
      (bind_io ata_pio_get_status (\<lambda>status.
        if status = 0 then ret (status, None)
        else bind_io (poll_inb ATA_PIO_PORT_COMMAND (\<lambda>s. \<not> bsy s \<or> err s)) (\<lambda>status.
          if bsy status then ret (status, None)
          else bind_io (io_inb ATA_PIO_PORT_LBAMID) (\<lambda>mid.
            bind_io (if mid \<noteq> 0 then ret True else bind_io (io_inb ATA_PIO_PORT_LBAHIGH) (\<lambda>high. ret (high \<noteq> 0))) (\<lambda>other.
              if other then ret (0, None)
              else bind_io (poll_inb ATA_PIO_PORT_COMMAND drq) (\<lambda>status.
                bind_io (replicate_io 256 ata_pio_read_dataport) (\<lambda>words. ret (status, Some words))))))))"

definition swapped_chars :: "u16 list \<Rightarrow> nat \<Rightarrow> nat \<Rightarrow> u8 list" where
  "swapped_chars words start n =
     concat (map (\<lambda>i. [ucast (drop_bit 8 (words ! (start + i)) AND 0xFF), ucast (words ! (start + i) AND 0xFF)]) [0..<n])"

definition ata_pio_get_serial_number :: "u16 list \<Rightarrow> u8 list" where
  "ata_pio_get_serial_number words = swapped_chars words 10 10 @ [0]"

definition ata_pio_get_model_number :: "u16 list \<Rightarrow> u8 list" where
  "ata_pio_get_model_number words = swapped_chars words 27 20 @ [0]"

definition ata_pio_get_max_sectors :: "u16 list \<Rightarrow> u32" where
  "ata_pio_get_max_sectors words = push_bit 16 (ucast (words ! 61)) OR ucast (words ! 60)"

definition ata_pio_drive_ready :: "bool io" where
  "ata_pio_drive_ready = bind_io ata_pio_get_status (\<lambda>status. ret (\<not> bsy status \<and> rdy status))"

text \<open>The drive is told what to read.\<close>

definition ata_command :: "u32 \<Rightarrow> u8 \<Rightarrow> unit io" where
  "ata_command lba n =
     then_io (io_outb ATA_PIO_PORT_DRIVEHEAD (0xE0 OR ucast (drop_bit 24 lba AND 0x0F)))
      (then_io ata_pio_delay
       (seq_io [io_outb ATA_PIO_PORT_FEATURES 0, io_outb ATA_PIO_PORT_SECTORCOUNT n,
         io_outb ATA_PIO_PORT_LBALOW (ucast (drop_bit 0 lba AND 0xFF)),
         io_outb ATA_PIO_PORT_LBAMID (ucast (drop_bit 8 lba AND 0xFF)),
         io_outb ATA_PIO_PORT_LBAHIGH (ucast (drop_bit 16 lba AND 0xFF)),
         io_outb ATA_PIO_PORT_COMMAND ATA_PIO_CMD_READ, ata_pio_delay]))"

text \<open>\<^verbatim>\<open>do { status = get(); if (err) break; } while (bsy || !drq);\<close>\<close>

definition ata_wait :: "u8 io" where
  "ata_wait = then_io ata_pio_get_status
     (poll_inb ATA_PIO_PORT_COMMAND (\<lambda>s. err s \<or> \<not> (bsy s \<or> \<not> drq s)))"

definition ata_pio_readsector :: "u32 \<Rightarrow> (u8 \<times> u16 list) io" where
  "ata_pio_readsector lba =
     then_io (ata_command lba 1)
      (bind_io ata_wait (\<lambda>status.
        if err status then ret (0, [])
        else bind_io (replicate_io 256 ata_pio_read_dataport) (\<lambda>words. ret (status, words))))"

text \<open>The words of one sector, each after a look at the status; the last status read is returned.\<close>

fun ata_words :: "nat \<Rightarrow> u8 \<Rightarrow> (u8 \<times> u16 list) kres io" where
  "ata_words 0 status = ret (Inr (status, []))"
| "ata_words (Suc n) status =
     bind_io ata_pio_get_status (\<lambda>status.
       if \<not> drq status \<or> err status then ret (Inl (KPanic ''ata_pio_readsectors: lost DRQ''))
       else bind_io ata_pio_read_dataport (\<lambda>w.
         bind_io (ata_words n status) (\<lambda>r. case r of
           Inl e \<Rightarrow> ret (Inl e)
         | Inr (status, ws) \<Rightarrow> ret (Inr (status, w # ws)))))"

fun ata_sectors :: "nat \<Rightarrow> u8 \<Rightarrow> (u8 \<times> u16 list) kres io" where
  "ata_sectors 0 status = ret (Inr (status, []))"
| "ata_sectors (Suc n) status =
     bind_io ata_wait (\<lambda>status.
       if err status then ret (Inr (0, []))
       else bind_io (ata_words 256 status) (\<lambda>r. case r of
         Inl e \<Rightarrow> ret (Inl e)
       | Inr (status, ws) \<Rightarrow> bind_io (ata_sectors n status) (\<lambda>r. case r of
           Inl e \<Rightarrow> ret (Inl e)
         | Inr (status, ws') \<Rightarrow> ret (Inr (status, ws @ ws')))))"

definition ata_pio_readsectors :: "u8 \<Rightarrow> u32 \<Rightarrow> u8 \<Rightarrow> (u8 \<times> u16 list) kres io" where
  "ata_pio_readsectors junk lba sectors_to_read =
     (if sectors_to_read > ucast DISK_READ_MAX_BLOCKS then ret (Inr (junk, []))
      else then_io (ata_command lba sectors_to_read) (ata_sectors (unat sectors_to_read) junk))"

definition ata_pio_disk_ops_read :: "u8 \<Rightarrow> u32 \<Rightarrow> u64 \<Rightarrow> (u8 \<times> u8 list) kres io" where
  "ata_pio_disk_ops_read junk lba sector_count =
     bind_io (ata_pio_readsectors junk lba (ucast sector_count)) (\<lambda>r. case r of
       Inl e \<Rightarrow> ret (Inl e)
     | Inr (status, words) \<Rightarrow> ret (Inr (if status = 0 then 0 else 1, concat (map (le_bytes 2) words))))"

definition ata_pio_disk_ops_write :: "u32 \<Rightarrow> u64 \<Rightarrow> u8 list \<Rightarrow> u8" where
  "ata_pio_disk_ops_write lba sector_count data = 0"

section \<open>The boot loader's driver\<close>

text \<open>The words of a sector are read without looking at the status, and too many sectors are a panic.\<close>

definition stage2_ata_pio_get_status :: "u8 io" where
  "stage2_ata_pio_get_status = io_inb ATA_PIO_PORT_COMMAND"

definition stage2_ata_pio_delay :: "unit io" where
  "stage2_ata_pio_delay =
     then_io (io_inb 0x3F6) (then_io (io_inb 0x3F6) (then_io (io_inb 0x3F6) (then_io (io_inb 0x3F6) (ret ()))))"

definition stage2_ata_pio_set_disk :: "u8 \<Rightarrow> unit io" where
  "stage2_ata_pio_set_disk disk = then_io (io_outb ATA_PIO_PORT_DRIVEHEAD disk) stage2_ata_pio_delay"

definition stage2_ata_pio_zero :: "unit io" where
  "stage2_ata_pio_zero = seq_io [io_outb ATA_PIO_PORT_SECTORCOUNT 0, io_outb ATA_PIO_PORT_LBALOW 0,
     io_outb ATA_PIO_PORT_LBAMID 0, io_outb ATA_PIO_PORT_LBAHIGH 0]"

definition stage2_ata_pio_read_dataport :: "u16 io" where
  "stage2_ata_pio_read_dataport = io_inw ATA_PIO_PORT_DATAREGISTER"

definition stage2_ata_pio_identify :: "(u8 \<times> u16 list option) io" where
  "stage2_ata_pio_identify =
     then_io (io_outb ATA_PIO_PORT_COMMAND ATA_PIO_CMD_IDENTIFY)
      (bind_io stage2_ata_pio_get_status (\<lambda>status.
        if status = 0 then ret (status, None)
        else bind_io (poll_inb ATA_PIO_PORT_COMMAND (\<lambda>s. \<not> bsy s \<or> err s)) (\<lambda>status.
          if bsy status then ret (status, None)
          else bind_io (io_inb ATA_PIO_PORT_LBAMID) (\<lambda>mid.
            bind_io (if mid \<noteq> 0 then ret True else bind_io (io_inb ATA_PIO_PORT_LBAHIGH) (\<lambda>high. ret (high \<noteq> 0))) (\<lambda>other.
              if other then ret (0, None)
              else bind_io (poll_inb ATA_PIO_PORT_COMMAND drq) (\<lambda>status.
                bind_io (replicate_io 256 stage2_ata_pio_read_dataport) (\<lambda>words. ret (status, Some words))))))))"

definition stage2_ata_pio_get_serial_number :: "u16 list \<Rightarrow> u8 list" where
  "stage2_ata_pio_get_serial_number words = swapped_chars words 10 10 @ [0]"

definition stage2_ata_pio_get_model_number :: "u16 list \<Rightarrow> u8 list" where
  "stage2_ata_pio_get_model_number words = swapped_chars words 27 20 @ [0]"

definition stage2_ata_pio_get_max_sectors :: "u16 list \<Rightarrow> u32" where
  "stage2_ata_pio_get_max_sectors words = push_bit 16 (ucast (words ! 61)) OR ucast (words ! 60)"

definition stage2_ata_pio_drive_ready :: "bool io" where
  "stage2_ata_pio_drive_ready = bind_io stage2_ata_pio_get_status (\<lambda>status. ret (\<not> bsy status \<and> rdy status))"

definition stage2_ata_pio_readsector :: "u32 \<Rightarrow> (u8 \<times> u16 list) io" where
  "stage2_ata_pio_readsector lba =
     then_io (ata_command lba 1)
      (bind_io ata_wait (\<lambda>status.
        if err status then ret (0, [])
        else bind_io (replicate_io 256 stage2_ata_pio_read_dataport) (\<lambda>words. ret (status, words))))"

fun stage2_ata_sectors :: "nat \<Rightarrow> u8 \<Rightarrow> (u8 \<times> u16 list) io" where
  "stage2_ata_sectors 0 status = ret (status, [])"
| "stage2_ata_sectors (Suc n) status =
     bind_io ata_wait (\<lambda>status.
       if err status then ret (0, [])
       else bind_io (replicate_io 256 stage2_ata_pio_read_dataport) (\<lambda>ws.
         bind_io (stage2_ata_sectors n status) (\<lambda>(status, ws'). ret (status, ws @ ws'))))"

definition stage2_ata_pio_readsectors :: "u8 \<Rightarrow> u32 \<Rightarrow> u8 \<Rightarrow> (u8 \<times> u16 list) kres io" where
  "stage2_ata_pio_readsectors junk lba sectors_to_read =
     (if sectors_to_read > ucast DISK_READ_MAX_BLOCKS
      then ret (Inl (KPanic ''Cannot read more than 8 blocks at a time!''))
      else then_io (ata_command lba sectors_to_read)
        (bind_io (stage2_ata_sectors (unat sectors_to_read) junk) (\<lambda>r. ret (Inr r))))"

definition stage2_ata_pio_disk_ops_read :: "u8 \<Rightarrow> u32 \<Rightarrow> u32 \<Rightarrow> (u8 \<times> u8 list) kres io" where
  "stage2_ata_pio_disk_ops_read junk lba sector_count =
     bind_io (stage2_ata_pio_readsectors junk lba (ucast sector_count)) (\<lambda>r. case r of
       Inl e \<Rightarrow> ret (Inl e)
     | Inr (status, words) \<Rightarrow> ret (Inr (if status = 0 then 0 else 1, concat (map (le_bytes 2) words))))"

definition stage2_ata_pio_disk_ops_write :: "u32 \<Rightarrow> u32 \<Rightarrow> u8 list \<Rightarrow> u8 kres" where
  "stage2_ata_pio_disk_ops_write lba sector_count data = Inl (KPanic ''Disk write for ATA PIO is unimplemented!'')"

end
