(* ===== verification/AtaSpec.thy ===== *)
theory AtaSpec
  imports Ata
begin

text \<open>
  The ATA driver reads the sectors of the disk. \<open>drive\<close> states what a drive does: after a read command
  it is busy for some number of polls before each sector, then offers the words of the
  sectors, in order, at the data port. Under it the driver's read returns the bytes of the sectors
  asked for, in the kernel and in the boot loader.
\<close>

section \<open>What a drive does\<close>

definition last_out :: "u16 \<Rightarrow> io_hist \<Rightarrow> u8" where
  "last_out p h = last (0 # written p h)"

definition command_lba :: "io_hist \<Rightarrow> nat" where
  "command_lba h = unat (last_out 0x1F3 h) + 256 * unat (last_out 0x1F4 h) + 65536 * unat (last_out 0x1F5 h)
     + 16777216 * (unat (last_out 0x1F6 h) mod 16)"

definition command_count :: "io_hist \<Rightarrow> nat" where
  "command_count h = unat (last_out 0x1F2 h)"

text \<open>Since the command: the words taken from the data port, and the looks at the status since the last of them.\<close>

fun is_read :: "io_event \<Rightarrow> bool" where
  "is_read (InB p v) = True"
| "is_read (InW p v) = True"
| "is_read e = False"

fun words_read :: "io_hist \<Rightarrow> nat" where
  "words_read [] = 0"
| "words_read (e # es) = (case e of InW p v \<Rightarrow> Suc (words_read es) | _ \<Rightarrow> words_read es)"

definition polls_since :: "io_hist \<Rightarrow> nat" where
  "polls_since es = foldl (\<lambda>n e. case e of InW p v \<Rightarrow> 0 | InB p v \<Rightarrow> if p = 0x1F7 then Suc n else n | _ \<Rightarrow> n) 0 es"

definition busy :: "(nat \<Rightarrow> nat) \<Rightarrow> io_hist \<Rightarrow> bool" where
  "busy delay es \<longleftrightarrow> words_read es mod 256 = 0 \<and> polls_since es < delay (words_read es div 256)"

definition ready :: "u8 \<Rightarrow> bool" where
  "ready status \<longleftrightarrow> drq status \<and> \<not> bsy status \<and> \<not> err status"

definition serving :: "io_device \<Rightarrow> io_hist \<Rightarrow> u16 list \<Rightarrow> (nat \<Rightarrow> nat) \<Rightarrow> bool" where
  "serving d h ws delay \<longleftrightarrow> (\<forall>es. list_all is_read es \<and> words_read es < length ws \<longrightarrow>
     dev_inw d (h @ es) 0x1F0 = ws ! words_read es \<and>
     (if busy delay es then bsy (dev_inb d (h @ es) 0x1F7) \<and> \<not> err (dev_inb d (h @ es) 0x1F7)
      else ready (dev_inb d (h @ es) 0x1F7)))"

definition drive :: "io_device \<Rightarrow> (nat \<Rightarrow> u16 list) \<Rightarrow> (nat \<Rightarrow> nat) \<Rightarrow> bool" where
  "drive d disk delay \<longleftrightarrow> (\<forall>i. length (disk i) = 256) \<and>
     (\<forall>h. serving d (h @ [OutB 0x1F7 0x20])
        (concat (map disk [command_lba h..<command_lba h + command_count h])) delay)"

section \<open>The driver on a drive\<close>

lemma words_read_append [simp]: "words_read (es @ fs) = words_read es + words_read fs"
  by (induction es) (auto split: io_event.split)

lemma polls_since_snoc [simp]:
  "polls_since (es @ [InB p v]) = (if p = 0x1F7 then Suc (polls_since es) else polls_since es)"
  "polls_since (es @ [InW p w]) = 0"
  by (simp_all add: polls_since_def)

lemma reads_status:
  "\<exists>fs. reads d 0x1F7 n (h @ es) = h @ es @ fs \<and> list_all is_read fs \<and> words_read fs = 0
     \<and> polls_since (es @ fs) = polls_since es + n"
proof (induction n arbitrary: es)
  case (Suc n)
  let ?e = "InB 0x1F7 (dev_inb d (h @ es) 0x1F7)"
  obtain fs where "reads d 0x1F7 n (h @ es @ [?e]) = h @ (es @ [?e]) @ fs" "list_all is_read fs" "words_read fs = 0"
    "polls_since ((es @ [?e]) @ fs) = polls_since (es @ [?e]) + n"
    using Suc.IH [of "es @ [?e]"] by auto
  then show ?case by (intro exI [of _ "?e # fs"]) simp
qed (auto intro: exI [of _ "[]"])

lemma serving_status:
  assumes "serving d h ws delay" "list_all is_read es" "words_read es < length ws"
  shows "dev_inw d (h @ es) 0x1F0 = ws ! words_read es" "\<not> err (dev_inb d (h @ es) 0x1F7)"
    "busy delay es \<Longrightarrow> bsy (dev_inb d (h @ es) 0x1F7)" "\<not> busy delay es \<Longrightarrow> ready (dev_inb d (h @ es) 0x1F7)"
proof -
  have "dev_inw d (h @ es) 0x1F0 = ws ! words_read es \<and>
     (if busy delay es then bsy (dev_inb d (h @ es) 0x1F7) \<and> \<not> err (dev_inb d (h @ es) 0x1F7)
      else ready (dev_inb d (h @ es) 0x1F7))"
    using assms unfolding serving_def by blast
  then show "dev_inw d (h @ es) 0x1F0 = ws ! words_read es" "\<not> err (dev_inb d (h @ es) 0x1F7)"
    "busy delay es \<Longrightarrow> bsy (dev_inb d (h @ es) 0x1F7)" "\<not> busy delay es \<Longrightarrow> ready (dev_inb d (h @ es) 0x1F7)"
    by (auto simp: ready_def split: if_splits)
qed

text \<open>Waiting ends when the drive stops being busy.\<close>

lemma ata_wait_ok:
  assumes sv: "serving d h ws delay" and es: "list_all is_read es" "words_read es < length ws"
  shows "\<exists>st es'. ata_wait d (h @ es) = Some (st, h @ es') \<and> ready st \<and> list_all is_read es'
     \<and> words_read es' = words_read es \<and> \<not> busy delay es'"
proof -
  let ?P = "\<lambda>s. err s \<or> \<not> (bsy s \<or> \<not> drq s)"
  define e0 where "e0 = es @ [InB 0x1F7 (dev_inb d (h @ es) 0x1F7)]"
  have e0: "list_all is_read e0" "words_read e0 = words_read es" using es by (simp_all add: e0_def)
  let ?n = "delay (words_read es div 256)"
  obtain fs where fs: "reads d 0x1F7 ?n (h @ e0) = h @ e0 @ fs" "list_all is_read fs" "words_read fs = 0"
    "polls_since (e0 @ fs) = polls_since e0 + ?n"
    using reads_status by blast
  have nb: "\<not> busy delay (e0 @ fs)" using fs e0 by (simp add: busy_def)
  have "ready (dev_inb d (h @ e0 @ fs) 0x1F7)"
    using serving_status(4) [OF sv, of "e0 @ fs"] fs e0 es nb by simp
  then have "becomes_ready d 0x1F7 ?P (h @ e0)"
    unfolding becomes_ready_def using fs(1) by (intro exI [of _ ?n]) (simp add: ready_def)
  then obtain k where k: "?P (dev_inb d (reads d 0x1F7 k (h @ e0)) 0x1F7)"
    "poll_inb 0x1F7 ?P d (h @ e0) = Some (dev_inb d (reads d 0x1F7 k (h @ e0)) 0x1F7, reads d 0x1F7 (Suc k) (h @ e0))"
    using poll_inb_returns by blast
  obtain gs where gs: "reads d 0x1F7 k (h @ e0) = h @ e0 @ gs" "list_all is_read gs" "words_read gs = 0"
    using reads_status by blast
  obtain gs' where gs': "reads d 0x1F7 (Suc k) (h @ e0) = h @ e0 @ gs'" "list_all is_read gs'" "words_read gs' = 0"
    "polls_since (e0 @ gs') = polls_since e0 + Suc k"
    using reads_status by blast
  obtain gk where gk: "polls_since (e0 @ gk) = polls_since e0 + k" "reads d 0x1F7 k (h @ e0) = h @ e0 @ gk"
    using reads_status by blast
  then have same: "gk = gs" using gs(1) by simp
  have e0gs: "list_all is_read (e0 @ gs)" "words_read (e0 @ gs) < length ws" using e0 gs es by simp_all
  note st = serving_status [OF sv e0gs]
  have nbk: "\<not> busy delay (e0 @ gs)" using k(1) st(2,3) gs(1) by auto
  then have rd: "ready (dev_inb d (h @ e0 @ gs) 0x1F7)" using st(4) by simp
  have nb': "\<not> busy delay (e0 @ gs')"
    using nbk gs'(3,4) gk(1) same gs(3) by (auto simp: busy_def)
  have "ata_wait d (h @ es) = Some (dev_inb d (h @ e0 @ gs) 0x1F7, h @ e0 @ gs')"
    using k(2) gs(1) gs'(1) by (simp add: ata_wait_def ata_pio_get_status_def ata_consts e0_def)
  then show ?thesis using rd e0 gs' nb' by auto
qed

text \<open>The words of a sector.\<close>

lemma ata_words_ok:
  assumes sv: "serving d h ws delay"
  shows "\<lbrakk>list_all is_read es; \<not> busy delay es; words_read es + n \<le> length ws;
      words_read es mod 256 + n \<le> 256; n = 0 \<longrightarrow> ready st\<rbrakk> \<Longrightarrow>
     \<exists>st' es'. ata_words n st d (h @ es) = Some (Inr (st', take n (drop (words_read es) ws)), h @ es')
       \<and> ready st' \<and> list_all is_read es' \<and> words_read es' = words_read es + n"
proof (induction n arbitrary: es st)
  case (Suc n)
  let ?st = "dev_inb d (h @ es) 0x1F7"
  define e1 where "e1 = es @ [InB 0x1F7 ?st]"
  let ?w = "ws ! words_read es"
  have lt: "words_read es < length ws" using Suc.prems(3) by simp
  have st: "ready ?st" using serving_status(4) [OF sv Suc.prems(1) lt Suc.prems(2)] .
  have e1: "list_all is_read e1" "words_read e1 = words_read es" using Suc.prems by (simp_all add: e1_def)
  have w: "dev_inw d (h @ e1) 0x1F0 = ?w" using serving_status(1) [OF sv, of e1] e1 lt by simp
  define e2 where "e2 = e1 @ [InW 0x1F0 ?w]"
  have e2: "list_all is_read e2" "words_read e2 = Suc (words_read es)" using e1 by (simp_all add: e2_def)
  have dr: "drop (words_read es) ws = ?w # drop (Suc (words_read es)) ws" using lt by (simp add: Cons_nth_drop_Suc)
  show ?case
  proof (cases "n = 0")
    case True
    then have "ata_words (Suc n) st d (h @ es) = Some (Inr (?st, [?w]), h @ e2)"
      using st w by (simp add: ata_pio_get_status_def ata_pio_read_dataport_def ata_consts e1_def e2_def ready_def)
    then show ?thesis using True st e2 dr by auto
  next
    case False
    have m: "Suc (words_read es) mod 256 = Suc (words_read es mod 256)"
      using Suc.prems(4) False by (simp add: mod_Suc)
    then have nb: "\<not> busy delay e2" using e2 by (simp add: busy_def)
    have le: "words_read e2 + n \<le> length ws" "words_read e2 mod 256 + n \<le> 256" "n = 0 \<longrightarrow> ready ?st"
      using Suc.prems(3,4) e2(2) m st by simp_all
    obtain st' es' where ih: "ata_words n ?st d (h @ e2) = Some (Inr (st', take n (drop (words_read e2) ws)), h @ es')"
      "ready st'" "list_all is_read es'" "words_read es' = words_read e2 + n"
      using Suc.IH [OF e2(1) nb le] by blast
    have "ata_words (Suc n) st d (h @ es) = Some (Inr (st', ?w # take n (drop (Suc (words_read es)) ws)), h @ es')"
      using st w ih(1) e2(2)
      by (simp add: ata_pio_get_status_def ata_pio_read_dataport_def ata_consts e1_def e2_def ready_def)
    then show ?thesis using ih e2(2) dr by auto
  qed
qed auto

lemma ata_sectors_ok:
  assumes sv: "serving d h ws delay"
  shows "\<lbrakk>list_all is_read es; words_read es mod 256 = 0; words_read es + 256 * n = length ws; n = 0 \<longrightarrow> ready st\<rbrakk> \<Longrightarrow>
     \<exists>st' es'. ata_sectors n st d (h @ es) = Some (Inr (st', drop (words_read es) ws), h @ es') \<and> ready st'"
proof (induction n arbitrary: es st)
  case (Suc n)
  have lt: "words_read es < length ws" using Suc.prems(3) by simp
  obtain st1 e1 where w: "ata_wait d (h @ es) = Some (st1, h @ e1)" "ready st1" "list_all is_read e1"
    "words_read e1 = words_read es" "\<not> busy delay e1"
    using ata_wait_ok [OF sv Suc.prems(1) lt] by blast
  have "words_read e1 + 256 \<le> length ws" "words_read e1 mod 256 + 256 \<le> 256" "(256::nat) = 0 \<longrightarrow> ready st1"
    using w(4) Suc.prems(2,3) by simp_all
  from ata_words_ok [OF sv w(3,5) this]
  obtain st2 e2 where x: "ata_words 256 st1 d (h @ e1) = Some (Inr (st2, take 256 (drop (words_read e1) ws)), h @ e2)"
    "ready st2" "list_all is_read e2" "words_read e2 = words_read e1 + 256" by blast
  have "words_read e2 mod 256 = 0" "words_read e2 + 256 * n = length ws" "n = 0 \<longrightarrow> ready st2"
    using x(2,4) w(4) Suc.prems(2,3) by simp_all
  from Suc.IH [OF x(3) this]
  obtain st3 e3 where y: "ata_sectors n st2 d (h @ e2) = Some (Inr (st3, drop (words_read e2) ws), h @ e3)" "ready st3"
    by blast
  have "take 256 (drop (words_read es) ws) @ drop (words_read es + 256) ws = drop (words_read es) ws"
    by (metis add.commute append_take_drop_id drop_drop)
  then have "ata_sectors (Suc n) st d (h @ es) = Some (Inr (st3, drop (words_read es) ws), h @ e3)"
    using w x y by (simp add: ready_def)
  then show ?case using y(2) by blast
qed auto

lemma replicate_dataport_ok:
  assumes sv: "serving d h ws delay"
  shows "\<lbrakk>list_all is_read es; words_read es + n \<le> length ws\<rbrakk> \<Longrightarrow>
     \<exists>es'. replicate_io n stage2_ata_pio_read_dataport d (h @ es) = Some (take n (drop (words_read es) ws), h @ es')
       \<and> list_all is_read es' \<and> words_read es' = words_read es + n"
proof (induction n arbitrary: es)
  case (Suc n)
  let ?w = "ws ! words_read es"
  have lt: "words_read es < length ws" using Suc.prems(2) by simp
  have w: "dev_inw d (h @ es) 0x1F0 = ?w" using serving_status(1) [OF sv Suc.prems(1) lt] .
  define e2 where "e2 = es @ [InW 0x1F0 ?w]"
  have e2: "list_all is_read e2" "words_read e2 = Suc (words_read es)" "words_read e2 + n \<le> length ws"
    using Suc.prems by (simp_all add: e2_def)
  obtain es' where ih: "replicate_io n stage2_ata_pio_read_dataport d (h @ e2) = Some (take n (drop (words_read e2) ws), h @ es')"
    "list_all is_read es'" "words_read es' = words_read e2 + n"
    using Suc.IH [OF e2(1,3)] by blast
  have dr: "drop (words_read es) ws = ?w # drop (Suc (words_read es)) ws" using lt by (simp add: Cons_nth_drop_Suc)
  have "replicate_io (Suc n) stage2_ata_pio_read_dataport d (h @ es)
      = Some (?w # take n (drop (Suc (words_read es)) ws), h @ es')"
    using w ih(1) e2(2) by (simp add: stage2_ata_pio_read_dataport_def ata_consts e2_def)
  then show ?case using ih e2(2) dr by auto
qed auto

lemma stage2_ata_sectors_ok:
  assumes sv: "serving d h ws delay"
  shows "\<lbrakk>list_all is_read es; words_read es + 256 * n = length ws; n = 0 \<longrightarrow> ready st\<rbrakk> \<Longrightarrow>
     \<exists>st' es'. stage2_ata_sectors n st d (h @ es) = Some ((st', drop (words_read es) ws), h @ es') \<and> ready st'"
proof (induction n arbitrary: es st)
  case (Suc n)
  have lt: "words_read es < length ws" using Suc.prems(2) by simp
  obtain st1 e1 where w: "ata_wait d (h @ es) = Some (st1, h @ e1)" "ready st1" "list_all is_read e1"
    "words_read e1 = words_read es"
    using ata_wait_ok [OF sv Suc.prems(1) lt] by blast
  have "words_read e1 + 256 \<le> length ws" using w(4) Suc.prems(2) by simp
  from replicate_dataport_ok [OF sv w(3) this]
  obtain e2 where x: "replicate_io 256 stage2_ata_pio_read_dataport d (h @ e1) = Some (take 256 (drop (words_read e1) ws), h @ e2)"
    "list_all is_read e2" "words_read e2 = words_read e1 + 256" by blast
  have "words_read e2 + 256 * n = length ws" "n = 0 \<longrightarrow> ready st1" using x(3) w(2,4) Suc.prems(2) by simp_all
  from Suc.IH [OF x(2) this]
  obtain st3 e3 where y: "stage2_ata_sectors n st1 d (h @ e2) = Some ((st3, drop (words_read e2) ws), h @ e3)" "ready st3"
    by blast
  have "take 256 (drop (words_read es) ws) @ drop (words_read es + 256) ws = drop (words_read es) ws"
    by (metis add.commute append_take_drop_id drop_drop)
  then have "stage2_ata_sectors (Suc n) st d (h @ es) = Some ((st3, drop (words_read es) ws), h @ e3)"
    using w x y by (simp add: ready_def)
  then show ?case using y(2) by blast
qed auto

section \<open>The command\<close>

lemma unat_lba_byte: "unat (ucast (drop_bit k (lba :: u32) AND 0xFF) :: u8) = unat lba div 2 ^ k mod 256"
proof -
  have "(0xFF :: u32) = mask 8" by (simp add: mask_eq_exp_minus_1)
  then have "unat (drop_bit k lba AND 0xFF) = unat lba div 2 ^ k mod 256"
    using unat_and_mask [of "drop_bit k lba" 8] unat_drop_bit_eq [of k lba] by (simp only: drop_bit_eq_div) simp
  then show ?thesis by (simp add: unsigned_ucast_eq take_bit_nat_def)
qed

lemma unat_lba_head: "unat (0xE0 OR ucast (drop_bit 24 (lba :: u32) AND 0x0F) :: u8) mod 16 = unat lba div 16777216 mod 16"
proof -
  have m: "(0x0F :: u32) = mask 4" "(0x0F :: u8) = mask 4" by (simp_all add: mask_eq_exp_minus_1)
  let ?y = "ucast (drop_bit 24 lba AND 0x0F) :: u8"
  have "(0xE0 OR ?y) AND 0x0F = ?y AND 0x0F" by (simp add: bit.conj_disj_distrib2)
  then have "unat ((0xE0 OR ?y) AND mask 4) = unat (?y AND mask 4)" by (simp only: m)
  then have "unat (0xE0 OR ?y) mod 16 = unat ?y mod 16" by (simp only: unat_and_mask) simp
  moreover have "unat (drop_bit 24 lba AND 0x0F) = unat lba div 16777216 mod 16"
    using unat_and_mask [of "drop_bit 24 lba" 4] unat_drop_bit_eq [of 24 lba] by (simp only: m(1) drop_bit_eq_div) simp
  then have "unat ?y = unat lba div 16777216 mod 16" by (simp add: unsigned_ucast_eq take_bit_nat_def)
  ultimately show ?thesis by simp
qed

lemma bytes_sum:
  fixes a :: nat
  assumes "a < 2 ^ 28"
  shows "a mod 256 + 256 * (a div 256 mod 256) + 65536 * (a div 65536 mod 256) + 16777216 * (a div 16777216 mod 16) = a"
proof -
  have d: "a div 65536 = a div 256 div 256" "a div 16777216 = a div 256 div 256 div 256"
    by (simp_all flip: div_mult2_eq)
  have "a div 256 div 256 div 256 < 16" using assms by (simp flip: div_mult2_eq)
  then have top: "a div 256 div 256 div 256 mod 16 = a div 256 div 256 div 256" by simp
  have "a = 256 * (a div 256) + a mod 256"
    "a div 256 = 256 * (a div 256 div 256) + a div 256 mod 256"
    "a div 256 div 256 = 256 * (a div 256 div 256 div 256) + a div 256 div 256 mod 256"
    by simp_all
  then show ?thesis unfolding d top by linarith
qed

lemma ata_command_run:
  assumes "unat lba < 2 ^ 28"
  shows "\<exists>hc es. ata_command lba n d h = Some ((), (hc @ [OutB 0x1F7 0x20]) @ es) \<and> list_all is_read es
     \<and> words_read es = 0 \<and> command_lba hc = unat lba \<and> command_count hc = unat n"
proof -
  define h1 where "h1 = h @ [OutB 0x1F6 (0xE0 OR ucast (drop_bit 24 lba AND 0x0F))]"
  have delay: "\<exists>es. ata_pio_delay d h = Some ((), h @ es) \<and> list_all is_read es \<and> words_read es = 0
      \<and> (\<forall>p. written p es = [])" for h
    by (simp add: ata_pio_delay_def)
  obtain e1 where e1: "ata_pio_delay d h1 = Some ((), h1 @ e1)" "\<forall>p. written p e1 = []" using delay by blast
  define hc where "hc = h1 @ e1 @ [OutB 0x1F1 0, OutB 0x1F2 n, OutB 0x1F3 (ucast (drop_bit 0 lba AND 0xFF)),
     OutB 0x1F4 (ucast (drop_bit 8 lba AND 0xFF)), OutB 0x1F5 (ucast (drop_bit 16 lba AND 0xFF))]"
  obtain e2 where e2: "ata_pio_delay d (hc @ [OutB 0x1F7 0x20]) = Some ((), (hc @ [OutB 0x1F7 0x20]) @ e2)"
    "list_all is_read e2" "words_read e2 = 0" using delay by blast
  have run: "ata_command lba n d h = Some ((), (hc @ [OutB 0x1F7 0x20]) @ e2)"
    using e1(1) e2(1) by (simp add: ata_command_def ata_consts h1_def hc_def)
  have "last_out 0x1F3 hc = ucast (drop_bit 0 lba AND 0xFF)" "last_out 0x1F4 hc = ucast (drop_bit 8 lba AND 0xFF)"
    "last_out 0x1F5 hc = ucast (drop_bit 16 lba AND 0xFF)"
    "last_out 0x1F6 hc = 0xE0 OR ucast (drop_bit 24 lba AND 0x0F)" "last_out 0x1F2 hc = n"
    using e1(2) by (simp_all add: last_out_def hc_def h1_def)
  then have "command_lba hc = unat lba" "command_count hc = unat n"
    using bytes_sum [OF assms] unat_lba_byte [of 0 lba] unat_lba_byte [of 8 lba] unat_lba_byte [of 16 lba]
      unat_lba_head [of lba]
    by (simp_all only: command_lba_def command_count_def) simp
  then show ?thesis using run e2 by blast
qed

section \<open>Reading sectors\<close>

text \<open>The disk as the file system driver sees it.\<close>

definition ata_disk :: "(nat \<Rightarrow> u16 list) \<Rightarrow> u32 \<Rightarrow> 'n::len word \<Rightarrow> u8 \<times> u8 list" where
  "ata_disk disk lba n =
     (1, concat (map (\<lambda>i. concat (map (le_bytes 2) (disk i))) [unat lba..<unat lba + unat n]))"

lemma drive_serves:
  assumes "drive d disk delay" "command_lba hc = unat lba" "command_count hc = n"
  shows "serving d (hc @ [OutB 0x1F7 0x20]) (concat (map disk [unat lba..<unat lba + n])) delay
     \<and> length (concat (map disk [unat lba..<unat lba + n])) = 256 * n"
proof -
  have "length (concat (map disk is)) = 256 * length is" for "is"
    using assms(1) by (induction "is") (simp_all add: drive_def)
  then have "length (concat (map disk [unat lba..<unat lba + n])) = 256 * n" by simp
  moreover have "serving d (hc @ [OutB 0x1F7 0x20]) (concat (map disk [command_lba hc..<command_lba hc + command_count hc])) delay"
    using assms(1) unfolding drive_def by blast
  ultimately show ?thesis unfolding assms(2,3) by blast
qed

lemma small_count:
  fixes n :: "'n::len word"
  assumes "8 \<le> LENGTH('n)" "unat n \<le> 8"
  shows "unat (ucast n :: u8) = unat n"
  using assms by (simp add: unsigned_ucast_eq take_bit_nat_eq_self)

lemma ready_nonzero: "ready status \<Longrightarrow> status \<noteq> 0"
  by (auto simp: ready_def drq_def)

lemma concat_sector_words:
  "concat (map (le_bytes 2) (concat (map disk is))) = concat (map (\<lambda>i. concat (map (le_bytes 2) (disk i))) is)"
  by (induction "is") simp_all

lemma ata_command_serves:
  assumes "drive d disk delay" "unat lba < 2 ^ 28" "unat c = n"
  shows "\<exists>hc es. ata_command lba c d h = Some ((), (hc @ [OutB 0x1F7 0x20]) @ es) \<and> list_all is_read es
     \<and> words_read es = 0 \<and> serving d (hc @ [OutB 0x1F7 0x20]) (concat (map disk [unat lba..<unat lba + n])) delay
     \<and> length (concat (map disk [unat lba..<unat lba + n])) = 256 * n"
  using ata_command_run [OF assms(2), of c d h] drive_serves [OF assms(1)] assms(3) by metis

lemma ata_read_run:
  assumes dr: "drive d disk delay" and lba: "unat lba < 2 ^ 28" and n: "0 < unat n" "unat n \<le> 8"
  shows "\<exists>h'. ata_pio_disk_ops_read junk lba n d h = Some (Inr (ata_disk disk lba n), h')"
proof -
  let ?ws = "concat (map disk [unat lba..<unat lba + unat n])"
  have k: "unat (ucast n :: u8) = unat n" using n by (simp add: small_count)
  have le: "\<not> (ucast n :: u8) > ucast DISK_READ_MAX_BLOCKS"
    using n k by (simp add: word_less_nat_alt DISK_READ_MAX_BLOCKS_def)
  obtain hc es where c: "ata_command lba (ucast n) d h = Some ((), (hc @ [OutB 0x1F7 0x20]) @ es)" "list_all is_read es"
    "words_read es = 0" "serving d (hc @ [OutB 0x1F7 0x20]) ?ws delay" "length ?ws = 256 * unat n"
    using ata_command_serves [OF dr lba k, of h] by blast
  obtain st e1 where r: "ata_sectors (unat n) junk d ((hc @ [OutB 0x1F7 0x20]) @ es) =
      Some (Inr (st, ?ws), (hc @ [OutB 0x1F7 0x20]) @ e1)" "ready st"
    using ata_sectors_ok [OF c(4) c(2), of "unat n" junk] c(3,5) n by auto
  have "ata_pio_disk_ops_read junk lba n d h = Some (Inr (ata_disk disk lba n), (hc @ [OutB 0x1F7 0x20]) @ e1)"
    using le c(1) r k ready_nonzero
    by (simp add: ata_pio_disk_ops_read_def ata_pio_readsectors_def ata_disk_def concat_sector_words)
  then show ?thesis by blast
qed

lemma stage2_ata_read_run:
  assumes dr: "drive d disk delay" and lba: "unat lba < 2 ^ 28" and n: "0 < unat n" "unat n \<le> 8"
  shows "\<exists>h'. stage2_ata_pio_disk_ops_read junk lba n d h = Some (Inr (ata_disk disk lba n), h')"
proof -
  let ?ws = "concat (map disk [unat lba..<unat lba + unat n])"
  have k: "unat (ucast n :: u8) = unat n" using n by (simp add: small_count)
  have le: "\<not> (ucast n :: u8) > ucast DISK_READ_MAX_BLOCKS"
    using n k by (simp add: word_less_nat_alt DISK_READ_MAX_BLOCKS_def)
  obtain hc es where c: "ata_command lba (ucast n) d h = Some ((), (hc @ [OutB 0x1F7 0x20]) @ es)" "list_all is_read es"
    "words_read es = 0" "serving d (hc @ [OutB 0x1F7 0x20]) ?ws delay" "length ?ws = 256 * unat n"
    using ata_command_serves [OF dr lba k, of h] by blast
  obtain st e1 where r: "stage2_ata_sectors (unat n) junk d ((hc @ [OutB 0x1F7 0x20]) @ es) =
      Some ((st, ?ws), (hc @ [OutB 0x1F7 0x20]) @ e1)" "ready st"
    using stage2_ata_sectors_ok [OF c(4) c(2), of "unat n" junk] c(3,5) n by auto
  have "stage2_ata_pio_disk_ops_read junk lba n d h = Some (Inr (ata_disk disk lba n), (hc @ [OutB 0x1F7 0x20]) @ e1)"
    using le c(1) r k ready_nonzero
    by (simp add: stage2_ata_pio_disk_ops_read_def stage2_ata_pio_readsectors_def ata_disk_def concat_sector_words)
  then show ?thesis by blast
qed


text \<open>A drive: it finds the last command in the history, and is busy for one poll before every sector.\<close>

definition since_command :: "io_hist \<Rightarrow> io_hist" where
  "since_command h = rev (takeWhile is_read (rev h))"

definition at_command :: "io_hist \<Rightarrow> io_hist" where
  "at_command h = rev (drop 1 (dropWhile is_read (rev h)))"

definition ideal_drive :: "(nat \<Rightarrow> u16 list) \<Rightarrow> io_device" where
  "ideal_drive disk =
     \<lparr>dev_inb = (\<lambda>h p. if busy (\<lambda>_. 1) (since_command h) then 0x80 else 0x48),
      dev_inw = (\<lambda>h p. concat (map disk [command_lba (at_command h)..<
         command_lba (at_command h) + command_count (at_command h)]) ! words_read (since_command h))\<rparr>"

lemma ideal_drive_drives:
  assumes "\<And>i. length (disk i) = 256"
  shows "drive (ideal_drive disk) disk (\<lambda>_. 1)"
proof -
  have "since_command ((h @ [OutB 0x1F7 0x20]) @ es) = es" "at_command ((h @ [OutB 0x1F7 0x20]) @ es) = h"
    if "list_all is_read es" for h es
  proof -
    have "is_read e" if "e \<in> set (rev es)" for e using that \<open>list_all is_read es\<close> by (simp add: list_all_iff)
    then have "takeWhile is_read (rev es @ OutB 0x1F7 0x20 # rev h) = rev es"
      "dropWhile is_read (rev es @ OutB 0x1F7 0x20 # rev h) = OutB 0x1F7 0x20 # rev h"
      by (simp_all only: takeWhile_append2 dropWhile_append2) simp_all
    then show "since_command ((h @ [OutB 0x1F7 0x20]) @ es) = es" "at_command ((h @ [OutB 0x1F7 0x20]) @ es) = h"
      by (simp_all add: since_command_def at_command_def)
  qed
  then show ?thesis
    using assms by (simp add: drive_def serving_def ideal_drive_def ready_def drq_def bsy_def err_def bit_simps del: append_assoc)
qed


end
