(* ===== verification/Storage.thy ===== *)
theory Storage
  imports AtaSpec BsfsSpec
begin

text \<open>
  The file system on the disk: the BSFS driver reads through the disk operations that the ATA driver
  provides. \<open>block_device\<close> is the interface between the two, and the disk of the ATA driver is an
  instance of it. A file whose blocks are on the disk is then read correctly
  through both drivers.
\<close>

section \<open>The interface\<close>

locale block_device =
  fixes rd :: "u32 \<Rightarrow> u64 \<Rightarrow> u8 \<times> u8 list"
    and sector :: "nat \<Rightarrow> u8 list"
  assumes sector_length: "length (sector i) = 512"
    and read_sectors: "\<lbrakk>unat lba < 2 ^ 28; 0 < unat n; unat n \<le> 8\<rbrakk> \<Longrightarrow>
      rd lba n = (1, concat (map sector [unat lba..<unat lba + unat n]))"
begin

lemma sectors_length: "length (concat (map sector is)) = length is * 512"
  by (rule concat_blocks_length) (rule sector_length)

text \<open>A block of \<open>k\<close> sectors.\<close>

lemma read_block:
  assumes ctx: "disk_read ctx = rd" "phys_sector_size ctx = 512" "bsz ctx = 512 * k" "0 < k" "k \<le> 8"
    and b: "unat b * bsz ctx < 2 ^ 32"
  shows "disk_read ctx (block_lba ctx b) (sectors ctx) = (1, concat (map sector [unat b * k..<unat b * k + k]))"
proof -
  let ?bs = "block_size (header ctx)"
  have bs: "unat ?bs = 512 * k" using ctx(3) by (simp add: bsz_def)
  have sec: "unat (sectors ctx) = k"
    using bs ctx(2,5) by (simp add: sectors_def unat_ucast_up unat_div)
  have "unat (b * ?bs) = unat b * (512 * k)" using b bs ctx(3) by (subst unat_mult_small) simp_all
  then have lba: "unat (block_lba ctx b) = unat b * k"
    using ctx(2) by (simp add: block_lba_def unat_div mult.left_commute [of "unat b" 512 k])
  have "unat (block_lba ctx b) < 2 ^ 28" using b ctx(3) lba by (simp add: mult.commute)
  then have "rd (block_lba ctx b) (sectors ctx) = (1, concat (map sector [unat b * k..<unat b * k + k]))"
    using read_sectors [of "block_lba ctx b" "sectors ctx"] sec lba ctx(4,5) by simp
  then show ?thesis using ctx(1) by simp
qed

text \<open>A file is on the device when its block numbers are.\<close>

lemma file_on_device:
  assumes ctx: "disk_read ctx = rd" "phys_sector_size ctx = 512" "bsz ctx = 512 * k" "0 < k" "k \<le> 8"
    and geo: "geometry ctx ino"
    and table: "table = concat (map sector [unat (blocks_l1indirect ino) * k..<unat (blocks_l1indirect ino) * k + k])"
    and l1: "unat (blocks_l1indirect ino) * bsz ctx < 2 ^ 32"
    and blocks: "\<And>i. i < nblocks ctx ino \<Longrightarrow> unat (block_number ino table i) * bsz ctx < 2 ^ 32"
  shows "file_stores ctx ino table
     (\<lambda>i. concat (map sector [unat (block_number ino table i) * k..<unat (block_number ino table i) * k + k]))"
proof -
  have len: "length (concat (map sector [c..<c + k])) = bsz ctx" for c
    using ctx(3) by (simp add: sectors_length)
  have one: "\<exists>ok. ok \<noteq> 0 \<and> disk_read ctx (block_lba ctx b) (sectors ctx)
      = (ok, concat (map sector [unat b * k..<unat b * k + k]))" if "unat b * bsz ctx < 2 ^ 32" for b
    using read_block [OF ctx that] by (intro exI [of _ 1]) simp
  show ?thesis
    unfolding file_stores_def using geo one [OF l1] one [OF blocks] len table by simp
qed

end

section \<open>The disk of the ATA driver\<close>

text \<open>A sector is 256 words of 16 bits.\<close>

definition fit :: "u16 list \<Rightarrow> u16 list" where
  "fit ws = take 256 (ws @ replicate 256 0)"

definition ata_sector :: "(nat \<Rightarrow> u16 list) \<Rightarrow> nat \<Rightarrow> u8 list" where
  "ata_sector disk i = concat (map (le_bytes 2) (fit (disk i)))"

lemma length_fit [simp]: "length (fit ws) = 256"
  by (simp add: fit_def)

lemma fit_full: "length ws = 256 \<Longrightarrow> fit ws = ws"
  by (simp add: fit_def)

interpretation ata: block_device "ata_disk (\<lambda>i. fit (disk i))" "ata_sector disk" for disk
proof unfold_locales
  show "length (ata_sector disk i) = 512" for i by (simp add: ata_sector_def)
  show "ata_disk (\<lambda>i. fit (disk i)) lba n = (1, concat (map (ata_sector disk) [unat lba..<unat lba + unat n]))"
    for lba :: u32 and n :: u64
    by (simp add: ata_disk_def ata_sector_def [abs_def])
qed

definition disk_block :: "(nat \<Rightarrow> u16 list) \<Rightarrow> nat \<Rightarrow> u32 \<Rightarrow> u8 list" where
  "disk_block disk k b = concat (map (ata_sector disk) [unat b * k..<unat b * k + k])"

text \<open>The block numbers of a file are within the first 4 GiB, where their addresses do not wrap around.\<close>

definition file_on_disk :: "u64 BsfsContext \<Rightarrow> (nat \<Rightarrow> u16 list) \<Rightarrow> nat \<Rightarrow> BsfsInode \<Rightarrow> bool" where
  "file_on_disk ctx disk k ino \<longleftrightarrow> disk_read ctx = ata_disk disk \<and> phys_sector_size ctx = ATA_PIO_SECTOR_SIZE
     \<and> bsz ctx = 512 * k \<and> 0 < k \<and> k \<le> 8 \<and> geometry ctx ino
     \<and> unat (blocks_l1indirect ino) * bsz ctx < 2 ^ 32
     \<and> list_all (\<lambda>i. unat (block_number ino (disk_block disk k (blocks_l1indirect ino)) i) * bsz ctx < 2 ^ 32)
         [0..<nblocks ctx ino]"

definition disk_file :: "u64 BsfsContext \<Rightarrow> (nat \<Rightarrow> u16 list) \<Rightarrow> nat \<Rightarrow> BsfsInode \<Rightarrow> nat \<Rightarrow> u8 list" where
  "disk_file ctx disk k ino i = disk_block disk k (block_number ino (disk_block disk k (blocks_l1indirect ino)) i)"

lemma file_on_disk_stores:
  assumes len: "\<And>i. length (disk i) = 256" and fd: "file_on_disk ctx disk k ino"
  shows "file_stores ctx ino (disk_block disk k (blocks_l1indirect ino)) (disk_file ctx disk k ino)"
proof -
  have "(\<lambda>i. fit (disk i)) = disk" using len by (simp add: fun_eq_iff fit_full)
  then have rd: "disk_read ctx = ata_disk (\<lambda>i. fit (disk i))" using fd by (simp add: file_on_disk_def)
  have *: "phys_sector_size ctx = 512" "bsz ctx = 512 * k" "0 < k" "k \<le> 8" "geometry ctx ino"
    "unat (blocks_l1indirect ino) * bsz ctx < 2 ^ 32"
    "\<And>i. i < nblocks ctx ino \<Longrightarrow>
       unat (block_number ino (disk_block disk k (blocks_l1indirect ino)) i) * bsz ctx < 2 ^ 32"
    using fd by (auto simp: file_on_disk_def list_all_iff ATA_PIO_SECTOR_SIZE_def)
  show ?thesis
    using ata.file_on_device [OF rd *(1-5) disk_block_def *(6,7)]
    by (simp add: disk_file_def [abs_def] disk_block_def [abs_def])
qed


text \<open>A disk with one small file in its fifth block, all of whose bytes are 7.\<close>

definition seven_disk :: "nat \<Rightarrow> u16 list" where
  "seven_disk i = replicate 256 0x0707"

definition seven_context :: "u64 BsfsContext" where
  "seven_context = small_context\<lparr>disk_read := ata_disk seven_disk\<rparr>"

definition seven_inode :: BsfsInode where
  "seven_inode = small_inode\<lparr>blocks_direct := replicate 10 5\<rparr>"

definition seven_file :: BsfsFile where
  "seven_file = small_file\<lparr>inode := Some seven_inode\<rparr>"

lemma seven_block: "disk_block seven_disk (Suc 0) b = replicate 512 7"
proof -
  have "le_bytes 2 w = [ucast w, ucast (drop_bit 8 w)]" for w :: u16 by (simp add: numeral_2_eq_2)
  then have "le_bytes 2 (0x0707 :: u16) = [7, 7]" by simp
  then have "ata_sector seven_disk i = concat (replicate 256 [7, 7])" for i
    by (simp add: ata_sector_def seven_disk_def fit_def)
  moreover have "concat (replicate k [x, x]) = replicate (2 * k) x" for k :: nat and x :: u8
    by (induction k) (simp_all add: replicate_append_same)
  ultimately show ?thesis by (simp add: disk_block_def upt_rec)
qed

lemma seven_simps: "bsz seven_context = 512" "nblocks seven_context seven_inode = 1"
  "block_size (header seven_context) = 512"
  by (simp_all add: bsz_def nblocks_def seven_context_def small_context_def small_header_def seven_inode_def small_inode_def)


end
