(* ===== verification/Elf.thy ===== *)
theory Elf
  imports ProcessSpec BsfsSpec
begin

text \<open>
  The ELF loader: kernel/kernel/elf.c and the structures of include/common/elf.h. It reads the
  executable through the BSFS driver, and maps and fills a page of the new address space for every page of
  its segments, so it composes the file system, the physical and the virtual memory manager.

  Physical memory is kept in 64-bit words; a store of bytes changes single bytes of them. What
  the loader's local structures hold before they are read from the file is a parameter, because a
  short read leaves a part of them as it was.
\<close>

section \<open>Structures\<close>

definition PT_LOAD :: u32 where "PT_LOAD = 1"
definition ELF_LOAD_READ_ERROR :: int where "ELF_LOAD_READ_ERROR = - 1"
definition ELF_LOAD_SEEK_ERROR :: int where "ELF_LOAD_SEEK_ERROR = - 2"
definition ELF_LOAD_INVALID_ELF_MAGIC :: int where "ELF_LOAD_INVALID_ELF_MAGIC = - 3"
definition ELF_LOAD_NOT_ELF64 :: int where "ELF_LOAD_NOT_ELF64 = - 4"
definition ELF_LOAD_NOT_LITTLE_ENDIAN :: int where "ELF_LOAD_NOT_LITTLE_ENDIAN = - 5"
definition ELF_LOAD_NOT_EXECUTABLE :: int where "ELF_LOAD_NOT_EXECUTABLE = - 6"
definition ELF_LOAD_MALFORMED :: int where "ELF_LOAD_MALFORMED = - 7"
definition ELF_LOAD_FILESZ_EXCEEDS_MEMSZ :: int where "ELF_LOAD_FILESZ_EXCEEDS_MEMSZ = - 8"
definition ELF_LOAD_PHENTSIZE_MISMATCH :: int where "ELF_LOAD_PHENTSIZE_MISMATCH = - 9"
definition VMM_FLAGS_USER_CODE :: u64 where "VMM_FLAGS_USER_CODE = 0x07"

lemmas elf_codes =
  PT_LOAD_def ELF_LOAD_READ_ERROR_def ELF_LOAD_SEEK_ERROR_def ELF_LOAD_INVALID_ELF_MAGIC_def ELF_LOAD_NOT_ELF64_def
  ELF_LOAD_NOT_LITTLE_ENDIAN_def ELF_LOAD_NOT_EXECUTABLE_def ELF_LOAD_MALFORMED_def
  ELF_LOAD_FILESZ_EXCEEDS_MEMSZ_def ELF_LOAD_PHENTSIZE_MISMATCH_def

definition elf64_strerror :: "int \<Rightarrow> string" where
  "elf64_strerror e =
     (if e = ELF_LOAD_READ_ERROR then ''unable to read file''
      else if e = ELF_LOAD_SEEK_ERROR then ''unable to seek in file''
      else if e = ELF_LOAD_INVALID_ELF_MAGIC then ''invalid elf magic''
      else if e = ELF_LOAD_NOT_ELF64 then ''file is not ELF64 compiled''
      else if e = ELF_LOAD_NOT_LITTLE_ENDIAN then ''file is not little endian ELF64''
      else if e = ELF_LOAD_NOT_EXECUTABLE then ''file is not a executable ELF''
      else if e = ELF_LOAD_MALFORMED then ''file contains a malformed ELF header''
      else if e = ELF_LOAD_FILESZ_EXCEEDS_MEMSZ then ''p_filesz exceeds p_memsz in PT_LOAD segment''
      else if e = ELF_LOAD_PHENTSIZE_MISMATCH then ''e_phentsize is not equal to size of Elf64Phdr''
      else ''unknown error'')"

record Elf64Ehdr =
  e_ident :: "u8 list"
  e_type :: u16
  e_machine :: u16
  e_version :: u32
  e_entry :: u64
  e_phoff :: u64
  e_shoff :: u64
  e_flags :: u32
  e_ehsize :: u16
  e_phentsize :: u16
  e_phnum :: u16
  e_shentsize :: u16
  e_shnum :: u16
  e_shstrndx :: u16

record Elf64Phdr =
  p_type :: u32
  p_flags :: u32
  p_offset :: u64
  p_vaddr :: u64
  p_paddr :: u64
  p_filesz :: u64
  p_memsz :: u64
  p_align :: u64

definition ehdr_of_bytes :: "u8 list \<Rightarrow> Elf64Ehdr" where
  "ehdr_of_bytes bs =
     \<lparr>e_ident = field 0 16 bs, e_type = le_word (field 16 2 bs), e_machine = le_word (field 18 2 bs),
      e_version = le_word (field 20 4 bs), e_entry = le_word (field 24 8 bs), e_phoff = le_word (field 32 8 bs),
      e_shoff = le_word (field 40 8 bs), e_flags = le_word (field 48 4 bs), e_ehsize = le_word (field 52 2 bs),
      e_phentsize = le_word (field 54 2 bs), e_phnum = le_word (field 56 2 bs), e_shentsize = le_word (field 58 2 bs),
      e_shnum = le_word (field 60 2 bs), e_shstrndx = le_word (field 62 2 bs)\<rparr>"

definition phdr_of_bytes :: "u8 list \<Rightarrow> Elf64Phdr" where
  "phdr_of_bytes bs =
     \<lparr>p_type = le_word (field 0 4 bs), p_flags = le_word (field 4 4 bs), p_offset = le_word (field 8 8 bs),
      p_vaddr = le_word (field 16 8 bs), p_paddr = le_word (field 24 8 bs), p_filesz = le_word (field 32 8 bs),
      p_memsz = le_word (field 40 8 bs), p_align = le_word (field 48 8 bs)\<rparr>"

definition elf64_check_magic :: "Elf64Ehdr \<Rightarrow> bool" where
  "elf64_check_magic hdr \<longleftrightarrow> e_ident hdr ! 0 = 0x7F \<and> e_ident hdr ! 1 = 0x45 \<and> e_ident hdr ! 2 = 0x4C
     \<and> e_ident hdr ! 3 = 0x46"

record Elf64LoadResult =
  elf_result :: int
  elf_top :: u64

section \<open>Bytes of physical memory\<close>

definition byte_at :: "(u64 \<Rightarrow> u64) \<Rightarrow> u64 \<Rightarrow> u8" where
  "byte_at m a = le_bytes 8 (m (a AND NOT 7)) ! (unat a mod 8)"

definition put_byte :: "u64 \<Rightarrow> u8 \<Rightarrow> (u64 \<Rightarrow> u64) \<Rightarrow> (u64 \<Rightarrow> u64)" where
  "put_byte a b m = (let w = a AND NOT 7 in m(w := le_word ((le_bytes 8 (m w))[unat a mod 8 := b])))"

fun put_bytes :: "u64 \<Rightarrow> u8 list \<Rightarrow> (u64 \<Rightarrow> u64) \<Rightarrow> (u64 \<Rightarrow> u64)" where
  "put_bytes a [] m = m"
| "put_bytes a (b # bs) m = put_bytes (a + 1) bs (put_byte a b m)"

section \<open>Loading\<close>

text \<open>What the loop over the pages of a segment works on: the error it returns with, the bytes of
  the segment that are still to be read (signed), the file and the machine.\<close>

record 's elf_loop =
  lp_err :: "int option"
  lp_remaining :: int
  lp_file :: BsfsFile
  lp_state :: 's

definition elf_page ::
  "u64 BsfsContext \<Rightarrow> u64 \<Rightarrow> Elf64Phdr \<Rightarrow> u64 \<Rightarrow> u64 \<Rightarrow> 'a vmm_scheme elf_loop \<Rightarrow> 'a vmm_scheme elf_loop kres" where
  "elf_page ctx pml4 phdr virt_start addr st =
     (if lp_err st \<noteq> None then Inr st
      else
        let offset = (if addr = virt_start then uint (p_vaddr phdr mod VMM_DEFAULT_PAGE_SIZE) else 0) in
        andthen (pmm_alloc (lp_state st)) (\<lambda>(phys_page, s).
        andthen (vmm_map pml4 phys_page addr VMM_FLAGS_USER_CODE s) (\<lambda>s.
        let virt_page = phys_to_virt phys_page;
            s = memset_page virt_page s;
            remaining = lp_remaining st
        in if remaining > 0 then
             let count = (if remaining < 4096 then word_of_int (remaining - offset) else word_of_int (4096 - offset) :: u32)
             in andthen (bsfs_fread ctx 1 count (lp_file st)) (\<lambda>(read, out, file).
                  if read < 0 then Inr (st\<lparr>lp_err := Some ELF_LOAD_READ_ERROR, lp_file := file, lp_state := s\<rparr>)
                  else
                    let s = s\<lparr>phys_mem := put_bytes (virt_to_phys (virt_page + word_of_int offset)) out (phys_mem s)\<rparr>
                    in Inr (st\<lparr>lp_remaining := remaining - read, lp_file := file, lp_state := s\<rparr>))
           else Inr (st\<lparr>lp_state := s\<rparr>))))"

text \<open>One program header. The first result is the error, if any, the second the new top of the image.\<close>

definition elf_segment ::
  "u64 BsfsContext \<Rightarrow> u64 \<Rightarrow> Elf64Phdr \<Rightarrow> u64 \<Rightarrow> BsfsFile \<Rightarrow> 'a vmm_scheme \<Rightarrow>
     (int option \<times> u64 \<times> BsfsFile \<times> 'a vmm_scheme) kres" where
  "elf_segment ctx pml4 phdr top' file s =
     (if p_filesz phdr > p_memsz phdr then Inr (Some ELF_LOAD_FILESZ_EXCEEDS_MEMSZ, top', file, s)
      else if p_type phdr \<noteq> PT_LOAD then Inr (None, top', file, s)
      else
        let virt_start = ALIGN_DOWN (p_vaddr phdr) VMM_DEFAULT_PAGE_SIZE;
            virt_end = ALIGN_UP (p_vaddr phdr + p_memsz phdr) VMM_DEFAULT_PAGE_SIZE;
            top' = (if virt_end > top' then virt_end else top')
        in andthen (bsfs_fseeko (p_offset phdr) BSFS_FSEEKO_SET file) (\<lambda>(read, file).
             if read < 0 then Inr (Some ELF_LOAD_SEEK_ERROR, top', file, s)
             else andthen (for_pages (elf_page ctx pml4 phdr virt_start) virt_start virt_end
                    \<lparr>lp_err = None, lp_remaining = sint (p_filesz phdr), lp_file = file, lp_state = s\<rparr>) (\<lambda>st.
               Inr (lp_err st, top', lp_file st, lp_state st))))"

fun elf_headers ::
  "u64 BsfsContext \<Rightarrow> u64 \<Rightarrow> u8 list \<Rightarrow> Elf64Ehdr \<Rightarrow> nat list \<Rightarrow> u64 \<Rightarrow> BsfsFile \<Rightarrow> 'a vmm_scheme \<Rightarrow>
     (int option \<times> u64 \<times> BsfsFile \<times> 'a vmm_scheme) kres" where
  "elf_headers ctx pml4 phdr0 hdr [] top' file s = Inr (None, top', file, s)"
| "elf_headers ctx pml4 phdr0 hdr (ph # phs) top' file s =
     (let ph_offset = e_phoff hdr + of_nat ph * ucast (e_phentsize hdr) in
      andthen (bsfs_fseeko ph_offset BSFS_FSEEKO_SET file) (\<lambda>(r, file).
        if r \<noteq> 0 then Inr (Some ELF_LOAD_SEEK_ERROR, top', file, s)
        else andthen (bsfs_fread ctx 56 1 file) (\<lambda>(read, out, file).
          if read < 0 then Inr (Some ELF_LOAD_READ_ERROR, top', file, s)
          else
            let phdr = phdr_of_bytes (out @ drop (length out) phdr0) in
            andthen (elf_segment ctx pml4 phdr top' file s) (\<lambda>(e, top', file, s).
              if e \<noteq> None then Inr (e, top', file, s)
              else elf_headers ctx pml4 phdr0 hdr phs top' file s))))"

definition elf64_load_executable ::
  "u64 BsfsContext \<Rightarrow> u8 list \<Rightarrow> u8 list \<Rightarrow> BsfsFile \<Rightarrow> u64 \<Rightarrow> 'a vmm_scheme \<Rightarrow>
     (Elf64LoadResult \<times> Elf64Ehdr \<times> BsfsFile \<times> 'a vmm_scheme) kres" where
  "elf64_load_executable ctx hdr0 phdr0 file pml4 s =
     andthen (bsfs_fread ctx 64 1 file) (\<lambda>(read, out, file).
       let out_header = ehdr_of_bytes (out @ drop (length out) hdr0);
           fail = (\<lambda>e. Inr (\<lparr>elf_result = e, elf_top = 0\<rparr>, out_header, file, s))
       in if read < 0 then fail ELF_LOAD_READ_ERROR
          else if \<not> elf64_check_magic out_header then fail ELF_LOAD_INVALID_ELF_MAGIC
          else if e_ident out_header ! 4 \<noteq> 0x02 then fail ELF_LOAD_NOT_ELF64
          else if e_ident out_header ! 5 \<noteq> 0x01 then fail ELF_LOAD_NOT_LITTLE_ENDIAN
          else if e_type out_header \<noteq> 0x02 then fail ELF_LOAD_NOT_EXECUTABLE
          else if e_phentsize out_header \<noteq> 56 then fail ELF_LOAD_PHENTSIZE_MISMATCH
          else andthen (bsfs_fseeko (e_phoff out_header) BSFS_FSEEKO_SET file) (\<lambda>(r, file).
            if r < 0 then Inr (\<lparr>elf_result = ELF_LOAD_MALFORMED, elf_top = 0\<rparr>, out_header, file, s)
            else andthen (elf_headers ctx pml4 phdr0 out_header [0..<unat (e_phnum out_header)] 0 file s)
              (\<lambda>(e, top', file, s). case e of
                 Some code \<Rightarrow> Inr (\<lparr>elf_result = code, elf_top = 0\<rparr>, out_header, file, s)
               | None \<Rightarrow> Inr (\<lparr>elf_result = 1, elf_top = top'\<rparr>, out_header, file, s))))"

end
