(* ===== verification/ElfSpec.thy ===== *)
theory ElfSpec
  imports Elf
begin

text \<open>
  What one step of the ELF loader does: the page is mapped in the new address space to a fresh frame that holds
  the bytes read from the file and zeros around them, and every page in use keeps its contents, because a page
  that is no table is not written by the page table code.
\<close>

section \<open>Bytes of memory\<close>

lemma word_of_byte: "unat (a AND NOT 7 :: u64) = unat a div 8 * 8"
  using unat_and_not_mask [of a 3] by (simp add: mask_eq_exp_minus_1)

lemma same_byte: "(a AND NOT 7 :: u64) = b AND NOT 7 \<Longrightarrow> unat a mod 8 = unat b mod 8 \<Longrightarrow> a = b"
proof -
  assume w: "a AND NOT 7 = b AND NOT 7" and o: "unat a mod 8 = unat b mod 8"
  have "unat a div 8 * 8 = unat b div 8 * 8" using w by (simp add: word_of_byte [symmetric])
  then have "unat a = unat b" using o by (metis div_mult_mod_eq)
  then show "a = b" by (simp add: word_unat_eq_iff)
qed

lemma byte_at_put_byte: "byte_at (put_byte a b m) x = (if x = a then b else byte_at m x)"
proof (cases "x AND NOT 7 = a AND NOT 7")
  case True
  let ?w = "le_bytes 8 (m (a AND NOT 7))"
  have "le_bytes (length (?w[unat a mod 8 := b])) (le_word (?w[unat a mod 8 := b]) :: u64) = ?w[unat a mod 8 := b]"
    by (rule le_bytes_le_word) simp
  then have "byte_at (put_byte a b m) x = ?w[unat a mod 8 := b] ! (unat x mod 8)"
    using True by (simp add: byte_at_def put_byte_def Let_def)
  also have "\<dots> = (if unat x mod 8 = unat a mod 8 then b else ?w ! (unat x mod 8))"
    by (simp add: nth_list_update)
  also have "\<dots> = (if x = a then b else byte_at m x)"
    using True same_byte [OF True] by (auto simp: byte_at_def)
  finally show ?thesis .
next
  case False
  then show ?thesis by (auto simp: byte_at_def put_byte_def Let_def)
qed

lemma byte_at_put_bytes:
  assumes "length bs \<le> 2 ^ 63"
  shows "byte_at (put_bytes a bs m) x = (if unat (x - a) < length bs then bs ! unat (x - a) else byte_at m x)"
  using assms
proof (induction bs arbitrary: a m)
  case (Cons b bs)
  have ih: "byte_at (put_bytes a (b # bs) m) x =
      (if unat (x - (a + 1)) < length bs then bs ! unat (x - (a + 1)) else byte_at (put_byte a b m) x)"
    using Cons by simp
  show ?case
  proof (cases "x = a")
    case True
    show ?thesis using ih True Cons.prems by (simp add: byte_at_put_byte unat_minus_1)
  next
    case False
    have e: "x - (a + 1) = x - a - 1" by simp
    have "unat (x - a) = Suc (unat (x - (a + 1)))"
      unfolding e using False by (intro unat_minus_one_less) simp
    then show ?thesis using ih False by (simp add: byte_at_put_byte)
  qed
qed simp

text \<open>A store into a page only changes words of that page.\<close>

lemma put_byte_outside: "w \<noteq> a AND NOT 7 \<Longrightarrow> put_byte a b m w = m w"
  by (simp add: put_byte_def Let_def)

lemma in_page_word:
  assumes "is_aligned f 4096" "a - f < 4096"
  shows "(a AND NOT 7) - f < 4096"
proof -
  have fa: "unat f mod 4096 = 0" using assms(1) by (simp add: is_aligned_page)
  have a: "unat a = unat f + unat (a - f)" "unat (a - f) < 4096"
    using aligned_add [OF assms(1), of "a - f"] assms(2) by (simp_all add: word_less_nat_alt)
  have "(8::nat) dvd 4096" by simp
  then have "8 dvd unat f" using fa by (metis dvd_trans mod_0_imp_dvd)
  then have "unat f = unat f div 8 * 8" by simp
  moreover have "unat f div 8 * 8 \<le> unat a div 8 * 8" using a(1) by (intro mult_le_mono1 div_le_mono) simp
  ultimately have "unat f \<le> unat a div 8 * 8" by simp
  then have "unat ((a AND NOT 7) - f) = unat a div 8 * 8 - unat f"
    using unat_sub [of f "a AND NOT 7"] by (simp only: word_le_nat_alt word_of_byte)
  also have "\<dots> < 4096" using a by (simp add: less_diff_conv2)
  finally show ?thesis by (simp only: word_less_nat_alt) simp
qed

lemma put_bytes_outside:
  assumes "is_aligned f 4096" "\<not> w - f < 4096"
  shows "o' + length bs \<le> 4096 \<Longrightarrow> put_bytes (f + of_nat o') bs m w = m w"
proof (induction bs arbitrary: o' m)
  case (Cons b bs)
  let ?a = "f + of_nat o'"
  have "unat (of_nat o' :: u64) = o'" using Cons.prems by (intro unat_of_nat_small) simp
  then have "?a - f < 4096" using Cons.prems by (simp add: word_less_nat_alt)
  then have "w \<noteq> ?a AND NOT 7" using in_page_word [OF assms(1)] assms(2) by blast
  then have "put_byte ?a b m w = m w" by (rule put_byte_outside)
  moreover have "put_bytes (f + of_nat (Suc o')) bs (put_byte ?a b m) w = put_byte ?a b m w"
    by (rule Cons.IH) (use Cons.prems in simp)
  moreover have "f + of_nat (Suc o') = ?a + 1" by simp
  ultimately show ?case by (simp only: put_bytes.simps)
qed simp

section \<open>A data page of an address space\<close>

lemma data_page_tables:
  assumes nt: "no_table s root [f]" and wf: "as_wf s root" and f: "is_aligned f 4096"
    and m: "\<forall>a. \<not> a - f < 4096 \<longrightarrow> m a = phys_mem s a"
  shows "table_path is \<Longrightarrow> table_at (phys_mem s) root is = Some t \<Longrightarrow> i < 512 \<Longrightarrow> m (slot t i) = phys_mem s (slot t i)"
proof -
  assume t: "table_path is" "table_at (phys_mem s) root is = Some t" and i: "i < 512"
  have "t \<noteq> f" by (rule no_tableD [OF nt t])
  then show "m (slot t i) = phys_mem s (slot t i)"
    using slot_in_page_iff [OF as_wf_aligned [OF wf t] f i] m by blast
qed

lemma data_page_table_at:
  assumes nt: "no_table s root [f]" and wf: "as_wf s root" and f: "is_aligned f 4096"
    and m: "\<forall>a. \<not> a - f < 4096 \<longrightarrow> m a = phys_mem s a"
  shows "table_path is \<Longrightarrow> table_at m root is = table_at (phys_mem s) root is"
proof (induction "is" rule: rev_induct)
  case Nil
  show ?case by simp
next
  case (snoc i "is")
  have p: "table_path is" "i < 512" using snoc.prems by (simp_all add: table_path_def)
  show ?case
    unfolding table_at_snoc snoc.IH [OF p(1)]
    using data_page_tables [OF nt wf f m p(1) _ p(2)] by (auto split: option.split)
qed

lemma data_page_frame:
  assumes nt: "no_table s root [f]" and wf: "as_wf s root" and f: "is_aligned f 4096"
    and m: "\<forall>a. \<not> a - f < 4096 \<longrightarrow> m a = phys_mem s a"
  shows "as_wf (s\<lparr>phys_mem := m\<rparr>) root" "walk_entry (s\<lparr>phys_mem := m\<rparr>) root va = walk_entry s root va"
    "no_table (s\<lparr>phys_mem := m\<rparr>) root ps = no_table s root ps"
proof -
  note ta = data_page_table_at [OF nt wf f m] and sl = data_page_tables [OF nt wf f m]
  have pc: "managed_pages (s\<lparr>phys_mem := m\<rparr>) = managed_pages s" "page_used (s\<lparr>phys_mem := m\<rparr>) = page_used s"
    "pmm_wf (s\<lparr>phys_mem := m\<rparr>) = pmm_wf s" using pmm_cong [of "s\<lparr>phys_mem := m\<rparr>" s] by simp_all
  have root: "m (slot root i) = phys_mem s (slot root i)" if "i < 512" for i
    using sl [OF table_path_Nil _ that] by simp
  have "table_at m root is = Some t \<Longrightarrow> table_path is \<Longrightarrow> i < 512 \<Longrightarrow> m (slot t i) = phys_mem s (slot t i)" for "is" t i
    using ta sl by metis
  then show "as_wf (s\<lparr>phys_mem := m\<rparr>) root"
    using wf unfolding as_wf_def pc by (simp add: ta root)
  show "walk_entry (s\<lparr>phys_mem := m\<rparr>) root va = walk_entry s root va"
    unfolding walk_entry_def
  proof (simp, rule hw_walk_cong)
    fix "is" i js u
    assume v: "vidx va = is @ i # js" "table_at (phys_mem s) root is = Some u"
    have "table_path is \<and> i < 512"
      using v(1) page_path_vidx [of va] by (auto simp: table_path_def page_path_def)
    then show "m (slot u i) = phys_mem s (slot u i)" using sl v(2) by blast
  qed
  show "no_table (s\<lparr>phys_mem := m\<rparr>) root ps = no_table s root ps" by (simp add: no_table_def ta cong: imp_cong)
qed

text \<open>A frame in use that is no table of the address space keeps its contents when pages are mapped.\<close>

definition data_page :: "'a vmm_scheme \<Rightarrow> u64 \<Rightarrow> u64 \<Rightarrow> bool" where
  "data_page s root q \<longleftrightarrow> q \<in> managed_pages s \<and> page_used s q \<and> no_table s root [q]"

definition same_content :: "(u64 \<Rightarrow> u64) \<Rightarrow> (u64 \<Rightarrow> u64) \<Rightarrow> u64 \<Rightarrow> bool" where
  "same_content m m' q \<longleftrightarrow> (\<forall>a. a - q < 4096 \<longrightarrow> m' a = m a)"

lemma same_content_trans: "same_content m m' q \<Longrightarrow> same_content m' m'' q \<Longrightarrow> same_content m m'' q"
  by (simp add: same_content_def)

lemma page_unique:
  assumes "is_aligned p 4096" "is_aligned q 4096" "a - p < 4096" "a - q < (4096 :: u64)"
  shows "p = q"
  using aligned_add_inj [OF assms(1,2), of "a - p" "a - q"] assms(3,4) by (simp add: word_less_nat_alt)

lemma no_table_grow:
  assumes "tables_grow s s' root" "data_page s root q"
  shows "no_table s' root [q]"
  using assms unfolding tables_grow_def data_page_def no_table_def by fastforce

lemma next_table_keeps:
  assumes wf: "as_wf s root" and "is": "table_path is" "table_at (phys_mem s) root is = Some t" "unat i < 512"
    and q: "data_page s root q" and nt: "next_table g (phys_to_virt t) i s = Inr (v, s')"
  shows "same_content (phys_mem s) (phys_mem s') q"
proof (cases "phys_mem s (slot t (unat i)) = 0")
  case True
  note pmm = as_wf_pmm [OF wf]
  from nt True obtain p s1 where a: "pmm_alloc s = Inr (p, s1)"
    and s': "s' = memset_page (phys_to_virt p) (poke (phys_to_virt t) i (p OR g) s1)"
    by (auto simp: next_table_def peek_slot andthen_eq_Inr_iff Let_def)
  have m1: "phys_mem s1 = phys_mem s" using pmm_alloc_frame [OF pmm a] by auto
  have p: "p \<in> managed_pages s" "\<not> page_used s p" using pmm.alloc_page [OF pmm a] by simp_all
  have al: "is_aligned p 4096" "is_aligned q 4096" "is_aligned t 4096"
    using managed_aligned [OF pmm] p(1) q as_wf_aligned [OF wf "is"(1,2)] by (auto simp: data_page_def)
  have ne: "p \<noteq> q" "t \<noteq> q" using p(2) q no_tableD [OF _ "is"(1,2)] by (auto simp: data_page_def)
  show ?thesis
    unfolding same_content_def
  proof (intro allI impI)
    fix a assume "a - q < 4096"
    then have "\<not> a - p < 4096" "a \<noteq> slot t (unat i)"
      using page_unique [OF al(1,2)] ne slot_in_page_iff [OF al(3,2) "is"(3)] by auto
    then show "phys_mem s' a = phys_mem s a" by (simp add: s' poke_slot memset_page_phys m1)
  qed
next
  case False
  then show ?thesis using nt by (auto simp: next_table_def peek_slot same_content_def)
qed

lemma data_page_walked:
  assumes "walked s root is t s1" "data_page s root q"
  shows "data_page s1 root q"
  using assms no_table_grow [OF _ assms(2), of s1] by (auto simp: walked_def data_page_def tables_grow_def)

lemma vmm_map_keeps:
  assumes wf: "as_wf s root" and sm: "small_path (phys_mem s) root virt"
    and map: "vmm_map (phys_to_virt root) phys virt flags s = Inr s'" and q: "data_page s root q"
  shows "same_content (phys_mem s) (phys_mem s') q"
proof -
  from map obtain v1 s1 v2 s2 v3 s3
    where n1: "next_table (table_flags flags) (phys_to_virt root) (VMM_PML4_IDX virt) s = Inr (v1, s1)"
      and n2: "next_table (table_flags flags) v1 (VMM_PDPT_IDX virt) s1 = Inr (v2, s2)"
      and n3: "next_table (table_flags flags) v2 (VMM_PD_IDX virt) s2 = Inr (v3, s3)"
      and s': "s' = poke v3 (VMM_PT_IDX virt) (phys OR flags) s3"
    by (auto simp: vmm_map_def Let_def andthen_eq_Inr_iff)
  obtain t1 where t1: "v1 = phys_to_virt t1" "walked s root [i4 virt] t1 s1"
    using wf n1 by (rule walked_pdpt)
  have big: "\<forall>n e. hw_walk (phys_mem s) root (vidx virt) = Some (n, e) \<longrightarrow> n < 2"
    using sm by (auto simp: small_path_def)
  obtain t2 where t2: "v2 = phys_to_virt t2" "walked s root [i4 virt, i3 virt] t2 s2"
    using t1(2) big n2 [unfolded t1(1)] by (rule walked_pd)
  obtain t3 where t3: "v3 = phys_to_virt t3" "walked s root [i4 virt, i3 virt, i2 virt] t3 s3"
    using t2(2) sm n3 [unfolded t2(1)] by (rule walked_pt)
  have w: "as_wf s1 root" "table_at (phys_mem s1) root [i4 virt] = Some t1" "as_wf s2 root"
    "table_at (phys_mem s2) root [i4 virt, i3 virt] = Some t2" "as_wf s3 root"
    "table_at (phys_mem s3) root [i4 virt, i3 virt, i2 virt] = Some t3"
    using t1(2) t2(2) t3(2) by (simp_all add: walked_def)
  have p: "table_path [i4 virt]" "table_path [i4 virt, i3 virt]" "table_path [i4 virt, i3 virt, i2 virt]"
    by (simp_all add: table_path_def)
  note q1 = data_page_walked [OF t1(2) q] and q2 = data_page_walked [OF t2(2) q] and q3 = data_page_walked [OF t3(2) q]
  have "same_content (phys_mem s) (phys_mem s1) q"
    using next_table_keeps [OF wf table_path_Nil _ _ q n1] by simp
  moreover have "same_content (phys_mem s1) (phys_mem s2) q"
    using next_table_keeps [OF w(1) p(1) w(2) _ q1 n2 [unfolded t1(1)]] by simp
  moreover have "same_content (phys_mem s2) (phys_mem s3) q"
    using next_table_keeps [OF w(3) p(2) w(4) _ q2 n3 [unfolded t2(1)]] by simp
  moreover have "same_content (phys_mem s3) (phys_mem s') q"
  proof -
    have "t3 \<noteq> q" using no_tableD [OF _ p(3) w(6)] q3 by (auto simp: data_page_def)
    moreover have "is_aligned t3 4096" "is_aligned q 4096"
      using as_wf_aligned [OF w(5) p(3) w(6)] managed_aligned [OF as_wf_pmm [OF wf]] q by (auto simp: data_page_def)
    ultimately have "\<not> slot t3 (i1 virt) - q < 4096" using slot_in_page_iff [of t3 q "i1 virt"] by simp
    then show ?thesis by (auto simp: s' t3(1) poke_slot same_content_def)
  qed
  ultimately show ?thesis using same_content_trans by blast
qed

section \<open>One page\<close>

lemma data_page_alloc:
  assumes wf: "as_wf s root" and a: "pmm_alloc s = Inr (f, s1)" and q: "data_page s root q \<or> q = f"
  shows "data_page s1 root q"
proof -
  note s1 = as_wf_alloc [OF wf a]
  have "t \<noteq> f" if "table_path is" "table_at (phys_mem s) root is = Some t" for "is" t
    using as_wf_table [OF wf that] s1(6) by auto
  then show ?thesis using q s1(2,4,5,9) by (auto simp: data_page_def no_table_def)
qed

text \<open>The contents of a page: \<open>out\<close> at \<open>off\<close>, and zeros.\<close>

definition page_holds :: "(u64 \<Rightarrow> u64) \<Rightarrow> u64 \<Rightarrow> nat \<Rightarrow> u8 list \<Rightarrow> bool" where
  "page_holds m f off out \<longleftrightarrow> (\<forall>i<4096. byte_at m (f + of_nat i) =
     (if off \<le> i \<and> i < off + length out then out ! (i - off) else 0))"

lemma page_holds_same:
  assumes "is_aligned f 4096" "same_content m m' f" "page_holds m f off out"
  shows "page_holds m' f off out"
proof -
  have "byte_at m' (f + of_nat i) = byte_at m (f + of_nat i)" if "i < 4096" for i
  proof -
    have "unat (of_nat i :: u64) = i" using that by (intro unat_of_nat_small) simp
    then have "(f + of_nat i) - f < 4096" using that by (simp add: word_less_nat_alt)
    then have "((f + of_nat i) AND NOT 7) - f < 4096" by (rule in_page_word [OF assms(1)])
    then show ?thesis using assms(2) by (simp add: byte_at_def same_content_def)
  qed
  then show ?thesis using assms(3) by (simp add: page_holds_def)
qed

lemma page_holds_fill:
  assumes "is_aligned f 4096" "off + length out \<le> 4096"
  shows "page_holds (put_bytes (f + of_nat off) out (\<lambda>a. if a - f < 4096 then 0 else m a)) f off out"
  unfolding page_holds_def
proof (intro allI impI)
  fix i :: nat
  assume i: "i < 4096"
  let ?m = "\<lambda>a. if a - f < 4096 then 0 else m a"
  have u: "unat (of_nat j :: u64) = j" if "j < 4096" for j using that by (intro unat_of_nat_small) simp
  have "(f + of_nat i) - f < 4096" using u [OF i] i by (simp add: word_less_nat_alt)
  then have "((f + of_nat i) AND NOT 7) - f < 4096" by (rule in_page_word [OF assms(1)])
  moreover have "le_bytes 8 (0 :: u64) ! k = 0" if "k < 8" for k using that by (simp add: nth_le_bytes)
  ultimately have zero: "byte_at ?m (f + of_nat i) = 0" by (simp add: byte_at_def)
  have d: "(f + of_nat i) - (f + of_nat off) = of_nat i - (of_nat off :: u64)" by simp
  have lt: "unat (of_nat i - of_nat off :: u64) < length out \<longleftrightarrow> off \<le> i \<and> i < off + length out"
    and eq: "off \<le> i \<Longrightarrow> unat (of_nat i - of_nat off :: u64) = i - off"
  proof -
    show eq: "unat (of_nat i - of_nat off :: u64) = i - off" if "off \<le> i"
      using that u [OF i] u [of off] i by (subst unat_sub) (simp_all add: word_le_nat_alt)
    show "unat (of_nat i - of_nat off :: u64) < length out \<longleftrightarrow> off \<le> i \<and> i < off + length out"
    proof (cases "off \<le> i")
      case True
      then show ?thesis using eq by auto
    next
      case False
      then have "off - i \<noteq> 0" "off - i < 4097" using assms(2) by simp_all
      have "(of_nat i - of_nat off :: u64) = - of_nat (off - i)" using False by (simp add: of_nat_diff)
      then have "unat (of_nat i - of_nat off :: u64) = unat (- of_nat (off - i) :: u64)" by simp
      also have "\<dots> = 2 ^ 64 - (off - i)"
      proof -
        have "unat (of_nat (off - i) :: u64) = off - i" using \<open>off - i < 4097\<close> by (intro unat_of_nat_small) simp
        moreover from this have "(of_nat (off - i) :: u64) \<noteq> 0" using \<open>off - i \<noteq> 0\<close> by (metis unat_0)
        ultimately show ?thesis using unat_uminus [of "of_nat (off - i) :: u64"] by simp
      qed
      finally show ?thesis using False assms(2) by simp
    qed
  qed
  have "length out \<le> 2 ^ 63" using assms(2) by simp
  from byte_at_put_bytes [OF this, of "f + of_nat off" ?m "f + of_nat i", unfolded d lt zero]
  show "byte_at (put_bytes (f + of_nat off) out ?m) (f + of_nat i) =
     (if off \<le> i \<and> i < off + length out then out ! (i - off) else 0)"
    using eq by auto
qed

text \<open>What loading one page does to the machine: \<open>f\<close> is the frame it takes.\<close>

definition page_loaded ::
  "'a vmm_scheme \<Rightarrow> 'a vmm_scheme \<Rightarrow> u64 \<Rightarrow> u64 \<Rightarrow> u64 \<Rightarrow> nat \<Rightarrow> u8 list \<Rightarrow> bool" where
  "page_loaded s s' root addr f off out \<longleftrightarrow> as_wf s' root \<and> managed_pages s' = managed_pages s
     \<and> card (free_frames s) \<le> 4 + card (free_frames s')
     \<and> \<not> page_used s f \<and> data_page s' root f \<and> page_holds (phys_mem s') f off out
     \<and> (\<forall>q. data_page s root q \<longrightarrow> data_page s' root q \<and> same_content (phys_mem s) (phys_mem s') q)
     \<and> (\<forall>va. walk_entry s' root va =
          (if page_of va = page_of addr then Some (0, f OR VMM_FLAGS_USER_CODE) else walk_entry s root va))"

lemma elf_page_run:
  assumes wf: "as_wf s root" and un: "walk_entry s root addr = None" and free: "4 \<le> card (free_frames s)"
    and al: "is_aligned addr 4096"
    and off: "(if addr = virt_start then uint (p_vaddr phdr mod 4096) else 0) = int off"
    and fits: "off + length out \<le> 4096"
    and read: "rem > 0 \<Longrightarrow> bsfs_fread ctx 1
        (if rem < 4096 then word_of_int (rem - int off) else word_of_int (4096 - int off)) fl
        = Inr (int (length out), out, fl')"
    and fin: "rem \<le> 0 \<Longrightarrow> out = [] \<and> fl' = fl"
  shows "\<exists>f s'. elf_page ctx (phys_to_virt root) phdr virt_start addr
       \<lparr>lp_err = None, lp_remaining = rem, lp_file = fl, lp_state = s\<rparr> =
       Inr \<lparr>lp_err = None, lp_remaining = rem - int (length out), lp_file = fl', lp_state = s'\<rparr>
     \<and> page_loaded s s' root addr f off out"
proof -
  have "free_frames s \<noteq> {}" using free by auto
  then obtain f s1 where a: "pmm_alloc s = Inr (f, s1)"
    using pmm_alloc_total [OF as_wf_pmm [OF wf]] by blast
  note s1 = as_wf_alloc [OF wf a]
  have w1: "hw_walk (phys_mem s1) root (vidx addr) = None" using un s1(2) by (simp add: walk_entry_def)
  then have sp: "small_path (phys_mem s1) root addr" by (simp add: small_path_def)
  have "3 \<le> card (free_frames s1)" using s1(8) free by simp
  then obtain s2 where s2: "vmm_map (phys_to_virt root) f addr VMM_FLAGS_USER_CODE s1 = Inr s2"
    using vmm_map_total [OF s1(1) sp] s1(7) al unmapped_entry_word [OF s1(1) w1] by blast
  have P: "bit VMM_FLAGS_USER_CODE 0" by (simp add: VMM_FLAGS_USER_CODE_def bit_0_eq)
  note e = vmm_map_effect [OF s1(1) sp P s2]
  have dp1: "data_page s1 root q" if "data_page s root q \<or> q = f" for q
    using data_page_alloc [OF wf a that] .
  have tg: "tables_grow s1 s2 root" and wf2: "as_wf s2 root" and mg: "managed_pages s2 = managed_pages s"
    using e s1(4) by simp_all
  have dp2: "data_page s2 root q" "same_content (phys_mem s) (phys_mem s2) q" if "data_page s root q \<or> q = f" for q
    using no_table_grow [OF tg dp1 [OF that]] dp1 [OF that] tg mg s1(4) vmm_map_keeps [OF s1(1) sp s2 dp1 [OF that]] s1(2)
    by (auto simp: data_page_def tables_grow_def)
  define m where "m = put_bytes (f + of_nat off) out (\<lambda>a. if a - f < 4096 then 0 else phys_mem s2 a)"
  define s3 where "s3 = s2\<lparr>phys_mem := m\<rparr>"
  have fa: "is_aligned f 4096" by (rule s1(7))
  have out: "\<forall>a. \<not> a - f < 4096 \<longrightarrow> m a = phys_mem s2 a"
    using put_bytes_outside [OF fa _ fits] by (simp add: m_def)
  have ntf: "no_table s2 root [f]" using dp2(1) [of f] by (simp add: data_page_def)
  note fr = data_page_frame [OF ntf wf2 fa out, folded s3_def]
  have pc: "managed_pages s3 = managed_pages s2" "page_used s3 = page_used s2" "free_frames s3 = free_frames s2"
    using pmm_cong [of s3 s2] by (simp_all add: s3_def)
  have "data_page s3 root q" if "data_page s root q \<or> q = f" for q
    using dp2(1) [OF that] fr(3) pc by (simp add: data_page_def)
  moreover have "same_content (phys_mem s) (phys_mem s3) q" if "data_page s root q" for q
  proof -
    have "q \<noteq> f" using that s1(6) by (auto simp: data_page_def)
    moreover have "is_aligned q 4096" using that managed_aligned [OF as_wf_pmm [OF wf]] by (simp add: data_page_def)
    ultimately have "same_content (phys_mem s2) m q" using out page_unique [OF _ fa] by (auto simp: same_content_def)
    then show ?thesis using same_content_trans [OF dp2(2)] that by (simp add: s3_def)
  qed
  moreover have "page_holds (phys_mem s3) f off out"
    using page_holds_fill [OF fa fits] by (simp add: s3_def m_def)
  moreover have "\<forall>va. walk_entry s3 root va =
      (if page_of va = page_of addr then Some (0, f OR VMM_FLAGS_USER_CODE) else walk_entry s root va)"
    using fr(2) e s1(2) by (simp add: walk_entry_def)
  ultimately have loaded: "page_loaded s s3 root addr f off out"
    unfolding page_loaded_def using fr(1) pc mg e s1(6,8) by simp
  have ms: "memset_page (phys_to_virt f) s2 = s2\<lparr>phys_mem := (\<lambda>a. if a - f < 4096 then 0 else phys_mem s2 a)\<rparr>"
    by (rule memset_page_phys)
  have va: "virt_to_phys (phys_to_virt f + of_nat off) = f + of_nat off"
    by (simp add: phys_to_virt_def virt_to_phys_def)
  have "elf_page ctx (phys_to_virt root) phdr virt_start addr
       \<lparr>lp_err = None, lp_remaining = rem, lp_file = fl, lp_state = s\<rparr> =
       Inr \<lparr>lp_err = None, lp_remaining = rem - int (length out), lp_file = fl', lp_state = s3\<rparr>"
  proof (cases "rem > 0")
    case True
    show ?thesis
      unfolding elf_page_def using True read [OF True]
      by (simp add: a s2 Let_def off ms va m_def s3_def)
  next
    case False
    then have "out = []" "fl' = fl" using fin by simp_all
    then show ?thesis
      unfolding elf_page_def using False by (simp add: a s2 Let_def ms m_def s3_def)
  qed
  then show ?thesis using loaded by blast
qed

end
