(* ===== verification/ElfLoad.thy ===== *)
theory ElfLoad
  imports ElfSpec
begin

text \<open>What \<^verbatim>\<open>elf64_load_executable\<close> leaves in the address space of a process: the loop over the pages
  of a segment, over the block cache of the file system, the frame allocator and the page tables.\<close>

unbundle bit_operations_syntax

section \<open>The pages of a segment\<close>

text \<open>The byte a program reads at a virtual address.\<close>

definition virt_byte :: "(u64 \<Rightarrow> u64) \<Rightarrow> u64 \<Rightarrow> u64 \<Rightarrow> u8 option" where
  "virt_byte m root va = map_option (\<lambda>(p, e). byte_at m p) (translate m root va)"

text \<open>How many bytes of the file part (\<open>fz\<close> bytes, from \<open>off\<close> in its first page) lie before page \<open>k\<close>.\<close>

definition bytes_before :: "nat \<Rightarrow> nat \<Rightarrow> nat \<Rightarrow> nat" where
  "bytes_before fz off k = (if k = 0 then 0 else min fz (4096 * k - off))"

definition page_bytes :: "u8 list \<Rightarrow> nat \<Rightarrow> nat \<Rightarrow> nat \<Rightarrow> nat \<Rightarrow> u8 list" where
  "page_bytes data po fz off k =
     take (bytes_before fz off (Suc k) - bytes_before fz off k) (drop (po + bytes_before fz off k) data)"

definition first_offset :: "nat \<Rightarrow> nat \<Rightarrow> nat" where
  "first_offset off k = (if k = 0 then off else 0)"

lemma page_count_bytes:
  assumes "off < 4096" "off = 0 \<or> 4096 \<le> fz" and n: "n = bytes_before fz off (Suc k) - bytes_before fz off k"
  shows "bytes_before fz off (Suc k) = bytes_before fz off k + n" "first_offset off k + n \<le> 4096"
    "bytes_before fz off (Suc k) \<le> fz"
    "bytes_before fz off k < fz \<Longrightarrow> (if int fz - int (bytes_before fz off k) < 4096
        then int fz - int (bytes_before fz off k) - int (first_offset off k)
        else 4096 - int (first_offset off k)) = int n"
proof -
  show "bytes_before fz off (Suc k) = bytes_before fz off k + n" "first_offset off k + n \<le> 4096"
      "bytes_before fz off (Suc k) \<le> fz"
    using assms by (cases k; simp add: bytes_before_def first_offset_def; linarith)+
  assume "bytes_before fz off k < fz"
  then show "(if int fz - int (bytes_before fz off k) < 4096
        then int fz - int (bytes_before fz off k) - int (first_offset off k)
        else 4096 - int (first_offset off k)) = int n"
    using assms by (cases k; simp add: bytes_before_def first_offset_def; linarith)
qed

lemma page_position:
  assumes "off < 4096" "po mod 4096 = off" "bytes_before fz off k < fz"
  shows "(po + bytes_before fz off k) mod 4096 = first_offset off k"
proof (cases k)
  case 0
  then show ?thesis using assms by (simp add: bytes_before_def first_offset_def)
next
  case (Suc j)
  have "po = 4096 * (po div 4096) + off" using mult_div_mod_eq [of 4096 po] assms(2) by simp
  then have "po + bytes_before fz off k = 4096 * (po div 4096) + 4096 * k"
    using assms Suc by (simp add: bytes_before_def)
  then show ?thesis using Suc by (simp add: first_offset_def)
qed

lemma page_read:
  assumes fs: "file_stores ctx ino table blk" and rel: "file_rel ctx ino table blk fl (po + bytes_before fz off k)"
    and b: "bsz ctx = 4096" and po: "po mod 4096 = off" and "end": "po + fz \<le> unat (isize ino)"
    and off: "off = 0 \<or> 4096 \<le> fz" and k: "bytes_before fz off k < fz" and rem: "rem = int fz - int (bytes_before fz off k)"
    and out: "out = page_bytes (file_data ctx ino blk) po fz off k"
  shows "\<exists>fl'. bsfs_fread ctx 1 (if rem < 4096 then word_of_int (rem - int (first_offset off k))
        else word_of_int (4096 - int (first_offset off k))) fl = Inr (int (length out), out, fl')
     \<and> file_rel ctx ino table blk fl' (po + bytes_before fz off (Suc k))"
proof -
  define n where "n = bytes_before fz off (Suc k) - bytes_before fz off k"
  have off4: "off < 4096" using po by auto
  note pc = page_count_bytes [OF off4 off n_def]
  define c :: u32 where "c = (if rem < 4096 then word_of_int (rem - int (first_offset off k))
        else word_of_int (4096 - int (first_offset off k)))"
  have "c = word_of_int (if rem < 4096 then rem - int (first_offset off k) else 4096 - int (first_offset off k))"
    by (simp only: c_def if_distrib [of word_of_int])
  then have "c = of_nat n" unfolding rem pc(4) [OF k] by simp
  then have c: "unat c = n" using pc(2) by (simp add: unat_of_nat_small)
  have le: "po + bytes_before fz off k + n \<le> unat (isize ino)" using pc(1,3) "end" by simp
  then have n: "n = min (unat (1 :: u32) * unat c) (unat (isize ino) - (po + bytes_before fz off k))" by (simp add: c)
  have "length (file_data ctx ino blk) = unat (isize ino)"
    by (rule file_data_length [OF fs])
  then have len: "length out = n" using le by (simp add: out page_bytes_def n_def)
  have "unat (1 :: u32) * unat c < 2 ^ 31" using pc(2) by (simp add: c)
  moreover have "(po + bytes_before fz off k) mod bsz ctx + n \<le> bsz ctx"
    unfolding b page_position [OF off4 po k] using pc(2) by simp
  ultimately obtain fl' where "bsfs_fread ctx 1 c fl =
      Inr (int n, take n (drop (po + bytes_before fz off k) (file_data ctx ino blk)), fl')"
    "file_rel ctx ino table blk fl' (po + bytes_before fz off k + n)"
    using bsfs_fread_refines [OF fs rel _ n] by blast
  moreover have "take n (drop (po + bytes_before fz off k) (file_data ctx ino blk)) = out"
    by (simp only: out page_bytes_def n_def)
  ultimately show ?thesis unfolding c_def [symmetric] len pc(1) by (auto simp: add.assoc)
qed

text \<open>The state of the address space after \<open>n\<close> pages: page \<open>a + k\<close> is mapped to \<open>F k\<close>.\<close>

definition pages_loaded ::
  "'a vmm_scheme \<Rightarrow> 'a vmm_scheme \<Rightarrow> u64 \<Rightarrow> nat \<Rightarrow> nat \<Rightarrow> (nat \<Rightarrow> u64) \<Rightarrow> (nat \<Rightarrow> nat) \<Rightarrow> (nat \<Rightarrow> u8 list) \<Rightarrow> bool" where
  "pages_loaded s s' root a n F off out \<longleftrightarrow> as_wf s' root \<and> managed_pages s' = managed_pages s
     \<and> card (free_frames s) \<le> 4 * n + card (free_frames s')
     \<and> (\<forall>k<n. data_page s' root (F k) \<and> page_holds (phys_mem s') (F k) (off k) (out k))
     \<and> (\<forall>q. data_page s root q \<longrightarrow> data_page s' root q \<and> same_content (phys_mem s) (phys_mem s') q)
     \<and> (\<forall>va. walk_entry s' root va = (if a \<le> page_of va \<and> page_of va < a + n
          then Some (0, F (page_of va - a) OR VMM_FLAGS_USER_CODE) else walk_entry s root va))"

lemma pages_loaded_0: "as_wf s root \<Longrightarrow> pages_loaded s s root a 0 F off out"
  by (auto simp: pages_loaded_def same_content_def)

lemma pages_loaded_Suc:
  assumes P: "pages_loaded s s1 root a n F off out" and L: "page_loaded s1 s2 root va f (off n) (out n)"
    and va: "page_of va = a + n"
  shows "pages_loaded s s2 root a (Suc n) (F(n := f)) off out"
proof -
  have wf1: "as_wf s1 root" using P by (simp add: pages_loaded_def)
  have keep: "data_page s2 root q" "same_content (phys_mem s1) (phys_mem s2) q" if "data_page s1 root q" for q
    using L that by (simp_all add: page_loaded_def)
  have "page_holds (phys_mem s2) (F k) (off k) (out k)" if "k < n" for k
  proof -
    have k: "data_page s1 root (F k)" "page_holds (phys_mem s1) (F k) (off k) (out k)"
      using P that by (simp_all add: pages_loaded_def)
    have "is_aligned (F k) 4096" using managed_aligned [OF as_wf_pmm [OF wf1]] k(1) by (simp add: data_page_def)
    then show ?thesis using page_holds_same keep(2) [OF k(1)] k(2) by blast
  qed
  then have "\<forall>k<Suc n. data_page s2 root ((F(n := f)) k) \<and> page_holds (phys_mem s2) ((F(n := f)) k) (off k) (out k)"
    using L P keep(1) by (auto simp: less_Suc_eq page_loaded_def pages_loaded_def)
  moreover have "\<forall>q. data_page s root q \<longrightarrow> data_page s2 root q \<and> same_content (phys_mem s) (phys_mem s2) q"
    using P keep same_content_trans unfolding pages_loaded_def by blast
  moreover have "walk_entry s2 root v = (if a \<le> page_of v \<and> page_of v < a + Suc n
      then Some (0, (F(n := f)) (page_of v - a) OR VMM_FLAGS_USER_CODE) else walk_entry s root v)" for v
    using P L va by (auto simp: page_loaded_def pages_loaded_def)
  ultimately show ?thesis using P L unfolding pages_loaded_def page_loaded_def by (auto simp del: fun_upd_apply)
qed

lemma page_bytes_length:
  assumes "po + fz \<le> length data" "off < 4096" "off = 0 \<or> 4096 \<le> fz"
  shows "length (page_bytes data po fz off k) = bytes_before fz off (Suc k) - bytes_before fz off k"
    "first_offset off k + length (page_bytes data po fz off k) \<le> 4096"
  using page_count_bytes [OF assms(2,3) refl, of k] assms(1) by (simp_all add: page_bytes_def)

lemma elf_pages_run:
  assumes fs: "file_stores ctx ino table blk" and rel: "file_rel ctx ino table blk fl po"
    and b: "bsz ctx = 4096" and po: "po mod 4096 = off" and "end": "po + fz \<le> unat (isize ino)"
    and off: "off = 0 \<or> 4096 \<le> fz" and vaddr: "uint (p_vaddr phdr mod 4096) = int off"
    and wf: "as_wf s root" and vs: "vs = of_nat (a * 4096)" and data: "data = file_data ctx ino blk"
  shows "a + n < 2 ^ 36 \<Longrightarrow> \<forall>va. a \<le> page_of va \<and> page_of va < a + n \<longrightarrow> walk_entry s root va = None \<Longrightarrow>
    4 * n \<le> card (free_frames s) \<Longrightarrow>
    \<exists>F s' fl'. foldM (elf_page ctx (phys_to_virt root) phdr vs) (map (\<lambda>k. of_nat ((a + k) * 4096)) [0..<n])
        \<lparr>lp_err = None, lp_remaining = int fz, lp_file = fl, lp_state = s\<rparr> =
      Inr \<lparr>lp_err = None, lp_remaining = int fz - int (bytes_before fz off n), lp_file = fl', lp_state = s'\<rparr>
      \<and> file_rel ctx ino table blk fl' (po + bytes_before fz off n)
      \<and> pages_loaded s s' root a n F (first_offset off) (page_bytes data po fz off)"
proof (induction n)
  case 0
  then show ?case using rel pages_loaded_0 [OF wf] by (auto simp: bytes_before_def)
next
  case (Suc n)
  let ?addr = "of_nat ((a + n) * 4096) :: u64" and ?out = "page_bytes data po fz off n"
  obtain F s1 fl1 where IH: "foldM (elf_page ctx (phys_to_virt root) phdr vs) (map (\<lambda>k. of_nat ((a + k) * 4096)) [0..<n])
        \<lparr>lp_err = None, lp_remaining = int fz, lp_file = fl, lp_state = s\<rparr> =
      Inr \<lparr>lp_err = None, lp_remaining = int fz - int (bytes_before fz off n), lp_file = fl1, lp_state = s1\<rparr>"
    "file_rel ctx ino table blk fl1 (po + bytes_before fz off n)"
    and P: "pages_loaded s s1 root a n F (first_offset off) (page_bytes data po fz off)"
    using Suc by fastforce
  have off4: "off < 4096" using po by auto
  have pg: "page_of ?addr = a + n" "is_aligned ?addr 4096" using Suc.prems(1) page_of_page [of "a + n"] by simp_all
  have "page_of vs = a" using Suc.prems(1) page_of_page [of a] vs by simp
  then have first: "(if ?addr = vs then uint (p_vaddr phdr mod 4096) else 0) = int (first_offset off n)"
    using vaddr pg(1) vs by (auto simp: first_offset_def)
  have len: "length data = unat (isize ino)" unfolding data by (rule file_data_length [OF fs])
  note pb = page_bytes_length [of po fz data off n, OF _ off4 off, unfolded len, OF "end"]
  have mono: "bytes_before fz off (Suc n) = bytes_before fz off n + length ?out"
    "bytes_before fz off (Suc n) \<le> fz" using page_count_bytes [OF off4 off refl, of n] pb(1) by simp_all
  obtain fl2 where fl2: "int fz - int (bytes_before fz off n) > 0 \<Longrightarrow> bsfs_fread ctx 1
      (if int fz - int (bytes_before fz off n) < 4096 then word_of_int (int fz - int (bytes_before fz off n) - int (first_offset off n))
        else word_of_int (4096 - int (first_offset off n))) fl1 = Inr (int (length ?out), ?out, fl2)"
    "int fz - int (bytes_before fz off n) \<le> 0 \<Longrightarrow> ?out = [] \<and> fl2 = fl1"
    "file_rel ctx ino table blk fl2 (po + bytes_before fz off (Suc n))"
  proof (cases "bytes_before fz off n < fz")
    case True
    then show ?thesis
      using page_read [OF fs IH(2) b po "end" off True refl refl] that unfolding data by auto
  next
    case False
    then have "length ?out = 0" using mono by linarith
    then have "?out = []" by simp
    then show ?thesis using that [of fl1] IH(2) False mono by auto
  qed
  have wf1: "as_wf s1 root" and un: "walk_entry s1 root ?addr = None" and fr: "4 \<le> card (free_frames s1)"
    using P Suc.prems pg(1) by (auto simp: pages_loaded_def)
  obtain f s2 where run: "elf_page ctx (phys_to_virt root) phdr vs ?addr
       \<lparr>lp_err = None, lp_remaining = int fz - int (bytes_before fz off n), lp_file = fl1, lp_state = s1\<rparr> =
       Inr \<lparr>lp_err = None, lp_remaining = int fz - int (bytes_before fz off n) - int (length ?out), lp_file = fl2, lp_state = s2\<rparr>"
     and L: "page_loaded s1 s2 root ?addr f (first_offset off n) ?out"
    using elf_page_run [OF wf1 un fr pg(2) first pb(2) fl2(1,2)] by blast
  have "foldM (elf_page ctx (phys_to_virt root) phdr vs) (map (\<lambda>k. of_nat ((a + k) * 4096)) [0..<Suc n])
        \<lparr>lp_err = None, lp_remaining = int fz, lp_file = fl, lp_state = s\<rparr> =
      Inr \<lparr>lp_err = None, lp_remaining = int fz - int (bytes_before fz off (Suc n)), lp_file = fl2, lp_state = s2\<rparr>"
    using IH(1) run mono(1) by (simp add: foldM_append)
  then show ?case using fl2(3) pages_loaded_Suc [OF P L pg(1)] by blast
qed

section \<open>A segment\<close>

text \<open>What a byte of the image should be: byte \<open>g\<close> counted from the start of the first page.\<close>

definition segment_byte :: "u8 list \<Rightarrow> nat \<Rightarrow> nat \<Rightarrow> nat \<Rightarrow> nat \<Rightarrow> u8" where
  "segment_byte data po fz off g = (if off \<le> g \<and> g < off + fz then data ! (po + (g - off)) else 0)"

lemma page_bytes_nth:
  assumes "po + fz \<le> length data" "off < 4096" "off = 0 \<or> 4096 \<le> fz" and j: "j < 4096"
    and out: "out = page_bytes data po fz off k"
  shows "(if first_offset off k \<le> j \<and> j < first_offset off k + length out then out ! (j - first_offset off k) else 0) =
    segment_byte data po fz off (4096 * k + j)"
proof -
  note l = page_bytes_length [OF assms(1-3), of k]
  show ?thesis
  proof (cases k)
    case 0
    then show ?thesis using l assms by (auto simp: segment_byte_def page_bytes_def first_offset_def bytes_before_def)
  next
    case (Suc m)
    have r: "j < length out \<longleftrightarrow> off \<le> 4096 * k + j \<and> 4096 * k + j < off + fz"
      using l assms Suc by (simp add: out first_offset_def bytes_before_def) linarith
    have "out ! j = data ! (po + (4096 * k + j - off))" if "j < length out"
    proof -
      have "bytes_before fz off k = 4096 * k - off" using r that assms(2) Suc by (simp add: bytes_before_def)
      moreover have "off \<le> 4096 * k + j" "4096 * k + j < off + fz" "off \<le> 4096 * k" using r that assms(2) Suc by simp_all
      ultimately have g: "po + bytes_before fz off k + j = po + (4096 * k + j - off)" "po + bytes_before fz off k + j < length data"
        using assms(1) by linarith+
      show ?thesis using that g(2) unfolding g(1) [symmetric] out page_bytes_def by simp
    qed
    then show ?thesis using r Suc by (simp add: segment_byte_def first_offset_def)
  qed
qed

lemma virt_byte_page:
  assumes wf: "pmm_wf s" and f: "f \<in> managed_pages s" and va: "walk_entry s root va = Some (0, f OR VMM_FLAGS_USER_CODE)"
    and h: "page_holds (phys_mem s) f off out"
  shows "virt_byte (phys_mem s) root va =
    Some (if off \<le> unat va mod 4096 \<and> unat va mod 4096 < off + length out then out ! (unat va mod 4096 - off) else 0)"
proof -
  have al: "is_aligned f 4096" by (rule managed_aligned [OF wf f])
  then have z: "f AND mask 12 = 0" by (simp add: is_aligned_def mask_12)
  have fl: "VMM_FLAGS_USER_CODE AND VMM_PTE_ADDR_MASK = 0"
    by (simp add: VMM_FLAGS_USER_CODE_def VMM_PTE_ADDR_MASK_def)
  have "translate (phys_mem s) root va = Some (f OR (va AND mask 12), f OR VMM_FLAGS_USER_CODE)"
    using leaf_translate [of "phys_mem s" root va 0 f VMM_FLAGS_USER_CODE] va managed_mask [OF wf f] fl z
    by (simp add: walk_entry_def page_shift_def)
  moreover have "f OR (va AND mask 12) = f + (va AND mask 12)"
  proof (rule disjunctive_add_eq_or [symmetric])
    show "f AND (va AND mask 12) = 0" by (simp add: and.left_commute [of f va] z)
  qed
  moreover have "va AND mask 12 = of_nat (unat va mod 4096)"
  proof -
    have "unat (of_nat (unat va mod 4096) :: u64) = unat va mod 4096"
      by (rule unat_of_nat_small) (use mod_less_divisor [of 4096 "unat va"] in simp)
    then show ?thesis by (simp add: word_unat_eq_iff unat_and_mask)
  qed
  ultimately show ?thesis
    using h mod_less_divisor [of 4096 "unat va"] by (simp add: virt_byte_def page_holds_def)
qed

definition first_page :: "Elf64Phdr \<Rightarrow> nat" where
  "first_page phdr = unat (p_vaddr phdr) div 4096"

definition end_page :: "Elf64Phdr \<Rightarrow> nat" where
  "end_page phdr = (unat (p_vaddr phdr) + unat (p_memsz phdr) + 4095) div 4096"

lemma segment_pages:
  assumes "unat (p_vaddr phdr) + unat (p_memsz phdr) < 2 ^ 47" and "p_memsz phdr \<noteq> 0"
    and s: "vs = ALIGN_DOWN (p_vaddr phdr) 4096" and e: "ve = ALIGN_UP (p_vaddr phdr + p_memsz phdr) 4096"
  shows "for_pages body vs ve st =
      foldM body (map (\<lambda>k. of_nat ((first_page phdr + k) * 4096)) [0..<end_page phdr - first_page phdr]) st"
    and "vs = of_nat (first_page phdr * 4096)" and "unat ve = end_page phdr * 4096"
    and "first_page phdr < end_page phdr" and "end_page phdr \<le> 2 ^ 35"
proof -
  have sum: "unat (p_vaddr phdr + p_memsz phdr) = unat (p_vaddr phdr) + unat (p_memsz phdr)"
    by (rule unat_add_small) (use assms(1) in simp)
  show ue: "unat ve = end_page phdr * 4096"
    unfolding e using assms(1) by (subst unat_ALIGN_UP_page) (simp_all add: sum end_page_def)
  have us: "unat vs = first_page phdr * 4096" by (simp add: s first_page_def unat_ALIGN_DOWN_page)
  have "(of_nat (unat vs) :: u64) = vs" by simp
  then show vs: "vs = of_nat (first_page phdr * 4096)" unfolding us by (rule sym)
  have "0 < unat (p_memsz phdr)" using assms(2) by (simp add: unat_gt_0)
  then show lt: "first_page phdr < end_page phdr" unfolding first_page_def end_page_def by linarith
  show "end_page phdr \<le> 2 ^ 35" 
  proof -
    have "end_page phdr \<le> (2 ^ 47 + 4095) div 4096"
      unfolding end_page_def by (rule div_le_mono) (use assms(1) in simp)
    then show ?thesis by simp
  qed
  have "page_loop_ends vs ve"
    unfolding page_loop_ends_def us ue using \<open>end_page phdr \<le> 2 ^ 35\<close> by simp
  moreover have "page_range vs ve = map (\<lambda>k. of_nat ((first_page phdr + k) * 4096)) [0..<end_page phdr - first_page phdr]"
  proof -
    have d: "(end_page phdr * 4096 - first_page phdr * 4096 + 4095) div 4096 = end_page phdr - first_page phdr" by simp
    have "vs + of_nat k * 4096 = of_nat ((first_page phdr + k) * 4096)" for k unfolding vs by (simp add: distrib_right)
    then show ?thesis unfolding page_range_def us ue d by (simp only:)
  qed
  ultimately show "for_pages body vs ve st =
      foldM body (map (\<lambda>k. of_nat ((first_page phdr + k) * 4096)) [0..<end_page phdr - first_page phdr]) st"
    by (simp add: for_pages_def)
qed

lemma filesz_signed:
  assumes "p_filesz phdr \<le> p_memsz phdr" "unat (p_vaddr phdr) + unat (p_memsz phdr) < 2 ^ 47"
  shows "sint (p_filesz phdr) = int (unat (p_filesz phdr))"
proof -
  have "unat (p_filesz phdr) < 2 ^ 63" using assms by (simp add: word_le_nat_alt)
  then have "int (unat (p_filesz phdr)) < int (2 ^ 63)" by (simp only: of_nat_less_iff)
  then have "uint (p_filesz phdr) < 2 ^ 63" by (simp only: uint_nat of_nat_power of_nat_numeral)
  moreover have "- (2 ^ 63) \<le> uint (p_filesz phdr)" by (rule order_trans [OF _ uint_ge_0]) simp
  ultimately have "signed_take_bit 63 (uint (p_filesz phdr)) = uint (p_filesz phdr)"
    by (intro signed_take_bit_int_eq_self)
  then show ?thesis by (simp add: sint_uint)
qed

lemma elf_segment_run:
  assumes fs: "file_stores ctx ino table blk" and rel: "file_rel ctx ino table blk fl pos"
    and b: "bsz ctx = 4096" and data: "data = file_data ctx ino blk"
    and ph: "p_type phdr = PT_LOAD" "p_filesz phdr \<le> p_memsz phdr" "p_memsz phdr \<noteq> 0"
    and off: "off = unat (p_vaddr phdr) mod 4096" "unat (p_offset phdr) mod 4096 = off"
      "off = 0 \<or> 4096 \<le> unat (p_filesz phdr)"
    and "end": "unat (p_offset phdr) + unat (p_filesz phdr) \<le> length data"
    and user: "unat (p_vaddr phdr) + unat (p_memsz phdr) < 2 ^ 47"
    and wf: "as_wf s root" and free: "4 * (end_page phdr - first_page phdr) \<le> card (free_frames s)"
    and un: "\<forall>va. first_page phdr \<le> page_of va \<and> page_of va < end_page phdr \<longrightarrow> walk_entry s root va = None"
  shows "\<exists>F s' fl' pos'. elf_segment ctx (phys_to_virt root) phdr top' fl s =
      Inr (None, max top' (of_nat (end_page phdr * 4096)), fl', s')
    \<and> file_rel ctx ino table blk fl' pos'
    \<and> pages_loaded s s' root (first_page phdr) (end_page phdr - first_page phdr) F (first_offset off)
        (page_bytes data (unat (p_offset phdr)) (unat (p_filesz phdr)) off)"
proof -
  define vs ve where "vs = ALIGN_DOWN (p_vaddr phdr) 4096" and "ve = ALIGN_UP (p_vaddr phdr + p_memsz phdr) 4096"
  note sp = segment_pages [OF user ph(3) vs_def ve_def]
  have len: "length data = unat (isize ino)" unfolding data by (rule file_data_length [OF fs])
  obtain fl1 where sk: "bsfs_fseeko (p_offset phdr) BSFS_FSEEKO_SET fl = Inr (0, fl1)"
    and r1: "file_rel ctx ino table blk fl1 (seek_spec (unat (isize ino)) (p_offset phdr) BSFS_FSEEKO_SET pos)"
    using bsfs_fseeko_refines [OF rel] by blast
  have "seek_spec (unat (isize ino)) (p_offset phdr) BSFS_FSEEKO_SET pos = unat (p_offset phdr)"
    using "end" len by (simp add: seek_spec_def BSFS_FSEEKO_SET_def BSFS_FSEEKO_CUR_def)
  with r1 have r1: "file_rel ctx ino table blk fl1 (unat (p_offset phdr))" by simp
  have v: "uint (p_vaddr phdr mod 4096) = int off"
    unfolding off(1) by (simp add: uint_mod zmod_int)
  note fz = filesz_signed [OF ph(2) user]
  have lt: "first_page phdr + (end_page phdr - first_page phdr) < 2 ^ 36" using sp(4,5) by simp
  have le: "first_page phdr + (end_page phdr - first_page phdr) = end_page phdr" using sp(4) by simp
  obtain F s' fl' where run: "foldM (elf_page ctx (phys_to_virt root) phdr vs)
        (map (\<lambda>k. of_nat ((first_page phdr + k) * 4096)) [0..<end_page phdr - first_page phdr])
        \<lparr>lp_err = None, lp_remaining = int (unat (p_filesz phdr)), lp_file = fl1, lp_state = s\<rparr> =
      Inr \<lparr>lp_err = None, lp_remaining = int (unat (p_filesz phdr)) -
          int (bytes_before (unat (p_filesz phdr)) off (end_page phdr - first_page phdr)), lp_file = fl', lp_state = s'\<rparr>"
      "file_rel ctx ino table blk fl' (unat (p_offset phdr) +
          bytes_before (unat (p_filesz phdr)) off (end_page phdr - first_page phdr))"
      "pages_loaded s s' root (first_page phdr) (end_page phdr - first_page phdr) F (first_offset off)
        (page_bytes data (unat (p_offset phdr)) (unat (p_filesz phdr)) off)"
    using elf_pages_run [OF fs r1 b off(2) "end" [unfolded len] off(3) v wf sp(2) data lt _ free] un unfolding le by blast
  have "of_nat (unat ve) = ve" by simp
  then have "ve = of_nat (end_page phdr * 4096)" unfolding sp(3) by (rule sym)
  then have top': "(if ve > top' then ve else top') = max top' (of_nat (end_page phdr * 4096))" by (auto simp: max_def)
  note loop = run(1) [folded sp(1) fz]
  have "elf_segment ctx (phys_to_virt root) phdr top' fl s = Inr (None, max top' (of_nat (end_page phdr * 4096)), fl', s')"
    unfolding elf_segment_def Let_def vs_def [symmetric] ve_def [symmetric] top' sk
    using ph loop by (simp add: not_less)
  then show ?thesis using run(2,3) by blast
qed

section \<open>The executable\<close>

definition segment_ok :: "u8 list \<Rightarrow> Elf64Phdr \<Rightarrow> bool" where
  "segment_ok data p \<longleftrightarrow> p_filesz p \<le> p_memsz p \<and> (p_type p = PT_LOAD \<longrightarrow> p_memsz p \<noteq> 0
     \<and> unat (p_vaddr p) mod 4096 = unat (p_offset p) mod 4096
     \<and> (unat (p_vaddr p) mod 4096 = 0 \<or> 4096 \<le> unat (p_filesz p))
     \<and> unat (p_offset p) + unat (p_filesz p) \<le> length data \<and> unat (p_vaddr p) + unat (p_memsz p) < 2 ^ 47)"

definition segment_pages_of :: "Elf64Phdr \<Rightarrow> nat set" where
  "segment_pages_of p = (if p_type p = PT_LOAD then {first_page p..<end_page p} else {})"

text \<open>The segment is in memory: its pages are mapped to frames that hold its bytes.\<close>

definition segment_mapped :: "'a vmm_scheme \<Rightarrow> u64 \<Rightarrow> u8 list \<Rightarrow> Elf64Phdr \<Rightarrow> bool" where
  "segment_mapped s root data p \<longleftrightarrow> (\<exists>F. (\<forall>k<end_page p - first_page p. data_page s root (F k)
       \<and> page_holds (phys_mem s) (F k) (first_offset (unat (p_vaddr p) mod 4096) k)
           (page_bytes data (unat (p_offset p)) (unat (p_filesz p)) (unat (p_vaddr p) mod 4096) k))
     \<and> (\<forall>va. page_of va \<in> {first_page p..<end_page p} \<longrightarrow>
         walk_entry s root va = Some (0, F (page_of va - first_page p) OR VMM_FLAGS_USER_CODE)))"

text \<open>The address space grows by the pages \<open>X\<close> and keeps everything else.\<close>

definition space_grows :: "'a vmm_scheme \<Rightarrow> 'a vmm_scheme \<Rightarrow> u64 \<Rightarrow> nat set \<Rightarrow> bool" where
  "space_grows s s' root X \<longleftrightarrow> as_wf s' root \<and> managed_pages s' = managed_pages s
     \<and> (\<forall>q. data_page s root q \<longrightarrow> data_page s' root q \<and> same_content (phys_mem s) (phys_mem s') q)
     \<and> (\<forall>va. page_of va \<notin> X \<longrightarrow> walk_entry s' root va = walk_entry s root va)"

lemma space_grows_trans:
  "space_grows s s1 root X \<Longrightarrow> space_grows s1 s2 root Y \<Longrightarrow> space_grows s s2 root (X \<union> Y)"
  unfolding space_grows_def using same_content_trans by (metis UnCI)

lemma segment_mapped_grows:
  assumes wf: "as_wf s root" and m: "segment_mapped s root data p" and g: "space_grows s s' root X"
    and d: "{first_page p..<end_page p} \<inter> X = {}"
  shows "segment_mapped s' root data p"
proof -
  obtain F where F: "\<forall>k<end_page p - first_page p. data_page s root (F k)
       \<and> page_holds (phys_mem s) (F k) (first_offset (unat (p_vaddr p) mod 4096) k)
           (page_bytes data (unat (p_offset p)) (unat (p_filesz p)) (unat (p_vaddr p) mod 4096) k)"
    "\<forall>va. page_of va \<in> {first_page p..<end_page p} \<longrightarrow>
         walk_entry s root va = Some (0, F (page_of va - first_page p) OR VMM_FLAGS_USER_CODE)"
    using m unfolding segment_mapped_def by blast
  have "data_page s' root q \<and> page_holds (phys_mem s') q x y"
    if "data_page s root q" "page_holds (phys_mem s) q x y" for q x y
  proof -
    have "is_aligned q 4096" using managed_aligned [OF as_wf_pmm [OF wf]] that(1) by (simp add: data_page_def)
    then show ?thesis using g that page_holds_same unfolding space_grows_def by blast
  qed
  then have "\<forall>k<end_page p - first_page p. data_page s' root (F k)
       \<and> page_holds (phys_mem s') (F k) (first_offset (unat (p_vaddr p) mod 4096) k)
           (page_bytes data (unat (p_offset p)) (unat (p_filesz p)) (unat (p_vaddr p) mod 4096) k)" using F(1) by blast
  moreover have "\<forall>va. page_of va \<in> {first_page p..<end_page p} \<longrightarrow>
         walk_entry s' root va = Some (0, F (page_of va - first_page p) OR VMM_FLAGS_USER_CODE)"
    using F(2) d g unfolding space_grows_def by (metis IntI empty_iff)
  ultimately show ?thesis unfolding segment_mapped_def by blast
qed

lemma pages_loaded_mapped:
  assumes "pages_loaded s s' root (first_page p) (end_page p - first_page p) F (first_offset (unat (p_vaddr p) mod 4096))
      (page_bytes data (unat (p_offset p)) (unat (p_filesz p)) (unat (p_vaddr p) mod 4096))"
    and "first_page p < end_page p"
  shows "segment_mapped s' root data p" "space_grows s s' root {first_page p..<end_page p}"
proof -
  have e: "first_page p + (end_page p - first_page p) = end_page p" using assms(2) by simp
  show "segment_mapped s' root data p"
    unfolding segment_mapped_def
    by (rule exI [of _ F]) (use assms(1) in \<open>simp add: pages_loaded_def e\<close>)
  show "space_grows s s' root {first_page p..<end_page p}"
    using assms(1) by (simp add: space_grows_def pages_loaded_def e)
qed

text \<open>The bytes a program reads in the pages of a segment.\<close>

lemma segment_mapped_byte:
  assumes wf: "as_wf s root" and m: "segment_mapped s root data p" and ok: "segment_ok data p" "p_type p = PT_LOAD"
    and va: "unat va < 2 ^ 47" "page_of va \<in> {first_page p..<end_page p}"
  shows "virt_byte (phys_mem s) root va = Some (if p_vaddr p \<le> va \<and> unat va < unat (p_vaddr p) + unat (p_filesz p)
     then data ! (unat (p_offset p) + (unat va - unat (p_vaddr p))) else 0)"
proof -
  let ?off = "unat (p_vaddr p) mod 4096" and ?k = "page_of va - first_page p" and ?j = "unat va mod 4096"
  let ?out = "page_bytes data (unat (p_offset p)) (unat (p_filesz p)) ?off ?k"
  obtain F where F: "data_page s root (F ?k)" "page_holds (phys_mem s) (F ?k) (first_offset ?off ?k) ?out"
    "walk_entry s root va = Some (0, F ?k OR VMM_FLAGS_USER_CODE)"
  proof -
    have "?k < end_page p - first_page p" using va(2) by auto
    then show ?thesis using m that va(2) unfolding segment_mapped_def by blast
  qed
  have "virt_byte (phys_mem s) root va = Some (if first_offset ?off ?k \<le> ?j \<and> ?j < first_offset ?off ?k + length ?out
      then ?out ! (?j - first_offset ?off ?k) else 0)"
    using virt_byte_page [OF as_wf_pmm [OF wf] _ F(3,2)] F(1) by (simp add: data_page_def)
  also have "\<dots> = Some (segment_byte data (unat (p_offset p)) (unat (p_filesz p)) ?off (4096 * ?k + ?j))"
  proof -
    have k: "unat (p_offset p) + unat (p_filesz p) \<le> length data" "?off = 0 \<or> 4096 \<le> unat (p_filesz p)"
      using ok unfolding segment_ok_def by blast+
    have "?off < 4096" "?j < 4096" by (rule mod_less_divisor; simp)+
    then show ?thesis by (simp only: page_bytes_nth [OF k(1) _ k(2) _ refl])
  qed
  also have "\<dots> = Some (if p_vaddr p \<le> va \<and> unat va < unat (p_vaddr p) + unat (p_filesz p)
     then data ! (unat (p_offset p) + (unat va - unat (p_vaddr p))) else 0)"
  proof -
    have "page_of va = unat va div 4096" unfolding page_of_def using va(1) by (subst mod_less) simp_all
    then have "4096 * ?k = unat va div 4096 * 4096 - unat (p_vaddr p) div 4096 * 4096"
      by (simp add: first_page_def diff_mult_distrib2 mult.commute)
    moreover have "unat (p_vaddr p) div 4096 \<le> unat va div 4096"
      using va(2) \<open>page_of va = unat va div 4096\<close> by (simp add: first_page_def)
    ultimately have g: "4096 * ?k + ?j + unat (p_vaddr p) = unat va + ?off"
      using div_mult_mod_eq [of "unat va" 4096] div_mult_mod_eq [of "unat (p_vaddr p)" 4096] by linarith
    then have "?off \<le> 4096 * ?k + ?j \<longleftrightarrow> unat (p_vaddr p) \<le> unat va"
      "4096 * ?k + ?j < ?off + unat (p_filesz p) \<longleftrightarrow> unat va < unat (p_vaddr p) + unat (p_filesz p)" by linarith+
    moreover have "4096 * ?k + ?j - ?off = unat va - unat (p_vaddr p)" if "unat (p_vaddr p) \<le> unat va" using g that by linarith
    ultimately show ?thesis unfolding segment_byte_def word_le_nat_alt by (simp only: cong: if_cong conj_cong)
  qed
  finally show ?thesis .
qed

definition phdr_at :: "u8 list \<Rightarrow> Elf64Ehdr \<Rightarrow> nat \<Rightarrow> Elf64Phdr" where
  "phdr_at data hdr i = phdr_of_bytes (take 56 (drop (unat (e_phoff hdr) + 56 * i) data))"

definition image_top :: "Elf64Phdr list \<Rightarrow> u64 \<Rightarrow> u64" where
  "image_top ps top' = fold (\<lambda>p t. if p_type p = PT_LOAD then max t (of_nat (end_page p * 4096)) else t) ps top'"

lemma elf_segment_step:
  assumes fs: "file_stores ctx ino table blk" and rel: "file_rel ctx ino table blk fl pos"
    and b: "bsz ctx = 4096" and data: "data = file_data ctx ino blk" and ok: "segment_ok data p"
    and wf: "as_wf s root" and free: "4 * card (segment_pages_of p) \<le> card (free_frames s)"
    and un: "\<forall>va. page_of va \<in> segment_pages_of p \<longrightarrow> walk_entry s root va = None"
  shows "\<exists>s' fl' pos'. elf_segment ctx (phys_to_virt root) p top' fl s = Inr (None, image_top [p] top', fl', s')
    \<and> file_rel ctx ino table blk fl' pos' \<and> space_grows s s' root (segment_pages_of p)
    \<and> card (free_frames s) \<le> 4 * card (segment_pages_of p) + card (free_frames s')
    \<and> (p_type p = PT_LOAD \<longrightarrow> segment_mapped s' root data p)"
proof (cases "p_type p = PT_LOAD")
  case True
  let ?off = "unat (p_vaddr p) mod 4096"
  have o: "p_filesz p \<le> p_memsz p" "p_memsz p \<noteq> 0" "unat (p_offset p) mod 4096 = ?off" "?off = 0 \<or> 4096 \<le> unat (p_filesz p)"
    "unat (p_offset p) + unat (p_filesz p) \<le> length data" "unat (p_vaddr p) + unat (p_memsz p) < 2 ^ 47"
    using ok True unfolding segment_ok_def by auto
  have S: "segment_pages_of p = {first_page p..<end_page p}" using True by (simp add: segment_pages_of_def)
  have lt: "first_page p < end_page p" using segment_pages(4) [OF o(6,2) refl refl] .
  obtain F s' fl' pos' where "elf_segment ctx (phys_to_virt root) p top' fl s =
      Inr (None, max top' (of_nat (end_page p * 4096)), fl', s')" "file_rel ctx ino table blk fl' pos'"
    and L: "pages_loaded s s' root (first_page p) (end_page p - first_page p) F (first_offset ?off)
        (page_bytes data (unat (p_offset p)) (unat (p_filesz p)) ?off)"
    using elf_segment_run [OF fs rel b data True o(1,2) refl o(3-6) wf, of top'] free un unfolding S by auto
  moreover note pages_loaded_mapped [OF L lt]
  moreover have "card (free_frames s) \<le> 4 * card (segment_pages_of p) + card (free_frames s')"
    using L by (simp add: S pages_loaded_def)
  ultimately show ?thesis using True S by (auto simp: image_top_def)
next
  case False
  then have "elf_segment ctx (phys_to_virt root) p top' fl s = Inr (None, top', fl, s)"
    using ok by (simp add: elf_segment_def segment_ok_def not_less)
  then show ?thesis using False rel wf
    by (auto simp: image_top_def segment_pages_of_def space_grows_def same_content_def)
qed

definition disjoint_segments :: "Elf64Phdr list \<Rightarrow> bool" where
  "disjoint_segments ps \<longleftrightarrow> sorted_wrt (\<lambda>p q. segment_pages_of p \<inter> segment_pages_of q = {}) ps"

definition image_pages :: "Elf64Phdr list \<Rightarrow> nat set" where
  "image_pages ps = (\<Union>p\<in>set ps. segment_pages_of p)"

definition pages_needed :: "Elf64Phdr list \<Rightarrow> nat" where
  "pages_needed ps = sum_list (map (\<lambda>p. card (segment_pages_of p)) ps)"

lemma phdr_read:
  assumes fs: "file_stores ctx ino table blk" and rel: "file_rel ctx ino table blk fl pos"
    and b: "bsz ctx = 4096" and data: "data = file_data ctx ino blk" and h: "e_phentsize hdr = 56"
    and i: "unat (e_phoff hdr) + 56 * i + 56 \<le> min 4096 (length data)"
  shows "\<exists>fl1 out fl2. bsfs_fseeko (e_phoff hdr + of_nat i * ucast (e_phentsize hdr)) BSFS_FSEEKO_SET fl = Inr (0, fl1)
    \<and> bsfs_fread ctx 56 1 fl1 = Inr (56, out, fl2) \<and> length out = 56 \<and> phdr_of_bytes out = phdr_at data hdr i
    \<and> file_rel ctx ino table blk fl2 (unat (e_phoff hdr) + 56 * i + 56)"
proof -
  let ?at = "e_phoff hdr + of_nat i * ucast (e_phentsize hdr)" and ?pos = "unat (e_phoff hdr) + 56 * i"
  have len: "length data = unat (isize ino)" unfolding data by (rule file_data_length [OF fs])
  have "unat (of_nat i * 56 :: u64) = 56 * i"
    using unat_of_nat_small [of "56 * i", where 'a = 64] i by (simp add: mult.commute)
  then have at: "unat ?at = ?pos"
    unfolding h using i by (subst unat_add_small) simp_all
  obtain fl1 where sk: "bsfs_fseeko ?at BSFS_FSEEKO_SET fl = Inr (0, fl1)"
    and r1: "file_rel ctx ino table blk fl1 (seek_spec (unat (isize ino)) ?at BSFS_FSEEKO_SET pos)"
    using bsfs_fseeko_refines [OF rel] by blast
  have "seek_spec (unat (isize ino)) ?at BSFS_FSEEKO_SET pos = ?pos"
    using i len at by (simp add: seek_spec_def BSFS_FSEEKO_SET_def BSFS_FSEEKO_CUR_def)
  with r1 have r1: "file_rel ctx ino table blk fl1 ?pos" by simp
  have n: "56 = min (unat (56 :: u32) * unat (1 :: u32)) (unat (isize ino) - ?pos)"
  proof -
    have "56 \<le> unat (isize ino) - ?pos" using i len by linarith
    then show ?thesis by simp
  qed
  have "?pos mod 4096 = ?pos" using i by simp
  then have "?pos mod bsz ctx + 56 \<le> bsz ctx" unfolding b using i by simp
  then obtain fl2 where rd: "bsfs_fread ctx 56 1 fl1 = Inr (int 56, take 56 (drop ?pos data), fl2)"
    and r2: "file_rel ctx ino table blk fl2 (?pos + 56)"
    using bsfs_fread_refines [OF fs r1 _ n] unfolding data by auto
  moreover have "length (take 56 (drop ?pos data)) = 56"
    using i by (simp only: length_take length_drop)
  ultimately show ?thesis using sk by (auto simp: phdr_at_def)
qed

lemma elf_headers_run:
  assumes fs: "file_stores ctx ino table blk" and b: "bsz ctx = 4096" and data: "data = file_data ctx ino blk"
    and h: "e_phentsize hdr = 56" and p0: "length phdr0 = 56"
  shows "file_rel ctx ino table blk fl pos \<Longrightarrow> as_wf s root \<Longrightarrow> ps = map (phdr_at data hdr) is \<Longrightarrow>
    \<forall>i\<in>set is. unat (e_phoff hdr) + 56 * i + 56 \<le> min 4096 (length data) \<Longrightarrow>
    \<forall>p\<in>set ps. segment_ok data p \<Longrightarrow> disjoint_segments ps \<Longrightarrow> 4 * pages_needed ps \<le> card (free_frames s) \<Longrightarrow>
    \<forall>va. page_of va \<in> image_pages ps \<longrightarrow> walk_entry s root va = None \<Longrightarrow>
    \<exists>s' fl' pos'. elf_headers ctx (phys_to_virt root) phdr0 hdr is top' fl s = Inr (None, image_top ps top', fl', s')
      \<and> file_rel ctx ino table blk fl' pos' \<and> space_grows s s' root (image_pages ps)
      \<and> (\<forall>p\<in>set ps. p_type p = PT_LOAD \<longrightarrow> segment_mapped s' root data p)"
proof (induction "is" arbitrary: fl pos s ps top')
  case Nil
  then show ?case by (auto simp: image_top_def space_grows_def image_pages_def same_content_def)
next
  case (Cons i "is")
  let ?p = "phdr_at data hdr i" and ?ps = "map (phdr_at data hdr) is"
  have ps: "ps = ?p # ?ps" using Cons.prems(3) by simp
  have i: "unat (e_phoff hdr) + 56 * i + 56 \<le> min 4096 (length data)" using Cons.prems(4) by simp
  obtain fl1 out fl2 where rd: "bsfs_fseeko (e_phoff hdr + of_nat i * ucast (e_phentsize hdr)) BSFS_FSEEKO_SET fl = Inr (0, fl1)"
    "bsfs_fread ctx 56 1 fl1 = Inr (56, out, fl2)" "length out = 56" "phdr_of_bytes out = ?p"
    "file_rel ctx ino table blk fl2 (unat (e_phoff hdr) + 56 * i + 56)"
    using phdr_read [OF fs Cons.prems(1) b data h i] by blast
  obtain s1 fl3 pos3 where sg: "elf_segment ctx (phys_to_virt root) ?p top' fl2 s = Inr (None, image_top [?p] top', fl3, s1)"
      "file_rel ctx ino table blk fl3 pos3" "space_grows s s1 root (segment_pages_of ?p)"
      "card (free_frames s) \<le> 4 * card (segment_pages_of ?p) + card (free_frames s1)"
      "p_type ?p = PT_LOAD \<longrightarrow> segment_mapped s1 root data ?p"
    using elf_segment_step [OF fs rd(5) b data _ Cons.prems(2), of ?p top'] Cons.prems(5,7,8)
    by (auto simp: ps pages_needed_def image_pages_def)
  have wf1: "as_wf s1 root" using sg(3) by (simp add: space_grows_def)
  have dj: "segment_pages_of ?p \<inter> image_pages ?ps = {}" "disjoint_segments ?ps"
    using Cons.prems(6) by (auto simp: ps disjoint_segments_def image_pages_def)
  have "\<forall>va. page_of va \<in> image_pages ?ps \<longrightarrow> walk_entry s1 root va = None"
  proof (intro allI impI)
    fix va assume v: "page_of va \<in> image_pages ?ps"
    then have "walk_entry s root va = None" using Cons.prems(8) by (auto simp: ps image_pages_def)
    moreover have "page_of va \<notin> segment_pages_of ?p" using v dj(1) by auto
    ultimately show "walk_entry s1 root va = None" using sg(3) by (simp add: space_grows_def)
  qed
  moreover have "4 * pages_needed ?ps \<le> card (free_frames s1)"
    using sg(4) Cons.prems(7) by (simp add: ps pages_needed_def)
  ultimately obtain s2 fl4 pos4 where r: "elf_headers ctx (phys_to_virt root) phdr0 hdr is (image_top [?p] top') fl3 s1 =
        Inr (None, image_top ?ps (image_top [?p] top'), fl4, s2)"
      "file_rel ctx ino table blk fl4 pos4" "space_grows s1 s2 root (image_pages ?ps)"
      "\<forall>p\<in>set ?ps. p_type p = PT_LOAD \<longrightarrow> segment_mapped s2 root data p"
    using Cons.IH [OF sg(2) wf1 refl, of "image_top [?p] top'"] Cons.prems(4,5) dj(2) by (auto simp: ps)
  have "elf_headers ctx (phys_to_virt root) phdr0 hdr (i # is) top' fl s = Inr (None, image_top ps top', fl4, s2)"
    using rd sg(1) r(1) p0 by (simp add: Let_def ps) (simp add: image_top_def)
  moreover have "space_grows s s2 root (image_pages ps)"
    using space_grows_trans [OF sg(3) r(3)] by (simp add: ps image_pages_def)
  moreover have "segment_mapped s2 root data ?p" if "p_type ?p = PT_LOAD"
    using segment_mapped_grows [OF wf1 _ r(3)] sg(5) that dj(1) by (simp add: segment_pages_of_def)
  ultimately show ?case using r(2,4) by (auto simp: ps)
qed

text \<open>An executable the loader takes: its header and program headers lie in the first block, and its segments
  do not share pages.\<close>

definition program_headers :: "u8 list \<Rightarrow> Elf64Phdr list" where
  "program_headers data = (let hdr = ehdr_of_bytes (take 64 data) in map (phdr_at data hdr) [0..<unat (e_phnum hdr)])"

definition executable_ok :: "u8 list \<Rightarrow> bool" where
  "executable_ok data \<longleftrightarrow> (let hdr = ehdr_of_bytes (take 64 data) in 64 \<le> length data \<and> elf64_check_magic hdr
     \<and> e_ident hdr ! 4 = 2 \<and> e_ident hdr ! 5 = 1 \<and> e_type hdr = 2 \<and> e_phentsize hdr = 56
     \<and> unat (e_phoff hdr) + 56 * unat (e_phnum hdr) \<le> min 4096 (length data)
     \<and> (\<forall>p\<in>set (program_headers data). segment_ok data p) \<and> disjoint_segments (program_headers data))"

lemma elf_load_run:
  assumes fs: "file_stores ctx ino table blk" and rel: "file_rel ctx ino table blk fl 0"
    and b: "bsz ctx = 4096" and data: "data = file_data ctx ino blk" and ok: "executable_ok data"
    and l: "length hdr0 = 64" "length phdr0 = 56" and wf: "as_wf s root"
    and free: "4 * pages_needed (program_headers data) \<le> card (free_frames s)"
    and un: "\<forall>va. page_of va \<in> image_pages (program_headers data) \<longrightarrow> walk_entry s root va = None"
  shows "\<exists>s' fl'. elf64_load_executable ctx hdr0 phdr0 fl (phys_to_virt root) s =
      Inr (\<lparr>elf_result = 1, elf_top = image_top (program_headers data) 0\<rparr>, ehdr_of_bytes (take 64 data), fl', s')
    \<and> space_grows s s' root (image_pages (program_headers data))
    \<and> (\<forall>p\<in>set (program_headers data). p_type p = PT_LOAD \<longrightarrow> segment_mapped s' root data p)"
proof -
  let ?hdr = "ehdr_of_bytes (take 64 data)" and ?ps = "program_headers data"
  have h: "64 \<le> length data" "elf64_check_magic ?hdr" "e_ident ?hdr ! 4 = 2" "e_ident ?hdr ! 5 = 1" "e_type ?hdr = 2"
    "e_phentsize ?hdr = 56" "unat (e_phoff ?hdr) + 56 * unat (e_phnum ?hdr) \<le> min 4096 (length data)"
    "\<forall>p\<in>set ?ps. segment_ok data p" "disjoint_segments ?ps"
    using ok unfolding executable_ok_def Let_def by blast+
  have len: "length data = unat (isize ino)" unfolding data by (rule file_data_length [OF fs])
  have n: "64 = min (unat (64 :: u32) * unat (1 :: u32)) (unat (isize ino) - 0)" using h(1) len by simp
  obtain fl1 where rd: "bsfs_fread ctx 64 1 fl = Inr (int 64, take 64 (drop 0 data), fl1)"
    and r1: "file_rel ctx ino table blk fl1 (0 + 64)"
    using bsfs_fread_refines [OF fs rel _ n] unfolding data b by auto
  obtain fl2 where sk: "bsfs_fseeko (e_phoff ?hdr) BSFS_FSEEKO_SET fl1 = Inr (0, fl2)"
    and r2: "file_rel ctx ino table blk fl2 (seek_spec (unat (isize ino)) (e_phoff ?hdr) BSFS_FSEEKO_SET (0 + 64))"
    using bsfs_fseeko_refines [OF r1] by blast
  have "\<forall>i\<in>set [0..<unat (e_phnum ?hdr)]. unat (e_phoff ?hdr) + 56 * i + 56 \<le> min 4096 (length data)"
  proof
    fix i assume "i \<in> set [0..<unat (e_phnum ?hdr)]"
    then have "56 * i + 56 \<le> 56 * unat (e_phnum ?hdr)" by simp
    then show "unat (e_phoff ?hdr) + 56 * i + 56 \<le> min 4096 (length data)" using h(7) by linarith
  qed
  from elf_headers_run [OF fs b data h(6) l(2) r2 wf _ this h(8,9) free un, of 0]
  obtain s' fl' where run: "elf_headers ctx (phys_to_virt root) phdr0 ?hdr [0..<unat (e_phnum ?hdr)] 0 fl2 s =
      Inr (None, image_top ?ps 0, fl', s')" "space_grows s s' root (image_pages ?ps)"
      "\<forall>p\<in>set ?ps. p_type p = PT_LOAD \<longrightarrow> segment_mapped s' root data p"
    by (auto simp: program_headers_def Let_def)
  have "elf64_load_executable ctx hdr0 phdr0 fl (phys_to_virt root) s =
      Inr (\<lparr>elf_result = 1, elf_top = image_top ?ps 0\<rparr>, ?hdr, fl', s')"
    unfolding elf64_load_executable_def using rd h sk run(1) l(1) by (simp add: Let_def)
  then show ?thesis using run(2,3) by blast
qed


definition exe_bytes :: "u8 list" where
  "exe_bytes =
    [0x7F, 0x45, 0x4C, 0x46, 2, 1, 1, 0, 0, 0, 0, 0, 0, 0, 0, 0, 2, 0, 0x3E, 0, 1, 0, 0, 0,
     0x78, 0, 0x40, 0, 0, 0, 0, 0, 0x40, 0, 0, 0, 0, 0, 0, 0, 0, 0, 0, 0, 0, 0, 0, 0,
     0, 0, 0, 0, 0x40, 0, 0x38, 0, 1, 0, 0x40, 0, 0, 0, 0, 0,
     1, 0, 0, 0, 7, 0, 0, 0, 0, 0, 0, 0, 0, 0, 0, 0, 0, 0, 0x40, 0, 0, 0, 0, 0, 0, 0, 0x40, 0, 0, 0, 0, 0,
     0x80, 0, 0, 0, 0, 0, 0, 0, 0, 0x20, 0, 0, 0, 0, 0, 0, 0, 0x10, 0, 0, 0, 0, 0, 0,
     0xEB, 0xFE, 0, 0, 0, 0, 0, 0x5A]"

definition exe_context :: "u64 BsfsContext" where
  "exe_context = \<lparr>header = example_header\<lparr>block_size := 4096\<rparr>, disk_read = (\<lambda>lba n. (1, exe_bytes @ replicate 3968 0)),
     phys_sector_size = 512, scratch_buf_size = 4096\<rparr>"

definition exe_inode :: BsfsInode where
  "exe_inode = example_inode\<lparr>isize := 128, iblocks := 1\<rparr>"

definition exe_file :: BsfsFile where
  "exe_file = \<lparr>inode = Some exe_inode, buf = replicate 4096 0, bufsize = 4096, position = 0, cached_block = UINT32_MAX,
     l1_table = replicate 4096 0, cached_l1 = UINT32_MAX, l2_table = [], cached_l2 = UINT32_MAX,
     l3_table = [], cached_l3 = UINT32_MAX, eof = False\<rparr>"

lemma exe_length: "length exe_bytes = 128"
  by (simp add: exe_bytes_def)

lemma exe_block: "bsz exe_context = 4096" "nblocks exe_context exe_inode = 1"
  by (simp_all add: bsz_def exe_context_def nblocks_def exe_inode_def)

lemma exe_stores: "file_stores exe_context exe_inode (exe_bytes @ replicate 3968 0) (\<lambda>i. exe_bytes @ replicate 3968 0)"
proof -
  have "geometry exe_context exe_inode"
    unfolding geometry_def exe_block by (simp add: exe_context_def exe_inode_def)
  moreover have "disk_read exe_context lba n = (1, exe_bytes @ replicate 3968 0)" for lba n by (simp add: exe_context_def)
  ultimately show ?thesis by (simp add: file_stores_def exe_block exe_length)
qed

lemma exe_rel: "file_rel exe_context exe_inode (exe_bytes @ replicate 3968 0) (\<lambda>i. exe_bytes @ replicate 3968 0) exe_file 0"
proof -
  have "bufsize exe_file = block_size (header exe_context)" by (simp add: exe_file_def exe_context_def)
  then show ?thesis
    unfolding file_rel_def l1_ok_def exe_block by (simp add: exe_file_def UINT32_MAX_def)
qed

lemma exe_data: "file_data exe_context exe_inode (\<lambda>i. exe_bytes @ replicate 3968 0) = exe_bytes"
proof -
  have "unat (isize exe_inode) = length exe_bytes" by (simp add: exe_inode_def exe_length)
  then show ?thesis by (simp add: file_data_def exe_block)
qed

lemma exe_header:
  "ehdr_of_bytes (take 64 exe_bytes) = \<lparr>e_ident = [0x7F, 0x45, 0x4C, 0x46, 2, 1, 1, 0, 0, 0, 0, 0, 0, 0, 0, 0], e_type = 2,
     e_machine = 0x3E, e_version = 1, e_entry = 0x400078, e_phoff = 64, e_shoff = 0, e_flags = 0, e_ehsize = 64,
     e_phentsize = 56, e_phnum = 1, e_shentsize = 64, e_shnum = 0, e_shstrndx = 0\<rparr>"
  by (simp add: exe_bytes_def ehdr_of_bytes_def field_def)

lemma exe_program_headers:
  "program_headers exe_bytes = [\<lparr>p_type = PT_LOAD, p_flags = 7, p_offset = 0, p_vaddr = 0x400000, p_paddr = 0x400000,
     p_filesz = 128, p_memsz = 0x2000, p_align = 0x1000\<rparr>]"
proof -
  have "phdr_of_bytes (take 56 (drop 64 exe_bytes)) = \<lparr>p_type = PT_LOAD, p_flags = 7, p_offset = 0, p_vaddr = 0x400000,
      p_paddr = 0x400000, p_filesz = 128, p_memsz = 0x2000, p_align = 0x1000\<rparr>"
    by (simp add: exe_bytes_def phdr_of_bytes_def field_def PT_LOAD_def)
  then show ?thesis by (simp add: program_headers_def exe_header phdr_at_def)
qed

lemma exe_ok: "executable_ok exe_bytes"
  unfolding executable_ok_def exe_program_headers exe_header
  by (simp add: elf64_check_magic_def exe_length segment_ok_def disjoint_segments_def)


section \<open>A segment that loses its end\<close>

text \<open>C33: a segment smaller than a page that starts inside a page, at offset \<open>off\<close>, is loaded without its last \<open>off\<close>
  bytes: the loader asks for \<^verbatim>\<open>remaining - offset\<close> bytes, reports success, and the program reads zeros
  in their place, whatever the file holds there.\<close>

theorem elf_segment_truncates:
  assumes fs: "file_stores ctx ino table blk" and rel: "file_rel ctx ino table blk fl pos"
    and b: "bsz ctx = 4096" and data: "data = file_data ctx ino blk" and t: "p_type p = PT_LOAD"
    and off: "off = unat (p_vaddr p) mod 4096" "unat (p_offset p) mod 4096 = off" "off < unat (p_filesz p)"
    and sz: "p_filesz p \<le> p_memsz p" "off + unat (p_memsz p) < 4096"
    and "end": "unat (p_offset p) + unat (p_filesz p) \<le> length data" and user: "unat (p_vaddr p) + unat (p_memsz p) < 2 ^ 47"
    and wf: "as_wf s root" and free: "4 \<le> card (free_frames s)"
    and un: "\<forall>va. page_of va = first_page p \<longrightarrow> walk_entry s root va = None"
  shows "\<exists>fl' s'. elf_segment ctx (phys_to_virt root) p top' fl s = Inr (None, max top' (of_nat (end_page p * 4096)), fl', s')
    \<and> (\<forall>i<unat (p_filesz p). virt_byte (phys_mem s') root (p_vaddr p + of_nat i) =
        Some (if i < unat (p_filesz p) - off then data ! (unat (p_offset p) + i) else 0))"
proof -
  let ?po = "unat (p_offset p)" and ?fz = "unat (p_filesz p)" and ?a = "first_page p"
  let ?out = "take (?fz - off) (drop ?po data)"
  define vs ve where "vs = ALIGN_DOWN (p_vaddr p) 4096" and "ve = ALIGN_UP (p_vaddr p + p_memsz p) 4096"
  have ms: "?fz \<le> unat (p_memsz p)" "p_memsz p \<noteq> 0" using sz(1) off(3) by (auto simp: word_le_nat_alt)
  note sp = segment_pages [OF user ms(2) vs_def ve_def]
  have va: "unat (p_vaddr p) = 4096 * ?a + off" by (simp add: first_page_def off(1))
  have one: "end_page p - ?a = 1"
  proof -
    have "end_page p = (4096 * ?a + (off + unat (p_memsz p) + 4095)) div 4096" by (simp add: end_page_def va)
    also have "\<dots> = ?a + (off + unat (p_memsz p) + 4095) div 4096" by simp
    also have "(off + unat (p_memsz p) + 4095) div 4096 = 1" using sz(2) off(3) ms(1) by simp
    finally show ?thesis by simp
  qed
  have len: "length data = unat (isize ino)" unfolding data by (rule file_data_length [OF fs])
  obtain fl1 where sk: "bsfs_fseeko (p_offset p) BSFS_FSEEKO_SET fl = Inr (0, fl1)"
    and r1: "file_rel ctx ino table blk fl1 (seek_spec (unat (isize ino)) (p_offset p) BSFS_FSEEKO_SET pos)"
    using bsfs_fseeko_refines [OF rel] by blast
  have "seek_spec (unat (isize ino)) (p_offset p) BSFS_FSEEKO_SET pos = ?po"
    using "end" len by (simp add: seek_spec_def BSFS_FSEEKO_SET_def BSFS_FSEEKO_CUR_def)
  with r1 have r1: "file_rel ctx ino table blk fl1 ?po" by simp
  have "unat (word_of_int (int ?fz - int off) :: u32) = ?fz - off"
  proof -
    have "(word_of_int (int ?fz - int off) :: u32) = of_nat (?fz - off)" using off(3) by (simp add: of_nat_diff)
    then show ?thesis using sz(2) ms(1) by (simp only:) (rule unat_of_nat_small, simp)
  qed
  then have n: "?fz - off = min (unat (1 :: u32) * unat (word_of_int (int ?fz - int off) :: u32)) (unat (isize ino) - ?po)"
    and c: "unat (1 :: u32) * unat (word_of_int (int ?fz - int off) :: u32) < 2 ^ 31"
    using "end" len sz(2) ms(1) by simp_all
  have "?po mod bsz ctx + (?fz - off) \<le> bsz ctx" unfolding b off(2) using off(3) sz(2) ms(1) by simp
  from bsfs_fread_refines [OF fs r1 c n this]
  obtain fl2 where rd: "bsfs_fread ctx 1 (word_of_int (int ?fz - int off)) fl1 = Inr (int (?fz - off), ?out, fl2)"
    unfolding data by blast
  have lo: "length ?out = ?fz - off" using "end" by simp
  have pg: "page_of vs = ?a" "is_aligned vs 4096" using sp(2,4,5) page_of_page [of ?a] by simp_all
  have v: "(if vs = vs then uint (p_vaddr p mod 4096) else 0) = int off" by (simp add: off(1) uint_mod zmod_int)
  have fits: "off + length ?out \<le> 4096" using lo off(3) sz(2) ms(1) by simp
  have r: "int ?fz > 0 \<Longrightarrow> bsfs_fread ctx 1 (if int ?fz < 4096 then word_of_int (int ?fz - int off)
      else word_of_int (4096 - int off)) fl1 = Inr (int (length ?out), ?out, fl2)"
  proof -
    have "int ?fz < 4096" using sz(2) ms(1) by linarith
    then show ?thesis unfolding lo by (simp only: rd if_True)
  qed
  have f: "int ?fz \<le> 0 \<Longrightarrow> ?out = [] \<and> fl2 = fl1" using off(3) by linarith
  have "walk_entry s root vs = None" using un pg(1) by blast
  from elf_page_run [OF wf this free pg(2) v fits r f]
  obtain g s' where run: "elf_page ctx (phys_to_virt root) p vs vs
       \<lparr>lp_err = None, lp_remaining = int ?fz, lp_file = fl1, lp_state = s\<rparr> =
       Inr \<lparr>lp_err = None, lp_remaining = int ?fz - int (length ?out), lp_file = fl2, lp_state = s'\<rparr>"
     and L: "page_loaded s s' root vs g off ?out"
    by blast
  have loop: "for_pages (elf_page ctx (phys_to_virt root) p vs) vs ve
      \<lparr>lp_err = None, lp_remaining = int ?fz, lp_file = fl1, lp_state = s\<rparr> =
      Inr \<lparr>lp_err = None, lp_remaining = int ?fz - int (length ?out), lp_file = fl2, lp_state = s'\<rparr>"
    unfolding sp(1) one using run sp(2) by simp
  have "of_nat (unat ve) = ve" by simp
  then have "ve = of_nat (end_page p * 4096)" unfolding sp(3) by (rule sym)
  then have top': "(if ve > top' then ve else top') = max top' (of_nat (end_page p * 4096))" by (auto simp: max_def)
  have "elf_segment ctx (phys_to_virt root) p top' fl s = Inr (None, max top' (of_nat (end_page p * 4096)), fl2, s')"
    unfolding elf_segment_def Let_def vs_def [symmetric] ve_def [symmetric] top' sk
    using t sz(1) loop filesz_signed [OF sz(1) user] by (simp add: not_less)
  moreover have "virt_byte (phys_mem s') root (p_vaddr p + of_nat i) =
        Some (if i < ?fz - off then data ! (?po + i) else 0)" if "i < ?fz" for i
  proof -
    have "unat (of_nat i :: u64) = i" using that sz(2) ms(1) by (intro unat_of_nat_small) simp
    then have u: "unat (p_vaddr p + of_nat i) = 4096 * ?a + (off + i)"
      using that ms(1) user va by (subst unat_add_small) simp_all
    have small: "off + i < 4096" using that sz(2) ms(1) by simp
    have "page_of (p_vaddr p + of_nat i) = ?a"
      unfolding page_of_def u using small sp(4,5) by (simp add: mod_less)
    then have w: "walk_entry s' root (p_vaddr p + of_nat i) = Some (0, g OR VMM_FLAGS_USER_CODE)"
      using L pg(1) by (simp add: page_loaded_def)
    have wf': "pmm_wf s'" and g: "g \<in> managed_pages s'" and h: "page_holds (phys_mem s') g off ?out"
      using L as_wf_pmm by (auto simp: page_loaded_def data_page_def)
    have m: "unat (p_vaddr p + of_nat i) mod 4096 = off + i" unfolding u using small by simp
    show ?thesis using virt_byte_page [OF wf' g w h, unfolded m lo] "end" by simp
  qed
  ultimately show ?thesis by blast
qed

definition cut_phdr :: Elf64Phdr where
  "cut_phdr = \<lparr>p_type = PT_LOAD, p_flags = 7, p_offset = 0x10, p_vaddr = 0x400010, p_paddr = 0x400010,
     p_filesz = 0x20, p_memsz = 0x20, p_align = 0x1000\<rparr>"

theorem elf_segment_truncates_witness:
  "exe_bytes ! 0x20 = 0x40 \<and> (\<exists>fl' s'. elf_segment exe_context (phys_to_virt 0) cut_phdr 0 exe_file space_example =
      Inr (None, 0x401000, fl', s') \<and> virt_byte (phys_mem s') 0 0x400018 = Some 0x78 \<and> virt_byte (phys_mem s') 0 0x400020 = Some 0)"
proof -
  have e: "exe_bytes ! 0x20 = 0x40" "exe_bytes ! 0x18 = 0x78" by (simp_all add: exe_bytes_def)
  have p: "p_type cut_phdr = PT_LOAD" "16 = unat (p_vaddr cut_phdr) mod 4096" "unat (p_offset cut_phdr) mod 4096 = 16"
    "16 < unat (p_filesz cut_phdr)" "p_filesz cut_phdr \<le> p_memsz cut_phdr" "16 + unat (p_memsz cut_phdr) < 4096"
    "unat (p_offset cut_phdr) + unat (p_filesz cut_phdr) \<le> length exe_bytes"
    "unat (p_vaddr cut_phdr) + unat (p_memsz cut_phdr) < 2 ^ 47"
    by (simp_all add: cut_phdr_def exe_length)
  have f: "4 \<le> card (free_frames space_example)" by (simp add: space_example_pmm)
  have u: "\<forall>va. page_of va = first_page cut_phdr \<longrightarrow> walk_entry space_example 0 va = None" by (simp add: space_example_wf(2))
  have c: "p_filesz cut_phdr = 0x20" "p_vaddr cut_phdr = 0x400010" "p_offset cut_phdr = 0x10" by (simp_all add: cut_phdr_def)
  have t: "max 0 (of_nat (end_page cut_phdr * 4096)) = (0x401000 :: u64)" by (simp add: end_page_def cut_phdr_def)
  from elf_segment_truncates [OF exe_stores exe_rel exe_block(1) exe_data [symmetric] p space_example_wf(1) f u, of 0, unfolded t]
  obtain fl' s' where r: "elf_segment exe_context (phys_to_virt 0) cut_phdr 0 exe_file space_example = Inr (None, 0x401000, fl', s')"
    and v: "\<And>i. i < unat (p_filesz cut_phdr) \<Longrightarrow> virt_byte (phys_mem s') 0 (p_vaddr cut_phdr + of_nat i) =
      Some (if i < unat (p_filesz cut_phdr) - 16 then exe_bytes ! (unat (p_offset cut_phdr) + i) else 0)" by blast
  have "virt_byte (phys_mem s') 0 0x400020 = Some 0" using v [of 16] by (simp add: c)
  moreover have "virt_byte (phys_mem s') 0 0x400018 = Some 0x78" using v [of 8] e(2) by (simp add: c)
  ultimately show ?thesis using r e(1) by blast
qed

end
