(* ===== verification/Printf.thy ===== *)
theory Printf
  imports Strings
begin

text \<open>
  The kernel's formatted output, kernel/printf.c. The result of a call is the text it hands to
  \<^verbatim>\<open>putchar_\<close>, in order. A format is the list of its characters before the terminator, arguments are the
  64-bit slots the calling convention passes them in, and the strings arguments point to are in byte memory.
  Reading an argument that was not passed, and negating the least 64-bit integer, are a \<open>Fault\<close>.

  The numerals are shown to denote the number they were made from, with the width and the sign the format
  asks for; scanning a format is shown to invert writing its directives; and a string of 256 characters or
  more is shown to be padded with almost 2^64 spaces.
\<close>

section \<open>Characters\<close>

definition PRINTF_MAX_FORMAT_STACK :: nat where "PRINTF_MAX_FORMAT_STACK = 32"
definition PRINTF_MAX_WIDTH_MODIFIER :: nat where "PRINTF_MAX_WIDTH_MODIFIER = 4"
definition PRINTF_MAX_LENGTH_MODIFIER :: nat where "PRINTF_MAX_LENGTH_MODIFIER = 2"

datatype PrintBase = BASE_OCT | BASE_DEC | BASE_HEX

definition is_digit :: "char \<Rightarrow> bool" where
  "is_digit ch \<longleftrightarrow> (of_char ch :: nat) > 47 \<and> (of_char ch :: nat) < 58"

definition is_length_modifier :: "char \<Rightarrow> bool" where
  "is_length_modifier ch \<longleftrightarrow> ch \<in> set ''hlLztj''"

definition is_format_specifier :: "char \<Rightarrow> bool" where
  "is_format_specifier ch \<longleftrightarrow> ch \<in> set ''diuoxXfFeEgGcspn%''"

definition radix16 :: string where "radix16 = ''0123456789abcdef0123456789ABCDEF''"
definition radix10 :: string where "radix10 = ''0123456789''"
definition radix8 :: string where "radix8 = ''01234567''"

section \<open>Arguments\<close>

text \<open>\<^verbatim>\<open>va_arg\<close> takes the next slot; the type of the argument says how much of it is read.\<close>

definition va_arg :: "u64 list \<Rightarrow> (u64 \<times> u64 list) kres" where
  "va_arg list = (case list of [] \<Rightarrow> Inl Fault | a # list \<Rightarrow> Inr (a, list))"

definition as_int :: "u64 \<Rightarrow> int" where "as_int a = sint (ucast a :: u32)"
definition as_long :: "u64 \<Rightarrow> int" where "as_long a = sint a"

definition printf_resolve_signed :: "string \<Rightarrow> u64 list \<Rightarrow> (int \<times> u64 list) kres" where
  "printf_resolve_signed lspec list =
     andthen (va_arg list) (\<lambda>(a, list). Inr (
       (if lspec = [] then as_int a
        else if length lspec = 1 then
          (if lspec ! 0 = CHR ''h'' then sint (ucast a :: u16)
           else if lspec ! 0 \<in> set ''ltzj'' then as_long a
           else as_int a)
        else if lspec ! 0 = CHR ''h'' \<and> lspec ! 1 = CHR ''h'' then sint (ucast a :: u8)
        else if lspec ! 0 = CHR ''l'' \<and> lspec ! 1 = CHR ''l'' then as_long a
        else as_int a), list))"

definition printf_resolve_unsigned :: "string \<Rightarrow> u64 list \<Rightarrow> (u64 \<times> u64 list) kres" where
  "printf_resolve_unsigned lspec list =
     andthen (va_arg list) (\<lambda>(a, list). Inr (
       (if lspec = [] then ucast (ucast a :: u32)
        else if length lspec = 1 then
          (if lspec ! 0 = CHR ''h'' then ucast (ucast a :: u16)
           else if lspec ! 0 \<in> set ''lzj'' then a
           else ucast (ucast a :: u32))
        else if lspec ! 0 = CHR ''h'' \<and> lspec ! 1 = CHR ''h'' then ucast (ucast a :: u8)
        else if lspec ! 0 = CHR ''l'' \<and> lspec ! 1 = CHR ''l'' then a
        else ucast (ucast a :: u32)), list))"

section \<open>Conversions\<close>

record printf_flags =
  f_leftalign :: bool
  f_sign :: bool
  f_space :: bool
  f_zeropad :: bool
  f_alternate :: bool

text \<open>The digits are stored from the least significant one; \<open>buf\<close> is the part of the stack buffer that is
  filled. No digit is the terminator, so \<^verbatim>\<open>strrev\<close> reverses exactly this part.\<close>

function digit_loop :: "string \<Rightarrow> nat \<Rightarrow> nat \<Rightarrow> string \<Rightarrow> string" where
  "digit_loop radix base num buf =
     (if num > 0 \<and> length buf < PRINTF_MAX_FORMAT_STACK - 1
      then digit_loop radix base (num div base) (buf @ [radix ! (num mod base)])
      else buf)"
  by pat_completeness auto
termination
  by (relation "measure (\<lambda>(_, _, _, buf). PRINTF_MAX_FORMAT_STACK - length buf)") auto

definition vprintf_signed :: "int \<Rightarrow> u8 \<Rightarrow> printf_flags \<Rightarrow> string kres" where
  "vprintf_signed num width f =
     (let zeropad = (f_zeropad f \<and> \<not> f_leftalign f);
          pad = (if zeropad then CHR ''0'' else CHR '' '');
          negative = (num < 0)
      in if num = - (2 ^ 63) then Inl Fault
         else
           let n = nat \<bar>num\<bar>;
               buf = (if n = 0 then ''0'' else rev (digit_loop radix10 10 n []));
               buflen = length buf;
               neg = (if negative then 1 else 0);
               width = (if unat width < buflen + neg then of_nat (buflen + neg) else width);
               fill = replicate (unat width - buflen - neg) pad;
               sign = (if negative then ''-'' else if f_sign f then ''+'' else [])
           in Inr (if \<not> f_leftalign f
                   then (if zeropad then sign @ fill else fill @ sign) @ buf
                   else sign @ buf @ fill))"

definition vprintf_unsigned :: "u64 \<Rightarrow> u8 \<Rightarrow> printf_flags \<Rightarrow> bool \<Rightarrow> PrintBase \<Rightarrow> string" where
  "vprintf_unsigned num width f uppercase base =
     (let zeropad = (f_zeropad f \<and> \<not> f_leftalign f);
          pad = (if zeropad then CHR ''0'' else CHR '' '');
          buf = (if num = 0 then ''0''
                 else rev (case base of
                     BASE_DEC \<Rightarrow> digit_loop radix10 10 (unat num) []
                   | BASE_HEX \<Rightarrow> digit_loop (if uppercase then drop 16 radix16 else radix16) 16 (unat num) []
                   | BASE_OCT \<Rightarrow> digit_loop radix8 8 (unat num) []));
          buflen = length buf;
          width = (if unat width < buflen then of_nat buflen else width);
          fill = replicate (unat width - buflen) pad
      in if \<not> f_leftalign f then fill @ buf else buf @ fill)"

definition vprintf_ptr :: "u64 \<Rightarrow> string" where
  "vprintf_ptr num =
     (if num = 0 then ''0x'' @ replicate 16 (CHR ''0'')
      else
        let buf = digit_loop radix16 16 (unat num) [];
            buf = buf @ replicate (16 - length buf) (CHR ''0'')
        in rev (buf @ ''x0''))"

text \<open>The length of a string is compared with, and assigned to, an 8-bit width; the number of spaces is
  computed with 64 bits.\<close>

definition vprintf_puts :: "(u64 \<Rightarrow> u8) \<Rightarrow> u64 \<Rightarrow> nat \<Rightarrow> string" where
  "vprintf_puts m str n = map (\<lambda>i. char_of (unat (m (str + of_nat i)))) [0..<n]"

definition vprintf_str :: "(u64 \<Rightarrow> u8) \<Rightarrow> u64 \<Rightarrow> u8 \<Rightarrow> bool \<Rightarrow> string kres" where
  "vprintf_str m str width leftalign = (case strlen m str of
     None \<Rightarrow> Inl Diverge
   | Some len \<Rightarrow>
       let width = (if ucast width < len then ucast len else width);
           fill = replicate (unat (ucast width - len)) (CHR '' '');
           text = vprintf_puts m str (unat len)
       in Inr (if \<not> leftalign then fill @ text else text @ fill))"

definition vprintf_char :: "char \<Rightarrow> u8 \<Rightarrow> bool \<Rightarrow> string" where
  "vprintf_char ch width leftalign =
     (let width = (if width < 1 then 1 else width);
          fill = replicate (unat width - 1) (CHR '' '')
      in if \<not> leftalign then fill @ [ch] else ch # fill)"

declare digit_loop.simps [simp del]

section \<open>Scanning a format\<close>

fun scan_flags :: "string \<Rightarrow> printf_flags \<Rightarrow> printf_flags \<times> string" where
  "scan_flags [] f = (f, [])"
| "scan_flags (c # cs) f =
     (if c = CHR ''+'' then scan_flags cs (f\<lparr>f_sign := True\<rparr>)
      else if c = CHR ''-'' then scan_flags cs (f\<lparr>f_leftalign := True\<rparr>)
      else if c = CHR '' '' then scan_flags cs (f\<lparr>f_space := True\<rparr>)
      else if c = CHR ''0'' then scan_flags cs (f\<lparr>f_zeropad := True\<rparr>)
      else if c = CHR ''#'' then scan_flags cs (f\<lparr>f_alternate := True\<rparr>)
      else (f, c # cs))"

fun scan_some :: "(char \<Rightarrow> bool) \<Rightarrow> nat \<Rightarrow> string \<Rightarrow> string \<times> string" where
  "scan_some P 0 cs = ([], cs)"
| "scan_some P (Suc n) [] = ([], [])"
| "scan_some P (Suc n) (c # cs) = (if P c then (let (ds, rest) = scan_some P n cs in (c # ds, rest)) else ([], c # cs))"

fun width_value :: "string \<Rightarrow> u8" where
  "width_value [] = 0"
| "width_value (c # cs) = (of_char c - 48) * 10 ^ length cs + width_value cs"

definition convert :: "(u64 \<Rightarrow> u8) \<Rightarrow> printf_flags \<Rightarrow> u8 \<Rightarrow> string \<Rightarrow> char \<Rightarrow> u64 list \<Rightarrow> (string \<times> u64 list) kres" where
  "convert m f width lspec specifier args =
     (if specifier = CHR ''%'' then Inr (''%'', args)
      else if specifier = CHR ''s'' then
        andthen (va_arg args) (\<lambda>(str, args).
        andthen (vprintf_str m str width (f_leftalign f)) (\<lambda>out. Inr (out, args)))
      else if specifier = CHR ''c'' then
        andthen (va_arg args) (\<lambda>(a, args). Inr (vprintf_char (char_of (unat (ucast a :: u8))) width (f_leftalign f), args))
      else if specifier = CHR ''p'' then
        andthen (va_arg args) (\<lambda>(a, args). Inr (vprintf_ptr a, args))
      else if specifier = CHR ''d'' \<or> specifier = CHR ''i'' then
        andthen (printf_resolve_signed lspec args) (\<lambda>(num, args).
        andthen (vprintf_signed num width f) (\<lambda>out. Inr (out, args)))
      else if specifier = CHR ''u'' then
        andthen (printf_resolve_unsigned lspec args) (\<lambda>(num, args). Inr (vprintf_unsigned num width f False BASE_DEC, args))
      else if specifier = CHR ''x'' \<or> specifier = CHR ''X'' then
        andthen (printf_resolve_unsigned lspec args) (\<lambda>(num, args).
          Inr (vprintf_unsigned num width f (specifier = CHR ''X'') BASE_HEX, args))
      else if specifier = CHR ''o'' then
        andthen (printf_resolve_unsigned lspec args) (\<lambda>(num, args). Inr (vprintf_unsigned num width f False BASE_OCT, args))
      else Inr ([], args))"

definition no_flags :: printf_flags where
  "no_flags = \<lparr>f_leftalign = False, f_sign = False, f_space = False, f_zeropad = False, f_alternate = False\<rparr>"

text \<open>A directive after its percent sign: flags, width, length modifiers, and the character that selects the
  conversion, which is zero for any other character. The result holds the rest of the format.\<close>

definition scan_directive :: "string \<Rightarrow> (printf_flags \<times> u8 \<times> string \<times> char) \<times> string" where
  "scan_directive cs =
     (let (f, cs) = scan_flags cs no_flags;
          (wspec, cs) = scan_some is_digit (PRINTF_MAX_WIDTH_MODIFIER - 1) cs;
          width = width_value wspec;
          (lspec, cs) = scan_some is_length_modifier PRINTF_MAX_LENGTH_MODIFIER cs;
          specifier = (case cs of [] \<Rightarrow> CHR 0x00 | c # _ \<Rightarrow> if is_format_specifier c then c else CHR 0x00)
      in ((f, width, lspec, specifier), tl cs))"

lemma scan_flags_length: "length (snd (scan_flags cs f)) \<le> length cs"
  by (induction cs f rule: scan_flags.induct) auto

lemma scan_some_length: "length (snd (scan_some P n cs)) \<le> length cs"
  by (induction P n cs rule: scan_some.induct) (auto split: prod.split)

lemma scan_directive_length: "length (snd (scan_directive cs)) \<le> length cs"
proof -
  have "length (snd (scan_some Q k (snd (scan_some P n (snd (scan_flags cs f)))))) \<le> length cs" for P Q k n f
    using scan_flags_length scan_some_length order_trans by metis
  then show ?thesis
    by (simp add: scan_directive_def split_beta) (meson diff_le_self le_trans)
qed

function vprintf :: "(u64 \<Rightarrow> u8) \<Rightarrow> string \<Rightarrow> u64 list \<Rightarrow> string kres" where
  "vprintf m [] args = Inr []"
| "vprintf m (ch # fmt) args =
     (if ch = CHR ''%'' then
        let (f, width, lspec, specifier) = fst (scan_directive fmt) in
        andthen (convert m f width lspec specifier args) (\<lambda>(out, args).
        andthen (vprintf m (snd (scan_directive fmt)) args) (\<lambda>more. Inr (out @ more)))
      else andthen (vprintf m fmt args) (\<lambda>more. Inr (ch # more)))"
  by pat_completeness auto
termination
  by (relation "measure (\<lambda>(m, fmt, args). length fmt)") (simp_all add: scan_directive_length le_imp_less_Suc)

section \<open>Numerals\<close>

definition digit_value :: "char \<Rightarrow> nat" where
  "digit_value c = (let n = of_char c in if n < 58 then n - 48 else if n < 71 then n - 55 else n - 87)"

fun numeral_value :: "nat \<Rightarrow> string \<Rightarrow> nat" where
  "numeral_value b [] = 0"
| "numeral_value b (c # cs) = digit_value c * b ^ length cs + numeral_value b cs"

text \<open>The usual form of a number: digits of the base, and no leading zero but in zero itself.\<close>

definition is_numeral :: "string \<Rightarrow> string \<Rightarrow> bool" where
  "is_numeral radix ds \<longleftrightarrow> ds \<noteq> [] \<and> set ds \<subseteq> set radix \<and> (hd ds = CHR ''0'' \<longrightarrow> ds = ''0'')"

definition radix_ok :: "string \<Rightarrow> nat \<Rightarrow> bool" where
  "radix_ok radix b \<longleftrightarrow> 2 \<le> b \<and> b \<le> length radix \<and> (\<forall>d<b. digit_value (radix ! d) = d)"

lemma radix_tables:
  "radix_ok radix10 10" "radix_ok radix16 16" "radix_ok (drop 16 radix16) 16" "radix_ok radix8 8"
proof -
  have le: "(\<forall>d<Suc n. P d) \<longleftrightarrow> P n \<and> (\<forall>d<n. P d)" for P and n :: nat by (auto simp: less_Suc_eq)
  show "radix_ok radix10 10" "radix_ok radix16 16" "radix_ok (drop 16 radix16) 16" "radix_ok radix8 8"
    by (simp_all add: radix_ok_def radix10_def radix16_def radix8_def eval_nat_numeral le digit_value_def)
qed

lemma digit_step: "num < b ^ (31 - n) \<Longrightarrow> n < 31 \<Longrightarrow> num div b < b ^ (31 - Suc n)" for b :: nat
  by (rule less_mult_imp_div_less) (metis Suc_diff_Suc mult.commute power_Suc)

lemma digit_loop_value:
  assumes "radix_ok radix b"
  shows "num < b ^ (31 - length buf) \<Longrightarrow> length buf \<le> 31 \<Longrightarrow>
    numeral_value b (rev (digit_loop radix b num buf)) = num * b ^ length buf + numeral_value b (rev buf)"
  using assms
proof (induction radix b num buf rule: digit_loop.induct)
  case (1 radix b num buf)
  show ?case
  proof (cases "num > 0 \<and> length buf < PRINTF_MAX_FORMAT_STACK - 1")
    case True
    let ?buf = "buf @ [radix ! (num mod b)]"
    have l: "length buf < 31" using True by (simp add: PRINTF_MAX_FORMAT_STACK_def)
    have b: "num mod b < b" using "1.prems"(3) by (simp add: radix_ok_def)
    have "num div b < b ^ (31 - length ?buf)" using digit_step [OF "1.prems"(1) l] by simp
    then have "numeral_value b (rev (digit_loop radix b (num div b) ?buf)) =
        num div b * b ^ length ?buf + numeral_value b (rev ?buf)"
      using "1.IH" [OF True] l "1.prems"(3) by simp
    also have "\<dots> = num div b * b * b ^ length buf + (num mod b * b ^ length buf + numeral_value b (rev buf))"
      using "1.prems"(3) b by (simp add: radix_ok_def)
    also have "\<dots> = (num div b * b + num mod b) * b ^ length buf + numeral_value b (rev buf)"
      by (simp only: distrib_right add.assoc)
    also have "num div b * b + num mod b = num" by (rule div_mult_mod_eq)
    finally show ?thesis using True by (subst digit_loop.simps) simp
  next
    case False
    then have "num = 0" using "1.prems"(1,2) by (auto simp: PRINTF_MAX_FORMAT_STACK_def)
    then show ?thesis by (subst digit_loop.simps) simp
  qed
qed

lemma digit_loop_shape:
  assumes "radix_ok radix b"
  shows "num < b ^ (31 - length buf) \<Longrightarrow> length buf \<le> 31 \<Longrightarrow>
    \<exists>ds. digit_loop radix b num buf = buf @ ds \<and> set ds \<subseteq> set radix \<and> length (buf @ ds) \<le> 31
      \<and> (num > 0 \<longrightarrow> ds \<noteq> [] \<and> digit_value (last ds) \<noteq> 0)"
  using assms
proof (induction radix b num buf rule: digit_loop.induct)
  case (1 radix b num buf)
  show ?case
  proof (cases "num > 0 \<and> length buf < PRINTF_MAX_FORMAT_STACK - 1")
    case True
    let ?c = "radix ! (num mod b)"
    have l: "length buf < 31" using True by (simp add: PRINTF_MAX_FORMAT_STACK_def)
    have b: "num mod b < b" using "1.prems"(3) by (simp add: radix_ok_def)
    then have "num mod b < length radix" using "1.prems"(3) unfolding radix_ok_def by linarith
    then have c: "?c \<in> set radix" by (rule nth_mem)
    have d: "digit_value ?c = num mod b" using b "1.prems"(3) by (simp add: radix_ok_def)
    have "num div b < b ^ (31 - length (buf @ [?c]))" using digit_step [OF "1.prems"(1) l] by simp
    then obtain ds where ds: "digit_loop radix b (num div b) (buf @ [?c]) = (buf @ [?c]) @ ds" "set ds \<subseteq> set radix"
      "length ((buf @ [?c]) @ ds) \<le> 31" "num div b > 0 \<longrightarrow> ds \<noteq> [] \<and> digit_value (last ds) \<noteq> 0"
      using "1.IH" [OF True] l "1.prems"(3) by auto
    have eq: "digit_loop radix b num buf = digit_loop radix b (num div b) (buf @ [?c])"
      using True by (subst digit_loop.simps) simp
    have last: "digit_value (last (?c # ds)) \<noteq> 0"
    proof (cases "num div b = 0")
      case True
      then have "num mod b = num" using div_mult_mod_eq [of num b] by simp
      moreover have "ds = []"
        using ds(1) True by (subst (asm) digit_loop.simps) simp
      ultimately show ?thesis using d \<open>num > 0 \<and> _\<close> by simp
    next
      case False
      then show ?thesis using ds(4) by simp
    qed
    show ?thesis
      by (rule exI [of _ "?c # ds"]) (use eq ds c last in simp)
  next
    case False
    then have "num = 0" using "1.prems"(1,2) by (auto simp: PRINTF_MAX_FORMAT_STACK_def)
    then show ?thesis using "1.prems"(2) by (subst digit_loop.simps) simp
  qed
qed

text \<open>The digits of a 64-bit number.\<close>

definition digits :: "string \<Rightarrow> nat \<Rightarrow> nat \<Rightarrow> string" where
  "digits radix b n = (if n = 0 then ''0'' else rev (digit_loop radix b n []))"

lemma digits_numeral:
  assumes r: "radix_ok radix b" "8 \<le> b" and z: "radix ! 0 = CHR ''0''" and n: "n < 2 ^ 64"
  shows "is_numeral radix (digits radix b n)" "numeral_value b (digits radix b n) = n" "length (digits radix b n) \<le> 31"
proof -
  have "n < 8 ^ 31" using n by (rule less_trans) simp
  also have "\<dots> \<le> b ^ 31" using r(2) by (rule power_mono) simp
  finally have lt: "n < b ^ (31 - length [])" by simp
  have dv0: "digit_value (CHR ''0'') = 0" by (simp add: digit_value_def)
  show "numeral_value b (digits radix b n) = n"
    using digit_loop_value [OF r(1) lt] by (simp add: digits_def dv0)
  have zs: "CHR ''0'' \<in> set radix" using z r by (metis nth_mem radix_ok_def less_le_trans zero_less_numeral order_less_le_trans)
  obtain ds where ds: "digit_loop radix b n [] = ds" "set ds \<subseteq> set radix" "length ds \<le> 31"
    "n > 0 \<longrightarrow> ds \<noteq> [] \<and> digit_value (last ds) \<noteq> 0"
    using digit_loop_shape [OF r(1) lt] by auto
  then show "length (digits radix b n) \<le> 31" by (simp add: digits_def)
  show "is_numeral radix (digits radix b n)"
    using ds zs dv0 by (auto simp: is_numeral_def digits_def hd_rev)
qed

text \<open>A field of at least \<open>w\<close> characters, \<open>k\<close> of which the sign takes.\<close>

definition justified :: "printf_flags \<Rightarrow> nat \<Rightarrow> nat \<Rightarrow> string \<Rightarrow> string \<Rightarrow> string" where
  "justified f w k sign ds =
     (let n = w - length ds - k in
      if f_leftalign f then sign @ ds @ replicate n (CHR '' '')
      else if f_zeropad f then sign @ replicate n (CHR ''0'') @ ds
      else replicate n (CHR '' '') @ sign @ ds)"

definition base_value :: "PrintBase \<Rightarrow> nat" where
  "base_value base = (case base of BASE_OCT \<Rightarrow> 8 | BASE_DEC \<Rightarrow> 10 | BASE_HEX \<Rightarrow> 16)"

definition base_digits :: "PrintBase \<Rightarrow> bool \<Rightarrow> string" where
  "base_digits base uppercase =
     (case base of BASE_OCT \<Rightarrow> ''01234567'' | BASE_DEC \<Rightarrow> ''0123456789''
      | BASE_HEX \<Rightarrow> if uppercase then ''0123456789ABCDEF'' else ''0123456789abcdef'')"

lemma widen_to:
  assumes "n \<le> 32"
  shows "unat (if unat (width :: u8) < n then of_nat n else width) = max (unat width) n"
  using assms unat_of_nat_small [of n, where 'a = 8] by (auto simp: max_def)

lemma digit_loop_take: "0 < b \<Longrightarrow> digit_loop (take b radix) b n buf = digit_loop radix b n buf"
proof (induction radix b n buf rule: digit_loop.induct)
  case (1 radix b num buf)
  then show ?case
    by (subst (1 2) digit_loop.simps) simp
qed

lemma base_digits_ok:
  "radix_ok (base_digits base u) (base_value base)" "8 \<le> base_value base" "base_digits base u ! 0 = CHR ''0''"
proof -
  have "base_digits BASE_OCT u = radix8" "base_digits BASE_DEC u = radix10"
    "base_digits BASE_HEX u = (if u then drop 16 radix16 else take 16 radix16)"
    by (simp_all add: base_digits_def radix8_def radix10_def radix16_def)
  moreover have "radix_ok (take 16 radix16) 16" using radix_tables(2) by (simp add: radix_ok_def)
  ultimately show "radix_ok (base_digits base u) (base_value base)"
    using radix_tables by (cases base) (auto simp: base_value_def)
  show "8 \<le> base_value base" "base_digits base u ! 0 = CHR ''0''"
    by (auto simp: base_value_def base_digits_def split: PrintBase.split)
qed

lemma vprintf_unsigned_field:
  "vprintf_unsigned num width f u base =
     justified f (unat width) 0 [] (digits (base_digits base u) (base_value base) (unat num))"
proof -
  let ?ds = "digits (base_digits base u) (base_value base) (unat num)"
  have "rev (case base of BASE_DEC \<Rightarrow> digit_loop radix10 10 (unat num) []
      | BASE_HEX \<Rightarrow> digit_loop (if u then drop 16 radix16 else radix16) 16 (unat num) []
      | BASE_OCT \<Rightarrow> digit_loop radix8 8 (unat num) []) = ?ds" if "num \<noteq> 0"
    using that digit_loop_take [of 16 radix16 "unat num" "[]"]
    by (cases base) (simp_all add: digits_def base_digits_def base_value_def radix10_def radix8_def radix16_def unat_eq_0)
  moreover have "?ds = ''0''" if "num = 0" using that by (simp add: digits_def)
  moreover have "length ?ds \<le> 32" using digits_numeral(3) [OF base_digits_ok, of "unat num" base u] unat_lt2p [of num] by simp
  ultimately show ?thesis
    using widen_to [of "length ?ds" width] by (auto simp: vprintf_unsigned_def justified_def Let_def max_def)
qed

lemma vprintf_signed_field:
  assumes "- (2 ^ 63) < num" "num < 2 ^ 63"
  shows "vprintf_signed num width f = Inr (justified f (unat width) (if num < 0 then 1 else 0)
     (if num < 0 then ''-'' else if f_sign f then ''+'' else []) (digits radix10 10 (nat \<bar>num\<bar>)))"
proof -
  define n where "n = nat \<bar>num\<bar>"
  let ?ds = "digits radix10 10 n" and ?k = "if num < 0 then 1 else 0 :: nat"
  have "n < 2 ^ 64" using assms by (simp add: n_def)
  then have "length ?ds \<le> 31" by (intro digits_numeral(3) [OF radix_tables(1)]) (simp_all add: radix10_def)
  then have "length ?ds + ?k \<le> 32" by simp
  moreover have "(if n = 0 then ''0'' else rev (digit_loop radix10 10 n [])) = ?ds" by (simp only: digits_def)
  ultimately show ?thesis
    using widen_to [of "length ?ds + ?k" width] assms unfolding vprintf_signed_def Let_def n_def [symmetric]
    by (auto simp: justified_def Let_def max_def)
qed

lemma numeral_value_zeros: "numeral_value b (replicate n (CHR ''0'') @ ds) = numeral_value b ds"
  by (induction n) (simp_all add: digit_value_def)

lemma numeral_value_bound: "\<forall>c\<in>set ds. digit_value c < b \<Longrightarrow> ds \<noteq> [] \<Longrightarrow> digit_value (hd ds) \<noteq> 0 \<Longrightarrow>
    b ^ (length ds - 1) \<le> numeral_value b ds"
  by (cases ds) (auto simp: Suc_leI trans_le_add1)

lemma ptr_digits:
  assumes "n < 2 ^ 64"
  shows "length (digits (take 16 radix16) 16 n) \<le> 16"
proof (cases "n = 0")
  case False
  let ?ds = "digits (take 16 radix16) 16 n"
  have r: "radix_ok (take 16 radix16) 16" using radix_tables(2) by (simp add: radix_ok_def)
  have z: "take 16 radix16 ! 0 = CHR ''0''" by (simp add: radix16_def)
  note d = digits_numeral [OF r _ z assms, simplified]
  have all: "\<forall>c\<in>set (take 16 radix16). digit_value c < 16 \<and> (digit_value c = 0 \<longrightarrow> c = CHR ''0'')"
    by (simp add: radix16_def digit_value_def)
  have ds: "?ds \<noteq> []" "hd ?ds = CHR ''0'' \<longrightarrow> ?ds = ''0''" "set ?ds \<subseteq> set (take 16 radix16)"
    using d(1) by (simp_all add: is_numeral_def)
  have "?ds \<noteq> ''0''"
  proof
    assume e: "?ds = ''0''"
    show False using d(2) False unfolding e by (simp add: digit_value_def)
  qed
  then have "digit_value (hd ?ds) \<noteq> 0" using ds all hd_in_set [OF ds(1)] by blast
  moreover have "\<forall>c\<in>set ?ds. digit_value c < 16" using ds(3) all by blast
  ultimately have "16 ^ (length ?ds - 1) \<le> numeral_value 16 ?ds" using numeral_value_bound ds(1) by blast
  then have "(16 :: nat) ^ (length ?ds - 1) < 16 ^ 16" using d(2) assms by simp
  then show ?thesis by (simp only: power_strict_increasing_iff)
qed (simp add: digits_def)

lemma vprintf_ptr_digits:
  "vprintf_ptr num = ''0x'' @ replicate (16 - length (digits (take 16 radix16) 16 (unat num))) (CHR ''0'')
     @ digits (take 16 radix16) 16 (unat num)"
proof (cases "num = 0")
  case True
  then show ?thesis by (simp add: vprintf_ptr_def digits_def eval_nat_numeral)
next
  case False
  then show ?thesis
    using digit_loop_take [of 16 radix16 "unat num" "[]"]
    by (simp add: vprintf_ptr_def digits_def unat_eq_0 Let_def)
qed

text \<open>C35: what is printed for a number is its numeral in the base asked for, with no leading zeros but the padding:
  decimal with a sign for signed numbers, octal, decimal or hexadecimal for unsigned ones, padded to the width on
  the side the flags ask for; a pointer is always \<^verbatim>\<open>0x\<close> and sixteen hexadecimal digits. Only the sign of a
  negative number counts towards the width.\<close>

theorem printf_numbers_correct:
  assumes "- (2 ^ 63) < num" "num < 2 ^ 63"
  shows "\<exists>ds us ps. is_numeral ''0123456789'' ds \<and> int (numeral_value 10 ds) = \<bar>num\<bar>
    \<and> vprintf_signed num width f = Inr (justified f (unat width) (if num < 0 then 1 else 0)
        (if num < 0 then ''-'' else if f_sign f then ''+'' else []) ds)
    \<and> is_numeral (base_digits base u) us \<and> numeral_value (base_value base) us = unat unum
    \<and> vprintf_unsigned unum width f u base = justified f (unat width) 0 [] us
    \<and> length ps = 16 \<and> set ps \<subseteq> set ''0123456789abcdef'' \<and> numeral_value 16 ps = unat ptr \<and> vprintf_ptr ptr = ''0x'' @ ps"
proof -
  let ?ds = "digits radix10 10 (nat \<bar>num\<bar>)" and ?us = "digits (base_digits base u) (base_value base) (unat unum)"
  let ?hs = "digits (take 16 radix16) 16 (unat ptr)"
  let ?ps = "replicate (16 - length ?hs) (CHR ''0'') @ ?hs"
  have "nat \<bar>num\<bar> < 2 ^ 64" using assms by simp
  then have "is_numeral radix10 ?ds" "numeral_value 10 ?ds = nat \<bar>num\<bar>"
    by (intro digits_numeral [OF radix_tables(1)]; simp add: radix10_def)+
  then have d: "is_numeral ''0123456789'' ?ds" "int (numeral_value 10 ?ds) = \<bar>num\<bar>" by (simp_all add: radix10_def)
  have "unat unum < 2 ^ 64" "unat ptr < 2 ^ 64" using unat_lt2p [of unum] unat_lt2p [of ptr] by simp_all
  note us = digits_numeral(1,2) [OF base_digits_ok this(1), of base u]
  have r: "radix_ok (take 16 radix16) 16" using radix_tables(2) by (simp add: radix_ok_def)
  have z: "take 16 radix16 ! 0 = CHR ''0''" by (simp add: radix16_def)
  note hs = digits_numeral [OF r _ z \<open>unat ptr < 2 ^ 64\<close>, simplified] ptr_digits [OF \<open>unat ptr < 2 ^ 64\<close>]
  have "set ?hs \<subseteq> set ''0123456789abcdef''" using hs(1) by (simp add: is_numeral_def radix16_def)
  then have "length ?ps = 16 \<and> set ?ps \<subseteq> set ''0123456789abcdef'' \<and> numeral_value 16 ?ps = unat ptr \<and> vprintf_ptr ptr = ''0x'' @ ?ps"
    using hs vprintf_ptr_digits [of ptr] by (auto simp: numeral_value_zeros)
  then show ?thesis
    using d us vprintf_signed_field [OF assms, of width f] vprintf_unsigned_field [of unum width f u base] by blast
qed

theorem printf_numbers_correct_witness:
  "\<exists>ds us ps. is_numeral ''0123456789'' ds \<and> int (numeral_value 10 ds) = \<bar>- 42\<bar>
    \<and> vprintf_signed (- 42) 6 (no_flags\<lparr>f_zeropad := True\<rparr>) = Inr (justified (no_flags\<lparr>f_zeropad := True\<rparr>) 6 1 ''-'' ds)
    \<and> numeral_value 16 us = 255 \<and> vprintf_unsigned 255 6 (no_flags\<lparr>f_zeropad := True\<rparr>) True BASE_HEX =
        justified (no_flags\<lparr>f_zeropad := True\<rparr>) 6 0 [] us
    \<and> numeral_value 16 ps = 0xB8000 \<and> vprintf_ptr 0xB8000 = ''0x'' @ ps"
  using printf_numbers_correct [of "- 42" 6 "no_flags\<lparr>f_zeropad := True\<rparr>" BASE_HEX True 255 "0xB8000"]
  by (auto simp: base_value_def)

lemma unat_ucast_u8: "unat (ucast (w :: u8) :: u64) = unat w" "unat (ucast (v :: u64) :: u8) = unat v mod 256"
  using unat_lt2p [of w] by (simp_all add: unsigned_ucast_eq take_bit_eq_mod)

section \<open>Formats\<close>

text \<open>A format as a list of directives: characters, and conversions with their flag characters, the digits
  of the width, the length modifiers and the specifier.\<close>

datatype directive = Lit char | Dir string string string char

fun directive_text :: "directive \<Rightarrow> string" where
  "directive_text (Lit c) = [c]"
| "directive_text (Dir fs ws ls c) = CHR ''%'' # fs @ ws @ ls @ [c]"

fun directive_ok :: "directive \<Rightarrow> bool" where
  "directive_ok (Lit c) \<longleftrightarrow> c \<noteq> CHR ''%''"
| "directive_ok (Dir fs ws ls c) \<longleftrightarrow> set fs \<subseteq> set ''+- 0#'' \<and> set ws \<subseteq> set ''0123456789'' \<and> length ws \<le> 3
     \<and> (ws \<noteq> [] \<longrightarrow> hd ws \<noteq> CHR ''0'') \<and> set ls \<subseteq> set ''hlLztj'' \<and> length ls \<le> 2 \<and> is_format_specifier c"

definition flags_of :: "string \<Rightarrow> printf_flags" where
  "flags_of fs = \<lparr>f_leftalign = CHR ''-'' \<in> set fs, f_sign = CHR ''+'' \<in> set fs, f_space = CHR '' '' \<in> set fs,
     f_zeropad = CHR ''0'' \<in> set fs, f_alternate = CHR ''#'' \<in> set fs\<rparr>"

fun run_directives :: "(u64 \<Rightarrow> u8) \<Rightarrow> directive list \<Rightarrow> u64 list \<Rightarrow> string kres" where
  "run_directives m [] args = Inr []"
| "run_directives m (Lit c # ds) args = andthen (run_directives m ds args) (\<lambda>more. Inr (c # more))"
| "run_directives m (Dir fs ws ls c # ds) args =
     andthen (convert m (flags_of fs) (of_nat (numeral_value 10 ws)) ls c args) (\<lambda>(out, args).
     andthen (run_directives m ds args) (\<lambda>more. Inr (out @ more)))"

definition is_flag :: "char \<Rightarrow> bool" where
  "is_flag c \<longleftrightarrow> c \<in> set ''+- 0#''"

lemma scan_flags_stop: "cs = [] \<or> \<not> is_flag (hd cs) \<Longrightarrow> scan_flags cs f = (f, cs)"
  by (cases cs) (auto simp: is_flag_def)

lemma scan_flags_append:
  assumes "cs = [] \<or> \<not> is_flag (hd cs)"
  shows "set fs \<subseteq> set ''+- 0#'' \<Longrightarrow> scan_flags (fs @ cs) f =
    (\<lparr>f_leftalign = f_leftalign f \<or> CHR ''-'' \<in> set fs, f_sign = f_sign f \<or> CHR ''+'' \<in> set fs,
      f_space = f_space f \<or> CHR '' '' \<in> set fs, f_zeropad = f_zeropad f \<or> CHR ''0'' \<in> set fs,
      f_alternate = f_alternate f \<or> CHR ''#'' \<in> set fs\<rparr>, cs)"
proof (induction fs arbitrary: f)
  case Nil
  then show ?case using scan_flags_stop [OF assms] by simp
next
  case (Cons c fs)
  have "c \<in> set ''+- 0#''" using Cons.prems by simp
  then show ?case using Cons by auto
qed

lemma scan_some_append:
  assumes "cs = [] \<or> \<not> P (hd cs) \<or> length ds = n"
  shows "\<forall>d\<in>set ds. P d \<Longrightarrow> length ds \<le> n \<Longrightarrow> scan_some P n (ds @ cs) = (ds, cs)"
  using assms
proof (induction ds arbitrary: n)
  case Nil
  then show ?case by (cases n; cases cs) auto
next
  case (Cons d ds)
  then obtain k where "n = Suc k" by (cases n) auto
  then show ?case using Cons by simp
qed

lemma width_value_numeral:
  assumes "set ws \<subseteq> set ''0123456789''"
  shows "width_value ws = of_nat (numeral_value 10 ws)"
  using assms
proof (induction ws)
  case (Cons c cs)
  have "of_char c - (48 :: u8) = of_nat (digit_value c)" using Cons.prems by (auto simp: digit_value_def)
  then show ?case using Cons by simp
qed simp

lemma digit_chars: "c \<in> set ''0123456789'' \<Longrightarrow> is_digit c"
  by (auto simp: is_digit_def)

lemma scan_directive_text:
  assumes "directive_ok (Dir fs ws ls c)"
  shows "scan_directive (fs @ ws @ ls @ c # cs) = ((flags_of fs, of_nat (numeral_value 10 ws), ls, c), cs)"
proof -
  have ok: "set fs \<subseteq> set ''+- 0#''" "set ws \<subseteq> set ''0123456789''" "length ws \<le> 3"
    "ws \<noteq> [] \<longrightarrow> hd ws \<noteq> CHR ''0''" "set ls \<subseteq> set ''hlLztj''" "length ls \<le> 2" "is_format_specifier c"
    using assms by simp_all
  have c: "\<not> is_flag c" "\<not> is_digit c" "\<not> is_length_modifier c"
    using ok(7) by (auto simp: is_format_specifier_def is_flag_def is_digit_def is_length_modifier_def)
  have l: "\<not> is_flag x" "\<not> is_digit x" "is_length_modifier x" if "x \<in> set ls" for x
    using that ok(5) by (auto simp: is_flag_def is_digit_def is_length_modifier_def)
  have h: "hd (ls @ c # cs) \<in> set ls \<or> hd (ls @ c # cs) = c" by (cases ls) auto
  have w: "\<not> is_flag (hd ws)" if "ws \<noteq> []"
  proof -
    have "hd ws \<in> set ''0123456789''" using hd_in_set [OF that] ok(2) by blast
    then show ?thesis using ok(4) that by (auto simp: is_flag_def)
  qed
  have "\<not> is_flag (hd (ws @ ls @ c # cs))" using w h l c by (cases ws) auto
  then have "scan_flags (fs @ ws @ ls @ c # cs) no_flags = (flags_of fs, ws @ ls @ c # cs)"
    using scan_flags_append [OF _ ok(1), of "ws @ ls @ c # cs" no_flags] by (simp add: no_flags_def flags_of_def)
  moreover have "scan_some is_digit 3 (ws @ ls @ c # cs) = (ws, ls @ c # cs)"
    by (rule scan_some_append) (use h l c ok digit_chars in auto)
  moreover have "scan_some is_length_modifier 2 (ls @ c # cs) = (ls, c # cs)"
    by (rule scan_some_append) (use l c ok in auto)
  ultimately show ?thesis
    using width_value_numeral [OF ok(2)] ok(7)
    by (simp add: scan_directive_def PRINTF_MAX_WIDTH_MODIFIER_def PRINTF_MAX_LENGTH_MODIFIER_def)
qed

text \<open>C34: printing a format is printing its directives one after the other: every character outside a directive as it
  is, every conversion with the flags, the width (its decimal value, modulo 256), the length modifiers and the
  specifier that were written, each taking the next arguments.\<close>

theorem vprintf_directives:
  assumes "\<forall>d\<in>set ds. directive_ok d"
  shows "vprintf m (concat (map directive_text ds)) args = run_directives m ds args"
  using assms
proof (induction m ds args rule: run_directives.induct)
  case (3 m fs ws ls c ds args)
  then have "scan_directive (fs @ ws @ ls @ c # concat (map directive_text ds)) =
      ((flags_of fs, of_nat (numeral_value 10 ws), ls, c), concat (map directive_text ds))"
    by (intro scan_directive_text) simp
  then show ?case using 3 by (cases "convert m (flags_of fs) (of_nat (numeral_value 10 ws)) ls c args") auto
qed simp_all

definition sample_format :: "directive list" where
  "sample_format = [Lit (CHR ''x''), Lit (CHR ''=''), Dir ''0'' ''5'' [] (CHR ''d''), Lit (CHR '' ''), Dir ''-'' ''4'' ''l'' (CHR ''x''), Dir [] [] [] (CHR ''%'')]"

theorem vprintf_directives_witness:
  "list_all directive_ok sample_format
   \<and> vprintf (\<lambda>_. 0) ''x=%05d %-4lx%%'' [42, 255] = run_directives (\<lambda>_. 0) sample_format [42, 255]
   \<and> run_directives (\<lambda>_. 0) sample_format [42, 255] = Inr ''x=00042 ff  %''"
proof -
  have ok: "\<forall>d\<in>set sample_format. directive_ok d"
    by (simp add: sample_format_def is_format_specifier_def)
  have "concat (map directive_text sample_format) = ''x=%05d %-4lx%%''" by (simp add: sample_format_def)
  then have "vprintf (\<lambda>_. 0) ''x=%05d %-4lx%%'' [42, 255] = run_directives (\<lambda>_. 0) sample_format [42, 255]"
    using vprintf_directives [OF ok, of "\<lambda>_. 0" "[42, 255]"] by simp
  moreover have "run_directives (\<lambda>_. 0) sample_format [42, 255] = Inr ''x=00042 ff  %''"
    by code_simp
  ultimately show ?thesis using ok by (simp add: list_all_iff)
qed

section \<open>Long strings\<close>

text \<open>C36: a string of 256 characters or more does not print as itself: its length, cut to the eight bits of the width,
  is subtracted from its full length modulo 2^64, and more than 2^63 spaces are printed with it.\<close>

theorem vprintf_str_long:
  assumes "cstr m str bs" "256 \<le> length bs" "length bs < 2 ^ 63"
  shows "vprintf_str m str width False = Inr (replicate (2 ^ 64 - 256 * (length bs div 256)) (CHR '' '') @ map (\<lambda>b. char_of (unat b)) bs)
    \<and> 2 ^ 63 < 2 ^ 64 - 256 * (length bs div 256)"
proof -
  let ?len = "of_nat (length bs) :: u64"
  have len: "strlen m str = Some ?len" using strlen_cstr(1) [OF assms(1)] .
  have u: "unat ?len = length bs" using assms(3) by (intro unat_of_nat_small) simp
  have wide: "ucast width < ?len"
    using unat_lt2p [of width] assms(2) by (simp add: word_less_nat_alt u unat_ucast_u8)
  define x :: u64 where "x = of_nat (256 * (length bs div 256))"
  have ux: "unat x = 256 * (length bs div 256)"
    unfolding x_def by (rule unat_of_nat_small) (use assms(3) div_times_less_eq_dividend [of "length bs" 256] in simp)
  have "(ucast (ucast ?len :: u8) :: u64) = of_nat (length bs mod 256)"
  proof -
    have "unat (of_nat (length bs mod 256) :: u64) = length bs mod 256"
      by (rule unat_of_nat_small) (use mod_less_divisor [of 256 "length bs"] in simp)
    then show ?thesis by (simp only: word_unat_eq_iff unat_ucast_u8 u)
  qed
  moreover have "?len = of_nat (length bs mod 256) + x"
    unfolding x_def of_nat_add [symmetric] by (simp add: mod_mult_div_eq)
  ultimately have "ucast (ucast ?len :: u8) - ?len = - x" by simp
  moreover have "x \<noteq> 0" using ux assms(2) by (metis unat_0 mult_eq_0_iff div_eq_0_iff not_less zero_neq_numeral)
  ultimately have "unat (ucast (ucast ?len :: u8) - ?len) = 2 ^ 64 - 256 * (length bs div 256)"
    using unat_uminus [of x] ux by simp
  moreover have "vprintf_puts m str (length bs) = map (\<lambda>b. char_of (unat b)) bs"
    using assms(1) unfolding cstr_nth vprintf_puts_def by (intro nth_equalityI) simp_all
  moreover have "256 * (length bs div 256) < 2 ^ 63" using assms(3) div_times_less_eq_dividend [of "length bs" 256] by simp
  ultimately show ?thesis using wide u len by (simp add: vprintf_str_def Let_def)
qed

definition long_string :: "u64 \<Rightarrow> u8" where
  "long_string a = (if a < 256 then 0x61 else 0)"

theorem vprintf_str_long_witness:
  "cstr long_string 0 (replicate 256 0x61)
   \<and> vprintf_str long_string 0 0 False = Inr (replicate (2 ^ 64 - 256) (CHR '' '') @ replicate 256 (CHR ''a''))"
proof -
  have c: "cstr long_string 0 (replicate 256 0x61)"
  proof -
    have "unat (of_nat i :: u64) = i" if "i \<le> 256" for i using that by (intro unat_of_nat_small) simp
    then show ?thesis by (simp add: cstr_nth long_string_def word_less_nat_alt)
  qed
  have "char_of (unat (0x61 :: u8)) = CHR ''a''" by code_simp
  then have "map (\<lambda>b. char_of (unat b)) (replicate 256 (0x61 :: u8)) = replicate 256 (CHR ''a'')" by (simp only: map_replicate)
  moreover have "256 * (length (replicate 256 (0x61 :: u8)) div 256) = 256" by simp
  ultimately show ?thesis using vprintf_str_long [OF c, of 0] c by simp
qed

end
