(* ===== verification/HostIO.thy ===== *)
theory HostIO
  imports Prelude
begin

text \<open>
  What the image tools under tools/bsfs use of the C library: a binary file opened for update is its
  bytes and a position, and the numbers of the command line are read with \<^verbatim>\<open>strtol\<close>. The
  option loops of the three tools share the check of a number.
\<close>

section \<open>Files\<close>

record hfile =
  contents :: "u8 list"
  fpos :: nat

text \<open>Seeking to a negative offset fails and leaves the position; the tools do not look at the result.\<close>

definition fseeko_set :: "int \<Rightarrow> hfile \<Rightarrow> hfile" where
  "fseeko_set off f = (if off < 0 then f else f\<lparr>fpos := nat off\<rparr>)"

definition host_fread :: "nat \<Rightarrow> hfile \<Rightarrow> u8 list \<times> hfile" where
  "host_fread n f =
     (let bs = take n (drop (fpos f) (contents f)) in (bs, f\<lparr>fpos := fpos f + length bs\<rparr>))"

text \<open>Writing past the end fills the gap with zeros.\<close>

definition overwrite :: "nat \<Rightarrow> u8 list \<Rightarrow> u8 list \<Rightarrow> u8 list" where
  "overwrite p bs c = take p c @ replicate (p - length c) 0 @ bs @ drop (p + length bs) c"

definition host_fwrite :: "u8 list \<Rightarrow> hfile \<Rightarrow> hfile" where
  "host_fwrite bs f =
     (if bs = [] then f else f\<lparr>contents := overwrite (fpos f) bs (contents f), fpos := fpos f + length bs\<rparr>)"

lemma overwrite_inside:
  assumes "p + length bs \<le> length c"
  shows "length (overwrite p bs c) = length c"
    and "a < length c \<Longrightarrow> overwrite p bs c ! a = (if p \<le> a \<and> a < p + length bs then bs ! (a - p) else c ! a)"
  using assms by (auto simp: overwrite_def nth_append)

lemma overwrite_append:
  assumes "p + length xs + length ys \<le> length c"
  shows "overwrite (p + length xs) ys (overwrite p xs c) = overwrite p (xs @ ys) c"
proof (rule nth_equalityI)
  show "length (overwrite (p + length xs) ys (overwrite p xs c)) = length (overwrite p (xs @ ys) c)"
    using assms by (simp add: overwrite_inside(1))
  fix i assume "i < length (overwrite (p + length xs) ys (overwrite p xs c))"
  then have "i < length c" using assms by (simp add: overwrite_inside(1))
  then show "overwrite (p + length xs) ys (overwrite p xs c) ! i = overwrite p (xs @ ys) c ! i"
    using assms by (auto simp: overwrite_inside nth_append)
qed

lemma field_overwrite_same:
  "p + length bs \<le> length c \<Longrightarrow> take (length bs) (drop p (overwrite p bs c)) = bs"
  by (simp add: overwrite_def)

lemma host_fwrite_run:
  assumes "fpos f + length bs \<le> length (contents f)"
  shows "contents (host_fwrite bs f) = overwrite (fpos f) bs (contents f)" "fpos (host_fwrite bs f) = fpos f + length bs"
  using assms by (auto simp: host_fwrite_def overwrite_def)

section \<open>Numbers of the command line\<close>

definition c_isspace :: "char \<Rightarrow> bool" where
  "c_isspace c \<longleftrightarrow> (of_char c :: nat) = 32 \<or> (9 \<le> (of_char c :: nat) \<and> (of_char c :: nat) \<le> 13)"

definition c_isdigit :: "char \<Rightarrow> bool" where
  "c_isdigit c \<longleftrightarrow> 48 \<le> (of_char c :: nat) \<and> (of_char c :: nat) \<le> 57"

definition digits_value :: "string \<Rightarrow> int" where
  "digits_value ds = foldl (\<lambda>v c. 10 * v + (of_char c - 48)) 0 ds"

text \<open>The value, what follows the number (the whole string when there is none), and whether the value was out
  of range.\<close>

definition strtol :: "string \<Rightarrow> int \<times> string \<times> bool" where
  "strtol s =
     (let t = dropWhile c_isspace s;
          neg = (t \<noteq> [] \<and> hd t = CHR ''-'');
          t = (if t \<noteq> [] \<and> (hd t = CHR ''-'' \<or> hd t = CHR ''+'') then tl t else t);
          ds = takeWhile c_isdigit t;
          v = (if neg then - digits_value ds else digits_value ds)
      in if ds = [] then (0, s, False)
         else (max (- (2 ^ 63)) (min (2 ^ 63 - 1) v), dropWhile c_isdigit t, v < - (2 ^ 63) \<or> v \<ge> 2 ^ 63))"

datatype usage_error = No_arguments | Expected_number | Unable_to_convert | Invalid_characters | Out_of_range
  | Expected_label | Label_too_long | Unknown_option | Duplicate_force

end
