(* ===== verification/ImageAlloc.thy ===== *)
theory ImageAlloc
  imports Bitmap BsfsFormat HostIO
begin

text \<open>
  The allocators of the image tools, tools/bsfs/bsfs.c: blocks (through the two-level bitmap of blocks and
  megablocks), inodes and directory entries.

  The tools are compiled without the macro that gives \<^verbatim>\<open>BSFS_PANIC\<close> a body (the build defines
  \<^verbatim>\<open>BSFS_STDLIB_EXISTS\<close>, include/common/bsfs/bsfs.h asks for \<^verbatim>\<open>DBSFS_STDLIB_EXISTS\<close>), so a panic does
  nothing and the code runs on; the model does the same. A buffer is the list of the bytes that can be
  read from its pointer on; an access past it is a \<open>Fault\<close>.
\<close>

section \<open>Operations\<close>

definition bsfs_bitmap_set :: "u8 list \<Rightarrow> u32 \<Rightarrow> u8 list option" where
  "bsfs_bitmap_set bm index =
     (let slot = unat (index div 8) in
      if slot < length bm
      then Some (bm[slot := bm ! slot OR push_bit (unat (index mod 8)) 1])
      else None)"

definition bsfs_bitmap_clear :: "u8 list \<Rightarrow> u32 \<Rightarrow> u8 list option" where
  "bsfs_bitmap_clear bm index =
     (let slot = unat (index div 8) in
      if slot < length bm
      then Some (bm[slot := bm ! slot AND NOT (push_bit (unat (index mod 8)) 1)])
      else None)"

definition bsfs_bitmap_test :: "u8 list \<Rightarrow> u32 \<Rightarrow> int option" where
  "bsfs_bitmap_test bm index =
     (let slot = unat (index div 8) in
      if slot < length bm
      then Some (uint (bm ! slot AND push_bit (unat (index mod 8)) 1))
      else None)"

fun bsfs_find_words :: "u8 list \<Rightarrow> nat \<Rightarrow> nat \<Rightarrow> u32 option kres" where
  "bsfs_find_words bm i 0 = Inr None"
| "bsfs_find_words bm i (Suc n) =
     andthen (checked (load64 bm (8 * i))) (\<lambda>word.
       if word \<noteq> -1 then Inr (Some (of_nat i * 64 + of_nat (ctz (NOT word))))
       else bsfs_find_words bm (Suc i) n)"

definition bsfs_bitmap_find :: "u8 list \<Rightarrow> u32 \<Rightarrow> u32 kres" where
  "bsfs_bitmap_find bm bit_count =
     (let word_count = bit_count div 64 in
      andthen (bsfs_find_words bm 0 (unat word_count)) (\<lambda>r.
        case r of
          Some k \<Rightarrow> Inr k
        | None \<Rightarrow>
            (let remaining = bit_count mod 64 in
             if remaining \<noteq> 0 then
               andthen (checked (load64 bm (8 * unat word_count))) (\<lambda>w.
                 let mask = push_bit (unat remaining) 1 - 1;
                     word = w OR NOT mask in
                 if word \<noteq> -1 then Inr (word_count * 64 + of_nat (ctz (NOT word)))
                 else Inr (-1))
             else Inr (-1))))"

text \<open>What the tools work on: the image file, and the header, the bitmaps and the inode table
  they keep in memory until the end.\<close>

record image =
  image_file :: hfile
  hdr :: BsfsHeader
  block_bitmap :: "u8 list"
  megablock_bitmap :: "u8 list"
  inode_bitmap :: "u8 list"
  inode_table :: "BsfsInode list"

text \<open>The loop that looks for a byte of the slice that is not full.\<close>

fun slice_full :: "nat \<Rightarrow> u8 list \<Rightarrow> bool option" where
  "slice_full 0 bs = Some True"
| "slice_full (Suc n) [] = None"
| "slice_full (Suc n) (b # bs) = (if b \<noteq> 0xFF then Some False else slice_full n bs)"

definition bsfs_alloc_block :: "image \<Rightarrow> (u32 \<times> image) kres" where
  "bsfs_alloc_block s =
     (let header = hdr s; bs = block_size header in
      andthen (bsfs_bitmap_find (megablock_bitmap s) (megablock_bitmap_size header * 8)) (\<lambda>free_megablock.
      let base_block = free_megablock * bs * 8;
          slice = unat (free_megablock * bs) in
      andthen (bsfs_bitmap_find (drop slice (block_bitmap s)) (bs * 8)) (\<lambda>free_block.
      if free_block = -1 then Inr (-1, s)
      else
        let free_block = free_block + base_block in
        andthen (checked (bsfs_bitmap_set (block_bitmap s) free_block)) (\<lambda>bm.
        andthen (checked (slice_full (unat bs) (drop slice bm))) (\<lambda>full.
        andthen (if full then checked (bsfs_bitmap_set (megablock_bitmap s) free_megablock)
                 else Inr (megablock_bitmap s)) (\<lambda>mb.
        Inr (free_block, s\<lparr>block_bitmap := bm, megablock_bitmap := mb,
          hdr := header\<lparr>free_blocks := free_blocks header - 1\<rparr>\<rparr>)))))))"

definition bsfs_alloc_inode :: "image \<Rightarrow> (u32 \<times> image) kres" where
  "bsfs_alloc_inode s =
     (let header = hdr s in
      andthen (bsfs_bitmap_find (inode_bitmap s) (inode_count header)) (\<lambda>free_inode.
      if free_inode = -1 then Inr (-1, s)
      else
        andthen (checked (bsfs_bitmap_set (inode_bitmap s) free_inode)) (\<lambda>bm.
        Inr (free_inode, s\<lparr>inode_bitmap := bm, hdr := header\<lparr>free_inodes := free_inodes header - 1\<rparr>\<rparr>))))"

text \<open>The inode is a pointer into the table. The offset is computed with 32 bits and then widened.\<close>

definition bsfs_alloc_dirent :: "nat \<Rightarrow> image \<Rightarrow> (u64 \<times> image) kres" where
  "bsfs_alloc_dirent idx s =
     (if idx \<ge> length (inode_table s) \<or> block_size (hdr s) = 0 then Inl Fault
      else
        let ino = inode_table s ! idx;
            bs = block_size (hdr s);
            new_dirent_local_block = unat (ucast (isize ino div ucast bs) :: u32) in
        if new_dirent_local_block \<ge> BSFS_MAX_DIRECTBLOCKS then Inr (-1, s)
        else
          andthen (if blocks_direct ino ! new_dirent_local_block = 0
                   then andthen (bsfs_alloc_block s) (\<lambda>(b, s).
                     Inr (s\<lparr>inode_table := (inode_table s)[idx := (inode_table s ! idx)
                       \<lparr>blocks_direct := (blocks_direct ino)[new_dirent_local_block := b], iblocks := iblocks ino + 1\<rparr>]\<rparr>))
                   else Inr s) (\<lambda>s.
          let new_dirent_offset = ucast (isize ino mod ucast bs) :: u32 in
          Inr (ucast (bs * blocks_direct (inode_table s ! idx) ! new_dirent_local_block + new_dirent_offset), s)))"

section \<open>The bitmap of the tools is the bitmap of the kernel\<close>

lemma bsfs_find_words_kernel: "bsfs_find_words bm i n = bitmap_find_words bm i n"
  by (induction bm i n rule: bsfs_find_words.induct) (simp_all cong: if_cong)

lemma bsfs_bitmap_kernel:
  "bsfs_bitmap_set = bitmap_set" "bsfs_bitmap_clear = bitmap_clear" "bsfs_bitmap_test = bitmap_test"
  "bsfs_bitmap_find = bitmap_find"
  by (simp_all add: fun_eq_iff bsfs_bitmap_set_def bitmap_set_def bsfs_bitmap_clear_def bitmap_clear_def
    bsfs_bitmap_test_def bitmap_test_def bsfs_bitmap_find_def bitmap_find_def bsfs_find_words_kernel)

interpretation tbm: bit_search bsfs_bitmap_set bsfs_bitmap_clear bsfs_bitmap_test bm_get
  "\<lambda>bm. 8 * length bm" bsfs_bitmap_find "\<lambda>n. 8 * find_span n"
  unfolding bsfs_bitmap_kernel by (rule kbm.bit_search_axioms)

section \<open>Allocating a block\<close>

definition bs_of :: "image \<Rightarrow> nat" where
  "bs_of s = unat (block_size (hdr s))"

definition megablocks :: "image \<Rightarrow> nat" where
  "megablocks s = (unat (total_blocks (hdr s)) + 8 * bs_of s - 1) div (8 * bs_of s)"

definition block_used :: "image \<Rightarrow> nat \<Rightarrow> bool" where
  "block_used s k \<longleftrightarrow> bm_get (block_bitmap s) k"

text \<open>The sizes of the bitmaps fit the header, and a megablock is marked exactly when all its blocks are.\<close>

definition bitmaps_ok :: "image \<Rightarrow> bool" where
  "bitmaps_ok s \<longleftrightarrow> 0 < bs_of s \<and> 8 dvd bs_of s \<and> length (block_bitmap s) = megablocks s * bs_of s
     \<and> megablocks s * bs_of s * 8 < 2 ^ 32
     \<and> 8 * unat (megablock_bitmap_size (hdr s)) < 2 ^ 32 \<and> megablocks s \<le> 8 * unat (megablock_bitmap_size (hdr s))
     \<and> find_span (megablock_bitmap_size (hdr s) * 8) \<le> length (megablock_bitmap s)
     \<and> (\<forall>m<megablocks s. bm_get (megablock_bitmap s) m \<longleftrightarrow> (\<forall>i<8 * bs_of s. block_used s (m * (8 * bs_of s) + i)))"

lemma slice_full_iff: "n \<le> length bs \<Longrightarrow> slice_full n bs = Some (\<forall>i<n. bs ! i = 0xFF)"
proof (induction n bs rule: slice_full.induct)
  case (3 n b bs)
  then show ?case by (auto simp: All_less_Suc2)
qed simp_all

lemma full_byte: "(b :: u8) = 0xFF \<longleftrightarrow> (\<forall>k<8. bit b k)"
proof -
  have e: "(0xFF :: u8) = - 1" by simp
  show ?thesis
  proof
    assume "\<forall>k<8. bit b k"
    then show "b = 0xFF" unfolding e by (intro bit_word_eqI) simp
  qed (simp only: e, simp)
qed

lemma full_bytes:
  assumes "off + n \<le> length bm"
  shows "(\<forall>i<n. drop off bm ! i = 0xFF) \<longleftrightarrow> (\<forall>i<8 * n. bm_get bm (8 * off + i))"
proof -
  have "(\<forall>i<n. drop off bm ! i = 0xFF) \<longleftrightarrow> (\<forall>i<n. \<forall>k<8. bit (bm ! (off + i)) k)"
    using assms by (simp add: full_byte)
  also have "\<dots> \<longleftrightarrow> (\<forall>i<8 * n. bit (bm ! (off + i div 8)) (i mod 8))"
  proof (intro iffI allI impI)
    fix i assume a: "\<forall>i<n. \<forall>k<8. bit (bm ! (off + i)) k" and i: "i < 8 * n"
    have "i div 8 < n" using i by (simp add: div_less_iff_less_mult mult.commute)
    then show "bit (bm ! (off + i div 8)) (i mod 8)" using a by simp
  next
    fix i k assume a: "\<forall>i<8 * n. bit (bm ! (off + i div 8)) (i mod 8)" and i: "i < n" and k: "k < (8 :: nat)"
    have "8 * i + k < 8 * n" "(8 * i + k) div 8 = i" "(8 * i + k) mod 8 = k" using i k by simp_all
    then show "bit (bm ! (off + i)) k" using a by metis
  qed
  also have "\<dots> \<longleftrightarrow> (\<forall>i<8 * n. bm_get bm (8 * off + i))"
    using assms by (auto simp: bm_get_def)
  finally show ?thesis .
qed

lemma bm_get_drop: "bm_get (drop off bm) k \<longleftrightarrow> bm_get bm (8 * off + k)"
  by (auto simp: bm_get_def)

text \<open>Marking a block and, when this fills it, its megablock, keeps the two levels in step.\<close>

definition mark_block :: "nat \<Rightarrow> image \<Rightarrow> image \<Rightarrow> bool" where
  "mark_block b s s' \<longleftrightarrow> (\<exists>bm mb. s' = s\<lparr>block_bitmap := bm, megablock_bitmap := mb,
       hdr := (hdr s)\<lparr>free_blocks := free_blocks (hdr s) - 1\<rparr>\<rparr>)
     \<and> (\<forall>j. block_used s' j \<longleftrightarrow> j = b \<or> block_used s j)"

lemma bitmaps_find:
  assumes ok: "bitmaps_ok s" and k0: "k0 < megablocks s * (8 * bs_of s)" "\<not> block_used s k0"
  obtains fm lb where "bsfs_bitmap_find (megablock_bitmap s) (megablock_bitmap_size (hdr s) * 8) = Inr fm"
    and "bsfs_bitmap_find (drop (unat (fm * block_size (hdr s))) (block_bitmap s)) (block_size (hdr s) * 8) = Inr lb"
    and "unat fm < megablocks s" "unat lb < 8 * bs_of s" "lb \<noteq> - 1" "unat (fm * block_size (hdr s)) = unat fm * bs_of s"
    and "\<not> block_used s (unat fm * (8 * bs_of s) + unat lb)"
    and "\<And>j. j < unat fm * (8 * bs_of s) + unat lb \<Longrightarrow> block_used s j"
proof -
  let ?bs = "bs_of s" and ?N = "megablocks s" and ?h = "hdr s"
  note o = ok [unfolded bitmaps_ok_def]
  have b0: "0 < ?bs" and sz: "?N * ?bs * 8 < 2 ^ 32" using o by simp_all
  have n32: "unat (megablock_bitmap_size ?h * 8) = 8 * unat (megablock_bitmap_size ?h)"
    using o by (simp add: unat_mult_lem [THEN iffD1] mult.commute)
  have span: "8 * find_span (megablock_bitmap_size ?h * 8) \<le> 8 * length (megablock_bitmap s)" using o by simp
  define m0 where "m0 = k0 div (8 * ?bs)"
  have m0: "m0 < ?N" using k0(1) b0 by (simp add: m0_def div_less_iff_less_mult mult.commute)
  have "k0 = m0 * (8 * ?bs) + k0 mod (8 * ?bs)" unfolding m0_def by (rule div_mult_mod_eq [symmetric])
  moreover have "k0 mod (8 * ?bs) < 8 * ?bs" using b0 by simp
  ultimately have nm0: "\<not> bm_get (megablock_bitmap s) m0" using o m0 k0(2) by metis
  obtain fm where fm: "bsfs_bitmap_find (megablock_bitmap s) (megablock_bitmap_size ?h * 8) = Inr fm"
    using tbm.find_defined [OF span] by blast
  have "m0 < unat (megablock_bitmap_size ?h * 8)" using m0 o n32 by simp
  then have "fm \<noteq> - 1" using tbm.find_miss [OF span] fm nm0 by auto
  note fh = tbm.find_hit [OF span fm this]
  have le: "unat fm \<le> m0" using fh nm0 by (meson not_le)
  then have fN: "unat fm < ?N" using m0 by simp
  have N1: "?bs * 8 \<le> ?N * ?bs * 8" using m0 by simp
  have slice: "unat (fm * block_size ?h) = unat fm * ?bs"
  proof -
    have "unat fm * ?bs \<le> ?N * ?bs" using fN by simp
    then have "unat fm * ?bs < 2 ^ 32" using sz by linarith
    then show ?thesis by (simp add: unat_mult_lem [THEN iffD1] bs_of_def)
  qed
  have b32: "unat (block_size ?h * 8) = 8 * ?bs"
  proof -
    have "?bs * 8 < 2 ^ 32" using sz N1 by linarith
    then show ?thesis by (simp add: unat_mult_lem [THEN iffD1] bs_of_def mult.commute)
  qed
  have sp2: "8 * find_span (block_size ?h * 8) \<le> 8 * length (drop (unat fm * ?bs) (block_bitmap s))"
  proof -
    obtain q where q: "?bs = 8 * q" using o by (auto simp: dvd_def)
    have "find_span (block_size ?h * 8) = ?bs" unfolding find_span_def b32 q by simp
    moreover have "Suc (unat fm) * ?bs \<le> ?N * ?bs" using fN by (intro mult_le_mono1) simp
    ultimately show ?thesis using o by (simp add: algebra_simps)
  qed
  obtain lb where lb: "bsfs_bitmap_find (drop (unat fm * ?bs) (block_bitmap s)) (block_size ?h * 8) = Inr lb"
    using tbm.find_defined [OF sp2] by blast
  have "\<exists>i<8 * ?bs. \<not> block_used s (unat fm * (8 * ?bs) + i)" using fh fN o by blast
  then obtain i where i: "i < 8 * ?bs" "\<not> block_used s (unat fm * (8 * ?bs) + i)" by blast
  have eq: "bm_get (drop (unat fm * ?bs) (block_bitmap s)) k \<longleftrightarrow> block_used s (unat fm * (8 * ?bs) + k)" for k
    by (simp add: bm_get_drop block_used_def algebra_simps)
  have "lb \<noteq> - 1" using tbm.find_miss [OF sp2] lb i eq b32 by auto
  note lh = tbm.find_hit [OF sp2 lb this, unfolded eq b32]
  have "block_used s j" if "j < unat fm * (8 * ?bs) + unat lb" for j
  proof (cases "j div (8 * ?bs) < unat fm")
    case True
    then have "bm_get (megablock_bitmap s) (j div (8 * ?bs))" using fh by blast
    moreover have "j = j div (8 * ?bs) * (8 * ?bs) + j mod (8 * ?bs)" by (rule div_mult_mod_eq [symmetric])
    moreover have "j mod (8 * ?bs) < 8 * ?bs" using b0 by simp
    ultimately show ?thesis using o True fN by (metis less_trans)
  next
    case False
    have lt: "j < Suc (unat fm) * (8 * ?bs)" using that lh by simp
    then have "j div (8 * ?bs) < Suc (unat fm)" using b0 by (simp only: div_less_iff_less_mult)
    then have "j div (8 * ?bs) = unat fm" using False by linarith
    then have "j = unat fm * (8 * ?bs) + j mod (8 * ?bs)" by (metis div_mult_mod_eq)
    then show ?thesis using lh that by (metis add_less_cancel_left)
  qed
  then show thesis using that [OF fm _ fN _ \<open>lb \<noteq> - 1\<close> slice] lb slice lh by simp
qed

lemma unat_numeral_8: "unat (8 :: u32) = 8"
  by simp

lemma bsfs_alloc_block_least:
  assumes ok: "bitmaps_ok s" and k0: "k0 < megablocks s * (8 * bs_of s)" "\<not> block_used s k0"
  shows "\<exists>b s'. bsfs_alloc_block s = Inr (b, s') \<and> \<not> block_used s (unat b) \<and> (\<forall>j<unat b. block_used s j)
    \<and> mark_block (unat b) s s' \<and> bitmaps_ok s'"
proof -
  let ?bs = "bs_of s" and ?N = "megablocks s" and ?h = "hdr s"
  note o = ok [unfolded bitmaps_ok_def]
  obtain fm lb where f: "bsfs_bitmap_find (megablock_bitmap s) (megablock_bitmap_size ?h * 8) = Inr fm"
    "bsfs_bitmap_find (drop (unat (fm * block_size ?h)) (block_bitmap s)) (block_size ?h * 8) = Inr lb"
    and lt: "unat fm < ?N" "unat lb < 8 * ?bs" "lb \<noteq> - 1" and slice: "unat (fm * block_size ?h) = unat fm * ?bs"
    and nu: "\<not> block_used s (unat fm * (8 * ?bs) + unat lb)" and below: "\<And>j. j < unat fm * (8 * ?bs) + unat lb \<Longrightarrow> block_used s j"
    using bitmaps_find [OF assms] by blast
  define b where "b = lb + fm * block_size ?h * 8"
  have b0: "0 < ?bs" and sz: "?N * ?bs * 8 < 2 ^ 32" and len: "length (block_bitmap s) = ?N * ?bs" using o by simp_all
  have top: "unat fm * (8 * ?bs) + 8 * ?bs \<le> ?N * ?bs * 8"
  proof -
    have "Suc (unat fm) * ?bs \<le> ?N * ?bs" using lt(1) by (intro mult_le_mono1) simp
    then show ?thesis by simp
  qed
  have ub: "unat b = unat fm * (8 * ?bs) + unat lb"
  proof -
    have "unat (fm * block_size ?h) * unat (8 :: u32) < 2 ^ 32"
      using top sz unfolding slice by (simp only: unat_numeral_8)
    then have "unat (fm * block_size ?h * 8) = unat fm * ?bs * 8"
      by (subst unat_mult_lem [THEN iffD1]) (simp_all add: slice)
    moreover have "unat lb + unat fm * ?bs * 8 < 2 ^ 32" using top sz lt(2) by linarith
    ultimately show ?thesis unfolding b_def by (subst unat_add_small) simp_all
  qed
  have cap: "unat b < 8 * length (block_bitmap s)" using ub lt(2) top len by simp
  then obtain bm where bm: "bsfs_bitmap_set (block_bitmap s) b = Some bm" using tbm.set_defined by blast
  have get: "bm_get bm j \<longleftrightarrow> j = unat b \<or> block_used s j" for j
    using tbm.set_get [OF bm] by (simp add: block_used_def)
  have lbm: "length bm = length (block_bitmap s)" using tbm.set_cap [OF bm] by simp
  define full where "full \<longleftrightarrow> (\<forall>i<8 * ?bs. bm_get bm (unat fm * (8 * ?bs) + i))"
  have "unat fm * ?bs + ?bs \<le> length bm" using top lbm len by simp
  then have sf: "slice_full ?bs (drop (unat fm * ?bs) bm) = Some full"
    using full_bytes [of "unat fm * ?bs" ?bs bm] by (simp add: slice_full_iff algebra_simps full_def)
  obtain mb where mb: "bsfs_bitmap_set (megablock_bitmap s) fm = Some mb"
  proof -
    have "unat fm < 8 * length (megablock_bitmap s)"
      using lt(1) o find_span_covers [of "megablock_bitmap_size ?h * 8"]
      by (simp add: unat_mult_lem [THEN iffD1] mult.commute)
    then show ?thesis using that tbm.set_defined by blast
  qed
  define s' where "s' = s\<lparr>block_bitmap := bm, megablock_bitmap := (if full then mb else megablock_bitmap s),
     hdr := ?h\<lparr>free_blocks := free_blocks ?h - 1\<rparr>\<rparr>"
  have run: "bsfs_alloc_block s = Inr (b, s')"
    using f lt(3) bm sf mb by (simp add: bsfs_alloc_block_def Let_def b_def slice s'_def bs_of_def)
  have bu: "block_used s' j \<longleftrightarrow> j = unat b \<or> block_used s j" for j by (simp add: s'_def block_used_def get)
  have same: "bs_of s' = ?bs" "megablocks s' = ?N" by (simp_all add: s'_def bs_of_def megablocks_def)
  have mega: "bm_get (megablock_bitmap s') m \<longleftrightarrow> (\<forall>i<8 * ?bs. block_used s' (m * (8 * ?bs) + i))" if m: "m < ?N" for m
  proof (cases "m = unat fm")
    case True
    have "\<not> bm_get (megablock_bitmap s) (unat fm)" using o lt nu by blast
    then show ?thesis
      using True tbm.set_get [OF mb] get by (simp add: s'_def block_used_def full_def)
  next
    case False
    have "m * (8 * ?bs) + i \<noteq> unat b" if "i < 8 * ?bs" for i
    proof
      assume "m * (8 * ?bs) + i = unat b"
      then have "(m * (8 * ?bs) + i) div (8 * ?bs) = (unat fm * (8 * ?bs) + unat lb) div (8 * ?bs)" by (simp only: ub)
      then show False using False that lt(2) by simp
    qed
    then have "(\<forall>i<8 * ?bs. block_used s' (m * (8 * ?bs) + i)) \<longleftrightarrow> bm_get (megablock_bitmap s) m"
      using o m bu by blast
    moreover have "bm_get (megablock_bitmap s') m \<longleftrightarrow> bm_get (megablock_bitmap s) m"
      using False tbm.set_get [OF mb] by (simp add: s'_def)
    ultimately show ?thesis by blast
  qed
  have "length (megablock_bitmap s') = length (megablock_bitmap s)" using tbm.set_cap [OF mb] by (simp add: s'_def)
  then have "bitmaps_ok s'"
    unfolding bitmaps_ok_def same using o mega lbm by (simp add: s'_def)
  moreover have "mark_block (unat b) s s'" unfolding mark_block_def using bu s'_def by blast
  ultimately show ?thesis using run nu below ub by auto
qed

text \<open>The header counts the free blocks of the image.\<close>

definition free_count :: "image \<Rightarrow> nat" where
  "free_count s = card {k. k < unat (total_blocks (hdr s)) \<and> \<not> block_used s k}"

lemma total_in_megablocks:
  assumes "0 < bs_of s"
  shows "unat (total_blocks (hdr s)) \<le> megablocks s * (8 * bs_of s)"
proof -
  let ?t = "unat (total_blocks (hdr s))" and ?c = "8 * bs_of s"
  have "?t + ?c - 1 = megablocks s * ?c + (?t + ?c - 1) mod ?c" unfolding megablocks_def by (rule div_mult_mod_eq [symmetric])
  moreover have "(?t + ?c - 1) mod ?c < ?c" using assms by simp
  ultimately show ?thesis by linarith
qed

lemma mark_block_facts:
  assumes "mark_block b s s'"
  shows "bs_of s' = bs_of s" "total_blocks (hdr s') = total_blocks (hdr s)" "free_blocks (hdr s') = free_blocks (hdr s) - 1"
    "image_file s' = image_file s" "inode_table s' = inode_table s" "inode_bitmap s' = inode_bitmap s"
    "\<And>j. block_used s' j \<longleftrightarrow> j = b \<or> block_used s j"
  using assms by (auto simp: mark_block_def bs_of_def)

lemma free_count_mark:
  assumes "mark_block b s s'" "\<not> block_used s b"
  shows "b < unat (total_blocks (hdr s)) \<Longrightarrow> free_count s = Suc (free_count s')"
proof -
  assume lt: "b < unat (total_blocks (hdr s))"
  let ?A = "\<lambda>s. {k. k < unat (total_blocks (hdr s)) \<and> \<not> block_used s k}"
  have "?A s = insert b (?A s')" using lt assms(2) mark_block_facts [OF assms(1)] by auto
  moreover have "b \<notin> ?A s'" using mark_block_facts [OF assms(1)] by simp
  ultimately show ?thesis by (simp add: free_count_def)
qed

lemma bsfs_alloc_block_next:
  assumes "bitmaps_ok s" "unat (free_blocks (hdr s)) = free_count s" "0 < free_count s"
  shows "\<exists>b s'. bsfs_alloc_block s = Inr (b, s') \<and> unat b < unat (total_blocks (hdr s))
    \<and> \<not> block_used s (unat b) \<and> (\<forall>j<unat b. block_used s j)
    \<and> mark_block (unat b) s s' \<and> bitmaps_ok s' \<and> unat (free_blocks (hdr s')) = free_count s'"
proof -
  have "{k. k < unat (total_blocks (hdr s)) \<and> \<not> block_used s k} \<noteq> {}"
    using assms(3) unfolding free_count_def by (metis card.empty less_irrefl)
  then obtain k0 where k0: "k0 < unat (total_blocks (hdr s))" "\<not> block_used s k0" by blast
  have "0 < bs_of s" using assms(1) by (simp add: bitmaps_ok_def)
  then have "k0 < megablocks s * (8 * bs_of s)" using k0(1) total_in_megablocks by (meson less_le_trans)
  then obtain b s' where r: "bsfs_alloc_block s = Inr (b, s')" "\<not> block_used s (unat b)" "\<forall>j<unat b. block_used s j"
    "mark_block (unat b) s s'" "bitmaps_ok s'"
    using bsfs_alloc_block_least [OF assms(1) _ k0(2)] by blast
  have lt: "unat b < unat (total_blocks (hdr s))" using r(3) k0 by (meson le_less_trans not_le)
  have "free_count s = Suc (free_count s')" using free_count_mark [OF r(4,2) lt] .
  then have "unat (free_blocks (hdr s')) = free_count s'"
    using assms(2) mark_block_facts(3) [OF r(4)] unat_minus_one [of "free_blocks (hdr s)"] by (cases "free_blocks (hdr s) = 0") simp_all
  then show ?thesis using r lt by blast
qed

text \<open>C37: while the image has a free block, allocating takes the free block with the lowest number, marks it and
  nothing else in the two levels of the bitmap, keeps the levels in step, and keeps the count of free blocks
  of the header exact.\<close>

theorem alloc_block_correct:
  assumes "bitmaps_ok s" "unat (free_blocks (hdr s)) = free_count s" "0 < free_count s"
  shows "\<exists>b s'. bsfs_alloc_block s = Inr (b, s') \<and> unat b < unat (total_blocks (hdr s))
    \<and> \<not> block_used s (unat b) \<and> (\<forall>j<unat b. block_used s j)
    \<and> mark_block (unat b) s s' \<and> bitmaps_ok s' \<and> unat (free_blocks (hdr s')) = free_count s'"
  using assms by (rule bsfs_alloc_block_next)

definition tiny_image :: "u32 \<Rightarrow> u8 \<Rightarrow> image" where
  "tiny_image free b = \<lparr>image_file = \<lparr>contents = [], fpos = 0\<rparr>,
     hdr = example_header\<lparr>block_size := 8, total_blocks := 12, free_blocks := free, megablock_bitmap_size := 1\<rparr>,
     block_bitmap = [0xFF, b, 0, 0, 0, 0, 0, 0], megablock_bitmap = replicate 8 0, inode_bitmap = [], inode_table = []\<rparr>"

lemma tiny_sizes:
  "bs_of (tiny_image f b) = 8" "megablocks (tiny_image f b) = 1" "megablock_bitmap_size (hdr (tiny_image f b)) = 1"
  "length (block_bitmap (tiny_image f b)) = 8" "length (megablock_bitmap (tiny_image f b)) = 8"
  "unat (total_blocks (hdr (tiny_image f b))) = 12" "free_blocks (hdr (tiny_image f b)) = f"
  by (simp_all add: bs_of_def megablocks_def tiny_image_def)

lemma tiny_bits:
  "\<not> block_used (tiny_image f b) 16" "\<not> bm_get (megablock_bitmap (tiny_image f b)) 0"
  "k < 8 \<Longrightarrow> block_used (tiny_image f b) k" "block_used (tiny_image f b) (8 + k) \<longleftrightarrow> bit b k" if "k < 8"
proof -
  have "bit (0xFF :: u8) k" if "k < 8" using that full_byte by blast
  then show "k < 8 \<Longrightarrow> block_used (tiny_image f b) k" by (simp add: block_used_def bm_get_def tiny_image_def)
  show "block_used (tiny_image f b) (8 + k) \<longleftrightarrow> bit b k"
    using that by (simp add: block_used_def bm_get_def tiny_image_def)
qed (simp_all add: block_used_def bm_get_def tiny_image_def)

lemma tiny_ok: "bitmaps_ok (tiny_image f b)"
proof -
  have "\<exists>i<64. \<not> block_used (tiny_image f b) i" using tiny_bits(1) [of 0 f b] by (intro exI [of _ 16]) simp
  then show ?thesis using tiny_bits(2) [of 0 f b] by (simp add: bitmaps_ok_def tiny_sizes find_span_def)
qed

lemma tiny_used: "k < 12 \<Longrightarrow> block_used (tiny_image f b) k \<longleftrightarrow> k < 8 \<or> bit b (k - 8)"
  using tiny_bits(3) [of k f b] tiny_bits(4) [of "k - 8" f b] by (cases "k < 8") simp_all

lemma low_bits:
  "i < 4 \<Longrightarrow> bit (0x07 :: u8) i \<longleftrightarrow> i < 3" "i < 4 \<Longrightarrow> bit (0x0F :: u8) i"
proof -
  have "(0x07 :: u8) = mask 3" "(0x0F :: u8) = mask 4" by (simp_all add: mask_eq_exp_minus_1)
  then show "i < 4 \<Longrightarrow> bit (0x07 :: u8) i \<longleftrightarrow> i < 3" "i < 4 \<Longrightarrow> bit (0x0F :: u8) i"
    by (simp_all only: bit_mask_iff) auto
qed

theorem alloc_block_correct_witness:
  "\<exists>s'. bsfs_alloc_block (tiny_image 1 0x07) = Inr (11, s') \<and> free_blocks (hdr s') = 0"
proof -
  have k: "k < 12 \<and> \<not> block_used (tiny_image 1 0x07) k \<longleftrightarrow> k = 11" for k
    using tiny_used [of k 1 "0x07"] low_bits(1) [of "k - 8"] by auto
  have c: "free_count (tiny_image 1 0x07) = 1" unfolding free_count_def tiny_sizes k by simp
  have "unat (free_blocks (hdr (tiny_image 1 0x07))) = free_count (tiny_image 1 0x07)"
    unfolding c tiny_sizes by simp
  then obtain b s' where r: "bsfs_alloc_block (tiny_image 1 0x07) = Inr (b, s')" "unat b < 12"
    "\<not> block_used (tiny_image 1 0x07) (unat b)" "mark_block (unat b) (tiny_image 1 0x07) s'"
    using alloc_block_correct [OF tiny_ok, of 1 "0x07"] c unfolding tiny_sizes by auto
  have "unat b = 11" using r k by blast
  then have "b = 11" by (simp add: word_unat_eq_iff)
  then show ?thesis using r mark_block_facts(3) [OF r(4)] by (simp add: tiny_sizes)
qed

text \<open>C38: on a full image the allocation does not fail: when the last megablock is not complete, the block after the
  last one of the image is given out, and the count of free blocks wraps to its largest value.\<close>

theorem alloc_block_full:
  assumes "bitmaps_ok s" "\<forall>k<unat (total_blocks (hdr s)). block_used s k" "free_blocks (hdr s) = 0"
    and "k0 < megablocks s * (8 * bs_of s)" "\<not> block_used s k0"
  shows "\<exists>b s'. bsfs_alloc_block s = Inr (b, s') \<and> unat (total_blocks (hdr s)) \<le> unat b
    \<and> block_used s' (unat b) \<and> free_blocks (hdr s') = 0xFFFFFFFF"
proof -
  obtain b s' where r: "bsfs_alloc_block s = Inr (b, s')" "\<not> block_used s (unat b)" "mark_block (unat b) s s'"
    using bsfs_alloc_block_least [OF assms(1,4,5)] by blast
  have "unat (total_blocks (hdr s)) \<le> unat b" using assms(2) r(2) by (meson not_le)
  then show ?thesis using r assms(3) mark_block_facts(3,7) [OF r(3)] by simp
qed

theorem alloc_block_full_witness:
  "\<exists>b s'. bsfs_alloc_block (tiny_image 0 0x0F) = Inr (b, s') \<and> 12 \<le> unat b \<and> free_blocks (hdr s') = 0xFFFFFFFF"
proof -
  have "\<forall>k<12. block_used (tiny_image 0 0x0F) k" using tiny_used low_bits(2) by auto
  then show ?thesis
    using alloc_block_full [OF tiny_ok _ _ _ tiny_bits(1) [of 0], of 0 "0x0F", unfolded tiny_sizes] by simp blast
qed

section \<open>Allocating an inode\<close>

definition inode_used :: "image \<Rightarrow> nat \<Rightarrow> bool" where
  "inode_used s i \<longleftrightarrow> bm_get (inode_bitmap s) i"

definition inode_free :: "image \<Rightarrow> nat" where
  "inode_free s = card {i. i < unat (inode_count (hdr s)) \<and> \<not> inode_used s i}"

lemma bsfs_alloc_inode_next:
  assumes span: "find_span (inode_count (hdr s)) \<le> length (inode_bitmap s)" and free: "0 < inode_free s"
    and count: "unat (free_inodes (hdr s)) = inode_free s"
  shows "\<exists>i bm. bsfs_alloc_inode s = Inr (i, s\<lparr>inode_bitmap := bm, hdr := (hdr s)\<lparr>free_inodes := free_inodes (hdr s) - 1\<rparr>\<rparr>)
    \<and> unat i < unat (inode_count (hdr s)) \<and> \<not> inode_used s (unat i) \<and> (\<forall>j<unat i. inode_used s j)
    \<and> length bm = length (inode_bitmap s) \<and> (\<forall>j. bm_get bm j \<longleftrightarrow> j = unat i \<or> inode_used s j)
    \<and> unat (free_inodes (hdr s) - 1) = card {i. i < unat (inode_count (hdr s)) \<and> \<not> bm_get bm i}
    \<and> inode_free s = Suc (card {i. i < unat (inode_count (hdr s)) \<and> \<not> bm_get bm i})"
proof -
  let ?n = "inode_count (hdr s)" and ?b = "inode_bitmap s"
  have sp: "8 * find_span ?n \<le> 8 * length ?b" using span by simp
  obtain r where r: "tbm.take_bit_index ?b ?n = Inr r" using tbm.take_bit_index_total [OF sp] by blast
  have "{i. i < unat ?n \<and> \<not> inode_used s i} \<noteq> {}" using free unfolding inode_free_def by (metis card.empty less_irrefl)
  then have ex: "\<exists>i<unat ?n. \<not> bm_get ?b i" by (auto simp: inode_used_def)
  obtain k where k: "bsfs_bitmap_find ?b ?n = Inr k" using tbm.find_defined [OF sp] by blast
  then have k1: "k \<noteq> - 1" using tbm.find_miss [OF sp] ex by auto
  note h = tbm.find_hit [OF sp k k1]
  have "unat k < 8 * length ?b" using h sp find_span_covers [of ?n] by linarith
  then obtain bm where bm: "bsfs_bitmap_set ?b k = Some bm" using tbm.set_defined by blast
  note g = tbm.set_get [OF bm]
  let ?A = "{i. i < unat ?n \<and> \<not> inode_used s i}" and ?B = "{i. i < unat ?n \<and> \<not> bm_get bm i}"
  have "?A = insert (unat k) ?B" "unat k \<notin> ?B" using h g by (auto simp: inode_used_def)
  then have c: "inode_free s = Suc (card ?B)" by (simp add: inode_free_def)
  moreover have "unat (free_inodes (hdr s) - 1) = card ?B"
    using c count unat_minus_one [of "free_inodes (hdr s)"] by (cases "free_inodes (hdr s) = 0") simp_all
  ultimately show ?thesis
    using k k1 bm h g tbm.set_cap [OF bm]
    by (intro exI [of _ k] exI [of _ bm]) (simp add: bsfs_alloc_inode_def Let_def inode_used_def)
qed

end
