(* ===== verification/Mkfs.thy ===== *)
theory Mkfs
  imports ImageAlloc
begin

text \<open>
  mkfs.bsfs, tools/bsfs/mkfs.bsfs.c: the command line, the layout of the file system in the image, and the
  blocks the tool writes. The result of a run is the exit status (the reason when it is an error of
  the command line) and the image file.
\<close>

section \<open>Command line\<close>

record mkfs_options =
  final_blocksize :: u64
  final_offset :: u64
  final_label :: string

text \<open>The checks both numeric options make of their argument: the value, or why it is refused.\<close>

definition number_in :: "int \<Rightarrow> int \<Rightarrow> string \<Rightarrow> usage_error + int" where
  "number_in lo hi arg =
     (let (value, end, erange) = strtol arg in
      if end = arg then Inl Unable_to_convert
      else if end \<noteq> [] then Inl Invalid_characters
      else if erange \<or> value < lo \<or> value > hi then Inl Out_of_range
      else Inr value)"

fun mkfs_parse :: "string list \<Rightarrow> mkfs_options \<Rightarrow> usage_error + mkfs_options" where
  "mkfs_parse [] o' = Inr o'"
| "mkfs_parse (opt # args) o' =
     (if opt = ''--offset'' then
        (case args of
           [] \<Rightarrow> Inl Expected_number
         | arg # args' \<Rightarrow> (case number_in 0 1024 arg of
             Inl e \<Rightarrow> Inl e
           | Inr value \<Rightarrow> mkfs_parse args' (o'\<lparr>final_offset := of_int value\<rparr>)))
      else if opt = ''--block-size'' then
        (case args of
           [] \<Rightarrow> Inl Expected_number
         | arg # args' \<Rightarrow> (case number_in 1024 16384 arg of
             Inl e \<Rightarrow> Inl e
           | Inr value \<Rightarrow> mkfs_parse args' (o'\<lparr>final_blocksize := of_int value\<rparr>)))
      else if opt = ''--label'' then
        (case args of
           [] \<Rightarrow> Inl Expected_label
         | arg # args' \<Rightarrow>
             if length arg \<ge> 32 then Inl Label_too_long
             else mkfs_parse args' (o'\<lparr>final_label := arg\<rparr>))
      else Inl Unknown_option)"

section \<open>Layout\<close>

text \<open>\<^verbatim>\<open>DIV_CEIL\<close> is a macro: it computes with the wider of the types of its arguments.\<close>

definition div_ceil :: "'a :: len word \<Rightarrow> 'a word \<Rightarrow> 'a word" where
  "div_ceil a b = (a + b - 1) div b"

definition mkfs_header :: "u64 \<Rightarrow> mkfs_options \<Rightarrow> BsfsHeader" where
  "mkfs_header imagesize o' =
     (let bs = final_blocksize o';
          total_blocks = ucast (imagesize div bs) :: u32;
          total_megablocks = ucast (div_ceil (ucast total_blocks) (bs * 8)) :: u32;
          inode_count = total_blocks div 4;
          block_bitmap_bytes = div_ceil total_blocks 8;
          block_bitmap_blocks = ucast (div_ceil (ucast block_bitmap_bytes) bs) :: u32;
          megablock_bitmap_bytes = div_ceil total_megablocks 8;
          megablock_bitmap_blocks = ucast (div_ceil (ucast megablock_bitmap_bytes) bs) :: u32;
          inode_bitmap_bytes = div_ceil inode_count 8;
          inode_bitmap_blocks = ucast (div_ceil (ucast inode_bitmap_bytes) bs) :: u32;
          inode_table_bytes = ucast (ucast inode_count * (128 :: u64)) :: u32;
          inode_table_blocks = ucast (div_ceil (ucast inode_table_bytes) bs) :: u32;
          reserved_blocks = ucast (final_offset o' + 1) :: u32;
          block_bitmap_start = reserved_blocks;
          megablock_bitmap_start = block_bitmap_start + block_bitmap_blocks;
          inode_bitmap_start = megablock_bitmap_start + megablock_bitmap_blocks;
          inode_table_start = inode_bitmap_start + inode_bitmap_blocks;
          data_start = inode_table_start + inode_table_blocks;
          metadata_blocks = reserved_blocks + block_bitmap_blocks + megablock_bitmap_blocks
            + inode_bitmap_blocks + inode_table_blocks
      in \<lparr>bootjmp = [0xEB, 113, 0x90], magic = BSFS_MAGIC, version = BSFS_VERSION, block_size = ucast bs,
          total_blocks = total_blocks, inode_count = inode_count, free_blocks = total_blocks - metadata_blocks,
          free_inodes = inode_count, block_bitmap_start = block_bitmap_start, block_bitmap_blocks = block_bitmap_blocks,
          megablock_bitmap_start = megablock_bitmap_start, megablock_bitmap_blocks = megablock_bitmap_blocks,
          megablock_bitmap_size = megablock_bitmap_bytes, inode_bitmap_start = inode_bitmap_start,
          inode_bitmap_blocks = inode_bitmap_blocks, inode_table_start = inode_table_start,
          inode_table_blocks = inode_table_blocks, data_start = data_start, root_inode = 0,
          partition_lba = final_offset o',
          label = map of_char (final_label o') @ replicate (32 - length (final_label o')) 0,
          bootcode = replicate 395 0, bootcode_magic = [0x55, 0xAA]\<rparr>)"

section \<open>Writing the image\<close>

text \<open>A seek to the start of a region, and its zero blocks one after the other.\<close>

definition write_zeros :: "u64 \<Rightarrow> u32 \<Rightarrow> u32 \<Rightarrow> hfile \<Rightarrow> hfile" where
  "write_zeros bs start blocks f =
     ((host_fwrite (replicate (unat bs) 0)) ^^ unat blocks) (fseeko_set (sint (bs * ucast start)) f)"

definition mkfs_write :: "mkfs_options \<Rightarrow> BsfsHeader \<Rightarrow> hfile \<Rightarrow> hfile" where
  "mkfs_write o' header f =
     (let bs = final_blocksize o';
          f = fseeko_set (sint (bs * final_offset o')) f;
          f = host_fwrite (header_bytes header) f;
          f = host_fwrite (replicate (unat (bs - 512)) 0) f;
          f = write_zeros bs (block_bitmap_start header) (block_bitmap_blocks header) f;
          f = write_zeros bs (megablock_bitmap_start header) (megablock_bitmap_blocks header) f;
          f = write_zeros bs (inode_bitmap_start header) (inode_bitmap_blocks header) f
      in write_zeros bs (inode_table_start header) (inode_table_blocks header) f)"

datatype mkfs_exit = Usage usage_error | No_image | Bad_image_size | Exit_ok hfile

text \<open>The arguments after the name of the program; \<open>opened\<close> is what opening the named file for update gives.\<close>

definition mkfs_main :: "string list \<Rightarrow> hfile option \<Rightarrow> mkfs_exit" where
  "mkfs_main args opened =
     (case args of
        [] \<Rightarrow> Usage No_arguments
      | name # args' \<Rightarrow>
          (case mkfs_parse args' \<lparr>final_blocksize = 4096, final_offset = 0, final_label = ''mkfs.bsfs''\<rparr> of
             Inl e \<Rightarrow> Usage e
           | Inr o' \<Rightarrow> (case opened of
               None \<Rightarrow> No_image
             | Some f \<Rightarrow>
                 (let imagesize = of_nat (length (contents f)) in
                  if imagesize mod final_blocksize o' \<noteq> 0 then Bad_image_size
                  else Exit_ok (mkfs_write o' (mkfs_header imagesize o') f)))))"

section \<open>The layout is sound\<close>

definition options_ok :: "mkfs_options \<Rightarrow> bool" where
  "options_ok o' \<longleftrightarrow> 1024 \<le> unat (final_blocksize o') \<and> unat (final_blocksize o') \<le> 16384
     \<and> unat (final_offset o') \<le> 1024 \<and> length (final_label o') < 32"

lemma number_in_range: "number_in lo hi arg = Inr v \<Longrightarrow> lo \<le> v \<and> v \<le> hi"
  by (auto simp: number_in_def Let_def split: prod.splits if_splits)

lemma unat_of_int_range: "0 \<le> v \<Longrightarrow> v < 2 ^ 64 \<Longrightarrow> unat (of_int v :: u64) = nat v"
  by (simp add: unat_eq_nat_uint uint_word_of_int)

lemma mkfs_parse_ok: "mkfs_parse args o1 = Inr o2 \<Longrightarrow> options_ok o1 \<Longrightarrow> options_ok o2"
proof (induction args o1 rule: mkfs_parse.induct)
  case (2 opt args o1)
  have off: "options_ok (o1\<lparr>final_offset := of_int v\<rparr>)" if "number_in 0 1024 arg = Inr v" for arg v
    using number_in_range [OF that] 2(5) by (simp add: options_ok_def unat_of_int_range nat_le_iff le_nat_iff)
  have bsz: "options_ok (o1\<lparr>final_blocksize := of_int v\<rparr>)" if "number_in 1024 16384 arg = Inr v" for arg v
    using number_in_range [OF that] 2(5) by (simp add: options_ok_def unat_of_int_range nat_le_iff le_nat_iff)
  have lab: "options_ok (o1\<lparr>final_label := arg\<rparr>)" if "\<not> 32 \<le> length arg" for arg
    using that 2(5) by (simp add: options_ok_def)
  show ?case
    using 2(4) 2(1) [OF _ _ _ _ off] 2(2) [OF _ _ _ _ _ bsz] 2(3) [OF _ _ _ _ _ _ lab]
    by (auto split: if_splits list.splits sum.splits)
qed simp

definition ceil_div :: "nat \<Rightarrow> nat \<Rightarrow> nat" where
  "ceil_div a b = (a + b - 1) div b"

lemma unat_div_ceil_word:
  fixes a b :: "'a :: len word"
  assumes "0 < unat b" "unat a + unat b < 2 ^ LENGTH('a)"
  shows "unat (div_ceil a b) = ceil_div (unat a) (unat b)"
proof -
  have s: "unat (a + b) = unat a + unat b" using assms(2) unat_add_lem by blast
  then have "1 \<le> a + b" using assms(1) unfolding word_le_nat_alt unat_1 by linarith
  then have "unat (a + b - 1) = unat a + unat b - 1" using s by (simp add: unat_sub)
  then show ?thesis by (simp add: div_ceil_def ceil_div_def unat_div)
qed

lemma ceil_div_covers: "0 < b \<Longrightarrow> a \<le> ceil_div a b * b"
proof -
  assume "0 < b"
  then have "(a + b - 1) mod b < b" by simp
  moreover have "a + b - 1 = (a + b - 1) div b * b + (a + b - 1) mod b" by simp
  ultimately show ?thesis unfolding ceil_div_def by linarith
qed

lemma ceil_div_le: "0 < b \<Longrightarrow> ceil_div a b \<le> a div b + 1"
proof -
  assume b: "0 < b"
  have "ceil_div a b \<le> (a + b) div b" unfolding ceil_div_def by (intro div_le_mono) simp
  also have "(a + b) div b = a div b + 1" using b by (simp add: div_add_self2)
  finally show ?thesis .
qed

lemma ceil_div_div: "0 < b \<Longrightarrow> 0 < c \<Longrightarrow> ceil_div (ceil_div a b) c = ceil_div a (b * c)"
proof -
  assume b: "0 < b" and c: "0 < c"
  have 1: "k < ceil_div x d \<longleftrightarrow> k * d < x" if "0 < d" for k x d
  proof -
    have "k < ceil_div x d \<longleftrightarrow> Suc k * d \<le> x + d - 1"
      using that by (simp add: ceil_div_def Suc_le_eq [symmetric] less_eq_div_iff_mult_less_eq)
    then show ?thesis using that by auto
  qed
  have "k < ceil_div (ceil_div a b) c \<longleftrightarrow> k < ceil_div a (b * c)" for k
    using b c by (simp add: 1 ac_simps)
  then show ?thesis by (meson linorder_neqE_nat less_irrefl)
qed

text \<open>The regions follow each other from the block after the header, and each is large enough.\<close>

definition layout_ok :: "nat \<Rightarrow> BsfsHeader \<Rightarrow> bool" where
  "layout_ok offset h \<longleftrightarrow> (let bs = unat (block_size h); total = unat (total_blocks h) in
     0 < bs \<and> unat (block_bitmap_start h) = offset + 1
     \<and> unat (megablock_bitmap_start h) = unat (block_bitmap_start h) + unat (block_bitmap_blocks h)
     \<and> unat (inode_bitmap_start h) = unat (megablock_bitmap_start h) + unat (megablock_bitmap_blocks h)
     \<and> unat (inode_table_start h) = unat (inode_bitmap_start h) + unat (inode_bitmap_blocks h)
     \<and> unat (data_start h) = unat (inode_table_start h) + unat (inode_table_blocks h)
     \<and> unat (block_bitmap_blocks h) = ceil_div total (8 * bs)
     \<and> unat (megablock_bitmap_size h) = ceil_div (ceil_div total (8 * bs)) 8
     \<and> unat (megablock_bitmap_size h) \<le> unat (megablock_bitmap_blocks h) * bs
     \<and> unat (inode_count h) = total div 4
     \<and> unat (inode_count h) \<le> 8 * (unat (inode_bitmap_blocks h) * bs)
     \<and> 128 * unat (inode_count h) \<le> unat (inode_table_blocks h) * bs)"

lemma unat_ucast_small:
  "unat (w :: 'a :: len word) < 2 ^ LENGTH('b :: len) \<Longrightarrow> unat (ucast w :: 'b word) = unat w"
  by (simp add: unsigned_ucast_eq take_bit_nat_eq_self)

lemma ceil_div_le_self: "0 < b \<Longrightarrow> ceil_div a b \<le> a"
proof (cases a)
  case (Suc n)
  assume "0 < b"
  then have "ceil_div a b = n div b + 1" using Suc by (simp add: ceil_div_def div_add_self2)
  then show ?thesis using Suc div_le_dividend [of n b] by simp
qed (simp add: ceil_div_def)

text \<open>The number of blocks of a region, computed with 64 bits and cut to 32.\<close>

lemma unat_region_blocks:
  fixes bytes :: u32 and bs :: u64
  assumes "0 < unat bs" "unat bs < 2 ^ 32"
  shows "unat (ucast (div_ceil (ucast bytes) bs) :: u32) = ceil_div (unat bytes) (unat bs)"
proof -
  have up: "unat (ucast bytes :: u64) = unat bytes" and lt: "unat bytes < 2 ^ 32"
    using unat_lt2p [of bytes] by (simp_all add: unat_ucast_small)
  have d: "unat (div_ceil (ucast bytes) bs) = ceil_div (unat bytes) (unat bs)"
    using assms lt up by (subst unat_div_ceil_word) simp_all
  have "ceil_div (unat bytes) (unat bs) \<le> unat bytes"
    using assms by (simp add: ceil_div_le_self)
  then show ?thesis using lt d by (subst unat_ucast_small) simp_all
qed

lemma mkfs_header_sizes:
  assumes ok: "options_ok o'" and n: "n < 2 ^ 27" and sz: "unat imagesize = n * unat (final_blocksize o')"
  defines "h \<equiv> mkfs_header imagesize o'" and "bs \<equiv> unat (final_blocksize o')"
  shows "unat (block_size h) = bs" "unat (total_blocks h) = n" "unat (inode_count h) = n div 4"
    "unat (block_bitmap_blocks h) = ceil_div n (8 * bs)" "unat (megablock_bitmap_size h) = ceil_div (ceil_div n (8 * bs)) 8"
    "unat (megablock_bitmap_blocks h) = ceil_div (unat (megablock_bitmap_size h)) bs"
    "unat (inode_bitmap_blocks h) = ceil_div (ceil_div (n div 4) 8) bs"
    "unat (inode_table_blocks h) = ceil_div (n div 4 * 128) bs"
proof -
  have b: "1024 \<le> bs" "bs \<le> 16384" using ok by (simp_all add: options_ok_def bs_def)
  then have b0: "0 < unat (final_blocksize o')" "unat (final_blocksize o') < 2 ^ 32" by (simp_all add: bs_def)
  have t: "unat (ucast (imagesize div final_blocksize o') :: u32) = n"
    using b0 n sz by (subst unat_ucast_small) (simp_all add: unat_div)
  have ic: "unat ((ucast (imagesize div final_blocksize o') :: u32) div 4) = n div 4" by (simp add: unat_div t)
  have c8: "unat (div_ceil w 8 :: u32) = ceil_div (unat w) 8" if "unat w \<le> 2 ^ 27" for w :: u32
    using that by (subst unat_div_ceil_word) simp_all
  have b8: "unat (final_blocksize o' * 8) = 8 * bs"
    using b by (simp add: unat_mult_lem [THEN iffD1] bs_def mult.commute)
  have le: "ceil_div n (8 * bs) \<le> n" using b by (intro ceil_div_le_self) simp
  have mb: "unat (ucast (div_ceil (ucast (ucast (imagesize div final_blocksize o') :: u32)) (final_blocksize o' * 8)) :: u32)
      = ceil_div n (8 * bs)"
    using unat_region_blocks [of "final_blocksize o' * 8" "ucast (imagesize div final_blocksize o')"] b b8 t by simp
  have it: "unat (ucast (ucast ((ucast (imagesize div final_blocksize o') :: u32) div 4) * (128 :: u64)) :: u32) = n div 4 * 128"
  proof -
    have u: "unat (ucast ((ucast (imagesize div final_blocksize o') :: u32) div 4) :: u64) = n div 4"
      using n by (subst unat_ucast_small) (simp_all add: ic)
    have "n div 4 * 128 < 2 ^ 32" using n by simp
    then have "unat (ucast ((ucast (imagesize div final_blocksize o') :: u32) div 4) * (128 :: u64)) = n div 4 * 128"
      by (subst unat_mult_lem [THEN iffD1]) (simp_all add: u)
    then show ?thesis using \<open>n div 4 * 128 < 2 ^ 32\<close> by (subst unat_ucast_small) simp_all
  qed
  note r = unat_region_blocks [OF b0]
  show "unat (block_size h) = bs" using b by (simp add: h_def mkfs_header_def Let_def bs_def unat_ucast_small)
  show "unat (total_blocks h) = n" "unat (inode_count h) = n div 4"
    by (simp_all add: h_def mkfs_header_def Let_def t ic)
  show "unat (block_bitmap_blocks h) = ceil_div n (8 * bs)"
    using n t b0 by (simp add: h_def mkfs_header_def Let_def r c8 bs_def ceil_div_div)
  show mbs: "unat (megablock_bitmap_size h) = ceil_div (ceil_div n (8 * bs)) 8"
    using n le mb by (simp add: h_def mkfs_header_def Let_def c8)
  show "unat (megablock_bitmap_blocks h) = ceil_div (unat (megablock_bitmap_size h)) bs"
    by (simp add: h_def mkfs_header_def Let_def r bs_def)
  show "unat (inode_bitmap_blocks h) = ceil_div (ceil_div (n div 4) 8) bs"
    using n ic by (simp add: h_def mkfs_header_def Let_def r c8 bs_def)
  show "unat (inode_table_blocks h) = ceil_div (n div 4 * 128) bs"
    by (simp add: h_def mkfs_header_def Let_def r bs_def it)
qed

lemma mkfs_header_fields:
  "block_bitmap_start (mkfs_header sz o') = ucast (final_offset o' + 1)"
  "megablock_bitmap_start (mkfs_header sz o') = block_bitmap_start (mkfs_header sz o') + block_bitmap_blocks (mkfs_header sz o')"
  "inode_bitmap_start (mkfs_header sz o') = megablock_bitmap_start (mkfs_header sz o') + megablock_bitmap_blocks (mkfs_header sz o')"
  "inode_table_start (mkfs_header sz o') = inode_bitmap_start (mkfs_header sz o') + inode_bitmap_blocks (mkfs_header sz o')"
  "data_start (mkfs_header sz o') = inode_table_start (mkfs_header sz o') + inode_table_blocks (mkfs_header sz o')"
  "free_blocks (mkfs_header sz o') = total_blocks (mkfs_header sz o') - data_start (mkfs_header sz o')"
  "magic (mkfs_header sz o') = BSFS_MAGIC" "version (mkfs_header sz o') = BSFS_VERSION"
  "block_size (mkfs_header sz o') = ucast (final_blocksize o')"
  by (simp_all add: mkfs_header_def Let_def)

lemma mkfs_layout:
  assumes ok: "options_ok o'" and n: "n < 2 ^ 27" and sz: "unat imagesize = n * unat (final_blocksize o')"
  shows "layout_ok (unat (final_offset o')) (mkfs_header imagesize o')"
proof -
  let ?h = "mkfs_header imagesize o'" and ?bs = "unat (final_blocksize o')"
  note s = mkfs_header_sizes [OF assms]
  have b: "1024 \<le> ?bs" "unat (final_offset o') \<le> 1024" using ok by (simp_all add: options_ok_def)
  then have b0: "0 < ?bs" "0 < 8 * ?bs" by simp_all
  have small: "ceil_div x ?bs \<le> x" "ceil_div x (8 * ?bs) \<le> x" "ceil_div x 8 \<le> x" for x
    using b0 by (simp_all add: ceil_div_le_self)
  have bb: "unat (block_bitmap_blocks ?h) < 2 ^ 27" using s(4) small(2) [of n] n by linarith
  have mb: "unat (megablock_bitmap_blocks ?h) < 2 ^ 27"
    using s(6) [unfolded s(5)] small(1) [of "ceil_div (ceil_div n (8 * ?bs)) 8"] small(3) [of "ceil_div n (8 * ?bs)"] small(2) [of n] n
    by linarith
  have ib: "unat (inode_bitmap_blocks ?h) < 2 ^ 27"
    using s(7) small(1) [of "ceil_div (n div 4) 8"] small(3) [of "n div 4"] n by simp
  have it: "unat (inode_table_blocks ?h) \<le> 2 ^ 27"
  proof -
    have "ceil_div (n div 4 * 128) ?bs \<le> n div 4 * 128 div ?bs + 1" by (rule ceil_div_le [OF b0(1)])
    also have "n div 4 * 128 div ?bs \<le> n div 4 * 128 div 1024" using b by (intro div_le_mono2) simp_all
    finally show ?thesis using s(8) n by simp
  qed
  have o0: "unat (final_offset o' + 1) = unat (final_offset o') + 1" using b by (subst unat_add_lem [THEN iffD1]) simp_all
  have st: "unat (block_bitmap_start ?h) = unat (final_offset o') + 1"
    using b o0 by (simp add: mkfs_header_fields unat_ucast_small)
  have 1: "unat (megablock_bitmap_start ?h) = unat (block_bitmap_start ?h) + unat (block_bitmap_blocks ?h)"
    using bb st b unfolding mkfs_header_fields(2) by (intro unat_add_small) simp
  have 2: "unat (inode_bitmap_start ?h) = unat (megablock_bitmap_start ?h) + unat (megablock_bitmap_blocks ?h)"
    using bb mb st b 1 unfolding mkfs_header_fields(3) by (intro unat_add_small) simp
  have 3: "unat (inode_table_start ?h) = unat (inode_bitmap_start ?h) + unat (inode_bitmap_blocks ?h)"
    using bb mb ib st b 1 2 unfolding mkfs_header_fields(4) by (intro unat_add_small) simp
  have 4: "unat (data_start ?h) = unat (inode_table_start ?h) + unat (inode_table_blocks ?h)"
    using bb mb ib it st b 1 2 3 unfolding mkfs_header_fields(5) by (intro unat_add_small) simp
  have "n div 4 \<le> 8 * (ceil_div (ceil_div (n div 4) 8) ?bs * ?bs)"
    using ceil_div_covers [of 8 "n div 4"] ceil_div_covers [OF b0(1), of "ceil_div (n div 4) 8"] by linarith
  then show ?thesis
    unfolding layout_ok_def Let_def s(1-3)
    using b0 st 1 2 3 4 s(4-8) ceil_div_covers [OF b0(1)] by (simp add: mult.commute)
qed

section \<open>The written image\<close>

lemma fwrite_repeat:
  assumes "fpos f + n * length z \<le> length (contents f)"
  shows "contents ((host_fwrite z ^^ n) f) = overwrite (fpos f) (concat (replicate n z)) (contents f)
    \<and> fpos ((host_fwrite z ^^ n) f) = fpos f + n * length z"
  using assms
proof (induction n)
  case 0
  then show ?case by (simp add: overwrite_def)
next
  case (Suc n)
  let ?g = "(host_fwrite z ^^ n) f"
  have ih: "contents ?g = overwrite (fpos f) (concat (replicate n z)) (contents f)" "fpos ?g = fpos f + n * length z"
    using Suc by simp_all
  have len: "length (concat (replicate n z)) = n * length z" by (simp add: length_concat sum_list_replicate)
  have "length (contents ?g) = length (contents f)" using Suc(2) len unfolding ih by (subst overwrite_inside(1)) simp_all
  then have fit: "fpos ?g + length z \<le> length (contents ?g)" using Suc(2) ih by simp
  have "overwrite (fpos f + n * length z) z (overwrite (fpos f) (concat (replicate n z)) (contents f))
      = overwrite (fpos f) (concat (replicate n z) @ z) (contents f)"
    using overwrite_append [of "fpos f" "concat (replicate n z)" z "contents f"] Suc(2) len by simp
  moreover have "concat (replicate n z) @ z = concat (replicate (Suc n) z)"
    unfolding replicate_append_same [of n z, symmetric] replicate_Suc [of n z] by (simp add: replicate_append_same [symmetric])
  ultimately show ?case using host_fwrite_run [OF fit] ih by simp
qed

lemma concat_replicate_const: "concat (replicate n (replicate m x)) = replicate (n * m) x"
  by (induction n) (simp_all add: replicate_add)

lemma sint_unat_small:
  fixes w :: u64
  assumes "unat w < 2 ^ 63"
  shows "sint w = int (unat w)"
proof -
  define n where "n = unat w"
  have "int n < int (2 ^ 63)" using assms unfolding n_def [symmetric] by (simp only: of_nat_less_iff)
  then have "signed_take_bit 63 (int n) = int n" by (intro signed_take_bit_int_eq_self) simp_all
  moreover have "uint w = int n" unfolding n_def by (simp only: uint_nat)
  ultimately show ?thesis unfolding n_def [symmetric] by (simp add: sint_uint)
qed

lemma unat_sint_offset:
  fixes bs :: u64
  assumes "unat bs * k < 2 ^ 63" "k < 2 ^ 64"
  shows "sint (bs * of_nat k) = int (unat bs * k)"
proof -
  have "unat (of_nat k :: u64) = k" using assms(2) by (simp add: unat_of_nat)
  then have u: "unat (bs * of_nat k) = unat bs * k" using assms(1) by (subst unat_mult_lem [THEN iffD1]) simp_all
  then show ?thesis using sint_unat_small [of "bs * of_nat k"] assms(1) by (simp only:)
qed

lemma write_zeros_bytes:
  assumes fit: "(unat start + unat blocks) * unat bs \<le> length (contents f)" and small: "length (contents f) < 2 ^ 63"
  shows "length (contents (write_zeros bs start blocks f)) = length (contents f)"
    and "a < length (contents f) \<Longrightarrow> contents (write_zeros bs start blocks f) ! a
      = (if unat start * unat bs \<le> a \<and> a < (unat start + unat blocks) * unat bs then 0 else contents f ! a)"
proof -
  let ?p = "unat start * unat bs" and ?n = "unat blocks * unat bs"
  have le: "?p + ?n \<le> length (contents f)" using fit by (simp add: algebra_simps)
  have "sint (bs * of_nat (unat start)) = int (unat bs * unat start)"
    using le small unat_lt2p [of start] by (intro unat_sint_offset) (simp_all add: mult.commute)
  moreover have "of_nat (unat start) = (ucast start :: u64)" by simp
  ultimately have "sint (bs * ucast start) = int ?p" by (simp only: mult.commute [of "unat start"])
  then have seek: "fseeko_set (sint (bs * ucast start)) f = f\<lparr>fpos := ?p\<rparr>"
    by (simp only: fseeko_set_def of_nat_less_0_iff if_False nat_int)
  have c: "contents (write_zeros bs start blocks f) = overwrite ?p (replicate ?n 0) (contents f)"
    unfolding write_zeros_def seek
    using fwrite_repeat [of "f\<lparr>fpos := ?p\<rparr>" "unat blocks" "replicate (unat bs) 0"] le
    by (simp add: concat_replicate_const)
  show "length (contents (write_zeros bs start blocks f)) = length (contents f)"
    using le by (simp add: c overwrite_inside)
  show "a < length (contents f) \<Longrightarrow> contents (write_zeros bs start blocks f) ! a
      = (if ?p \<le> a \<and> a < (unat start + unat blocks) * unat bs then 0 else contents f ! a)"
    using le by (auto simp: c overwrite_inside algebra_simps)
qed

lemma mkfs_write_bytes:
  assumes ok: "options_ok o'" and lay: "layout_ok (unat (final_offset o')) h" and bs: "unat (block_size h) = unat (final_blocksize o')"
    and hl: "length (header_bytes h) = 512" and fit: "unat (data_start h) * unat (final_blocksize o') \<le> length (contents f)"
    and small: "length (contents f) < 2 ^ 63"
  defines "c \<equiv> contents (mkfs_write o' h f)" and "p \<equiv> unat (final_offset o') * unat (final_blocksize o')"
  shows "length c = length (contents f)" and "take 512 (drop p c) = header_bytes h"
    and "a < length (contents f) \<Longrightarrow> a < p \<or> unat (data_start h) * unat (final_blocksize o') \<le> a \<Longrightarrow> c ! a = contents f ! a"
    and "p + 512 \<le> a \<Longrightarrow> a < unat (data_start h) * unat (final_blocksize o') \<Longrightarrow> c ! a = 0"
proof -
  let ?b = "unat (final_blocksize o')" and ?L = "length (contents f)"
  note l = lay [unfolded layout_ok_def Let_def]
  have b: "1024 \<le> ?b" "?b \<le> 16384" "unat (final_offset o') \<le> 1024" using ok by (simp_all add: options_ok_def)
  define B M I T D where "B = unat (block_bitmap_start h)" and "M = unat (megablock_bitmap_start h)"
    and "I = unat (inode_bitmap_start h)" and "T = unat (inode_table_start h)" and "D = unat (data_start h)"
  have B: "B = unat (final_offset o') + 1" using l by (simp add: B_def)
  have M: "M = B + unat (block_bitmap_blocks h)" and I: "I = M + unat (megablock_bitmap_blocks h)"
    and T: "T = I + unat (inode_bitmap_blocks h)" and D: "D = T + unat (inode_table_blocks h)"
    using l by (simp_all add: B_def M_def I_def T_def D_def)
  have mono: "B * ?b \<le> M * ?b" "M * ?b \<le> I * ?b" "I * ?b \<le> T * ?b" "T * ?b \<le> D * ?b" "D * ?b \<le> ?L"
    using M I T D fit by (simp_all add: D_def)
  have pB: "p + ?b = B * ?b" by (simp add: p_def B)
  have pL: "p < 2 ^ 63" and pM: "p + ?b \<le> ?L" using pB mono small by linarith+
  have "sint (final_blocksize o' * of_nat (unat (final_offset o'))) = int (?b * unat (final_offset o'))"
    using pL unat_lt2p [of "final_offset o'"] by (intro unat_sint_offset) (simp_all add: p_def mult.commute)
  then have "sint (final_blocksize o' * final_offset o') = int p" by (simp add: p_def mult.commute)
  then have seek: "fseeko_set (sint (final_blocksize o' * final_offset o')) f = f\<lparr>fpos := p\<rparr>"
    by (simp only: fseeko_set_def of_nat_less_0_iff if_False nat_int)
  have pad: "unat (final_blocksize o' - 512) = ?b - 512" using b by (simp add: unat_sub word_le_nat_alt)
  define g where "g = host_fwrite (replicate (?b - 512) 0) (host_fwrite (header_bytes h) (f\<lparr>fpos := p\<rparr>))"
  have g: "contents g = overwrite p (header_bytes h @ replicate (?b - 512) 0) (contents f)"
  proof -
    have 1: "fpos (f\<lparr>fpos := p\<rparr>) + length (header_bytes h) \<le> length (contents (f\<lparr>fpos := p\<rparr>))"
      using pM b hl by simp
    then have 2: "fpos (host_fwrite (header_bytes h) (f\<lparr>fpos := p\<rparr>)) + length (replicate (?b - 512) (0 :: u8))
        \<le> length (contents (host_fwrite (header_bytes h) (f\<lparr>fpos := p\<rparr>)))"
      using pM b hl host_fwrite_run [OF 1] by (simp add: overwrite_inside)
    show ?thesis
      unfolding g_def using host_fwrite_run [OF 1] host_fwrite_run [OF 2] overwrite_append [of p "header_bytes h"] pM b hl by simp
  qed
  have gl: "length (contents g) = ?L" using pM b hl by (simp add: g overwrite_inside)
  define g1 where "g1 = write_zeros (final_blocksize o') (block_bitmap_start h) (block_bitmap_blocks h) g"
  define g2 where "g2 = write_zeros (final_blocksize o') (megablock_bitmap_start h) (megablock_bitmap_blocks h) g1"
  define g3 where "g3 = write_zeros (final_blocksize o') (inode_bitmap_start h) (inode_bitmap_blocks h) g2"
  define g4 where "g4 = write_zeros (final_blocksize o') (inode_table_start h) (inode_table_blocks h) g3"
  have c: "c = contents g4"
    by (simp add: c_def mkfs_write_def Let_def seek pad g4_def g3_def g2_def g1_def g_def)
  have zeros: "length (contents (write_zeros (final_blocksize o') st n x)) = ?L"
    "a < ?L \<Longrightarrow> contents (write_zeros (final_blocksize o') st n x) ! a = (if unat st * ?b \<le> a \<and> a < e * ?b then 0 else contents x ! a)"
    if "length (contents x) = ?L" "e = unat st + unat n" "e * ?b \<le> ?L" for st n e x a
    using write_zeros_bytes [of st n "final_blocksize o'" x] that small by simp_all
  have e: "M * ?b \<le> ?L" "I * ?b \<le> ?L" "T * ?b \<le> ?L" using mono by linarith+
  note 1 = zeros [OF gl M [unfolded B_def] e(1), folded g1_def B_def]
  note 2 = zeros [OF 1(1) I [unfolded M_def] e(2), folded g2_def M_def]
  note 3 = zeros [OF 2(1) T [unfolded I_def] e(3), folded g3_def I_def]
  note 4 = zeros [OF 3(1) D [unfolded T_def] mono(5), folded g4_def T_def]
  have all: "c ! a = (if B * ?b \<le> a \<and> a < D * ?b then 0 else contents g ! a)" if "a < ?L" for a
  proof -
    have "b0 \<le> b1 \<Longrightarrow> b1 \<le> b2 \<Longrightarrow> b2 \<le> b3 \<Longrightarrow> b3 \<le> b4 \<Longrightarrow>
      (if b3 \<le> a \<and> a < b4 then 0 else if b2 \<le> a \<and> a < b3 then 0 else if b1 \<le> a \<and> a < b2 then 0
       else if b0 \<le> a \<and> a < b1 then 0 else v) = (if b0 \<le> a \<and> a < b4 then 0 else v)" for b0 b1 b2 b3 b4 and v :: u8
      by auto
    then show ?thesis unfolding c 4(2) [OF that] 3(2) [OF that] 2(2) [OF that] 1(2) [OF that] using mono(1-4) by blast
  qed
  have ga: "contents g ! a = (if p \<le> a \<and> a < B * ?b then (header_bytes h @ replicate (?b - 512) 0) ! (a - p) else contents f ! a)"
    if "a < ?L" for a
    using that pM pB b hl by (simp add: g overwrite_inside)
  have BD: "B * ?b \<le> D * ?b" using mono by linarith
  show "length c = ?L" unfolding c by (rule 4(1))
  show "take 512 (drop p c) = header_bytes h"
  proof (rule nth_equalityI)
    show "length (take 512 (drop p c)) = length (header_bytes h)" using 4(1) hl pM b by (simp add: c)
    fix i assume "i < length (take 512 (drop p c))"
    then have i: "i < 512" "p + i < ?L" using 4(1) by (auto simp: c)
    then show "take 512 (drop p c) ! i = header_bytes h ! i"
      using all [OF i(2)] ga [OF i(2)] pB b hl 4(1) by (simp add: c nth_append)
  qed
  show "c ! a = contents f ! a" if "a < ?L" "a < p \<or> unat (data_start h) * ?b \<le> a"
  proof -
    have "\<not> (B * ?b \<le> a \<and> a < D * ?b)" "\<not> (p \<le> a \<and> a < B * ?b)" using that(2) pB BD unfolding D_def [symmetric] by linarith+
    then show ?thesis using all [OF that(1)] ga [OF that(1)] by metis
  qed
  show "c ! a = 0" if "p + 512 \<le> a" "a < unat (data_start h) * ?b"
  proof -
    have a: "a < ?L" using that mono by (simp add: D_def)
    show ?thesis using all [OF a] ga [OF a] that pB hl b by (auto simp: D_def nth_append)
  qed
qed

lemma mkfs_header_wf: "length (final_label o') < 32 \<Longrightarrow> header_wf (mkfs_header sz o')"
  by (simp add: header_wf_def mkfs_header_def Let_def)


definition blank_image :: hfile where
  "blank_image = \<lparr>contents = replicate 16384 7, fpos = 0\<rparr>"

definition blank_options :: mkfs_options where
  "blank_options = \<lparr>final_blocksize = 1024, final_offset = 1, final_label = ''disk''\<rparr>"

lemma blank_parse:
  "mkfs_parse [''--offset'', ''1'', ''--block-size'', ''1024'', ''--label'', ''disk'']
     \<lparr>final_blocksize = 4096, final_offset = 0, final_label = ''mkfs.bsfs''\<rparr> = Inr blank_options"
  by code_simp

lemma blank_data_start: "data_start (mkfs_header 16384 blank_options) = 6"
  by (simp add: mkfs_header_def Let_def div_ceil_def blank_options_def)


end
