(* ===== verification/Populate.thy ===== *)
theory Populate
  imports Mkfs Crc32
begin

text \<open>
  bsfs-populate, tools/bsfs/bsfs-populate.c: it copies a directory tree of the host into an image made by
  mkfs.bsfs. The tree is what \<^verbatim>\<open>opendir\<close>, \<^verbatim>\<open>readdir\<close> and \<^verbatim>\<open>fopen\<close> give: a directory or a file that cannot
  be opened is \<open>None\<close>, and the entries come in the order of \<^verbatim>\<open>readdir\<close>. \<open>now\<close> gives the time read while the
  directory with an inode is filled. A panic does nothing, so the code after it runs on a null or
  closed handle: a \<open>Fault\<close>. Paths are shorter than \<^verbatim>\<open>PATH_MAX\<close>.
\<close>

section \<open>Command line\<close>

record tool_options =
  tool_blocksize :: u64
  tool_offset :: u64
  final_force :: bool

fun populate_parse :: "string list \<Rightarrow> tool_options \<Rightarrow> usage_error + tool_options" where
  "populate_parse [] o' = Inr o'"
| "populate_parse (opt # args) o' =
     (if opt = ''--offset'' then
        (case args of
           [] \<Rightarrow> Inl Expected_number
         | arg # args' \<Rightarrow> (case number_in 0 1024 arg of
             Inl e \<Rightarrow> Inl e
           | Inr value \<Rightarrow> populate_parse args' (o'\<lparr>tool_offset := of_int value\<rparr>)))
      else if opt = ''--block-size'' then
        (case args of
           [] \<Rightarrow> Inl Expected_number
         | arg # args' \<Rightarrow> (case number_in 1024 16384 arg of
             Inl e \<Rightarrow> Inl e
           | Inr value \<Rightarrow> populate_parse args' (o'\<lparr>tool_blocksize := of_int value\<rparr>)))
      else if opt = ''--force'' then
        (if final_force o' then Inl Duplicate_force
         else populate_parse args (o'\<lparr>final_force := True\<rparr>))
      else populate_parse args o')"

section \<open>Writing into the image\<close>

definition seek_write :: "int \<Rightarrow> u8 list \<Rightarrow> image \<Rightarrow> image" where
  "seek_write off bs s = s\<lparr>image_file := host_fwrite bs (fseeko_set off (image_file s))\<rparr>"

definition update_inode :: "nat \<Rightarrow> (BsfsInode \<Rightarrow> BsfsInode) \<Rightarrow> image \<Rightarrow> image" where
  "update_inode i f s = s\<lparr>inode_table := (inode_table s)[i := f (inode_table s ! i)]\<rparr>"

text \<open>\<^verbatim>\<open>snprintf\<close> into the zeroed array of the entry.\<close>

definition dirent_name :: "u8 list \<Rightarrow> u8 list" where
  "dirent_name name = (let n = take (BSFS_MAX_DIRENTNAME - 1) name in n @ replicate (BSFS_MAX_DIRENTNAME - length n) 0)"

section \<open>Copying a file\<close>

text \<open>The variables of the loop: the image, the number of blocks copied, the first indirect table and its block,
  and the running checksum.\<close>

record copy_state =
  cimage :: image
  current_block :: u32
  l1indirect_table_tmp :: "u32 list option"
  l1indirect_table_idx :: u32
  copy_crc :: u32

definition populate_block :: "nat \<Rightarrow> u8 list \<Rightarrow> copy_state \<Rightarrow> copy_state kres" where
  "populate_block ino bytes st =
     andthen (bsfs_alloc_block (cimage st)) (\<lambda>(block_idx, s).
       let bs = block_size (hdr s);
           l1indirect_start = 10;
           l2indirect_start = l1indirect_start + bs div 4;
           cur = current_block st;
           counted = (\<lambda>s. update_inode ino (\<lambda>i. i\<lparr>iblocks := iblocks i + 1, isize := isize i + of_nat (length bytes)\<rparr>)
             (seek_write (uint (bs * block_idx)) bytes s));
           crc = populate_crc32_update (copy_crc st) bytes
       in if cur < l1indirect_start then
            Inr (st\<lparr>cimage := counted (update_inode ino (\<lambda>i. i\<lparr>blocks_direct := (blocks_direct i)[unat cur := block_idx]\<rparr>) s),
                    current_block := cur + 1, copy_crc := crc\<rparr>)
          else if cur < l2indirect_start then
            (let l1slot = cur - l1indirect_start in
             andthen (if l1slot = 0
                      then andthen (bsfs_alloc_block s) (\<lambda>(table_idx, s).
                        Inr (update_inode ino (\<lambda>i. i\<lparr>blocks_l1indirect := table_idx\<rparr>) s,
                             replicate (unat (bs div 4)) 0, table_idx))
                      else case l1indirect_table_tmp st of
                          None \<Rightarrow> Inl Fault
                        | Some tab \<Rightarrow> Inr (s, tab, l1indirect_table_idx st)) (\<lambda>(s, tab, table_idx).
             Inr (st\<lparr>cimage := counted s, current_block := cur + 1,
                     l1indirect_table_tmp := Some (tab[unat l1slot := block_idx]),
                     l1indirect_table_idx := table_idx, copy_crc := crc\<rparr>)))
          else Inl Fault)"

function populate_blocks :: "nat \<Rightarrow> u8 list \<Rightarrow> copy_state \<Rightarrow> copy_state kres" where
  "populate_blocks ino bytes st =
     (let n = unat (block_size (hdr (cimage st))) in
      if take n bytes = [] then Inr st
      else andthen (populate_block ino (take n bytes) st) (populate_blocks ino (drop n bytes)))"
  by pat_completeness auto
termination
  by (relation "measure (\<lambda>(ino, bytes, st). length bytes)") auto

declare populate_blocks.simps [simp del]

definition file_inode :: "u64 \<Rightarrow> BsfsInode \<Rightarrow> BsfsInode" where
  "file_inode time i = i\<lparr>itype := BSFS_INODE_TYPE_FILE, permissions := BSFS_INODE_PERM_READ OR BSFS_INODE_PERM_WRITE,
     uid := 0, gid := 0, isize := 0, created := time, modified := time, accessed := time, link_count := 0\<rparr>"

definition populate_contents :: "u64 \<Rightarrow> nat \<Rightarrow> u8 list \<Rightarrow> image \<Rightarrow> image kres" where
  "populate_contents time ino bytes s =
     (if ino \<ge> length (inode_table s) \<or> block_size (hdr s) = 0 then Inl Fault
      else
        andthen (populate_blocks ino bytes \<lparr>cimage = update_inode ino (file_inode time) s, current_block = 0,
            l1indirect_table_tmp = None, l1indirect_table_idx = 0, copy_crc = 0xFFFFFFFF\<rparr>) (\<lambda>st.
          let s = cimage st;
              s = (case l1indirect_table_tmp st of
                     None \<Rightarrow> s
                   | Some tab \<Rightarrow> seek_write (uint (block_size (hdr s) * l1indirect_table_idx st))
                       (concat (map (le_bytes 4) tab)) s)
          in Inr (update_inode ino (\<lambda>i. i\<lparr>checksum := populate_crc32_finalize (copy_crc st)\<rparr>) s)))"

section \<open>Directories\<close>

datatype host_entry =
    HostDir "u8 list" "host_entry list option"
  | HostFile "u8 list" "u8 list option"
  | HostUnknown "u8 list"
  | HostOther "u8 list"

fun host_name :: "host_entry \<Rightarrow> u8 list" where
  "host_name (HostDir n es) = n"
| "host_name (HostFile n bs) = n"
| "host_name (HostUnknown n) = n"
| "host_name (HostOther n) = n"

definition dot_name :: "u8 list \<Rightarrow> bool" where
  "dot_name n \<longleftrightarrow> n = [0x2E] \<or> n = [0x2E, 0x2E]"

definition directory_inode :: "u64 \<Rightarrow> BsfsInode \<Rightarrow> BsfsInode" where
  "directory_inode time i = i\<lparr>itype := BSFS_INODE_TYPE_DIRECTORY, permissions := BSFS_INODE_PERM_READ OR BSFS_INODE_PERM_WRITE,
     uid := 0, gid := 0, iblocks := 0, isize := 0, created := time, modified := time, accessed := time, link_count := 0\<rparr>"

definition grow_dir :: "nat \<Rightarrow> image \<Rightarrow> image" where
  "grow_dir dir s = update_inode dir (\<lambda>i. i\<lparr>isize := isize i + 128\<rparr>) s"

text \<open>One of the two entries a directory starts with.\<close>

definition populate_link :: "nat \<Rightarrow> u8 list \<Rightarrow> u32 \<Rightarrow> image \<Rightarrow> image kres" where
  "populate_link dir name target s =
     andthen (bsfs_alloc_dirent dir s) (\<lambda>(off, s).
       Inr (grow_dir dir (seek_write (sint off) (dirent_bytes \<lparr>dinode = target, dname = dirent_name name\<rparr>) s)))"

text \<open>The entry for a regular file is written after its contents.\<close>

definition populate_file :: "u64 \<Rightarrow> nat \<Rightarrow> u8 list \<Rightarrow> u8 list option \<Rightarrow> image \<Rightarrow> image kres" where
  "populate_file time dir name data s =
     andthen (bsfs_alloc_dirent dir s) (\<lambda>(off, s).
     andthen (bsfs_alloc_inode s) (\<lambda>(ino, s).
       let s = grow_dir dir s in
       case data of
         None \<Rightarrow> Inl Fault
       | Some bytes \<Rightarrow> andthen (populate_contents time (unat ino) bytes s) (\<lambda>s.
           Inr (seek_write (sint off) (dirent_bytes \<lparr>dinode = ino, dname = dirent_name name\<rparr>) s))))"

text \<open>The entry for a subdirectory is written before it is filled.\<close>

definition populate_subdir :: "nat \<Rightarrow> u8 list \<Rightarrow> image \<Rightarrow> (u32 \<times> image) kres" where
  "populate_subdir dir name s =
     andthen (bsfs_alloc_dirent dir s) (\<lambda>(off, s).
     andthen (bsfs_alloc_inode s) (\<lambda>(ino, s).
       Inr (ino, seek_write (sint off) (dirent_bytes \<lparr>dinode = ino, dname = dirent_name name\<rparr>) (grow_dir dir s))))"

definition populate_dir_start :: "u64 \<Rightarrow> nat \<Rightarrow> u32 \<Rightarrow> image \<Rightarrow> image kres" where
  "populate_dir_start time dir parent s =
     (if dir \<ge> length (inode_table s) then Inl Fault
      else
        andthen (populate_link dir [0x2E] (of_nat dir) (update_inode dir (directory_inode time) s))
          (populate_link dir [0x2E, 0x2E] parent))"

fun populate_entry :: "(u32 \<Rightarrow> u64) \<Rightarrow> u32 \<Rightarrow> host_entry \<Rightarrow> image \<Rightarrow> image kres"
  and populate_entries :: "(u32 \<Rightarrow> u64) \<Rightarrow> u32 \<Rightarrow> host_entry list \<Rightarrow> image \<Rightarrow> image kres" where
  "populate_entry now dir (HostDir name es) s =
     (if dot_name name then Inr s
      else andthen (populate_subdir (unat dir) name s) (\<lambda>(ino, s).
        case es of
          None \<Rightarrow> Inl Fault
        | Some es \<Rightarrow> andthen (populate_dir_start (now ino) (unat ino) dir s) (populate_entries now ino es)))"
| "populate_entry now dir (HostFile name data) s =
     (if dot_name name then Inr s else populate_file (now dir) (unat dir) name data s)"
| "populate_entry now dir (HostUnknown name) s = (if dot_name name then Inr s else Inl Fault)"
| "populate_entry now dir (HostOther name) s = (if dot_name name then Inr s else Inl Fault)"
| "populate_entries now dir [] s = Inr s"
| "populate_entries now dir (e # es) s = andthen (populate_entry now dir e s) (populate_entries now dir es)"

definition bsfs_populate_dir :: "(u32 \<Rightarrow> u64) \<Rightarrow> host_entry list option \<Rightarrow> u32 \<Rightarrow> u32 \<Rightarrow> image \<Rightarrow> image kres" where
  "bsfs_populate_dir now es dir parent s =
     (case es of
        None \<Rightarrow> Inl Fault
      | Some es \<Rightarrow> andthen (populate_dir_start (now dir) (unat dir) parent s) (populate_entries now dir es))"

lemma populate_entry_subdir:
  "populate_entry now dir (HostDir name es) s =
     (if dot_name name then Inr s
      else andthen (populate_subdir (unat dir) name s) (\<lambda>(ino, s). bsfs_populate_dir now es ino dir s))"
  by (simp add: bsfs_populate_dir_def)

section \<open>The tool\<close>

text \<open>Reserving the blocks of the metadata, and the megablocks they fill.\<close>

definition reserve_metadata :: "u32 \<Rightarrow> u8 list \<Rightarrow> u8 list option" where
  "reserve_metadata n bm = fold (\<lambda>i r. Option.bind r (\<lambda>bm. bsfs_bitmap_set bm (of_nat i))) [0..<unat n] (Some bm)"

fun reserve_megablocks :: "nat \<Rightarrow> u8 list \<Rightarrow> nat list \<Rightarrow> u8 list \<Rightarrow> u8 list option" where
  "reserve_megablocks bs bm [] mbm = Some mbm"
| "reserve_megablocks bs bm (mb # mbs) mbm =
     (case slice_full bs (drop (mb * bs) bm) of
        None \<Rightarrow> None
      | Some full \<Rightarrow>
          (case (if full then bsfs_bitmap_set mbm (of_nat mb) else Some mbm) of
             None \<Rightarrow> None
           | Some mbm \<Rightarrow> reserve_megablocks bs bm mbs mbm))"

text \<open>The write-back of a buffer: as many bytes as its region in the image has, taken from the buffer and
  whatever memory follows it.\<close>

definition write_region :: "u32 \<Rightarrow> u32 \<Rightarrow> u8 list \<Rightarrow> image \<Rightarrow> image kres" where
  "write_region start blocks mem s =
     (let bs = block_size (hdr s); n = unat (blocks * bs) in
      if n > length mem then Inl Fault else Inr (seek_write (uint (start * bs)) (take n mem) s))"

definition table_bytes :: "BsfsInode list \<Rightarrow> u8 list" where
  "table_bytes tab = concat (map inode_bytes tab)"

definition empty_inode :: BsfsInode where
  "empty_inode = \<lparr>itype = 0, permissions = 0, uid = 0, gid = 0, isize = 0, iblocks = 0, created = 0, modified = 0,
     accessed = 0, link_count = 0, blocks_direct = replicate 10 0, blocks_l1indirect = 0, blocks_l2indirect = 0,
     blocks_l3indirect = 0, checksum = 0, reserved = replicate 21 0\<rparr>"

text \<open>The state the tool starts with: its header with the counts, empty tables, and the metadata reserved.
  \<open>junk\<close> is the memory after the megablock bitmap, which is smaller than a word.\<close>

definition populate_start :: "tool_options \<Rightarrow> nat \<Rightarrow> u8 list \<Rightarrow> BsfsHeader \<Rightarrow> hfile \<Rightarrow> image kres" where
  "populate_start o' image_file_size junk header f =
     (let bs = tool_blocksize o';
          total_megablocks = ucast (div_ceil (ucast (total_blocks header)) (bs * 8)) :: u32;
          total_block_count = of_nat image_file_size div bs;
          total_inode_count = total_block_count div 4;
          reserved_blocks = ucast (tool_offset o' + 1) :: u32;
          metadata_blocks = reserved_blocks + block_bitmap_blocks header + megablock_bitmap_blocks header
            + inode_bitmap_blocks header + inode_table_blocks header;
          header = header\<lparr>free_blocks := ucast (total_block_count - ucast metadata_blocks),
            free_inodes := ucast total_inode_count\<rparr>
      in andthen (checked (reserve_metadata metadata_blocks
           (replicate (unat (ucast (block_bitmap_blocks header) * bs)) 0))) (\<lambda>bm.
         andthen (checked (reserve_megablocks (unat bs) bm [0..<unat total_megablocks]
           (replicate (unat (megablock_bitmap_size header)) 0 @ junk))) (\<lambda>mbm.
         Inr \<lparr>image_file = f, hdr = header, block_bitmap = bm, megablock_bitmap = mbm,
           inode_bitmap = replicate (unat (ucast (inode_bitmap_blocks header) * bs)) 0,
           inode_table = replicate (unat (inode_count header)) empty_inode\<rparr>)))"

definition populate_finish :: "u32 \<Rightarrow> u8 list \<Rightarrow> image \<Rightarrow> hfile kres" where
  "populate_finish bsfs_header_idx junk s =
     (let header = hdr s in
      andthen (write_region (block_bitmap_start header) (block_bitmap_blocks header) (block_bitmap s) s) (\<lambda>s.
      andthen (write_region (megablock_bitmap_start header) (megablock_bitmap_blocks header) (megablock_bitmap s) s) (\<lambda>s.
      andthen (write_region (inode_bitmap_start header) (inode_bitmap_blocks header) (inode_bitmap s) s) (\<lambda>s.
      andthen (write_region (inode_table_start header) (inode_table_blocks header) (table_bytes (inode_table s) @ junk) s) (\<lambda>s.
      Inr (image_file (seek_write (uint bsfs_header_idx) (header_bytes header) s)))))))"

datatype populate_exit = Populate_usage usage_error | Populate_no_image | Populate_no_header | Populate_bad_magic
  | Populate_bad_version | Populate_bad_block_size | Populate_ok hfile

definition populate_image :: "(u32 \<Rightarrow> u64) \<Rightarrow> u8 list \<Rightarrow> u8 list \<Rightarrow> host_entry list option \<Rightarrow> tool_options \<Rightarrow> BsfsHeader \<Rightarrow> hfile \<Rightarrow> hfile kres" where
  "populate_image now junk1 junk2 tree o' header f =
     andthen (populate_start o' (length (contents f)) junk1 header f) (\<lambda>s.
     andthen (bsfs_alloc_inode s) (\<lambda>(sentinel_inode_idx, s).
     andthen (bsfs_alloc_inode s) (\<lambda>(root_inode_idx, s).
     andthen (bsfs_populate_dir now tree root_inode_idx root_inode_idx (s\<lparr>hdr := (hdr s)\<lparr>root_inode := root_inode_idx\<rparr>\<rparr>))
       (populate_finish (ucast (tool_offset o' * tool_blocksize o')) junk2))))"

definition populate_main :: "(u32 \<Rightarrow> u64) \<Rightarrow> u8 list \<Rightarrow> u8 list \<Rightarrow> host_entry list option \<Rightarrow> string list \<Rightarrow> hfile option \<Rightarrow> populate_exit kres" where
  "populate_main now junk1 junk2 tree args opened =
     (if length args < 2 then Inr (Populate_usage No_arguments)
      else case populate_parse (drop 2 args) \<lparr>tool_blocksize = 4096, tool_offset = 0, final_force = False\<rparr> of
        Inl e \<Rightarrow> Inr (Populate_usage e)
      | Inr o' \<Rightarrow> (case opened of
          None \<Rightarrow> Inr Populate_no_image
        | Some f \<Rightarrow>
            (let bsfs_header_idx = ucast (tool_offset o' * tool_blocksize o') :: u32;
                 (bytes, f) = host_fread 512 (fseeko_set (uint bsfs_header_idx) f);
                 header = header_of_bytes bytes
             in if length bytes < 512 then Inr Populate_no_header
                else if magic header \<noteq> BSFS_MAGIC then Inr Populate_bad_magic
                else if version header \<noteq> BSFS_VERSION \<and> \<not> final_force o' then Inr Populate_bad_version
                else if ucast (block_size header) \<noteq> tool_blocksize o' then Inr Populate_bad_block_size
                else andthen (populate_image now junk1 junk2 tree o' header f) (\<lambda>f. Inr (Populate_ok f)))))"

end
