(* ===== verification/Extract.thy ===== *)
theory Extract
  imports Populate
begin

text \<open>
  bsfs-extract, tools/bsfs/bsfs-extract.c: it copies the tree of an image back to the host. The result is what
  the tool creates on the host, in order, as the entries of a directory. Reading memory a short read did not
  fill, or past a buffer, is a \<open>Fault\<close>. The directories of a damaged image may form a cycle, so
  the depth of the recursion is bounded by fuel, and running out of it is \<open>Diverge\<close>. Creating a file or a directory on
  the host succeeds. The tool also reads the first block of the root directory into a buffer it does not
  use; this is left out.
\<close>

section \<open>Command line\<close>

fun extract_parse :: "string list \<Rightarrow> tool_options \<Rightarrow> usage_error + tool_options" where
  "extract_parse [] o' = Inr o'"
| "extract_parse (opt # args) o' =
     (if opt = ''--offset'' then
        (case args of
           [] \<Rightarrow> Inl Expected_number
         | arg # args' \<Rightarrow> (case number_in 0 1024 arg of
             Inl e \<Rightarrow> Inl e
           | Inr value \<Rightarrow> extract_parse args' (o'\<lparr>tool_offset := of_int value\<rparr>)))
      else if opt = ''--block-size'' then
        (case args of
           [] \<Rightarrow> Inl Expected_number
         | arg # args' \<Rightarrow> (case number_in 1024 16384 arg of
             Inl e \<Rightarrow> Inl e
           | Inr value \<Rightarrow> extract_parse args' (o'\<lparr>tool_blocksize := of_int value\<rparr>)))
      else if opt = ''--force'' then
        (if final_force o' then Inl Duplicate_force
         else extract_parse args (o'\<lparr>final_force := True\<rparr>))
      else extract_parse args o')"

section \<open>Files\<close>

text \<open>Every read of the image follows a seek.\<close>

definition read_image :: "u32 \<Rightarrow> nat \<Rightarrow> hfile \<Rightarrow> u8 list" where
  "read_image off n f = fst (host_fread n (fseeko_set (uint off) f))"

definition write_count :: "int \<Rightarrow> u32 \<Rightarrow> u32" where
  "write_count remaining bs = (if remaining < uint bs then of_int remaining else bs)"

text \<open>The direct blocks: what has been written, the bytes that remain, and whether the image ended.\<close>

fun extract_direct :: "hfile \<Rightarrow> u32 \<Rightarrow> u32 list \<Rightarrow> int \<Rightarrow> u8 list \<Rightarrow> (u8 list \<times> int \<times> bool) kres" where
  "extract_direct f bs [] remaining out = Inr (out, remaining, False)"
| "extract_direct f bs (b # blocks) remaining out =
     (if b = 0 then extract_direct f bs blocks remaining out
      else
        let data = read_image (bs * b) (unat bs) f in
        if length data < unat bs then Inr (out @ data, remaining, True)
        else if write_count remaining bs > bs then Inl Fault
        else extract_direct f bs blocks (remaining - uint bs) (out @ take (unat (write_count remaining bs)) data))"

text \<open>The blocks of the first indirect table, while bytes remain.\<close>

fun extract_indirect :: "hfile \<Rightarrow> u32 \<Rightarrow> u32 list \<Rightarrow> int \<Rightarrow> u8 list \<Rightarrow> u8 list kres" where
  "extract_indirect f bs [] remaining out = Inr out"
| "extract_indirect f bs (b # blocks) remaining out =
     (if remaining \<le> 0 then Inr out
      else if b = 0 then extract_indirect f bs blocks remaining out
      else
        let data = read_image (bs * b) (unat bs) f in
        if length data < unat bs then Inr (out @ data)
        else if write_count remaining bs > bs then Inl Fault
        else extract_indirect f bs blocks (remaining - uint bs) (out @ take (unat (write_count remaining bs)) data))"

definition bsfs_write_inode_to_file :: "hfile \<Rightarrow> BsfsHeader \<Rightarrow> BsfsInode \<Rightarrow> u8 list kres" where
  "bsfs_write_inode_to_file f header ino =
     (let bs = block_size header in
      andthen (extract_direct f bs (blocks_direct ino) (sint (isize ino)) []) (\<lambda>(out, remaining, file_end).
        if file_end then Inr out
        else if blocks_l1indirect ino \<noteq> 0 then
          (let n = unat (bs div 4); data = read_image (bs * blocks_l1indirect ino) (4 * n) f in
           if length data < 4 * n then Inl Fault
           else extract_indirect f bs (word_table n data) remaining out)
        else Inr out))"

section \<open>Directories\<close>

text \<open>The name of an entry runs to the first zero byte, past the entry when it has none.\<close>

definition dirent_string :: "u8 list \<Rightarrow> nat \<Rightarrow> u8 list kres" where
  "dirent_string data d =
     (let cs = drop (128 * d + 4) data in
      if 0 \<in> set cs then Inr (takeWhile (\<lambda>c. c \<noteq> 0) cs) else Inl Fault)"

fun extract_dirents :: "(BsfsInode \<Rightarrow> host_entry list kres) \<Rightarrow> hfile \<Rightarrow> BsfsHeader \<Rightarrow> BsfsInode list \<Rightarrow> u8 list \<Rightarrow> nat list \<Rightarrow> host_entry list kres" where
  "extract_dirents sub f header table data [] = Inr []"
| "extract_dirents sub f header table data (d # ds) =
     andthen (dirent_string data d) (\<lambda>name.
       let idx = unat (dinode (dirent_of_bytes (field (128 * d) 128 data))) in
       andthen
         (if idx = 0 \<or> dot_name name then Inr []
          else if idx \<ge> length table then Inl Fault
          else
            let subinode = table ! idx in
            if itype subinode = BSFS_INODE_TYPE_FREE then Inr []
            else if itype subinode = BSFS_INODE_TYPE_FILE then
              andthen (bsfs_write_inode_to_file f header subinode) (\<lambda>bytes. Inr [HostFile name (Some bytes)])
            else if itype subinode = BSFS_INODE_TYPE_DIRECTORY then
              andthen (sub subinode) (\<lambda>es. Inr [HostDir name (Some es)])
            else Inr []) (\<lambda>es.
       andthen (extract_dirents sub f header table data ds) (\<lambda>rest. Inr (es @ rest))))"

fun extract_blocks :: "(BsfsInode \<Rightarrow> host_entry list kres) \<Rightarrow> hfile \<Rightarrow> BsfsHeader \<Rightarrow> BsfsInode list \<Rightarrow> u32 list \<Rightarrow> host_entry list kres" where
  "extract_blocks sub f header table [] = Inr []"
| "extract_blocks sub f header table (b # blocks) =
     (if b = 0 then extract_blocks sub f header table blocks
      else
        let bs = block_size header; n = unat (bs div 128); data = read_image (bs * b) (128 * n) f in
        if length data < 128 * n then Inl Fault
        else andthen (extract_dirents sub f header table data [0..<n]) (\<lambda>es.
          andthen (extract_blocks sub f header table blocks) (\<lambda>rest. Inr (es @ rest))))"

primrec bsfs_extract_dir :: "nat \<Rightarrow> hfile \<Rightarrow> BsfsHeader \<Rightarrow> BsfsInode list \<Rightarrow> BsfsInode \<Rightarrow> host_entry list kres" where
  "bsfs_extract_dir 0 f header table dir = Inl Diverge"
| "bsfs_extract_dir (Suc fuel) f header table dir =
     extract_blocks (bsfs_extract_dir fuel f header table) f header table (blocks_direct dir)"

section \<open>The tool\<close>

datatype extract_exit = Extract_usage usage_error | Extract_no_image | Extract_no_header | Extract_bad_magic
  | Extract_bad_version | Extract_bad_block_size | Extract_ok "host_entry list"

text \<open>The table holds the inodes that could be read; the buffer for it has the size computed with 32 bits.\<close>

definition extract_table :: "BsfsHeader \<Rightarrow> hfile \<Rightarrow> BsfsInode list kres" where
  "extract_table header f =
     (let n = unat (inode_count header);
          data = read_image (inode_table_start header * block_size header) (128 * n) f
      in if length data > unat (inode_count header * 128) then Inl Fault
         else Inr (map (\<lambda>i. inode_of_bytes (field (128 * i) 128 data)) [0..<length data div 128]))"

definition extract_image :: "nat \<Rightarrow> BsfsHeader \<Rightarrow> hfile \<Rightarrow> host_entry list kres" where
  "extract_image fuel header f =
     andthen (extract_table header f) (\<lambda>table.
       if unat (root_inode header) \<ge> length table then Inl Fault
       else bsfs_extract_dir fuel f header table (table ! unat (root_inode header)))"

definition extract_main :: "nat \<Rightarrow> string list \<Rightarrow> hfile option \<Rightarrow> extract_exit kres" where
  "extract_main fuel args opened =
     (if length args < 2 then Inr (Extract_usage No_arguments)
      else case extract_parse (drop 2 args) \<lparr>tool_blocksize = 4096, tool_offset = 0, final_force = False\<rparr> of
        Inl e \<Rightarrow> Inr (Extract_usage e)
      | Inr o' \<Rightarrow> (case opened of
          None \<Rightarrow> Inr Extract_no_image
        | Some f \<Rightarrow>
            (let bytes = read_image (ucast (tool_offset o' * tool_blocksize o')) 512 f;
                 header = header_of_bytes bytes
             in if length bytes < 512 then Inr Extract_no_header
                else if magic header \<noteq> BSFS_MAGIC then Inr Extract_bad_magic
                else if version header \<noteq> BSFS_VERSION \<and> \<not> final_force o' then Inr Extract_bad_version
                else if ucast (block_size header) \<noteq> tool_blocksize o' then Inr Extract_bad_block_size
                else andthen (extract_image fuel header f) (\<lambda>es. Inr (Extract_ok es)))))"

lemma extract_parse_populate: "extract_parse args o' = populate_parse args o'"
  by (induction args o' rule: extract_parse.induct) (simp_all split: list.splits sum.splits)

end
