(* ===== verification/PopulateFile.thy ===== *)
theory PopulateFile
  imports Populate BsfsSpec
begin

text \<open>
  What bsfs-populate keeps while it fills an image, and what it leaves of a regular file: \<open>ready\<close> is the state
  between two steps, \<open>grows\<close> says what a step may change, and \<open>file_holds\<close> that an inode and the
  blocks it names hold the bytes of a file.
\<close>

section \<open>Blocks of the image\<close>

abbreviation tot :: "image \<Rightarrow> nat" where
  "tot s \<equiv> unat (total_blocks (hdr s))"

abbreviation cont :: "image \<Rightarrow> u8 list" where
  "cont s \<equiv> contents (image_file s)"

definition block_bytes :: "image \<Rightarrow> nat \<Rightarrow> u8 list" where
  "block_bytes s b = take (bs_of s) (drop (b * bs_of s) (cont s))"

definition ready :: "image \<Rightarrow> bool" where
  "ready s \<longleftrightarrow> bitmaps_ok s \<and> 128 dvd bs_of s \<and> length (cont s) = tot s * bs_of s \<and> tot s * bs_of s < 2 ^ 32
     \<and> block_used s 0 \<and> unat (free_blocks (hdr s)) = free_count s
     \<and> length (inode_table s) = unat (inode_count (hdr s)) \<and> find_span (inode_count (hdr s)) \<le> length (inode_bitmap s)
     \<and> inode_used s 0 \<and> unat (free_inodes (hdr s)) = inode_free s
     \<and> (\<forall>i<length (inode_table s). inode_wf (inode_table s ! i) \<and> (\<not> inode_used s i \<longrightarrow> inode_table s ! i = empty_inode))"

lemma ready_bs: "ready s \<Longrightarrow> 0 < bs_of s" "ready s \<Longrightarrow> block_size (hdr s) \<noteq> 0"
  by (auto simp: ready_def bitmaps_ok_def bs_of_def)

lemma ready_block:
  assumes "ready s" "b < tot s"
  shows "b * bs_of s + bs_of s \<le> length (cont s)" "b * bs_of s + bs_of s < 2 ^ 32" "length (block_bytes s b) = bs_of s"
proof -
  have "Suc b * bs_of s \<le> tot s * bs_of s" using assms(2) by (intro mult_le_mono1) simp
  then show "b * bs_of s + bs_of s \<le> length (cont s)" "b * bs_of s + bs_of s < 2 ^ 32"
    using assms(1) by (simp_all add: ready_def)
  then show "length (block_bytes s b) = bs_of s" by (simp add: block_bytes_def)
qed

text \<open>The byte offset of a block is computed without overflow.\<close>

lemma block_offset:
  assumes "ready s" "unat b < tot s"
  shows "unat (block_size (hdr s) * b) = unat b * bs_of s" "uint (block_size (hdr s) * b) = int (unat b * bs_of s)"
proof -
  have "unat b * bs_of s < 2 ^ 32" using ready_block(2) [OF assms] by linarith
  then show *: "unat (block_size (hdr s) * b) = unat b * bs_of s"
    by (subst unat_mult_lem [THEN iffD1]) (simp_all add: bs_of_def mult.commute)
  show "uint (block_size (hdr s) * b) = int (unat b * bs_of s)" unfolding * [symmetric] by (simp only: uint_nat)
qed

lemma seek_write_simps [simp]:
  "hdr (seek_write off bytes s) = hdr s" "block_bitmap (seek_write off bytes s) = block_bitmap s"
  "megablock_bitmap (seek_write off bytes s) = megablock_bitmap s" "inode_bitmap (seek_write off bytes s) = inode_bitmap s"
  "inode_table (seek_write off bytes s) = inode_table s" "bs_of (seek_write off bytes s) = bs_of s"
  "block_used (seek_write off bytes s) = block_used s" "inode_used (seek_write off bytes s) = inode_used s"
  by (simp_all add: seek_write_def bs_of_def block_used_def inode_used_def fun_eq_iff)

lemma update_inode_simps [simp]:
  "hdr (update_inode i f s) = hdr s" "block_bitmap (update_inode i f s) = block_bitmap s"
  "megablock_bitmap (update_inode i f s) = megablock_bitmap s" "inode_bitmap (update_inode i f s) = inode_bitmap s"
  "image_file (update_inode i f s) = image_file s" "bs_of (update_inode i f s) = bs_of s"
  "block_used (update_inode i f s) = block_used s" "inode_used (update_inode i f s) = inode_used s"
  "block_bytes (update_inode i f s) = block_bytes s" "length (inode_table (update_inode i f s)) = length (inode_table s)"
  "inode_table (update_inode i f s) = (inode_table s)[i := f (inode_table s ! i)]"
  by (simp_all add: update_inode_def bs_of_def block_used_def inode_used_def block_bytes_def fun_eq_iff)

lemma ready_cong:
  assumes "ready s" "hdr s' = hdr s" "block_bitmap s' = block_bitmap s" "megablock_bitmap s' = megablock_bitmap s"
    "inode_bitmap s' = inode_bitmap s" "length (cont s') = length (cont s)" "length (inode_table s') = length (inode_table s)"
    "\<And>i. i < length (inode_table s) \<Longrightarrow> inode_wf (inode_table s' ! i) \<and> (\<not> inode_used s i \<longrightarrow> inode_table s' ! i = empty_inode)"
  shows "ready s'"
proof -
  have 1: "bs_of s' = bs_of s" "block_used s' = block_used s" "inode_used s' = inode_used s"
    using assms by (simp_all add: bs_of_def block_used_def inode_used_def fun_eq_iff)
  then have 2: "megablocks s' = megablocks s" "free_count s' = free_count s" "inode_free s' = inode_free s"
    using assms by (simp_all add: megablocks_def free_count_def inode_free_def)
  have "bitmaps_ok s'" using assms 1 2 by (simp add: ready_def bitmaps_ok_def)
  then show ?thesis using assms 1 2 by (simp add: ready_def)
qed

lemma ready_update_inode:
  assumes "ready s" "inode_used s i" "inode_wf (f (inode_table s ! i))"
  shows "ready (update_inode i f s)"
proof (rule ready_cong [OF assms(1)])
  fix j assume "j < length (inode_table s)"
  then show "inode_wf (inode_table (update_inode i f s) ! j) \<and> (\<not> inode_used s j \<longrightarrow> inode_table (update_inode i f s) ! j = empty_inode)"
    using assms by (cases "j = i") (simp_all add: ready_def)
qed simp_all

text \<open>A write inside a block changes that block only.\<close>

lemma seek_write_block:
  assumes r: "ready s" and b: "b < tot s" and len: "p + length bytes \<le> bs_of s" and off: "off = int (b * bs_of s + p)"
  shows "ready (seek_write off bytes s)"
    and "b' < tot s \<Longrightarrow> block_bytes (seek_write off bytes s) b' = (if b' = b then overwrite p bytes (block_bytes s b) else block_bytes s b')"
proof -
  let ?q = "b * bs_of s + p" and ?bs = "bs_of s"
  have fit: "?q + length bytes \<le> length (cont s)" using ready_block(1) [OF r b] len by simp
  have seek: "fseeko_set off (image_file s) = (image_file s)\<lparr>fpos := ?q\<rparr>"
    unfolding off by (simp only: fseeko_set_def of_nat_less_0_iff if_False nat_int)
  have c: "cont (seek_write off bytes s) = overwrite ?q bytes (cont s)"
    using host_fwrite_run(1) [of "(image_file s)\<lparr>fpos := ?q\<rparr>" bytes] fit by (simp add: seek_write_def seek)
  then have l: "length (cont (seek_write off bytes s)) = length (cont s)" using fit by (simp add: overwrite_inside)
  show "ready (seek_write off bytes s)" using r l by (intro ready_cong [OF r]) (auto simp: ready_def)
  assume b': "b' < tot s"
  note rb = ready_block [OF r b] and rb' = ready_block [OF r b']
  show "block_bytes (seek_write off bytes s) b' = (if b' = b then overwrite p bytes (block_bytes s b) else block_bytes s b')"
  proof (rule nth_equalityI)
    show "length (block_bytes (seek_write off bytes s) b') = length (if b' = b then overwrite p bytes (block_bytes s b) else block_bytes s b')"
      using rb rb' l len by (simp add: block_bytes_def overwrite_inside)
    fix i assume "i < length (block_bytes (seek_write off bytes s) b')"
    then have i: "i < ?bs" by (simp add: block_bytes_def)
    then have a: "b' * ?bs + i < length (cont s)" using rb' by simp
    have lhs: "block_bytes (seek_write off bytes s) b' ! i
        = (if ?q \<le> b' * ?bs + i \<and> b' * ?bs + i < ?q + length bytes then bytes ! (b' * ?bs + i - ?q) else cont s ! (b' * ?bs + i))"
      using i a l fit by (simp add: block_bytes_def c overwrite_inside)
    show "block_bytes (seek_write off bytes s) b' ! i = (if b' = b then overwrite p bytes (block_bytes s b) else block_bytes s b') ! i"
    proof (cases "b' = b")
      case True
      have "overwrite p bytes (block_bytes s b) ! i = (if p \<le> i \<and> i < p + length bytes then bytes ! (i - p) else block_bytes s b ! i)"
        using rb(3) len i by (simp add: overwrite_inside)
      then show ?thesis using True lhs i rb by (simp add: block_bytes_def)
    next
      case False
      have "(b' * ?bs + i) div ?bs = b'" using i by simp
      moreover have "(b * ?bs + j) div ?bs = b" if "j < ?bs" for j using that by simp
      ultimately have "b' * ?bs + i \<noteq> b * ?bs + j" if "j < ?bs" for j using that False by metis
      then have ne: "b' * ?bs + i \<noteq> b * ?bs + j" if "j < ?bs" for j using that by blast
      have "\<not> (?q \<le> b' * ?bs + i \<and> b' * ?bs + i < ?q + length bytes)"
      proof
        assume q: "?q \<le> b' * ?bs + i \<and> b' * ?bs + i < ?q + length bytes"
        then have "b' * ?bs + i - b * ?bs < ?bs" using len by linarith
        then show False using ne [of "b' * ?bs + i - b * ?bs"] q by linarith
      qed
      then have "block_bytes (seek_write off bytes s) b' ! i = cont s ! (b' * ?bs + i)" using lhs by (simp only: if_False)
      moreover have "block_bytes s b' ! i = cont s ! (b' * ?bs + i)" using i rb' by (simp add: block_bytes_def)
      ultimately show ?thesis using False by simp
    qed
  qed
qed

section \<open>What a step may change\<close>

text \<open>\<open>N\<close> and \<open>J\<close> are the blocks and inodes allocated, \<open>B\<close> and \<open>I\<close> the others that may have changed.\<close>

definition grows :: "nat set \<Rightarrow> nat set \<Rightarrow> nat set \<Rightarrow> nat set \<Rightarrow> image \<Rightarrow> image \<Rightarrow> bool" where
  "grows N J B I s s' \<longleftrightarrow> ready s' \<and> (\<exists>fb fi. hdr s' = (hdr s)\<lparr>free_blocks := fb, free_inodes := fi\<rparr>)
     \<and> finite N \<and> (\<forall>b\<in>N. b < tot s \<and> \<not> block_used s b) \<and> (\<forall>b. block_used s' b \<longleftrightarrow> b \<in> N \<or> block_used s b)
     \<and> finite J \<and> (\<forall>i\<in>J. i < unat (inode_count (hdr s)) \<and> \<not> inode_used s i) \<and> (\<forall>i. inode_used s' i \<longleftrightarrow> i \<in> J \<or> inode_used s i)
     \<and> (\<forall>b<tot s. b \<notin> B \<and> b \<notin> N \<longrightarrow> block_bytes s' b = block_bytes s b)
     \<and> (\<forall>i<unat (inode_count (hdr s)). i \<notin> I \<and> i \<notin> J \<longrightarrow> inode_table s' ! i = inode_table s ! i)"

lemma growsD:
  assumes "grows N J B I s s'"
  shows "ready s'" "bs_of s' = bs_of s" "tot s' = tot s" "inode_count (hdr s') = inode_count (hdr s)" "block_size (hdr s') = block_size (hdr s)"
    "finite N" "finite J"
    "\<And>b. b \<in> N \<Longrightarrow> b < tot s" "\<And>b. b \<in> N \<Longrightarrow> \<not> block_used s b" "\<And>b. block_used s' b \<longleftrightarrow> b \<in> N \<or> block_used s b"
    "\<And>i. i \<in> J \<Longrightarrow> i < unat (inode_count (hdr s))" "\<And>i. i \<in> J \<Longrightarrow> \<not> inode_used s i" "\<And>i. inode_used s' i \<longleftrightarrow> i \<in> J \<or> inode_used s i"
    "\<And>b. b < tot s \<Longrightarrow> b \<notin> B \<Longrightarrow> b \<notin> N \<Longrightarrow> block_bytes s' b = block_bytes s b"
    "\<And>i. i < unat (inode_count (hdr s)) \<Longrightarrow> i \<notin> I \<Longrightarrow> i \<notin> J \<Longrightarrow> inode_table s' ! i = inode_table s ! i"
  using assms by (auto simp: grows_def bs_of_def)

lemma grows_hdr:
  assumes "grows N J B I s s'"
  shows "\<exists>fb fi. hdr s' = (hdr s)\<lparr>free_blocks := fb, free_inodes := fi\<rparr>"
  using assms by (simp add: grows_def)

lemma grows_refl: "ready s \<Longrightarrow> grows {} {} B I s s"
proof -
  have "\<exists>fb fi. hdr s = (hdr s)\<lparr>free_blocks := fb, free_inodes := fi\<rparr>"
    by (rule exI [of _ "free_blocks (hdr s)"], rule exI [of _ "free_inodes (hdr s)"]) simp
  then show "ready s \<Longrightarrow> grows {} {} B I s s" by (simp add: grows_def)
qed

lemma grows_mono: "grows N J B I s s' \<Longrightarrow> B \<subseteq> B' \<Longrightarrow> I \<subseteq> I' \<Longrightarrow> grows N J B' I' s s'"
  unfolding grows_def by blast

lemma grows_trans:
  assumes g: "grows N J B I s s'" and h: "grows N' J' B' I' s' s''"
  shows "grows (N \<union> N') (J \<union> J') (B \<union> (B' - N)) (I \<union> (I' - J)) s s''"
proof -
  note g' = growsD [OF g] and h' = growsD [OF h]
  obtain fb fi fb' fi' where "hdr s' = (hdr s)\<lparr>free_blocks := fb, free_inodes := fi\<rparr>"
    "hdr s'' = (hdr s')\<lparr>free_blocks := fb', free_inodes := fi'\<rparr>" using grows_hdr [OF g] grows_hdr [OF h] by blast
  then have "\<exists>fb fi. hdr s'' = (hdr s)\<lparr>free_blocks := fb, free_inodes := fi\<rparr>" by auto
  then show ?thesis using g' h' unfolding grows_def by (auto simp: g'(3,4))
qed

lemma grows_free:
  assumes "grows N J B I s s'"
  shows "free_count s = free_count s' + card N" "inode_free s = inode_free s' + card J"
proof -
  note g = growsD [OF assms]
  have "{k. k < tot s \<and> \<not> block_used s k} = {k. k < tot s' \<and> \<not> block_used s' k} \<union> N"
    "{k. k < tot s' \<and> \<not> block_used s' k} \<inter> N = {}" using g by auto
  then show "free_count s = free_count s' + card N"
    unfolding free_count_def using g(6) by (simp add: card_Un_disjoint)
  let ?n = "unat (inode_count (hdr s))"
  have "{k. k < ?n \<and> \<not> inode_used s k} = {k. k < ?n \<and> \<not> inode_used s' k} \<union> J"
    "{k. k < ?n \<and> \<not> inode_used s' k} \<inter> J = {}" using g by auto
  then show "inode_free s = inode_free s' + card J"
    unfolding inode_free_def using g(4,7) by (simp add: card_Un_disjoint)
qed

lemma alloc_block_grows:
  assumes r: "ready s" and free: "0 < free_count s"
  shows "\<exists>b s'. bsfs_alloc_block s = Inr (b, s') \<and> grows {unat b} {} {} {} s s' \<and> b \<noteq> 0
    \<and> inode_table s' = inode_table s \<and> block_bytes s' = block_bytes s"
proof -
  have a: "bitmaps_ok s" "unat (free_blocks (hdr s)) = free_count s" using r by (simp_all add: ready_def)
  obtain b s' where b: "bsfs_alloc_block s = Inr (b, s')" "unat b < tot s" "\<not> block_used s (unat b)"
    "mark_block (unat b) s s'" "bitmaps_ok s'" "unat (free_blocks (hdr s')) = free_count s'"
    using bsfs_alloc_block_next [OF a free] by blast
  obtain bm mb where s': "s' = s\<lparr>block_bitmap := bm, megablock_bitmap := mb, hdr := (hdr s)\<lparr>free_blocks := free_blocks (hdr s) - 1\<rparr>\<rparr>"
    using b(4) by (auto simp: mark_block_def)
  note f = mark_block_facts [OF b(4)]
  have iu: "inode_used s' = inode_used s" "inode_free s' = inode_free s" by (simp_all add: inode_used_def inode_free_def s' fun_eq_iff)
  have bb: "block_bytes s' = block_bytes s" using f by (simp add: block_bytes_def fun_eq_iff)
  have bs: "bs_of s' = bs_of s" by (rule f(1))
  have rest: "cont s' = cont s" "tot s' = tot s" "inode_table s' = inode_table s" "inode_count (hdr s') = inode_count (hdr s)"
    "inode_bitmap s' = inode_bitmap s" "free_inodes (hdr s') = free_inodes (hdr s)" by (simp_all add: s')
  have "ready s'" using r b(5,6) f(7) iu bs by (simp add: ready_def rest)
  moreover have "\<exists>fb fi. hdr s' = (hdr s)\<lparr>free_blocks := fb, free_inodes := fi\<rparr>"
    by (rule exI [of _ "free_blocks (hdr s) - 1"], rule exI [of _ "free_inodes (hdr s)"]) (simp add: s')
  ultimately have "grows {unat b} {} {} {} s s'" using b f iu bb rest by (simp add: grows_def)
  moreover have "b \<noteq> 0" using b(3) r by (auto simp: ready_def)
  ultimately show ?thesis using b(1) bb rest by blast
qed

lemma alloc_inode_grows:
  assumes r: "ready s" and free: "0 < inode_free s"
  shows "\<exists>i s'. bsfs_alloc_inode s = Inr (i, s') \<and> grows {} {unat i} {} {} s s' \<and> i \<noteq> 0
    \<and> inode_table s' = inode_table s \<and> block_bytes s' = block_bytes s"
proof -
  have a: "find_span (inode_count (hdr s)) \<le> length (inode_bitmap s)" "unat (free_inodes (hdr s)) = inode_free s"
    using r by (simp_all add: ready_def)
  obtain i bm where i: "bsfs_alloc_inode s = Inr (i, s\<lparr>inode_bitmap := bm, hdr := (hdr s)\<lparr>free_inodes := free_inodes (hdr s) - 1\<rparr>\<rparr>)"
    "unat i < unat (inode_count (hdr s))" "\<not> inode_used s (unat i)" "length bm = length (inode_bitmap s)"
    "\<And>j. bm_get bm j \<longleftrightarrow> j = unat i \<or> inode_used s j"
    "unat (free_inodes (hdr s) - 1) = card {i. i < unat (inode_count (hdr s)) \<and> \<not> bm_get bm i}"
    using bsfs_alloc_inode_next [OF a(1) free a(2)] by blast
  define s' where "s' = s\<lparr>inode_bitmap := bm, hdr := (hdr s)\<lparr>free_inodes := free_inodes (hdr s) - 1\<rparr>\<rparr>"
  have bs: "bs_of s' = bs_of s" and bb: "block_bytes s' = block_bytes s" and bu: "block_used s' = block_used s"
    and mg: "megablocks s' = megablocks s" and fc: "free_count s' = free_count s"
    by (simp_all add: s'_def bs_of_def block_bytes_def block_used_def megablocks_def free_count_def fun_eq_iff)
  have bok: "bitmaps_ok s'" using r unfolding ready_def bitmaps_ok_def bs bu mg by (simp add: s'_def)
  have iu: "inode_used s' j \<longleftrightarrow> j = unat i \<or> inode_used s j" for j using i(5) by (simp add: inode_used_def s'_def)
  have fi: "unat (free_inodes (hdr s')) = inode_free s'" using i(6) by (simp add: s'_def inode_free_def inode_used_def)
  have rest: "cont s' = cont s" "tot s' = tot s" "inode_table s' = inode_table s" "inode_count (hdr s') = inode_count (hdr s)"
    "length (inode_bitmap s') = length (inode_bitmap s)" "free_blocks (hdr s') = free_blocks (hdr s)" using i(4) by (simp_all add: s'_def)
  have "ready s'" using r bok fi iu by (simp add: ready_def bs bu fc rest)
  moreover have "\<exists>fb fi. hdr s' = (hdr s)\<lparr>free_blocks := fb, free_inodes := fi\<rparr>"
    by (rule exI [of _ "free_blocks (hdr s)"], rule exI [of _ "free_inodes (hdr s) - 1"]) (simp add: s'_def)
  ultimately have "grows {} {unat i} {} {} s s'" using i(2,3) iu bb bu by (simp add: grows_def) (simp add: s'_def)
  moreover have "i \<noteq> 0" using i(3) r by (auto simp: ready_def)
  ultimately show ?thesis using i(1) bb by (auto simp: s'_def)
qed

lemma seek_write_grows:
  assumes "ready s" "b < tot s" "p + length bytes \<le> bs_of s" "off = int (b * bs_of s + p)"
  shows "grows {} {} {b} {} s (seek_write off bytes s)"
proof -
  have "\<exists>fb fi. hdr s = (hdr s)\<lparr>free_blocks := fb, free_inodes := fi\<rparr>"
    by (rule exI [of _ "free_blocks (hdr s)"], rule exI [of _ "free_inodes (hdr s)"]) simp
  then show ?thesis using seek_write_block [OF assms] by (simp add: grows_def)
qed

lemma update_inode_grows:
  assumes "ready s" "inode_used s i" "inode_wf (f (inode_table s ! i))"
  shows "grows {} {} {} {i} s (update_inode i f s)"
proof -
  have "\<exists>fb fi. hdr s = (hdr s)\<lparr>free_blocks := fb, free_inodes := fi\<rparr>"
    by (rule exI [of _ "free_blocks (hdr s)"], rule exI [of _ "free_inodes (hdr s)"]) simp
  then show ?thesis using ready_update_inode [of s i f] assms by (simp add: grows_def)
qed

section \<open>The blocks of a file\<close>

definition chunk :: "nat \<Rightarrow> u8 list \<Rightarrow> nat \<Rightarrow> u8 list" where
  "chunk bs bytes k = take bs (drop (k * bs) bytes)"

definition nth_block :: "BsfsInode \<Rightarrow> u32 list \<Rightarrow> nat \<Rightarrow> u32" where
  "nth_block i tab j = (if j < 10 then blocks_direct i ! j else tab ! (j - 10))"

text \<open>The first \<open>k\<close> blocks are in place, within the set \<open>M\<close>, and no other direct block is set.\<close>

definition copied :: "(nat \<Rightarrow> u8 list) \<Rightarrow> nat \<Rightarrow> BsfsInode \<Rightarrow> u32 list \<Rightarrow> u8 list \<Rightarrow> nat \<Rightarrow> nat set \<Rightarrow> bool" where
  "copied D bs i tab bytes k M \<longleftrightarrow>
     (\<forall>j<k. nth_block i tab j \<noteq> 0 \<and> unat (nth_block i tab j) \<in> M
        \<and> take (length (chunk bs bytes j)) (D (unat (nth_block i tab j))) = chunk bs bytes j)
     \<and> (\<forall>j<10. k \<le> j \<longrightarrow> blocks_direct i ! j = 0)"

lemma copied_step:
  assumes c: "copied D bs i tab bytes k M" and b: "unat b \<notin> M" "b \<noteq> 0"
    and D: "\<And>x. x \<in> M \<Longrightarrow> D' x = D x" "take (length (chunk bs bytes k)) (D' (unat b)) = chunk bs bytes k"
    and i: "length (blocks_direct i) = 10" "blocks_direct i' = (if k < 10 then (blocks_direct i)[k := b] else blocks_direct i)"
    and t: "10 \<le> k \<Longrightarrow> k - 10 < length tab \<and> tab' = tab[k - 10 := b]"
  shows "copied D' bs i' tab' bytes (Suc k) (insert (unat b) M)"
proof -
  have new: "nth_block i' tab' k = b" using i t by (simp add: nth_block_def)
  have old: "nth_block i' tab' j = nth_block i tab j" if "j < k" for j using i t that by (auto simp: nth_block_def)
  have "nth_block i' tab' j \<noteq> 0 \<and> unat (nth_block i' tab' j) \<in> insert (unat b) M
      \<and> take (length (chunk bs bytes j)) (D' (unat (nth_block i' tab' j))) = chunk bs bytes j" if "j < Suc k" for j
  proof (cases "j = k")
    case False
    then have "j < k" using that by simp
    then show ?thesis using c old D(1) by (simp add: copied_def)
  qed (use new b D in simp)
  moreover have "blocks_direct i' ! j = 0" if "j < 10" "Suc k \<le> j" for j using c i that by (simp add: copied_def)
  ultimately show ?thesis unfolding copied_def by blast
qed

definition l1_list :: "copy_state \<Rightarrow> u32 list" where
  "l1_list st = (case l1indirect_table_tmp st of None \<Rightarrow> [] | Some tab \<Rightarrow> tab)"

text \<open>The state of the copy after \<open>k\<close> blocks, \<open>N\<close> being the blocks taken for the file.\<close>

definition copying :: "image \<Rightarrow> nat \<Rightarrow> u8 list \<Rightarrow> nat \<Rightarrow> nat set \<Rightarrow> copy_state \<Rightarrow> bool" where
  "copying s0 ino bytes k N st \<longleftrightarrow> (let s = cimage st; i = inode_table s ! ino; bs = bs_of s0; l1 = blocks_l1indirect i in
     grows N {} {} {ino} s0 s \<and> card N = k + (if 10 < k then 1 else 0) \<and> unat (current_block st) = k \<and> k \<le> 10 + bs div 4
     \<and> itype i = BSFS_INODE_TYPE_FILE \<and> isize i = of_nat (min (k * bs) (length bytes))
     \<and> copy_crc st = crc32_update 0xFFFFFFFF (take (k * bs) bytes)
     \<and> copied (block_bytes s) bs i (l1_list st) bytes k (if 10 < k then N - {unat l1} else N)
     \<and> (if 10 < k then l1indirect_table_tmp st \<noteq> None \<and> length (l1_list st) = bs div 4
            \<and> l1indirect_table_idx st = l1 \<and> l1 \<noteq> 0 \<and> unat l1 \<in> N
        else l1indirect_table_tmp st = None \<and> l1 = 0))"

lemma crc_chunk: "crc32_update (crc32_update c (take (k * bs) bytes)) (chunk bs bytes k) = crc32_update c (take (Suc k * bs) bytes)"
proof -
  have "take (Suc k * bs) bytes = take (k * bs) bytes @ chunk bs bytes k"
    unfolding chunk_def by (simp add: take_add [symmetric] add.commute)
  then show ?thesis by (simp add: crc32_update_append)
qed

lemma length_chunk: "min (k * bs) (length bytes) + length (chunk bs bytes k) = min (Suc k * bs) (length bytes)"
  by (auto simp: chunk_def min_def)

text \<open>Writing a block and counting it in the inode.\<close>

definition count_block :: "nat \<Rightarrow> u32 \<Rightarrow> u8 list \<Rightarrow> image \<Rightarrow> image" where
  "count_block ino b bytes s = update_inode ino (\<lambda>i. i\<lparr>iblocks := iblocks i + 1, isize := isize i + of_nat (length bytes)\<rparr>)
     (seek_write (uint (block_size (hdr s) * b)) bytes s)"

lemma inode_wf_update:
  "inode_wf i \<Longrightarrow> inode_wf (i\<lparr>iblocks := x, isize := y\<rparr>)" "inode_wf i \<Longrightarrow> inode_wf (i\<lparr>blocks_direct := (blocks_direct i)[k := b]\<rparr>)"
  "inode_wf i \<Longrightarrow> inode_wf (i\<lparr>blocks_l1indirect := t\<rparr>)" "inode_wf i \<Longrightarrow> inode_wf (i\<lparr>checksum := c\<rparr>)"
  "inode_wf i \<Longrightarrow> inode_wf (file_inode time i)" "inode_wf i \<Longrightarrow> inode_wf (directory_inode time i)"
  "inode_wf i \<Longrightarrow> inode_wf (i\<lparr>isize := y\<rparr>)"
  by (simp_all add: inode_wf_def file_inode_def directory_inode_def)

lemma ready_wf: "ready s \<Longrightarrow> i < unat (inode_count (hdr s)) \<Longrightarrow> inode_wf (inode_table s ! i)"
  "ready s \<Longrightarrow> length (inode_table s) = unat (inode_count (hdr s))"
  by (simp_all add: ready_def)

lemma count_block_grows:
  assumes r: "ready s" and ino: "inode_used s ino" "ino < unat (inode_count (hdr s))" and b: "unat b < tot s" "length bytes \<le> bs_of s"
  shows "grows {} {} {unat b} {ino} s (count_block ino b bytes s)"
    and "x < tot s \<Longrightarrow> block_bytes (count_block ino b bytes s) x = (if x = unat b then overwrite 0 bytes (block_bytes s x) else block_bytes s x)"
    and "inode_table (count_block ino b bytes s) ! ino = (inode_table s ! ino)\<lparr>iblocks := iblocks (inode_table s ! ino) + 1,
       isize := isize (inode_table s ! ino) + of_nat (length bytes)\<rparr>"
proof -
  let ?w = "seek_write (uint (block_size (hdr s) * b)) bytes s"
  have off: "uint (block_size (hdr s) * b) = int (unat b * bs_of s + 0)" using block_offset(2) [OF r b(1)] by simp
  have len: "0 + length bytes \<le> bs_of s" using b(2) by simp
  note w = seek_write_grows [OF r b(1) len off] and wb = seek_write_block(2) [OF r b(1) len off]
  have rw: "ready ?w" using w by (simp add: grows_def)
  have "grows {} {} {} {ino} ?w (count_block ino b bytes s)"
    unfolding count_block_def using ino ready_wf(1) [OF r ino(2)] by (intro update_inode_grows rw) (simp_all add: inode_wf_update)
  from grows_trans [OF w this] show "grows {} {} {unat b} {ino} s (count_block ino b bytes s)" by simp
  show "x < tot s \<Longrightarrow> block_bytes (count_block ino b bytes s) x = (if x = unat b then overwrite 0 bytes (block_bytes s x) else block_bytes s x)"
    using wb by (simp add: count_block_def)
  show "inode_table (count_block ino b bytes s) ! ino = (inode_table s ! ino)\<lparr>iblocks := iblocks (inode_table s ! ino) + 1,
       isize := isize (inode_table s ! ino) + of_nat (length bytes)\<rparr>"
    using ino ready_wf(2) [OF r] by (simp add: count_block_def)
qed

lemma copied_mono: "copied D bs i tab bytes k M \<Longrightarrow> M \<subseteq> M' \<Longrightarrow> copied D bs i tab bytes k M'"
  unfolding copied_def by blast

lemma copied_direct: "k \<le> 10 \<Longrightarrow> copied D bs i tab bytes k M \<Longrightarrow> copied D bs i tab' bytes k M"
  by (simp add: copied_def nth_block_def)

lemma copying_next:
  assumes c: "copying s0 ino bytes k N st" and k: "k < 10 + bs_of s0 div 4" and ino: "inode_used s0 ino" "ino < unat (inode_count (hdr s0))"
    and g: "grows P {} {} {ino} (cimage st) s1" and D: "\<And>x. block_bytes s1 x = block_bytes (cimage st) x"
    and b: "unat b \<in> P" "b \<noteq> 0"
    and i1: "itype (inode_table s1 ! ino) = BSFS_INODE_TYPE_FILE" "isize (inode_table s1 ! ino) = isize (inode_table (cimage st) ! ino)"
      "blocks_direct (inode_table s1 ! ino) = (if k < 10 then (blocks_direct (inode_table (cimage st) ! ino))[k := b] else blocks_direct (inode_table (cimage st) ! ino))"
    and l: "if k < 10 then T = None \<and> blocks_l1indirect (inode_table s1 ! ino) = 0 \<and> P = {unat b}
       else T = Some (tab[k - 10 := b]) \<and> length tab = bs_of s0 div 4 \<and> blocks_l1indirect (inode_table s1 ! ino) = t \<and> t \<noteq> 0
         \<and> (if k = 10 then P = {unat b, unat t} \<and> unat b \<noteq> unat t
            else P = {unat b} \<and> tab = l1_list st \<and> t = blocks_l1indirect (inode_table (cimage st) ! ino))"
  shows "copying s0 ino bytes (Suc k) (N \<union> P) (st\<lparr>cimage := count_block ino b (chunk (bs_of s0) bytes k) s1,
     current_block := current_block st + 1, l1indirect_table_tmp := T, l1indirect_table_idx := t,
     copy_crc := populate_crc32_update (copy_crc st) (chunk (bs_of s0) bytes k)\<rparr>)"
proof -
  let ?s = "cimage st" and ?bs = "bs_of s0" and ?ch = "chunk (bs_of s0) bytes k"
  let ?i = "inode_table ?s ! ino" and ?i1 = "inode_table s1 ! ino"
  define s2 where "s2 = count_block ino b ?ch s1"
  note c' = c [unfolded copying_def Let_def]
  have g0: "grows N {} {} {ino} s0 ?s" using c' by blast
  note G0 = growsD [OF g0] and G = growsD [OF g]
  have len: "length ?ch \<le> bs_of s1" using G0(2) G(2) by (simp add: chunk_def)
  have used: "inode_used s1 ino" "ino < unat (inode_count (hdr s1))" using ino G0(4,13) G(4,13) by simp_all
  have bt: "unat b < tot s1" using G(3,8) b(1) by simp
  note w = count_block_grows [OF G(1) used bt len, folded s2_def]
  have PN: "P \<inter> N = {}" using G(9) G0(10) by blast
  have "grows (N \<union> P \<union> {}) ({} \<union> {} \<union> {}) ({} \<union> ({} - N) \<union> ({unat b} - (N \<union> P))) ({ino} \<union> ({ino} - {}) \<union> ({ino} - ({} \<union> {}))) s0 s2"
    by (rule grows_trans [OF grows_trans [OF g0 g] w(1)])
  then have gs: "grows (N \<union> P) {} {} {ino} s0 s2" using b(1) by simp
  have card: "card (N \<union> P) = Suc k + (if 10 < Suc k then 1 else 0)"
  proof -
    have "card (N \<union> P) = card N + card P" using G(6) G0(6) PN by (intro card_Un_disjoint) auto
    moreover have "card P = (if k = 10 then 2 else 1)" using l by (auto split: if_splits)
    ultimately show ?thesis using c' by auto
  qed
  have i2: "itype (inode_table s2 ! ino) = BSFS_INODE_TYPE_FILE" "blocks_direct (inode_table s2 ! ino) = blocks_direct ?i1"
    "blocks_l1indirect (inode_table s2 ! ino) = blocks_l1indirect ?i1" "isize (inode_table s2 ! ino) = of_nat (min (Suc k * ?bs) (length bytes))"
    using w(3) i1 c' length_chunk [of k ?bs bytes] by (simp_all flip: of_nat_add)
  have cur: "unat (current_block st + 1) = Suc k"
  proof -
    have "?bs < 2 ^ 32" using unat_lt2p [of "block_size (hdr s0)"] by (simp add: bs_of_def)
    then have "k + 1 < 2 ^ 32" using k by simp
    then show ?thesis using c' by (subst unat_add_lem [THEN iffD1]) simp_all
  qed
  define M where "M = (if 10 < k then N - {unat (blocks_l1indirect ?i)} else N)"
  have cc: "copied (block_bytes ?s) ?bs ?i (l1_list st) bytes k M" using c' unfolding M_def by blast
  have MN: "M \<subseteq> N" by (simp add: M_def)
  have bM: "unat b \<notin> M" using PN b(1) MN by blast
  have old: "copied (block_bytes ?s) ?bs ?i (if 10 < k then l1_list st else tab) bytes k M"
  proof (cases "10 < k")
    case False
    then show ?thesis using copied_direct [of k "block_bytes ?s" ?bs ?i "l1_list st" bytes M tab] cc by simp
  qed (use cc in simp)
  have il: "length (blocks_direct ?i) = 10" using ready_wf(1) [OF G0(1)] ino G0(4) by (simp add: inode_wf_def bsfs_consts)
  have Dm: "block_bytes s2 x = block_bytes ?s x" if "x \<in> M" for x
  proof -
    have "x < tot s1" "x \<noteq> unat b" using that MN bM G(3) G0(3,8) by auto
    then show ?thesis using w(2) [of x] D by simp
  qed
  have Db: "take (length ?ch) (block_bytes s2 (unat b)) = ?ch"
    using w(2) [OF bt] by (simp add: overwrite_def)
  have new: "copied (block_bytes s2) ?bs (inode_table s2 ! ino) (case T of None \<Rightarrow> [] | Some tab \<Rightarrow> tab) bytes (Suc k) (insert (unat b) M)"
  proof (cases "k < 10")
    case True
    then have "copied (block_bytes s2) ?bs (inode_table s2 ! ino) [] bytes (Suc k) (insert (unat b) M)"
      using old il i1(3) i2(2) by (intro copied_step [OF copied_direct [OF _ old] bM b(2) Dm Db]) simp_all
    then show ?thesis using True l by simp
  next
    case False
    then have "(if 10 < k then l1_list st else tab) = tab" and T: "k - 10 < length tab" "T = Some (tab[k - 10 := b])"
      using l k by (auto split: if_splits)
    then have old': "copied (block_bytes ?s) ?bs ?i tab bytes k M" using old by simp
    show ?thesis
      using T il i1(3) i2(2) False by (intro copied_step [OF old' bM b(2) Dm Db]) simp_all
  qed
  have sub: "insert (unat b) M \<subseteq> (if 10 < Suc k then (N \<union> P) - {unat (blocks_l1indirect (inode_table s2 ! ino))} else N \<union> P)"
  proof -
    have l1: "unat (blocks_l1indirect ?i) \<in> N" if "10 < k" using that c' by simp
    consider "k < 10" | "k = 10" | "10 < k" by linarith
    then show ?thesis using l l1 PN b(1) i2(3) by cases (auto simp: M_def)
  qed
  have crc: "populate_crc32_update (copy_crc st) ?ch = crc32_update 0xFFFFFFFF (take (Suc k * ?bs) bytes)"
    using c' crc_chunk [of "0xFFFFFFFF" k ?bs bytes] by (simp only: crc32_copies)
  have tabs: "if 10 < Suc k then T \<noteq> None \<and> length (case T of None \<Rightarrow> [] | Some tab \<Rightarrow> tab) = ?bs div 4 \<and> t = blocks_l1indirect (inode_table s2 ! ino)
       \<and> blocks_l1indirect (inode_table s2 ! ino) \<noteq> 0 \<and> unat (blocks_l1indirect (inode_table s2 ! ino)) \<in> N \<union> P
     else T = None \<and> blocks_l1indirect (inode_table s2 ! ino) = 0"
  proof -
    have l1: "unat (blocks_l1indirect ?i) \<in> N" if "10 < k" using that c' by simp
    consider "k < 10" | "k = 10" | "10 < k" by linarith
    then show ?thesis using l l1 i2(3) by cases auto
  qed
  have k': "Suc k \<le> 10 + ?bs div 4" using k by simp
  define st' where "st' = st\<lparr>cimage := s2, current_block := current_block st + 1, l1indirect_table_tmp := T, l1indirect_table_idx := t,
     copy_crc := populate_crc32_update (copy_crc st) ?ch\<rparr>"
  have p: "cimage st' = s2" "current_block st' = current_block st + 1" "l1indirect_table_tmp st' = T" "l1indirect_table_idx st' = t"
    "copy_crc st' = populate_crc32_update (copy_crc st) ?ch" "l1_list st' = (case T of None \<Rightarrow> [] | Some tab \<Rightarrow> tab)"
    by (simp_all add: st'_def l1_list_def)
  show ?thesis
    unfolding s2_def [symmetric] st'_def [symmetric] copying_def Let_def p
    using gs card cur k' i2(1,4) crc copied_mono [OF new sub] tabs by blast
qed

text \<open>One round of the copy loop.\<close>

lemma populate_block_step:
  assumes c: "copying s0 ino bytes k N st" and k: "k < 10 + bs_of s0 div 4" and ino: "inode_used s0 ino" "ino < unat (inode_count (hdr s0))"
    and free: "card N + (if k = 10 then 2 else 1) \<le> free_count s0"
  shows "\<exists>st' N'. populate_block ino (chunk (bs_of s0) bytes k) st = Inr st' \<and> copying s0 ino bytes (Suc k) N' st'"
proof -
  let ?s = "cimage st" and ?ch = "chunk (bs_of s0) bytes k"
  note c' = c [unfolded copying_def Let_def]
  have g0: "grows N {} {} {ino} s0 ?s" and cur: "unat (current_block st) = k" using c' by blast+
  note G0 = growsD [OF g0]
  have fs: "(if k = 10 then 2 else 1) \<le> free_count ?s" using grows_free(1) [OF g0] free by simp
  have used: "inode_used ?s ino" "ino < unat (inode_count (hdr ?s))" "ino < length (inode_table ?s)"
    using ino G0(4,13) ready_wf(2) [OF G0(1)] by simp_all
  have wf: "inode_wf (inode_table ?s ! ino)" by (rule ready_wf(1) [OF G0(1) used(2)])
  have bsz: "unat (block_size (hdr ?s)) = bs_of s0" using G0(2) by (simp add: bs_of_def)
  obtain b s1 where b: "bsfs_alloc_block ?s = Inr (b, s1)" "grows {unat b} {} {} {} ?s s1" "b \<noteq> 0"
    "inode_table s1 = inode_table ?s" "block_bytes s1 = block_bytes ?s"
    using alloc_block_grows [OF G0(1)] fs by (auto split: if_splits)
  note G1 = growsD [OF b(2)]
  have bs1: "block_size (hdr s1) = block_size (hdr ?s)" by (rule G1(5))
  have lt: "current_block st < 10 \<longleftrightarrow> k < 10" using cur by (simp add: word_less_nat_alt)
  have lt2: "current_block st < 10 + block_size (hdr s1) div 4"
  proof -
    have "unat (10 + block_size (hdr s1) div 4) = 10 + bs_of s0 div 4"
      using bsz bs1 unat_lt2p [of "block_size (hdr s1)"] by (subst unat_add_lem [THEN iffD1]) (simp_all add: unat_div)
    then show ?thesis using cur k by (simp add: word_less_nat_alt)
  qed
  have used1: "inode_used s1 ino" "ino < length (inode_table s1)" using used G1(13) b(4) by simp_all
  have wf1: "inode_wf (inode_table s1 ! ino)" using wf b(4) by simp
  consider "k < 10" | "k = 10" | "10 < k" by linarith
  then show ?thesis
  proof cases
    case 1
    let ?s2 = "update_inode ino (\<lambda>i. i\<lparr>blocks_direct := (blocks_direct i)[unat (current_block st) := b]\<rparr>) s1"
    have "grows {} {} {} {ino} s1 ?s2" using used1 wf1 by (intro update_inode_grows G1(1)) (simp_all add: inode_wf_update)
    from grows_trans [OF b(2) this] have g: "grows {unat b} {} {} {ino} ?s ?s2" by simp
    have "populate_block ino ?ch st = Inr (st\<lparr>cimage := count_block ino b ?ch ?s2, current_block := current_block st + 1,
        l1indirect_table_tmp := l1indirect_table_tmp st, l1indirect_table_idx := l1indirect_table_idx st,
        copy_crc := populate_crc32_update (copy_crc st) ?ch\<rparr>)"
      using b(1) lt 1 by (cases st) (simp add: populate_block_def Let_def count_block_def)
    moreover have "copying s0 ino bytes (Suc k) (N \<union> {unat b}) (st\<lparr>cimage := count_block ino b ?ch ?s2, current_block := current_block st + 1,
        l1indirect_table_tmp := l1indirect_table_tmp st, l1indirect_table_idx := l1indirect_table_idx st,
        copy_crc := populate_crc32_update (copy_crc st) ?ch\<rparr>)"
      using b(3-5) c' cur 1 used1 by (intro copying_next [OF c k ino g]) simp_all
    ultimately show ?thesis by blast
  next
    case 2
    have "0 < free_count s1" using grows_free(1) [OF b(2)] fs 2 by simp
    then obtain t s2 where t: "bsfs_alloc_block s1 = Inr (t, s2)" "grows {unat t} {} {} {} s1 s2" "t \<noteq> 0"
      "inode_table s2 = inode_table s1" "block_bytes s2 = block_bytes s1"
      using alloc_block_grows [OF G1(1)] by blast
    note G2 = growsD [OF t(2)]
    let ?s3 = "update_inode ino (\<lambda>i. i\<lparr>blocks_l1indirect := t\<rparr>) s2"
    have "grows {} {} {} {ino} s2 ?s3"
      using used1 wf1 G2(13) t(4) by (intro update_inode_grows G2(1)) (simp_all add: inode_wf_update)
    from grows_trans [OF grows_trans [OF b(2) t(2)] this] have g: "grows {unat b, unat t} {} {} {ino} ?s ?s3" by (simp add: insert_commute)
    have ne: "unat b \<noteq> unat t" using G2(9) [of "unat t"] G1(10) by auto
    let ?tab = "replicate (bs_of s0 div 4) 0 :: u32 list"
    have "populate_block ino ?ch st = Inr (st\<lparr>cimage := count_block ino b ?ch ?s3, current_block := current_block st + 1,
        l1indirect_table_tmp := Some (?tab[k - 10 := b]), l1indirect_table_idx := t,
        copy_crc := populate_crc32_update (copy_crc st) ?ch\<rparr>)"
    proof -
      have "current_block st - 10 = 0" "unat (current_block st - 10) = k - 10" using cur 2 by (simp_all add: word_unat_eq_iff unat_sub word_le_nat_alt)
      moreover have "unat (block_size (hdr s1) div 4) = bs_of s0 div 4" using bsz bs1 by (simp add: unat_div)
      moreover have "block_size (hdr ?s3) = block_size (hdr s1)" using G2(5) by simp
      ultimately show ?thesis
        using b(1) t(1) lt lt2 2 by (simp add: populate_block_def Let_def count_block_def)
    qed
    moreover have "copying s0 ino bytes (Suc k) (N \<union> {unat b, unat t}) (st\<lparr>cimage := count_block ino b ?ch ?s3, current_block := current_block st + 1,
        l1indirect_table_tmp := Some (?tab[k - 10 := b]), l1indirect_table_idx := t,
        copy_crc := populate_crc32_update (copy_crc st) ?ch\<rparr>)"
      using b(3-5) t(3-5) c' 2 used1 ne by (intro copying_next [OF c k ino g, where tab = ?tab]) simp_all
    ultimately show ?thesis by blast
  next
    case 3
    obtain tab where tab: "l1indirect_table_tmp st = Some tab" "l1_list st = tab" using c' 3 by (auto simp: l1_list_def)
    have "grows {unat b} {} {} {ino} ?s s1" by (rule grows_mono [OF b(2)]) simp_all
    note g = this
    have "populate_block ino ?ch st = Inr (st\<lparr>cimage := count_block ino b ?ch s1, current_block := current_block st + 1,
        l1indirect_table_tmp := Some (tab[k - 10 := b]), l1indirect_table_idx := l1indirect_table_idx st,
        copy_crc := populate_crc32_update (copy_crc st) ?ch\<rparr>)"
    proof -
      have "unat (current_block st - 10) = k - 10" using cur 3 by (simp add: unat_sub word_le_nat_alt)
      moreover then have "current_block st - 10 \<noteq> 0" using 3 by (auto simp: word_unat_eq_iff)
      ultimately show ?thesis using b(1) tab lt lt2 3 by (simp add: populate_block_def Let_def count_block_def)
    qed
    moreover have "copying s0 ino bytes (Suc k) (N \<union> {unat b}) (st\<lparr>cimage := count_block ino b ?ch s1, current_block := current_block st + 1,
        l1indirect_table_tmp := Some (tab[k - 10 := b]), l1indirect_table_idx := l1indirect_table_idx st,
        copy_crc := populate_crc32_update (copy_crc st) ?ch\<rparr>)"
      using b(3-5) c' 3 tab by (intro copying_next [OF c k ino g, where tab = tab]) simp_all
    ultimately show ?thesis by blast
  qed
qed

lemma ceil_div_less: "0 < b \<Longrightarrow> k < ceil_div a b \<longleftrightarrow> k * b < a"
proof -
  assume b: "0 < b"
  have "k < ceil_div a b \<longleftrightarrow> Suc k * b \<le> a + b - 1"
    using b by (simp add: ceil_div_def Suc_le_eq [symmetric] less_eq_div_iff_mult_less_eq)
  then show ?thesis using b by auto
qed

text \<open>The number of blocks a file takes, with the block of the indirect table.\<close>

definition data_blocks :: "nat \<Rightarrow> u8 list \<Rightarrow> nat" where
  "data_blocks bs bytes = ceil_div (length bytes) bs"

definition file_space :: "nat \<Rightarrow> u8 list \<Rightarrow> nat" where
  "file_space bs bytes = data_blocks bs bytes + (if 10 < data_blocks bs bytes then 1 else 0)"

lemma populate_blocks_run:
  assumes "copying s0 ino bytes k N st" "k \<le> data_blocks (bs_of s0) bytes" "data_blocks (bs_of s0) bytes \<le> 10 + bs_of s0 div 4"
    and ino: "inode_used s0 ino" "ino < unat (inode_count (hdr s0))" and free: "file_space (bs_of s0) bytes \<le> free_count s0"
  shows "\<exists>st' N'. populate_blocks ino (drop (k * bs_of s0) bytes) st = Inr st' \<and> copying s0 ino bytes (data_blocks (bs_of s0) bytes) N' st'"
  using assms(1,2)
proof (induction "data_blocks (bs_of s0) bytes - k" arbitrary: k N st)
  case (0 k N st)
  have g: "grows N {} {} {ino} s0 (cimage st)" using 0(2) by (simp add: copying_def Let_def)
  have "0 < bs_of s0" using ready_bs(1) [OF growsD(1) [OF g]] growsD(2) [OF g] by simp
  then have "length bytes \<le> k * bs_of s0"
    using 0(1) ceil_div_less [of "bs_of s0" k "length bytes"] by (simp add: data_blocks_def)
  then show ?case using 0 by (subst populate_blocks.simps) auto
next
  case (Suc m k N st)
  have g: "grows N {} {} {ino} s0 (cimage st)" and cN: "card N = k + (if 10 < k then 1 else 0)"
    using Suc(3) by (simp_all add: copying_def Let_def)
  have bs: "unat (block_size (hdr (cimage st))) = bs_of s0" "0 < bs_of s0"
    using growsD(2) [OF g] ready_bs(1) [OF growsD(1) [OF g]] by (simp_all add: bs_of_def)
  have k: "k < data_blocks (bs_of s0) bytes" using Suc(2) by simp
  then have "k * bs_of s0 < length bytes" using ceil_div_less [OF bs(2)] by (simp add: data_blocks_def)
  then have ne: "take (bs_of s0) (drop (k * bs_of s0) bytes) \<noteq> []" using bs(2) by simp
  have "card N + (if k = 10 then 2 else 1) \<le> free_count s0"
    using free k cN by (auto simp: file_space_def split: if_splits)
  then obtain st' N' where st': "populate_block ino (chunk (bs_of s0) bytes k) st = Inr st'" "copying s0 ino bytes (Suc k) N' st'"
    using populate_block_step [OF Suc(3) _ ino] k assms(3) by (meson less_le_trans)
  have "\<exists>st'' N''. populate_blocks ino (drop (Suc k * bs_of s0) bytes) st' = Inr st'' \<and> copying s0 ino bytes (data_blocks (bs_of s0) bytes) N'' st''"
    using Suc(1) [OF _ st'(2)] Suc(2) k by simp
  then show ?case
    using st'(1) ne bs(2) by (subst populate_blocks.simps) (simp add: bs(1) chunk_def Let_def add.commute)
qed

text \<open>What an inode and the blocks it names hold.\<close>

definition file_holds :: "(nat \<Rightarrow> u8 list) \<Rightarrow> nat \<Rightarrow> BsfsInode \<Rightarrow> u8 list \<Rightarrow> nat set \<Rightarrow> bool" where
  "file_holds D bs i bytes B \<longleftrightarrow> inode_wf i \<and> itype i = BSFS_INODE_TYPE_FILE \<and> isize i = of_nat (length bytes)
     \<and> checksum i = crc32 bytes \<and> data_blocks bs bytes \<le> 10 + bs div 4
     \<and> copied D bs i (word_table (bs div 4) (D (unat (blocks_l1indirect i)))) bytes (data_blocks bs bytes) B
     \<and> (if 10 < data_blocks bs bytes then blocks_l1indirect i \<noteq> 0 \<and> unat (blocks_l1indirect i) \<in> B else blocks_l1indirect i = 0)"

lemma copied_checksum: "copied D bs (i\<lparr>checksum := c\<rparr>) tab bytes k M = copied D bs i tab bytes k M"
  by (simp add: copied_def nth_block_def cong: if_cong)

lemma copied_frame: "copied D bs i tab bytes k M \<Longrightarrow> (\<And>x. x \<in> M \<Longrightarrow> D' x = D x) \<Longrightarrow> copied D' bs i tab bytes k M"
  by (simp add: copied_def)

lemma file_holds_frame:
  assumes h: "file_holds D bs i bytes B" and D: "\<And>x. x \<in> B \<Longrightarrow> D' x = D x"
  shows "file_holds D' bs i bytes B"
proof -
  let ?l1 = "unat (blocks_l1indirect i)" and ?n = "data_blocks bs bytes"
  have c: "copied D' bs i (word_table (bs div 4) (D ?l1)) bytes ?n B"
    by (rule copied_frame [of D]) (use h D in \<open>simp_all only: file_holds_def\<close>)
  have "copied D' bs i (word_table (bs div 4) (D' ?l1)) bytes ?n B"
  proof (cases "10 < ?n")
    case True
    then show ?thesis using c D [of ?l1] h by (simp add: file_holds_def)
  next
    case False
    then show ?thesis using copied_direct [OF _ c] by simp
  qed
  then show ?thesis using h by (simp add: file_holds_def)
qed

lemma copying_start:
  assumes r: "ready s" and ino: "inode_used s ino" "ino < unat (inode_count (hdr s))" and fresh: "inode_table s ! ino = empty_inode"
  shows "copying s ino bytes 0 {} \<lparr>cimage = update_inode ino (file_inode time) s, current_block = 0,
     l1indirect_table_tmp = None, l1indirect_table_idx = 0, copy_crc = 0xFFFFFFFF\<rparr>"
proof -
  have "grows {} {} {} {ino} s (update_inode ino (file_inode time) s)"
    using ino ready_wf(1) [OF r ino(2)] by (intro update_inode_grows r) (simp_all add: inode_wf_update)
  moreover have "inode_table (update_inode ino (file_inode time) s) ! ino = file_inode time empty_inode"
    using ino ready_wf(2) [OF r] fresh by simp
  ultimately show ?thesis
    by (simp add: copying_def Let_def file_inode_def empty_inode_def copied_def crc32_update_def l1_list_def)
qed

lemma populate_contents_run:
  assumes r: "ready s" and ino: "inode_used s ino" "ino < unat (inode_count (hdr s))" and fresh: "inode_table s ! ino = empty_inode"
    and fits: "data_blocks (bs_of s) bytes \<le> 10 + bs_of s div 4" and free: "file_space (bs_of s) bytes \<le> free_count s"
  shows "\<exists>s' N. populate_contents time ino bytes s = Inr s' \<and> grows N {} {} {ino} s s' \<and> card N = file_space (bs_of s) bytes
    \<and> file_holds (block_bytes s') (bs_of s) (inode_table s' ! ino) bytes N"
proof -
  let ?bs = "bs_of s" and ?n = "data_blocks (bs_of s) bytes"
  have b0: "0 < ?bs" "block_size (hdr s) \<noteq> 0" using r by (simp_all add: ready_bs)
  obtain st N where st: "populate_blocks ino bytes \<lparr>cimage = update_inode ino (file_inode time) s, current_block = 0,
      l1indirect_table_tmp = None, l1indirect_table_idx = 0, copy_crc = 0xFFFFFFFF\<rparr> = Inr st" "copying s ino bytes ?n N st"
    using populate_blocks_run [OF copying_start [OF r ino fresh, where time = time and bytes = bytes] _ fits ino free] by auto
  let ?s = "cimage st" and ?i = "inode_table (cimage st) ! ino"
  let ?l1 = "blocks_l1indirect ?i"
  note c = st(2) [unfolded copying_def Let_def]
  have g0: "grows N {} {} {ino} s ?s" using c by blast
  note G = growsD [OF g0]
  have covers: "length bytes \<le> ?n * ?bs" using b0 by (simp add: data_blocks_def ceil_div_covers)
  have bsz: "block_size (hdr ?s) = block_size (hdr s)" by (rule G(5))
  define s1 where "s1 = (case l1indirect_table_tmp st of None \<Rightarrow> ?s
    | Some tab \<Rightarrow> seek_write (uint (block_size (hdr ?s) * l1indirect_table_idx st)) (concat (map (le_bytes 4) tab)) ?s)"
  have s1: "grows N {} {} {ino} s s1 \<and> inode_table s1 = inode_table ?s
    \<and> copied (block_bytes s1) ?bs ?i (word_table (?bs div 4) (block_bytes s1 (unat ?l1))) bytes ?n N"
  proof (cases "10 < ?n")
    case False
    then have "s1 = ?s" "copied (block_bytes ?s) ?bs ?i (l1_list st) bytes ?n N" using c by (simp_all add: s1_def)
    then show ?thesis using g0 copied_direct [of ?n "block_bytes ?s" ?bs ?i "l1_list st" bytes N] False by auto
  next
    case True
    then have T: "l1indirect_table_tmp st \<noteq> None" "length (l1_list st) = ?bs div 4" "l1indirect_table_idx st = ?l1" "unat ?l1 \<in> N"
      "copied (block_bytes ?s) ?bs ?i (l1_list st) bytes ?n (N - {unat ?l1})" using c by simp_all
    let ?w = "concat (map (le_bytes 4) (l1_list st))"
    have w: "s1 = seek_write (uint (block_size (hdr ?s) * ?l1)) ?w ?s" using T(1,3) by (auto simp: s1_def l1_list_def)
    have "4 dvd ?bs" using r by (auto simp: ready_def elim: dvd_trans [rotated])
    then have len: "length ?w = ?bs" using T(2) by simp
    have lt: "unat ?l1 < tot ?s" using T(4) G(3,8) by simp
    have off: "uint (block_size (hdr ?s) * ?l1) = int (unat ?l1 * bs_of ?s + 0)" using block_offset(2) [OF G(1) lt] by simp
    have fit: "0 + length ?w \<le> bs_of ?s" using len G(2) by simp
    note wb = seek_write_block(2) [OF G(1) lt fit off]
    have l1b: "block_bytes s1 (unat ?l1) = ?w"
      using wb [OF lt] len ready_block(3) [OF G(1) lt] G(2) by (simp add: w overwrite_def)
    have tab: "word_table (?bs div 4) (block_bytes s1 (unat ?l1)) = l1_list st" using word_table_concat [of "l1_list st"] T(2) by (simp add: l1b)
    have "block_bytes s1 x = block_bytes ?s x" if "x \<in> N - {unat ?l1}" for x using wb [of x] that G(3,8) by (simp add: w)
    then have "copied (block_bytes s1) ?bs ?i (l1_list st) bytes ?n (N - {unat ?l1})" using copied_frame [OF T(5)] by blast
    then have "copied (block_bytes s1) ?bs ?i (word_table (?bs div 4) (block_bytes s1 (unat ?l1))) bytes ?n N"
      unfolding tab by (rule copied_mono) blast
    moreover have "grows N {} {} {ino} s s1"
      using grows_trans [OF g0 seek_write_grows [OF G(1) lt fit off]] T(4) by (simp add: w)
    ultimately show ?thesis by (simp add: w)
  qed
  note G1 = growsD [OF conjunct1 [OF s1]]
  define s' where "s' = update_inode ino (\<lambda>i. i\<lparr>checksum := populate_crc32_finalize (copy_crc st)\<rparr>) s1"
  have u: "inode_used s1 ino" "ino < unat (inode_count (hdr s1))" "ino < length (inode_table s1)"
    using ino G1(4,13) ready_wf(2) [OF G1(1)] by simp_all
  have wf: "inode_wf ?i" using ready_wf(1) [OF G(1)] ino G(4) by simp
  have run: "populate_contents time ino bytes s = Inr s'"
    using st(1) ino ready_wf(2) [OF r] b0 by (simp add: populate_contents_def s'_def s1_def Let_def)
  have "grows {} {} {} {ino} s1 s'"
    unfolding s'_def using u wf s1 by (intro update_inode_grows G1(1)) (simp_all add: inode_wf_update)
  from grows_trans [OF conjunct1 [OF s1] this] have g: "grows N {} {} {ino} s s'" by simp
  have i': "inode_table s' ! ino = ?i\<lparr>checksum := crc32 bytes\<rparr>"
    using u s1 c covers by (simp add: s'_def crc32_oneshot crc32_copies)
  have "copied (block_bytes s') ?bs (inode_table s' ! ino) (word_table (?bs div 4) (block_bytes s' (unat (blocks_l1indirect (inode_table s' ! ino))))) bytes ?n N"
    using s1 unfolding i' by (simp add: s'_def copied_checksum)
  then have "file_holds (block_bytes s') ?bs (inode_table s' ! ino) bytes N"
    using c covers fits wf by (simp add: file_holds_def i' inode_wf_update min_absorb2 split: if_splits)
  moreover have "card N = file_space ?bs bytes" using c by (simp add: file_space_def)
  ultimately show ?thesis using run g by blast
qed

section \<open>The driver reads what the tool wrote\<close>

text \<open>The image as the disk of the kernel: 512-byte sectors of the image file.\<close>

definition image_disk :: "u8 list \<Rightarrow> u32 \<Rightarrow> u64 \<Rightarrow> u8 \<times> u8 list" where
  "image_disk c lba n = (1, take (512 * unat n) (drop (512 * unat lba) c))"

definition image_context :: "BsfsHeader \<Rightarrow> u8 list \<Rightarrow> u64 BsfsContext" where
  "image_context h c = \<lparr>header = h, disk_read = image_disk c, phys_sector_size = 512, scratch_buf_size = 4096\<rparr>"

lemma image_context_simps [simp]:
  "header (image_context h c) = h" "disk_read (image_context h c) = image_disk c"
  "phys_sector_size (image_context h c) = 512" "scratch_buf_size (image_context h c) = 4096"
  "bsz (image_context h c) = unat (block_size h)"
  by (simp_all add: image_context_def bsz_def)

lemma image_block:
  assumes r: "ready s" and b: "unat b < tot s" and d: "512 dvd bs_of s"
  shows "image_disk (cont s) (block_lba (image_context (hdr s) (cont s)) b) (sectors (image_context (hdr s) (cont s))) = (1, block_bytes s (unat b))"
proof -
  obtain q where q: "bs_of s = 512 * q" using d by (auto simp: dvd_def)
  have "unat (block_lba (image_context (hdr s) (cont s)) b) = unat b * q"
    using block_offset(1) [OF r b] q by (simp add: block_lba_def unat_div mult.commute)
  moreover have "unat (sectors (image_context (hdr s) (cont s))) = q"
    using q by (simp add: sectors_def unat_ucast_up unat_div bs_of_def)
  ultimately show ?thesis by (simp add: image_disk_def block_bytes_def q ac_simps)
qed

lemma nth_concat_blocks:
  assumes "\<And>j. j < n \<Longrightarrow> length (blk j) = b" "a < n * b"
  shows "concat (map blk [0..<n]) ! a = blk (a div b) ! (a mod b)"
  using assms
proof (induction n)
  case (Suc n)
  have len: "length (concat (map blk [0..<n])) = n * b"
    using concat_blocks_length [of "[0..<n]" blk b] Suc(2) by simp
  show ?case
  proof (cases "a < n * b")
    case False
    have d: "a div b = n" using False Suc(3) by (intro div_nat_eqI) (simp_all add: mult.commute)
    then have "a mod b = a - n * b" using minus_div_mult_eq_mod [of a b] by simp
    then show ?thesis using False len d by (simp add: nth_append)
  next
    case True
    then show ?thesis using Suc len by (simp add: nth_append)
  qed
qed simp

lemma take_concat_chunks:
  assumes b: "0 < b" and blk: "\<And>j. j < data_blocks b bytes \<Longrightarrow> length (blk j) = b \<and> take (length (chunk b bytes j)) (blk j) = chunk b bytes j"
  shows "take (length bytes) (concat (map blk [0..<data_blocks b bytes])) = bytes"
proof (rule nth_equalityI)
  let ?n = "data_blocks b bytes"
  have len: "length (concat (map blk [0..<?n])) = ?n * b" using concat_blocks_length [of "[0..<?n]" blk b] blk by simp
  have cov: "length bytes \<le> ?n * b" using b by (simp add: data_blocks_def ceil_div_covers)
  show "length (take (length bytes) (concat (map blk [0..<?n]))) = length bytes" using len cov by simp
  fix a assume "a < length (take (length bytes) (concat (map blk [0..<?n])))"
  then have a: "a < length bytes" by simp
  let ?j = "a div b" and ?r = "a mod b"
  have "?j * b + ?r = a" by simp
  then have "?j * b < length bytes" using a by linarith
  then have j: "?j < ?n" using ceil_div_less [OF b] by (simp add: data_blocks_def)
  have "?r < length bytes - ?j * b" using a \<open>?j * b + ?r = a\<close> by linarith
  then have r: "?r < length (chunk b bytes ?j)" using mod_less_divisor [OF b, of a] by (simp add: chunk_def)
  have "blk ?j ! ?r = take (length (chunk b bytes ?j)) (blk ?j) ! ?r" using r by simp
  also have "\<dots> = chunk b bytes ?j ! ?r" using blk [OF j] by simp
  also have "\<dots> = bytes ! (?j * b + ?r)" using r \<open>?j * b < length bytes\<close> by (simp add: chunk_def del: div_mult_mod_eq)
  also have "\<dots> = bytes ! a" by simp
  finally have "blk ?j ! ?r = bytes ! a" .
  moreover have "a < ?n * b" using a cov by simp
  ultimately show "take (length bytes) (concat (map blk [0..<?n])) ! a = bytes ! a"
    using a nth_concat_blocks [of ?n blk b a] blk by simp
qed

lemma file_holds_stores:
  assumes r: "ready s" and d: "512 dvd bs_of s" "bs_of s \<le> 4096" and h: "file_holds (block_bytes s) (bs_of s) i bytes B"
    and B: "\<And>x. x \<in> B \<Longrightarrow> x < tot s"
  defines "ctx \<equiv> image_context (hdr s) (cont s)"
  shows "\<exists>table blk. file_stores ctx i table blk \<and> file_data ctx i blk = bytes"
proof -
  let ?bs = "bs_of s" and ?n = "data_blocks (bs_of s) bytes" and ?l1 = "blocks_l1indirect i"
  define table where "table = block_bytes s (unat ?l1)"
  define blk where "blk = (\<lambda>j. block_bytes s (unat (block_number i table j)))"
  note h' = h [unfolded file_holds_def]
  have b0: "0 < ?bs" using r by (rule ready_bs)
  have n: "?n \<le> 10 + ?bs div 4" using h' by blast
  have tot0: "0 < tot s" using r b0 by (cases "tot s") (auto simp: ready_def bitmaps_ok_def megablocks_def block_used_def bm_get_def)
  have l1: "unat ?l1 < tot s" using h' B tot0 by (auto split: if_splits)
  have small: "length bytes < 2 ^ 31"
  proof -
    have "length bytes \<le> ?n * ?bs" using b0 by (simp add: data_blocks_def ceil_div_covers)
    also have "\<dots> \<le> (10 + ?bs div 4) * ?bs" using n by simp
    also have "\<dots> \<le> (10 + 4096 div 4) * 4096" using d(2) by (intro mult_le_mono) (simp_all add: div_le_mono)
    finally show ?thesis by simp
  qed
  have size: "unat (isize i) = length bytes" using h' small by (simp add: unat_of_nat)
  have bc: "bsz ctx = ?bs" by (simp add: ctx_def bs_of_def)
  have nb: "nblocks ctx i = ?n" by (simp add: nblocks_def bc size data_blocks_def ceil_div_def)
  have num: "block_number i table j = nth_block i (word_table (?bs div 4) table) j" if "j < ?n" for j
    using that n by (simp add: block_number_def nth_block_def word_table_def)
  have cp: "unat (block_number i table j) \<in> B \<and> take (length (chunk ?bs bytes j)) (blk j) = chunk ?bs bytes j" if "j < ?n" for j
    using h' that num unfolding blk_def table_def copied_def by metis
  have bl: "length (blk j) = ?bs" if "j < ?n" for j unfolding blk_def using ready_block(3) [OF r] B cp [OF that] by blast
  have "geometry ctx i" unfolding geometry_def bc nb using b0 d size small n by (simp add: ctx_def)
  then have "file_stores ctx i table blk"
    unfolding file_stores_def bc nb
    using image_block [OF r l1 d(1)] image_block [OF r _ d(1)] B cp bl ready_block(3) [OF r l1]
    by (auto simp: ctx_def table_def blk_def intro!: exI [of _ 1])
  moreover have "file_data ctx i blk = bytes"
    unfolding file_data_def nb size by (rule take_concat_chunks [OF b0]) (use bl cp in blast)
  ultimately show ?thesis by blast
qed

text \<open>C40: copying a file that fits the direct blocks and the first indirect table into an image with room for it ends,
  takes exactly the blocks the file and its table need, changes no other block and no other inode, and the driver of the
  kernel finds on the image the bytes of the file behind its inode, with their checksum.\<close>

theorem populate_file_readable:
  assumes "ready s" "512 dvd bs_of s" "bs_of s \<le> 4096" "inode_used s ino" "ino < unat (inode_count (hdr s))"
    and "inode_table s ! ino = empty_inode" "data_blocks (bs_of s) bytes \<le> 10 + bs_of s div 4"
    and "file_space (bs_of s) bytes \<le> free_count s"
  shows "\<exists>s' N table blk. populate_contents time ino bytes s = Inr s' \<and> grows N {} {} {ino} s s' \<and> card N = file_space (bs_of s) bytes
    \<and> (let ctx = image_context (hdr s') (cont s'); i = inode_table s' ! ino in
       file_stores ctx i table blk \<and> file_data ctx i blk = bytes \<and> checksum i = crc32 bytes)"
proof -
  obtain s' N where s': "populate_contents time ino bytes s = Inr s'" "grows N {} {} {ino} s s'" "card N = file_space (bs_of s) bytes"
    "file_holds (block_bytes s') (bs_of s) (inode_table s' ! ino) bytes N"
    using populate_contents_run [OF assms(1,4-8)] by blast
  note g = growsD [OF s'(2)]
  have "\<exists>table blk. file_stores (image_context (hdr s') (cont s')) (inode_table s' ! ino) table blk
      \<and> file_data (image_context (hdr s') (cont s')) (inode_table s' ! ino) blk = bytes"
    using s'(4) assms(2,3) g(2,3,8) by (intro file_holds_stores [OF g(1), of _ _ N]) simp_all
  moreover have "checksum (inode_table s' ! ino) = crc32 bytes" using s'(4) by (simp add: file_holds_def)
  ultimately show ?thesis using s'(1-3) by (auto simp: Let_def)
qed

definition small_image :: image where
  "small_image = \<lparr>image_file = \<lparr>contents = replicate 1536 0, fpos = 0\<rparr>,
     hdr = example_header\<lparr>block_size := 512, total_blocks := 3, free_blocks := 2, megablock_bitmap_size := 1,
       inode_count := 2, free_inodes := 0\<rparr>,
     block_bitmap = 1 # replicate 511 0, megablock_bitmap = replicate 8 0, inode_bitmap = 3 # replicate 511 0,
     inode_table = [empty_inode, empty_inode]\<rparr>"

lemma small_image_bits:
  "block_used small_image k \<longleftrightarrow> k = 0" "inode_used small_image k \<longleftrightarrow> k < 2" "\<not> bm_get (megablock_bitmap small_image) 0"
proof -
  have "bit (1 :: u8) k \<longleftrightarrow> k = 0" "bit (3 :: u8) k \<longleftrightarrow> k < 2" if "k < 8" for k
  proof -
    have "(3 :: u8) = mask 2" by (simp add: mask_eq_exp_minus_1)
    then show "bit (1 :: u8) k \<longleftrightarrow> k = 0" "bit (3 :: u8) k \<longleftrightarrow> k < 2"
      using that by (simp_all only: bit_1_iff bit_mask_iff) auto
  qed
  then show "block_used small_image k \<longleftrightarrow> k = 0" "inode_used small_image k \<longleftrightarrow> k < 2"
    by (cases "k < 8"; auto simp: block_used_def inode_used_def bm_get_def small_image_def nth_Cons' div_eq_0_iff)+
  show "\<not> bm_get (megablock_bitmap small_image) 0" by (simp add: bm_get_def small_image_def)
qed

lemma small_image_sizes:
  "bs_of small_image = 512" "tot small_image = 3" "megablocks small_image = 1" "length (cont small_image) = 1536"
  "unat (inode_count (hdr small_image)) = 2" "unat (free_blocks (hdr small_image)) = 2" "free_inodes (hdr small_image) = 0"
  "inode_table small_image = [empty_inode, empty_inode]" "megablock_bitmap_size (hdr small_image) = 1"
  "length (block_bitmap small_image) = 512" "length (inode_bitmap small_image) = 512" "length (megablock_bitmap small_image) = 8"
  by (simp_all add: small_image_def bs_of_def megablocks_def)

lemma small_image_ready: "ready small_image" "free_count small_image = 2"
proof -
  have "{k. k < 3 \<and> k \<noteq> (0 :: nat)} = {1, 2}" by auto
  then show f: "free_count small_image = 2" by (simp add: free_count_def small_image_sizes small_image_bits)
  have i: "inode_free small_image = 0" by (simp add: inode_free_def small_image_sizes small_image_bits)
  have "\<exists>i<4096. \<not> block_used small_image i" by (intro exI [of _ 1]) (simp add: small_image_bits)
  then have "bitmaps_ok small_image" using small_image_bits(3) by (simp add: bitmaps_ok_def small_image_sizes find_span_def)
  moreover have "find_span (inode_count (hdr small_image)) \<le> 512" unfolding find_span_def small_image_sizes by simp
  moreover have "inode_wf empty_inode" by (simp add: inode_wf_def empty_inode_def bsfs_consts)
  then have "\<forall>i<Suc (Suc 0). inode_wf ([empty_inode, empty_inode] ! i)" by (auto simp: less_Suc_eq)
  ultimately show "ready small_image"
    using f i by (simp add: ready_def small_image_sizes small_image_bits)
qed

theorem populate_file_readable_witness:
  "\<exists>s' table blk. populate_contents 7 1 [0x41, 0x42] small_image = Inr s'
     \<and> file_stores (image_context (hdr s') (cont s')) (inode_table s' ! 1) table blk
     \<and> file_data (image_context (hdr s') (cont s')) (inode_table s' ! 1) blk = [0x41, 0x42]"
proof -
  have "data_blocks 512 [0x41, 0x42] = 1" by (simp add: data_blocks_def ceil_div_def)
  then show ?thesis
    using populate_file_readable [OF small_image_ready(1), of 1 "[0x41, 0x42]" 7] small_image_ready(2)
    by (auto simp: small_image_sizes small_image_bits file_space_def Let_def)
qed

end
