(* ===== verification/Spec2Isabelle.thy ===== *)
theory Spec2Isabelle
  imports Memmap SlabHeap Devices Interrupts Scheduler ProcessSpec Crc32 Strings Arena Stage2Bsfs Storage ElfLoad Printf Extract PopulateFile
begin

text \<open>
  Pristine is a small operating system for 64-bit PCs: a two-stage boot loader, a kernel with preemptive
  processes, the read-only file system BSFS with its host tools, and a C library for programs. This
  development models the C code (and the interrupt and system call assembly) of the kernel, the parts
  of the boot loader it shares code with, the file system and the library functions, and proves
  what the parts promise each other.

  \<^bold>\<open>Conventions.\<close> Theory \<open>Prelude\<close> has the machine integers (\<open>u8\<close> to \<open>u64\<close>, words that wrap around), the
  error values (\<open>KPanic\<close> a kernel panic with its message, \<open>Fault\<close> an access the C code must not make, \<open>Diverge\<close>
  a loop that does not end), sequencing of fallible steps (\<open>andthen\<close>, \<open>foldM\<close>), the page loops
  (\<open>for_pages\<close>) and little-endian views. State is passed explicitly; the
  records are layered as the code is: \<open>pmm\<close> (frame bitmap), \<open>vmm\<close> (adds physical
  memory, the processor's page table register and the flushed addresses), \<open>slab_state\<close> (adds the kernel heap),
  \<open>kstate\<close> (adds processes, the scheduler and the interrupt frame). Every operation works on any
  extension of its record.

  \<^bold>\<open>Memory.\<close> \<open>Bitmap\<close> (src/kernel/bitmap.c): the word-wise search finds the least clear bit.
  \<open>Pmm\<close> (src/kernel/kernel/pmm.c): allocation hands out the lowest free frame, release returns it.
  \<open>Memmap\<close> (src/kernel/common/memmap.c): the firmware memory map becomes the frame bitmap.
  \<open>Vmm\<close> and \<open>VmmSpec\<close> (src/kernel/kernel/vmm.c): the four-level tables live in physical memory; the specification is
  the walk the processor does (\<open>hw_walk\<close>, \<open>translate\<close>). Each operation changes the translation of exactly the
  pages it names, keeps \<open>as_wf\<close> (tables are distinct used frames), and takes or returns exactly the frames it
  should. \<open>Dll\<close>, \<open>Slab\<close>, \<open>SlabSpec\<close>, \<open>SlabHeap\<close> (src/kernel/kernel/slab.c, kmalloc.c): the kernel heap
  hands out disjoint blocks large enough for the request, and returns every page of an emptied slab.
  \<open>Arena\<close> (src/kernel/common/arena.c): the bump allocator used before the heap exists.

  \<^bold>\<open>Processor and devices.\<close> \<open>Io\<close> models port access against a device that answers according to the
  history of all accesses, so a polling loop may not return (\<open>None\<close>); termination is proved where
  the device becomes ready. \<open>Devices\<close>: serial port, interrupt controllers, timers, model-specific registers.
  \<open>Interrupts\<close>: descriptor tables, the entry and exit path of an interrupt
  (src/kernel/interrupt.asm, src/kernel/idt.c), which restores every register.
  \<open>Process\<close>, \<open>Scheduler\<close>, \<open>ProcessSpec\<close> (src/kernel/kernel/process.c, scheduler.c, reaper.c, syscall.c): round
  robin that never runs a dead process and starves none, context save and restore, creation of an address space, the
  break of a process.

  \<^bold>\<open>Storage.\<close> \<open>Crc32\<close> (three copies of the checksum against a bit-serial reference), \<open>Strings\<close> (kernel,
  libc and boot loader copies over byte memory), \<open>BsfsFormat\<close> (src/include/common/bsfs/bsfs.h, packed structures),
  \<open>Bsfs\<close>, \<open>BsfsSpec\<close>, \<open>Stage2Bsfs\<close> (src/kernel/common/bsfs/bsfs.c and src/boot/stage2/stage2_bsfs.c: an open file
  refines a byte list with a position), \<open>Ata\<close>, \<open>AtaSpec\<close> (src/drivers/storage/ata/atapio.c and the boot loader's
  copy: under the contract \<open>drive\<close> a read ends and returns the sectors), \<open>Storage\<close> (the file system on the ATA driver,
  through the locale \<open>block_device\<close>), \<open>Elf\<close>, \<open>ElfSpec\<close>, \<open>ElfLoad\<close> (src/kernel/kernel/elf.c: a segment of an
  executable becomes fresh, mapped and filled pages).

  \<^bold>\<open>Output.\<close> \<open>Printf\<close> (src/kernel/printf.c): the text of a format is the texts of its directives, and numbers
  print as their numerals. Strings of 256 characters and more do not print as themselves.

  \<^bold>\<open>Image tools.\<close> \<open>HostIO\<close> has what the tools use of the C library (files, \<^verbatim>\<open>strtol\<close>). \<open>ImageAlloc\<close>
  (src/tools/bsfs/bsfs.c): allocation of blocks, inodes and directory entries; the bitmap code is shown equal to the
  kernel's and shares its locale. \<open>Mkfs\<close> (src/tools/bsfs/mkfs.bsfs.c): command line, layout and the blocks
  written. \<open>Populate\<close> (src/tools/bsfs/bsfs-populate.c): the copy of a host tree into an image; \<open>PopulateFile\<close>
  shows that the kernel's driver reads back the files it wrote. \<open>Extract\<close>
  (src/tools/bsfs/bsfs-extract.c): the copy of the tree of an image back to the host; the depth of its recursion is fuel,
  since a damaged image may have cycles. \<^verbatim>\<open>BSFS_PANIC\<close> does nothing in the tools as they are built.

  \<^bold>\<open>Interfaces.\<close> A locale states what a component relies on, and is interpreted on
  the model's own definitions: the bit table of the frame allocator, the page allocator, the object pool of the
  heap, the page mapper, the slots of the process tables and the block device of the file system. The clients' lemmas are proved inside the locales.

  \<^bold>\<open>Bounds.\<close> Loops whose bound is a constant of the code (512 table entries, 32 process slots, 8 sectors) are
  folds over that range. The page loops compare machine words; \<open>page_loop_ends\<close> says when they end and
  the model is \<open>Diverge\<close> otherwise. Linking the objects of a new slab takes as fuel the number of words of a page, which
  \<open>SlabHeap\<close> shows to be enough. The loops that may run for ever, polling a device and
  reading a whole file for its checksum, return \<open>None\<close> then; the theorems show that they return.

  \<^bold>\<open>Not modelled.\<close> The 16-bit boot sector and the remaining assembly (src/boot/stage1, src/boot/stage2/*.asm,
  src/kernel/entry.asm): real-mode firmware calls and mode switches. The vendored allocator
  src/userspace/libc/malloc.c and formatter src/lib/lib32/printf: third-party code kept as it was published. The start
  of the boot loader and of the kernel (src/boot/stage2/stage2.c, src/kernel/kernel.c, apart from the page attribute table):
  one pass over fixed addresses that calls the modelled components and prints. The frame buffer
  (src/drivers/video/video.c), the printing of boot information and of interrupt frames, the idle loop, the inline assembly of
  the user library (src/userspace/libc/crt0.c, unistd.c) and the conversion of the logo (src/tools/ppmtobin): output, or a
  single instruction, on which no modelled component depends.
\<close>

end
